(* ===== verification/Prelude.thy ===== *)
theory Prelude
  imports Complex_Main "HOL-Library.Word" "HOL-Library.List_Lexorder" "HOL-Library.Char_ord"
    "HOL-Library.Sublist" "HOL-Library.Monad_Syntax" "HOL-Library.Multiset"
begin

text \<open>
  Shared vocabulary of the development: the C++ integer and string types, the part of
  \<^verbatim>\<open>std::string\<close> the sources use, and the lemma collections the component theories feed.

  \<^item> An operation that can end in a failed \<^verbatim>\<open>CHECK\<close>, an uncaught exception or a loop that
    never ends has an \<open>option\<close> result: \<open>None\<close> means that the call does not return.
  \<^item> A \<^verbatim>\<open>std::string\<close> is a \<open>char list\<close>; a \<open>char\<close> is one byte, and the order of
    strings is the lexicographic order of unsigned bytes, as in \<^verbatim>\<open>std::char_traits<char>\<close>.
  \<^item> Fixed-width integers are \<open>word\<close>s; a C++ \<^verbatim>\<open>int\<close> that is only compared is read
    with \<open>sint\<close>.
\<close>

unbundle bit_operations_syntax

named_theorems path_simps "facts on slash-separated paths"
named_theorems store_simps "behaviour of the node store's operations"
named_theorems server_simps "frame and effect facts of the server's operations"

type_synonym sid_t = "64 word"
type_synonym u32 = "32 word"
type_synonym u64 = "64 word"
type_synonym timestamp = int

abbreviation slash :: char where "slash \<equiv> CHR ''/''"

subsection \<open>Strings\<close>

text \<open>\<^verbatim>\<open>s.rfind(c)\<close>: the position of the last \<open>c\<close>, \<open>None\<close> for \<^verbatim>\<open>npos\<close>.\<close>

fun rfind :: "'a \<Rightarrow> 'a list \<Rightarrow> nat option" where
  "rfind c [] = None"
| "rfind c (x # xs) =
     (case rfind c xs of Some i \<Rightarrow> Some (Suc i) | None \<Rightarrow> if x = c then Some 0 else None)"

text \<open>\<^verbatim>\<open>s.substr(0, pos)\<close>, where \<^verbatim>\<open>npos\<close> takes the whole string.\<close>

definition substr_to :: "'a list \<Rightarrow> nat option \<Rightarrow> 'a list" where
  "substr_to s p = (case p of None \<Rightarrow> s | Some i \<Rightarrow> take i s)"

text \<open>A \<^verbatim>\<open>std::string\<close> built from a \<^verbatim>\<open>const char*\<close> ends before the first NUL byte.\<close>

definition c_str :: "string \<Rightarrow> string" where
  "c_str s = takeWhile (\<lambda>c. c \<noteq> CHR 0x00) s"

text \<open>The eight bytes of a \<^verbatim>\<open>uint64_t\<close> as \<^verbatim>\<open>memcpy\<close> copies them on the x86 hosts the
  program is built for (least significant byte first), and the value read back from them.\<close>

fun le_bytes :: "nat \<Rightarrow> nat \<Rightarrow> string" where
  "le_bytes 0 n = []"
| "le_bytes (Suc k) n = char_of (n mod 256) # le_bytes k (n div 256)"

fun le_value :: "string \<Rightarrow> nat" where
  "le_value [] = 0"
| "le_value (c # cs) = of_char c + 256 * le_value cs"

definition u64_bytes :: "u64 \<Rightarrow> string" where
  "u64_bytes w = le_bytes 8 (unat w)"

definition u64_of_bytes :: "string \<Rightarrow> u64" where
  "u64_of_bytes s = word_of_nat (le_value s)"

text \<open>\<^verbatim>\<open>static_cast<size_t>\<close> of a signed integer.\<close>

definition to_size_t :: "int \<Rightarrow> nat" where
  "to_size_t x = nat (x mod 2 ^ 64)"

text \<open>A loop whose body may fail to return.\<close>

fun fold_opt :: "('a \<Rightarrow> 's \<Rightarrow> 's option) \<Rightarrow> 'a list \<Rightarrow> 's \<Rightarrow> 's option" where
  "fold_opt f [] s = Some s"
| "fold_opt f (x # xs) s = do { s' \<leftarrow> f x s; fold_opt f xs s' }"

subsection \<open>Lemmas on strings\<close>

lemma rfind_None [simp]: "rfind c s = None \<longleftrightarrow> c \<notin> set s"
  by (induction s) (auto split: option.splits)

lemma rfind_SomeD: "rfind c s = Some i \<Longrightarrow> i < length s \<and> s ! i = c"
  by (induction s arbitrary: i) (auto split: option.splits if_splits)

lemma rfind_append [simp]: "c \<notin> set b \<Longrightarrow> rfind c (a @ c # b) = Some (length a)"
  by (induction a) (simp_all add: rfind_None [THEN iffD2])

lemma rfind_SomeE:
  assumes "rfind c s = Some i"
  obtains a b where "s = a @ c # b" and "c \<notin> set b" and "i = length a"
proof -
  have "c \<in> set s" using assms by (metis option.distinct(1) rfind_None)
  then obtain a b where s: "s = a @ c # b" and b: "c \<notin> set b"
    by (meson split_list_last)
  with assms have "i = length a" by simp
  with s b that show thesis by blast
qed

lemma rfind_last_split:
  "c \<in> set s \<Longrightarrow> \<exists>a b. s = a @ c # b \<and> c \<notin> set b \<and> rfind c s = Some (length a)"
  by (metis rfind_append split_list_last)

lemma split_last_unique:
  assumes "a @ c # b = a' @ c # b'" and "c \<notin> set b" and "c \<notin> set b'"
  shows "a = a' \<and> b = b'"
proof -
  from assms have "Some (length a) = Some (length a')" by (metis rfind_append)
  with assms show ?thesis by simp
qed

lemma substr_to_None [simp]: "substr_to s None = s"
  and substr_to_Some [simp]: "substr_to s (Some i) = take i s"
  by (simp_all add: substr_to_def)

lemma length_le_bytes [simp]: "length (le_bytes k n) = k"
  by (induction k arbitrary: n) auto

lemma le_value_le_bytes: "n < 256 ^ k \<Longrightarrow> le_value (le_bytes k n) = n"
proof (induction k arbitrary: n)
  case 0
  then show ?case by simp
next
  case (Suc k)
  then have "n div 256 < 256 ^ k" by (simp add: less_mult_imp_div_less mult.commute)
  with Suc.IH have "le_value (le_bytes k (n div 256)) = n div 256" by simp
  then show ?case by (simp add: of_char_of)
qed

lemma length_u64_bytes [simp]: "length (u64_bytes w) = 8"
  by (simp add: u64_bytes_def)

lemma u64_of_bytes_inverse [simp]: "u64_of_bytes (u64_bytes w) = w"
proof -
  have "unat w < 2 ^ LENGTH(64)" by (rule unsigned_less)
  then have "unat w < 256 ^ 8" by simp
  then show ?thesis by (simp add: u64_bytes_def u64_of_bytes_def le_value_le_bytes)
qed

lemma u64_bytes_inject [simp]: "u64_bytes v = u64_bytes w \<longleftrightarrow> v = w"
  by (metis u64_of_bytes_inverse)

subsection \<open>Lemmas on lists and options\<close>

lemma bind_eq_SomeE:
  assumes "Option.bind m f = Some y"
  obtains x where "m = Some x" and "f x = Some y"
  using assms by (cases m) auto

lemma fold_opt_append: "fold_opt f (xs @ ys) s = Option.bind (fold_opt f xs s) (fold_opt f ys)"
  by (induction xs arbitrary: s) (auto split: bind_splits)

lemma fold_opt_invariant:
  assumes "fold_opt f xs s = Some t" and "I s"
    and "\<And>x u v. x \<in> set xs \<Longrightarrow> I u \<Longrightarrow> f x u = Some v \<Longrightarrow> I v"
  shows "I t"
  using assms by (induction xs arbitrary: s) (auto elim!: bind_eq_SomeE)

lemma fold_opt_total:
  assumes "I s" and "\<And>x u. x \<in> set xs \<Longrightarrow> I u \<Longrightarrow> \<exists>v. f x u = Some v \<and> I v"
  shows "\<exists>t. fold_opt f xs s = Some t \<and> I t"
  using assms
proof (induction xs arbitrary: s)
  case (Cons x xs)
  from Cons.prems obtain v where "f x s = Some v" "I v" by force
  with Cons.IH [of v] Cons.prems show ?case by auto
qed simp

text \<open>Every element of a trace is justified by what comes before it.\<close>

definition preceded :: "('a list \<Rightarrow> 'a \<Rightarrow> bool) \<Rightarrow> 'a list \<Rightarrow> bool" where
  "preceded Q es \<longleftrightarrow> (\<forall>a x b. es = a @ x # b \<longrightarrow> Q a x)"

lemma preceded_Nil [simp]: "preceded Q []"
  by (simp add: preceded_def)

lemma preceded_append:
  assumes "preceded Q past" and "\<And>a x. x \<in> set es \<Longrightarrow> set past \<subseteq> set a \<Longrightarrow> Q a x"
  shows "preceded Q (past @ es)"
  unfolding preceded_def
proof (intro allI impI)
  fix a x b
  assume *: "past @ es = a @ x # b"
  show "Q a x"
  proof (cases "length a < length past")
    case True
    with * have "\<exists>d. past = a @ x # d"
      by (metis append_eq_append_conv_if drop_eq_Nil id_take_nth_drop linorder_not_le nth_append nth_append_length)
    then show ?thesis using assms(1) unfolding preceded_def by blast
  next
    case False
    then obtain d where "a = past @ d" "es = d @ x # b"
      using * by (auto simp: append_eq_append_conv2 append_eq_Cons_conv)
    then show ?thesis using assms(2) [of x a] by auto
  qed
qed

lemma count_list_butlast_update:
  assumes "i < length xs"
  shows "count_list (butlast (xs[i := last xs])) y = count_list xs y - (if xs ! i = y then 1 else 0)"
    (is "?L = ?R")
proof -
  let ?ys = "xs[i := last xs]"
  have ne: "xs \<noteq> []" using assms by auto
  have m: "mset ?ys = add_mset (last xs) (mset xs - {#xs ! i#})"
    using assms by (simp add: mset_update)
  have l: "last ?ys = last xs"
    using ne assms by (cases "i = length xs - 1") (auto simp: last_conv_nth nth_list_update)
  have "mset ?ys = add_mset (last xs) (mset (butlast ?ys))"
    by (metis append_butlast_last_id l length_list_update list.size(3) length_0_conv ne
        mset_append union_mset_add_mset_right add_0_right mset.simps)
  with m have "mset (butlast ?ys) = mset xs - {#xs ! i#}" by simp
  then have "count (mset (butlast ?ys)) y = count (mset xs - {#xs ! i#}) y" by simp
  then show ?thesis by (simp add: count_mset)
qed

subsection \<open>The type int\<close>

text \<open>The result of an operation on \<^verbatim>\<open>int\<close>, which has 32 bits. The language leaves an overflow undefined; it wraps around here, as on the
  machines the program is built for.\<close>

definition int32 :: "int \<Rightarrow> int" where
  "int32 k = sint (word_of_int k :: 32 word)"

lemma int32_id [simp]: "- (2 ^ 31) \<le> k \<Longrightarrow> k < 2 ^ 31 \<Longrightarrow> int32 k = k"
  by (simp add: int32_def signed_of_int signed_take_bit_int_eq_self)

end
