(* ===== verification/Status.thy ===== *)
theory Status
  imports Prelude
begin

text \<open>
  \<^verbatim>\<open>common/status.h\<close>, \<^verbatim>\<open>common/status.cc\<close> and the \<^verbatim>\<open>Error\<close> message of
  \<^verbatim>\<open>proto/rpc.proto\<close>: the result every operation of the system returns, its text, and
  its translation to and from the error that travels in an RPC response.
\<close>

datatype Code =
    kOk | kNotLeader | kNotFound | kSessionExpired | kInvalidArgument | kInternal | kAgain
  | kExist | kDisconnect | kTimeout | kCached

record Status =
  st_code :: Code
  st_msg :: string

text \<open>\<^verbatim>\<open>rpc::ErrorType\<close> and \<^verbatim>\<open>rpc::Error\<close> (its optional \<^verbatim>\<open>data\<close> reads as the empty
  string when it is not set; \<^verbatim>\<open>has_data\<close> tells the two apart).\<close>

datatype ErrorType =
    rpc_kNone | rpc_kNotLeader | rpc_kNotFound | rpc_kSessionExpired | rpc_kInvalidArgument
  | rpc_kAgain | rpc_kInternal | rpc_kExist

record RpcError =
  err_type :: ErrorType
  err_data :: "string option"

definition error_data :: "RpcError \<Rightarrow> string" where
  "error_data e = (case err_data e of None \<Rightarrow> [] | Some d \<Rightarrow> d)"

definition mk_status :: "Code \<Rightarrow> string \<Rightarrow> Status" where
  "mk_status c m = \<lparr>st_code = c, st_msg = m\<rparr>"

definition OK :: Status where
  "OK = mk_status kOk []"

abbreviation NotLeader :: "string \<Rightarrow> Status" where "NotLeader \<equiv> mk_status kNotLeader"
abbreviation NotFound :: "string \<Rightarrow> Status" where "NotFound \<equiv> mk_status kNotFound"
abbreviation Internal :: "string \<Rightarrow> Status" where "Internal \<equiv> mk_status kInternal"
abbreviation SessionExpired :: "string \<Rightarrow> Status" where "SessionExpired \<equiv> mk_status kSessionExpired"
abbreviation InvalidArgument :: "string \<Rightarrow> Status" where "InvalidArgument \<equiv> mk_status kInvalidArgument"
abbreviation Again :: "string \<Rightarrow> Status" where "Again \<equiv> mk_status kAgain"
abbreviation Exist :: "string \<Rightarrow> Status" where "Exist \<equiv> mk_status kExist"
abbreviation Disconnect :: "string \<Rightarrow> Status" where "Disconnect \<equiv> mk_status kDisconnect"
abbreviation Timeout :: "string \<Rightarrow> Status" where "Timeout \<equiv> mk_status kTimeout"
abbreviation Cached :: "string \<Rightarrow> Status" where "Cached \<equiv> mk_status kCached"

definition ok :: "Status \<Rightarrow> bool" where
  "ok s \<longleftrightarrow> st_code s = kOk"

definition IsNotFound :: "Status \<Rightarrow> bool" where
  "IsNotFound s \<longleftrightarrow> st_code s = kNotFound"

definition IsInvalidArgument :: "Status \<Rightarrow> bool" where
  "IsInvalidArgument s \<longleftrightarrow> st_code s = kInvalidArgument"

definition IsDisconnect :: "Status \<Rightarrow> bool" where
  "IsDisconnect s \<longleftrightarrow> st_code s = kDisconnect"

definition IsTimeout :: "Status \<Rightarrow> bool" where
  "IsTimeout s \<longleftrightarrow> st_code s = kTimeout"

definition IsAgain :: "Status \<Rightarrow> bool" where
  "IsAgain s \<longleftrightarrow> st_code s = kAgain"

definition IsExist :: "Status \<Rightarrow> bool" where
  "IsExist s \<longleftrightarrow> st_code s = kExist"

definition IsCached :: "Status \<Rightarrow> bool" where
  "IsCached s \<longleftrightarrow> st_code s = kCached"

definition ToString :: "Status \<Rightarrow> string" where
  "ToString s = (case st_code s of
       kOk \<Rightarrow> ''''
     | kNotFound \<Rightarrow> ''NotFound:'' @ st_msg s
     | kNotLeader \<Rightarrow> ''NotLeader:'' @ st_msg s
     | kDisconnect \<Rightarrow> ''Disconnect:'' @ st_msg s
     | kSessionExpired \<Rightarrow> ''SessionExpired:'' @ st_msg s
     | kInvalidArgument \<Rightarrow> ''InvalidArgument:'' @ st_msg s
     | kAgain \<Rightarrow> ''Again:'' @ st_msg s
     | kExist \<Rightarrow> ''Exist:'' @ st_msg s
     | kInternal \<Rightarrow> ''Internal:'' @ st_msg s
     | kTimeout \<Rightarrow> ''Timeout:'' @ st_msg s
     | kCached \<Rightarrow> ''Cached:'' @ st_msg s)"

definition ToRpcError :: "Status \<Rightarrow> RpcError" where
  "ToRpcError s = \<lparr>err_type = (case st_code s of
       kOk \<Rightarrow> rpc_kNone
     | kNotLeader \<Rightarrow> rpc_kNotLeader
     | kNotFound \<Rightarrow> rpc_kNotFound
     | kSessionExpired \<Rightarrow> rpc_kSessionExpired
     | kInvalidArgument \<Rightarrow> rpc_kInvalidArgument
     | kAgain \<Rightarrow> rpc_kAgain
     | kExist \<Rightarrow> rpc_kExist
     | _ \<Rightarrow> rpc_kInternal), err_data = Some (st_msg s)\<rparr>"

definition FromRpcError :: "RpcError \<Rightarrow> Status" where
  "FromRpcError e = (case err_type e of
       rpc_kNone \<Rightarrow> OK
     | rpc_kNotFound \<Rightarrow> NotFound (error_data e)
     | rpc_kNotLeader \<Rightarrow> NotLeader (error_data e)
     | rpc_kSessionExpired \<Rightarrow> SessionExpired (error_data e)
     | rpc_kInvalidArgument \<Rightarrow> InvalidArgument (error_data e)
     | rpc_kAgain \<Rightarrow> Again (error_data e)
     | rpc_kExist \<Rightarrow> Exist (error_data e)
     | rpc_kInternal \<Rightarrow> Internal (error_data e))"

lemma status_code_mk [simp]: "st_code (mk_status c m) = c" "st_msg (mk_status c m) = m"
  by (simp_all add: mk_status_def)

lemma mk_status_inject [simp]: "mk_status c m = mk_status c' m' \<longleftrightarrow> c = c' \<and> m = m'"
  by (simp add: mk_status_def)

lemma ok_simps [simp]:
  "ok OK" "ok (mk_status c m) \<longleftrightarrow> c = kOk"
  "IsNotFound (mk_status c m) \<longleftrightarrow> c = kNotFound" "\<not> IsNotFound OK"
  "IsInvalidArgument (mk_status c m) \<longleftrightarrow> c = kInvalidArgument" "\<not> IsInvalidArgument OK"
  by (auto simp: ok_def OK_def IsNotFound_def IsInvalidArgument_def)

lemma mk_status_not_OK [simp]: "c \<noteq> kOk \<Longrightarrow> mk_status c m \<noteq> OK" "c \<noteq> kOk \<Longrightarrow> OK \<noteq> mk_status c m"
  by (auto simp: OK_def)

lemma ok_exclusive: "ok s \<Longrightarrow> \<not> IsNotFound s" "ok s \<Longrightarrow> \<not> IsInvalidArgument s"
  by (auto simp: ok_def IsNotFound_def IsInvalidArgument_def)

text \<open>
  What a client rebuilds from the error of a response is the status the server put in
  it: a success is a success with no text (whatever text it carried), one of the seven codes
  the protocol has comes back with its message, and the codes that only the client uses
  (disconnect, timeout, cached) come back as internal errors with the message kept. In
  particular the status is a success exactly when the one sent was, although the numbers of
  \<^verbatim>\<open>kInternal\<close> and \<^verbatim>\<open>kAgain\<close> in the two enumerations are swapped.
\<close>

theorem rpc_error_roundtrip:
  "FromRpcError (ToRpcError s) =
     (if ok s then OK
      else if st_code s \<in> {kDisconnect, kTimeout, kCached} then Internal (st_msg s)
      else mk_status (st_code s) (st_msg s))"
  by (cases "st_code s")
    (simp_all add: FromRpcError_def ToRpcError_def ok_def error_data_def)

end
