(* ===== verification/Watch_Event.thy ===== *)
theory Watch_Event
  imports Prelude "HOL-Library.Product_Lexorder"
begin

text \<open>
  \<^verbatim>\<open>common/watch_event.h\<close> and \<^verbatim>\<open>common/watch_event.cc\<close>: the event types (bits of a
  32-bit mask), the event of a node, its order and text, and the conversions between a mask
  and the set of types it holds.
\<close>

type_synonym EventType = u32

definition kAll :: EventType where "kAll = 0xFFFFFFFF"
definition kNone :: EventType where "kNone = 0"
definition kCreate :: EventType where "kCreate = 1"
definition kDelete :: EventType where "kDelete = 2"
definition kModify :: EventType where "kModify = 4"
definition kChildren :: EventType where "kChildren = 8"
definition kConnected :: EventType where "kConnected = 0x10"
definition kDisconnected :: EventType where "kDisconnected = 0x20"

lemmas event_type_defs =
  kAll_def kNone_def kCreate_def kDelete_def kModify_def kChildren_def kConnected_def
  kDisconnected_def

record WEvent =
  we_node :: string
  we_type :: EventType

definition mk_event :: "string \<Rightarrow> EventType \<Rightarrow> WEvent" where
  "mk_event n t = \<lparr>we_node = n, we_type = t\<rparr>"

definition event_less :: "WEvent \<Rightarrow> WEvent \<Rightarrow> bool" where
  "event_less a b \<longleftrightarrow>
     (if we_node a < we_node b then True
      else if we_node a = we_node b \<and> we_type a < we_type b then True
      else False)"

definition event_eq :: "WEvent \<Rightarrow> WEvent \<Rightarrow> bool" where
  "event_eq a b \<longleftrightarrow> we_node a = we_node b \<and> we_type a = we_type b"

text \<open>\<^verbatim>\<open>BitsToSet\<close> adds to a set the types of its table that the mask has a bit of.\<close>

definition bits_table :: "EventType list" where
  "bits_table = [kNone, kCreate, kDelete, kModify, kChildren]"

definition BitsToSet :: "EventType set \<Rightarrow> u32 \<Rightarrow> EventType set" where
  "BitsToSet s m = fold (\<lambda>p s. if m AND p \<noteq> 0 then insert p s else s) bits_table s"

text \<open>\<^verbatim>\<open>SetToBits\<close> runs over a \<^verbatim>\<open>std::set\<close>: the sorted list of its elements.\<close>

definition SetToBits :: "EventType list \<Rightarrow> u32" where
  "SetToBits s = fold (\<lambda>t m. m OR t) s 0"

definition event_String :: "WEvent \<Rightarrow> string" where
  "event_String e =
     (let typ =
        (if we_type e = kNone then ''None''
         else if we_type e = kCreate then ''Create''
         else if we_type e = kDelete then ''Delete''
         else if we_type e = kModify then ''Modify''
         else if we_type e = kChildren then ''Children''
         else if we_type e = kConnected then ''Connected''
         else if we_type e = kDisconnected then ''Disconnected''
         else ''???'')
      in ''['' @ we_node e @ '', '' @ typ @ '']'')"

lemma mk_event_sel [simp]: "we_node (mk_event n t) = n" "we_type (mk_event n t) = t"
  by (simp_all add: mk_event_def)

subsection \<open>The order of events\<close>

text \<open>Events are ordered by node, then type, as \<^verbatim>\<open>std::set<watch::Event>\<close> needs it.\<close>

instantiation WEvent_ext :: (linorder) linorder
begin

definition less_eq_WEvent_ext :: "'a WEvent_ext \<Rightarrow> 'a WEvent_ext \<Rightarrow> bool" where
  "less_eq_WEvent_ext a b \<longleftrightarrow> (we_node a, we_type a, WEvent.more a) \<le> (we_node b, we_type b, WEvent.more b)"

definition less_WEvent_ext :: "'a WEvent_ext \<Rightarrow> 'a WEvent_ext \<Rightarrow> bool" where
  "less_WEvent_ext a b \<longleftrightarrow> (we_node a, we_type a, WEvent.more a) < (we_node b, we_type b, WEvent.more b)"

instance
proof
  fix a b c :: "'a WEvent_ext"
  show "a < b \<longleftrightarrow> a \<le> b \<and> \<not> b \<le> a" unfolding less_WEvent_ext_def less_eq_WEvent_ext_def by (rule less_le_not_le)
  show "a \<le> a" unfolding less_eq_WEvent_ext_def by (rule order_refl)
  show "a \<le> b \<Longrightarrow> b \<le> c \<Longrightarrow> a \<le> c" unfolding less_eq_WEvent_ext_def by (rule order_trans)
  show "a \<le> b \<or> b \<le> a" unfolding less_eq_WEvent_ext_def by (rule linear)
  assume "a \<le> b" "b \<le> a"
  then have "(we_node a, we_type a, WEvent.more a) = (we_node b, we_type b, WEvent.more b)"
    unfolding less_eq_WEvent_ext_def by (rule order_antisym)
  then show "a = b" by (intro WEvent.equality) simp_all
qed

end

lemma event_less_iff: "event_less a b \<longleftrightarrow> a < b"
  by (auto simp: event_less_def less_WEvent_ext_def less_prod_def)

lemma event_eq_iff: "event_eq a b \<longleftrightarrow> a = b"
  by (auto simp: event_eq_def intro: WEvent.equality)

text \<open>
  C35. \<^verbatim>\<open>operator<\<close> on events is a strict total order whose equality is \<^verbatim>\<open>operator==\<close>,
  so events can be keys of the ordered containers: it is irreflexive and transitive, and two
  events compare neither way exactly when they are equal.
\<close>

theorem event_less_strict_total:
  "\<not> event_less a a
   \<and> (event_less a b \<and> event_less b c \<longrightarrow> event_less a c)
   \<and> (\<not> event_less a b \<and> \<not> event_less b a \<longleftrightarrow> event_eq a b)"
  unfolding event_less_iff event_eq_iff by auto

theorem event_less_strict_total_witness:
  "event_less (mk_event ''/a'' kModify) (mk_event ''/b'' kCreate)"
  using event_less_strict_total [of "mk_event ''/a'' kCreate" "mk_event ''/a'' kModify" "mk_event ''/b'' kCreate"]
  by (simp add: event_less_def mk_event_def)

end
