(* ===== verification/Messages.thy ===== *)
theory Messages
  imports Status Watch_Event
begin

text \<open>
  The messages of \<^verbatim>\<open>proto/node.proto\<close>, \<^verbatim>\<open>proto/session.proto\<close> and
  \<^verbatim>\<open>proto/rpc.proto\<close>, with \<^verbatim>\<open>common/node.h\<close> and \<^verbatim>\<open>rpc/event.h\<close>. A field whose
  presence the program tests (\<^verbatim>\<open>has_...\<close>) is an \<open>option\<close>; an optional field that is only
  ever read through its accessor is a plain value, with the protocol's default when unset.
\<close>

subsection \<open>Nodes\<close>

definition kPersist :: u32 where "kPersist = 0"
definition kEphemeral :: u32 where "kEphemeral = 1"

text \<open>The stored form of a node (\<^verbatim>\<open>store::Node\<close>) and the client's \<^verbatim>\<open>pyxis::Node\<close>.\<close>

record Node =
  nd_data :: string
  nd_children :: "string list"
  nd_flags :: u32
  nd_version :: u64
  nd_sid :: sid_t

record ClientNode =
  cn_Data :: string
  cn_Children :: "string list"
  cn_Flags :: u32
  cn_Version :: u64
  cn_Sid :: sid_t

definition Node_default :: Node where
  "Node_default = \<lparr>nd_data = [], nd_children = [], nd_flags = 0, nd_version = 0, nd_sid = 0\<rparr>"

text \<open>\<^verbatim>\<open>CopyNodeFromProto\<close> appends the children to those the target already has.\<close>

definition CopyNodeFromProto :: "ClientNode \<Rightarrow> Node \<Rightarrow> ClientNode" where
  "CopyNodeFromProto node p =
     node\<lparr>cn_Data := nd_data p, cn_Flags := nd_flags p, cn_Version := nd_version p,
          cn_Sid := nd_sid p, cn_Children := cn_Children node @ nd_children p\<rparr>"

definition is_ephemeral :: "Node \<Rightarrow> bool" where
  "is_ephemeral n \<longleftrightarrow> nd_flags n AND kEphemeral \<noteq> 0"

subsection \<open>The stored form of a session\<close>

record StoredWatch =
  sw_path :: string
  sw_type :: u32
  sw_recursive :: bool

record StoredSession =
  sp_sid :: sid_t
  sp_watch :: "StoredWatch list"
  sp_node :: "string list"
  sp_timeout :: u32

subsection \<open>Requests and responses\<close>

record CreateRequest =
  cr_path :: string
  cr_flags :: u32
  cr_data :: string

record WriteRequest =
  wr_path :: string
  wr_data :: string

record WatchRequest =
  wq_path :: string
  wq_watch :: u32
  wq_recursive :: bool

record Request =
  rq_sid :: "sid_t option"
  rq_xid :: u64
  rq_register :: "u32 option"
  rq_unregister :: bool
  rq_ping :: bool
  rq_create :: "CreateRequest option"
  rq_delete :: "string option"
  rq_write :: "WriteRequest option"
  rq_read :: "string option"
  rq_stat :: "string option"
  rq_watch :: "WatchRequest option"

record Response =
  rp_xid :: "u64 option"
  rp_err :: "RpcError option"
  rp_data :: "string option"
  rp_watch :: "WEvent option"
  rp_sid :: "sid_t option"
  rp_path :: "string option"

definition Request_default :: Request where
  "Request_default = \<lparr>rq_sid = None, rq_xid = 0, rq_register = None, rq_unregister = False,
     rq_ping = False, rq_create = None, rq_delete = None, rq_write = None, rq_read = None,
     rq_stat = None, rq_watch = None\<rparr>"

definition Response_default :: Response where
  "Response_default = \<lparr>rp_xid = None, rp_err = None, rp_data = None, rp_watch = None,
     rp_sid = None, rp_path = None\<rparr>"

text \<open>\<^verbatim>\<open>req->sid()\<close>, with the default of an unset field.\<close>

definition req_sid :: "Request \<Rightarrow> sid_t" where
  "req_sid r = (case rq_sid r of None \<Rightarrow> 0 | Some s \<Rightarrow> s)"

text \<open>\<^verbatim>\<open>rpc::Event\<close>: a request with the response it is waiting for. The response is
  delivered by running the closure \<open>ev_done\<close> when the last reference to the event goes away
  (\<^verbatim>\<open>Event::~Event\<close>); closures are named by numbers.\<close>

record Event =
  ev_Req :: Request
  ev_Rep :: Response
  ev_Addr :: string
  ev_done :: nat

definition set_err :: "Status \<Rightarrow> Response \<Rightarrow> Response" where
  "set_err st rep = rep\<lparr>rp_err := Some (ToRpcError st)\<rparr>"

definition fail_event :: "Status \<Rightarrow> Event \<Rightarrow> Event" where
  "fail_event st e = e\<lparr>ev_Rep := set_err st (ev_Rep e)\<rparr>"

lemma Node_default_sel [simp]:
  "nd_data Node_default = []" "nd_children Node_default = []" "nd_flags Node_default = 0"
  "nd_version Node_default = 0" "nd_sid Node_default = 0"
  by (simp_all add: Node_default_def)

lemma is_ephemeral_Node_default [simp]: "\<not> is_ephemeral Node_default"
  by (simp add: is_ephemeral_def)

end
