(* ===== verification/Containers.thy ===== *)
theory Containers
  imports Prelude "HOL-Library.Product_Lexorder"
begin

text \<open>
  The ordered containers of the C++ standard library that the sources keep their tables in.
  A \<^verbatim>\<open>std::map\<close> is the list of its entries in key order, so that \<^verbatim>\<open>begin()\<close>, reverse
  iteration and in-order traversal are the list's; a \<^verbatim>\<open>std::multimap\<close> keeps equal keys in
  insertion order; a \<^verbatim>\<open>std::set\<close> is a sorted list without repetitions. The locale
  \<open>std_map\<close> states what the clients rely on, and the sorted list is shown to provide it.
\<close>

subsection \<open>\<^verbatim>\<open>std::map\<close>\<close>

type_synonym ('k, 'v) omap = "('k \<times> 'v) list"

text \<open>\<^verbatim>\<open>m.find(k)\<close>, \<^verbatim>\<open>m[k] = v\<close>, \<^verbatim>\<open>m.insert(make_pair(k, v))\<close> (which keeps an
  existing entry) and \<^verbatim>\<open>m.erase(k)\<close>.\<close>

definition om_find :: "('k, 'v) omap \<Rightarrow> 'k \<Rightarrow> 'v option" where
  "om_find m k = map_of m k"

fun om_put :: "'k::linorder \<Rightarrow> 'v \<Rightarrow> ('k, 'v) omap \<Rightarrow> ('k, 'v) omap" where
  "om_put k v [] = [(k, v)]"
| "om_put k v ((k', v') # m) =
     (if k < k' then (k, v) # (k', v') # m
      else if k = k' then (k, v) # m
      else (k', v') # om_put k v m)"

definition om_insert :: "'k::linorder \<Rightarrow> 'v \<Rightarrow> ('k, 'v) omap \<Rightarrow> ('k, 'v) omap" where
  "om_insert k v m = (case om_find m k of Some _ \<Rightarrow> m | None \<Rightarrow> om_put k v m)"

definition om_erase :: "'k \<Rightarrow> ('k, 'v) omap \<Rightarrow> ('k, 'v) omap" where
  "om_erase k m = filter (\<lambda>e. fst e \<noteq> k) m"

text \<open>Changing the object an entry refers to (the map's own shape is untouched).\<close>

definition om_adjust :: "'k \<Rightarrow> ('v \<Rightarrow> 'v) \<Rightarrow> ('k, 'v) omap \<Rightarrow> ('k, 'v) omap" where
  "om_adjust k f m = map (\<lambda>(k', v). (k', if k' = k then f v else v)) m"

definition om_invar :: "('k::linorder, 'v) omap \<Rightarrow> bool" where
  "om_invar m \<longleftrightarrow> sorted_wrt (<) (map fst m)"

lemma om_find_Nil [simp]: "om_find [] k = None"
  and om_find_Cons [simp]: "om_find ((k', v) # m) k = (if k' = k then Some v else om_find m k)"
  by (simp_all add: om_find_def)

lemma om_find_put [simp]: "om_find (om_put k v m) k' = (if k' = k then Some v else om_find m k')"
  by (induction k v m rule: om_put.induct) auto

lemma om_find_insert:
  "om_find (om_insert k v m) k' = (if k' = k \<and> om_find m k = None then Some v else om_find m k')"
  by (auto simp: om_insert_def split: option.splits)

lemma om_find_erase [simp]: "om_find (om_erase k m) k' = (if k' = k then None else om_find m k')"
  by (induction m) (auto simp: om_erase_def)

lemma om_find_adjust [simp]:
  "om_find (om_adjust k f m) k' = (if k' = k then map_option f (om_find m k) else om_find m k')"
  by (induction m) (auto simp: om_adjust_def)

lemma om_find_set: "om_find m k = Some v \<Longrightarrow> (k, v) \<in> set m"
  by (simp add: om_find_def map_of_SomeD)

lemma set_om_put_subset: "set (map fst (om_put k v m)) = insert k (set (map fst m))"
  by (induction k v m rule: om_put.induct) auto

lemma om_invar_Nil [simp]: "om_invar []"
  by (simp add: om_invar_def)

lemma om_invar_put [simp]: "om_invar m \<Longrightarrow> om_invar (om_put k v m)"
proof (induction k v m rule: om_put.induct)
  case (2 k v k' v' m)
  then have "k \<noteq> k' \<Longrightarrow> \<not> k < k' \<Longrightarrow> \<forall>x \<in> set (map fst (om_put k v m)). k' < x"
    by (auto simp only: set_om_put_subset) (auto simp: om_invar_def)
  with 2 show ?case by (auto simp: om_invar_def)
qed (simp add: om_invar_def)

lemma om_invar_insert [simp]: "om_invar m \<Longrightarrow> om_invar (om_insert k v m)"
  by (simp add: om_insert_def split: option.splits)

lemma om_invar_erase [simp]: "om_invar m \<Longrightarrow> om_invar (om_erase k m)"
  by (induction m) (auto simp: om_invar_def om_erase_def)

lemma om_adjust_absent: "om_find m k = None \<Longrightarrow> om_adjust k f m = m"
  by (induction m) (auto simp: om_adjust_def split: if_splits)

lemma om_invar_adjust [simp]: "om_invar (om_adjust k f m) = om_invar m"
proof -
  have "map fst (om_adjust k f m) = map fst m" by (auto simp: om_adjust_def)
  then show ?thesis by (simp add: om_invar_def)
qed

lemma om_find_iff: "om_invar m \<Longrightarrow> om_find m k = Some v \<longleftrightarrow> (k, v) \<in> set m"
proof -
  assume "om_invar m"
  then have "distinct (map fst m)"
    unfolding om_invar_def by (metis strict_sorted_iff)
  then show ?thesis by (simp add: om_find_def)
qed

lemma om_takeWhile: "om_invar m \<Longrightarrow> takeWhile (\<lambda>e. fst e < k) m = filter (\<lambda>e. fst e < k) m"
proof (induction m)
  case (Cons e m)
  then show ?case
    by (auto simp: om_invar_def) (metis (no_types, lifting) filter_False order.strict_trans)
qed simp

lemma om_put_greatest: "(\<And>e. e \<in> set m \<Longrightarrow> fst e < k) \<Longrightarrow> om_put k v m = m @ [(k, v)]"
proof (induction m)
  case (Cons e m)
  then have "fst e < k" by simp
  with Cons show ?case by (cases e) auto
qed simp

lemma om_erase_mset:
  assumes "om_invar m" "om_find m k = Some v"
  shows "mset m = add_mset (k, v) (mset (om_erase k m))"
  using assms
proof (induction m)
  case (Cons e m)
  obtain k' v' where e: "e = (k', v')" by (cases e)
  show ?case
  proof (cases "k' = k")
    case True
    have "\<forall>x \<in> set m. fst x \<noteq> k" using Cons.prems(1) e True by (auto simp: om_invar_def)
    then have "om_erase k m = m" by (simp add: om_erase_def filter_id_conv)
    then show ?thesis using Cons.prems(2) e True by (simp add: om_erase_def)
  next
    case False
    then show ?thesis using Cons e by (simp add: om_erase_def om_invar_def)
  qed
qed simp

subsection \<open>The interface its clients rely on\<close>

locale std_map =
  fixes find :: "'m \<Rightarrow> 'k \<Rightarrow> 'v option"
    and put :: "'k \<Rightarrow> 'v \<Rightarrow> 'm \<Rightarrow> 'm"
    and ins :: "'k \<Rightarrow> 'v \<Rightarrow> 'm \<Rightarrow> 'm"
    and erase :: "'k \<Rightarrow> 'm \<Rightarrow> 'm"
    and entries :: "'m \<Rightarrow> ('k \<times> 'v) list"
    and invar :: "'m \<Rightarrow> bool"
  assumes find_put: "find (put k v m) k' = (if k' = k then Some v else find m k')"
    and find_ins: "find (ins k v m) k' = (if k' = k \<and> find m k = None then Some v else find m k')"
    and find_erase: "find (erase k m) k' = (if k' = k then None else find m k')"
    and invar_put: "invar m \<Longrightarrow> invar (put k v m)"
    and invar_ins: "invar m \<Longrightarrow> invar (ins k v m)"
    and invar_erase: "invar m \<Longrightarrow> invar (erase k m)"
    and entries_find: "invar m \<Longrightarrow> (k, v) \<in> set (entries m) \<longleftrightarrow> find m k = Some v"
    and entries_distinct: "invar m \<Longrightarrow> distinct (map fst (entries m))"
begin

lemma ins_keeps: "find m k = Some v \<Longrightarrow> find (ins k w m) k = Some v"
  by (simp add: find_ins)

lemma ins_new: "find m k = None \<Longrightarrow> find (ins k v m) k = Some v"
  by (simp add: find_ins)

lemma erase_ins_absent: "find m k = None \<Longrightarrow> find (erase k (ins k v m)) = find m"
  by (auto simp: find_erase find_ins)

lemma domain_put: "dom (find (put k v m)) = insert k (dom (find m))"
  by (auto simp: find_put dom_def)

lemma domain_erase: "dom (find (erase k m)) = dom (find m) - {k}"
  by (auto simp: find_erase dom_def)

lemma domain_entries: "invar m \<Longrightarrow> dom (find m) = set (map fst (entries m))"
  by (force simp: dom_def entries_find [symmetric])

lemma finite_domain: "invar m \<Longrightarrow> finite (dom (find m))"
  by (simp add: domain_entries)

end

interpretation om: std_map om_find om_put om_insert om_erase "\<lambda>m. m" om_invar
proof unfold_locales
  show "om_invar m \<Longrightarrow> ((k, v) \<in> set m) = (om_find m k = Some v)" for m :: "('a, 'b) omap" and k v
    by (simp add: om_find_iff)
  show "om_invar m \<Longrightarrow> distinct (map fst m)" for m :: "('a, 'b) omap"
    unfolding om_invar_def by (metis strict_sorted_iff)
qed (simp_all add: om_find_insert)

subsection \<open>\<^verbatim>\<open>std::multimap\<close> and \<^verbatim>\<open>std::set\<close>\<close>

text \<open>\<^verbatim>\<open>insert\<close> puts the entry at the upper end of the range of its key.\<close>

fun mm_insert :: "'k::linorder \<Rightarrow> 'v \<Rightarrow> ('k \<times> 'v) list \<Rightarrow> ('k \<times> 'v) list" where
  "mm_insert k v [] = [(k, v)]"
| "mm_insert k v ((k', v') # m) =
     (if k < k' then (k, v) # (k', v') # m else (k', v') # mm_insert k v m)"

definition mm_invar :: "('k::linorder \<times> 'v) list \<Rightarrow> bool" where
  "mm_invar m \<longleftrightarrow> sorted (map fst m)"

definition os_insert :: "'a::linorder \<Rightarrow> 'a list \<Rightarrow> 'a list" where
  "os_insert x xs = insort_insert x xs"

definition os_erase :: "'a \<Rightarrow> 'a list \<Rightarrow> 'a list" where
  "os_erase x xs = filter (\<lambda>y. y \<noteq> x) xs"

lemma mset_mm_insert [simp]: "mset (mm_insert k v m) = add_mset (k, v) (mset m)"
  by (induction k v m rule: mm_insert.induct) auto

lemma set_mm_insert [simp]: "set (mm_insert k v m) = insert (k, v) (set m)"
  by (induction k v m rule: mm_insert.induct) auto

lemma mm_insert_not_Nil [simp]: "mm_insert k v m \<noteq> []"
  by (cases m) (auto split: if_splits)

lemma mm_invar_insert: "mm_invar m \<Longrightarrow> mm_invar (mm_insert k v m)"
  by (induction k v m rule: mm_insert.induct) (auto simp: mm_invar_def)

lemma mm_equal_range_insert:
  "mm_invar m \<Longrightarrow> filter (\<lambda>e. fst e = k') (mm_insert k v m) =
     filter (\<lambda>e. fst e = k') m @ (if k' = k then [(k, v)] else [])"
proof (induction k v m rule: mm_insert.induct)
  case (2 k v k1 v1 m)
  have "k < k1 \<Longrightarrow> filter (\<lambda>e. fst e = k) m = []"
    using 2(2) by (auto simp: mm_invar_def filter_empty_conv)
  with 2 show ?case by (auto simp: mm_invar_def)
qed auto

lemma set_os_insert [simp]: "set (os_insert x xs) = insert x (set xs)"
  by (simp add: os_insert_def set_insort_insert)

lemma set_os_erase [simp]: "set (os_erase x xs) = set xs - {x}"
  by (auto simp: os_erase_def)

lemma distinct_os_insert [simp]: "distinct xs \<Longrightarrow> distinct (os_insert x xs)"
  by (simp add: os_insert_def distinct_insort_insert)

lemma distinct_os_erase [simp]: "distinct xs \<Longrightarrow> distinct (os_erase x xs)"
  by (simp add: os_erase_def)

lemma sorted_os_insert [simp]: "sorted xs \<Longrightarrow> sorted (os_insert x xs)"
  by (simp add: os_insert_def sorted_insort_insert)

lemma sorted_os_erase [simp]: "sorted xs \<Longrightarrow> sorted (os_erase x xs)"
  by (simp add: os_erase_def sorted_filter [where f = id, simplified])

lemma os_insert_not_Nil [simp]: "os_insert x xs \<noteq> []"
  by (metis insert_not_empty set_empty set_os_insert)

end
