(* ===== verification/Thirdparty.thy ===== *)
theory Thirdparty
  imports Messages Containers
begin

text \<open>
  The libraries the sources call and that are not part of the repository, as records of
  functions that the definitions take as arguments: \<^verbatim>\<open>leveldb\<close> (the embedded database),
  the generated \<^verbatim>\<open>protobuf\<close> code (serialisation of \<^verbatim>\<open>Node\<close> and \<^verbatim>\<open>Session\<close>),
  \<^verbatim>\<open>toft\<close> (string helpers) and \<^verbatim>\<open>muduo\<close>'s time arithmetic. What the program relies on
  is stated by the predicates \<open>leveldb_ok\<close>, \<open>proto_ok\<close> and \<open>toft_ok\<close>, each of them
  the documented behaviour of the library. A reference instance (an association list as the
  database and a plain tag-free encoding) shows that the three can hold together.
\<close>

subsection \<open>leveldb\<close>

datatype ldb_status =
    ldb_OK | ldb_NotFound string | ldb_Corruption string | ldb_NotSupported string
  | ldb_InvalidArgument string | ldb_IOError string

datatype batch_op = BPut string string | BDelete string

record 'db leveldb =
  ldb_Get :: "'db \<Rightarrow> string \<Rightarrow> ldb_status \<times> string"
  ldb_Put :: "'db \<Rightarrow> string \<Rightarrow> string \<Rightarrow> ldb_status \<times> 'db"
  ldb_Delete :: "'db \<Rightarrow> string \<Rightarrow> ldb_status \<times> 'db"
  ldb_Write :: "'db \<Rightarrow> batch_op list \<Rightarrow> ldb_status \<times> 'db"
  ldb_Iterate :: "'db \<Rightarrow> (string \<times> string) list \<times> ldb_status"
  ldb_GetProperty :: "'db \<Rightarrow> string \<Rightarrow> string option"
  ldb_ToString :: "ldb_status \<Rightarrow> string"

definition ldb_ok :: "ldb_status \<Rightarrow> bool" where
  "ldb_ok s \<longleftrightarrow> s = ldb_OK"

definition ldb_IsNotFound :: "ldb_status \<Rightarrow> bool" where
  "ldb_IsNotFound s \<longleftrightarrow> (case s of ldb_NotFound _ \<Rightarrow> True | _ \<Rightarrow> False)"

text \<open>The contents of a database, as its readers see them.\<close>

definition ldb_view :: "'db leveldb \<Rightarrow> 'db \<Rightarrow> string \<rightharpoonup> string" where
  "ldb_view L db k = (case ldb_Get L db k of (s, v) \<Rightarrow> if ldb_ok s then Some v else None)"

text \<open>No read of the database reports an error other than a missing key.\<close>

definition ldb_readable :: "'db leveldb \<Rightarrow> 'db \<Rightarrow> bool" where
  "ldb_readable L db \<longleftrightarrow>
     (\<forall>k. ldb_ok (fst (ldb_Get L db k)) \<or> ldb_IsNotFound (fst (ldb_Get L db k)))"

fun apply_batch :: "batch_op list \<Rightarrow> (string \<rightharpoonup> string) \<Rightarrow> (string \<rightharpoonup> string)" where
  "apply_batch [] m = m"
| "apply_batch (BPut k v # b) m = apply_batch b (m(k \<mapsto> v))"
| "apply_batch (BDelete k # b) m = apply_batch b (m(k := None))"

text \<open>
  The contract of \<^verbatim>\<open>leveldb::DB\<close>: a write that reports success is visible to every later
  read, the updates of a batch are applied together and in order, a write that reports a
  failure changes nothing a reader sees, writes never make a readable database unreadable, and
  an iterator that ends without an error has visited every entry once, in the order of the keys.
\<close>

definition leveldb_ok :: "'db leveldb \<Rightarrow> bool" where
  "leveldb_ok L \<longleftrightarrow>
     (\<forall>db k v. ldb_view L (snd (ldb_Put L db k v)) =
        (if ldb_ok (fst (ldb_Put L db k v)) then (ldb_view L db)(k \<mapsto> v) else ldb_view L db))
   \<and> (\<forall>db k. ldb_view L (snd (ldb_Delete L db k)) =
        (if ldb_ok (fst (ldb_Delete L db k)) then (ldb_view L db)(k := None) else ldb_view L db))
   \<and> (\<forall>db b. ldb_view L (snd (ldb_Write L db b)) =
        (if ldb_ok (fst (ldb_Write L db b)) then apply_batch b (ldb_view L db) else ldb_view L db))
   \<and> (\<forall>db k v. ldb_readable L db \<longrightarrow> ldb_readable L (snd (ldb_Put L db k v)))
   \<and> (\<forall>db k. ldb_readable L db \<longrightarrow> ldb_readable L (snd (ldb_Delete L db k)))
   \<and> (\<forall>db b. ldb_readable L db \<longrightarrow> ldb_readable L (snd (ldb_Write L db b)))
   \<and> (\<forall>db. ldb_ok (snd (ldb_Iterate L db)) \<longrightarrow>
        om_invar (fst (ldb_Iterate L db)) \<and> om_find (fst (ldb_Iterate L db)) = ldb_view L db)"

subsection \<open>Generated protobuf code\<close>

record protolib =
  node_SerializeToString :: "Node \<Rightarrow> bool \<times> string"
  node_ParseFromString :: "string \<Rightarrow> bool \<times> Node"
  node_ByteSize :: "Node \<Rightarrow> int"
  session_SerializeToString :: "StoredSession \<Rightarrow> bool \<times> string"
  session_ParseFromString :: "string \<Rightarrow> bool \<times> StoredSession"
  request_SerializeAsString :: "Request \<Rightarrow> string"
  request_ParseFromString :: "string \<Rightarrow> bool \<times> Request"
  session_Json :: "StoredSession \<Rightarrow> u32 \<Rightarrow> u32 \<Rightarrow> string"

text \<open>\<open>session_Json\<close> is the text that the JSON library writes for a session with its \<^verbatim>\<open>join\<close> and
  \<^verbatim>\<open>last\<close> times.\<close>

definition node_SerializeAsString :: "protolib \<Rightarrow> Node \<Rightarrow> string" where
  "node_SerializeAsString P n =
     (case node_SerializeToString P n of (r, s) \<Rightarrow> if r then s else [])"

text \<open>Serialising a message all of whose required fields are set succeeds, and parsing the
  result gives the message back. The encoding of a node is longer than its data.\<close>

definition proto_ok :: "protolib \<Rightarrow> bool" where
  "proto_ok P \<longleftrightarrow>
     (\<forall>n. fst (node_SerializeToString P n)
        \<and> node_ParseFromString P (snd (node_SerializeToString P n)) = (True, n)
        \<and> node_ByteSize P n = int (length (snd (node_SerializeToString P n)))
        \<and> int (length (nd_data n)) \<le> node_ByteSize P n)
   \<and> (\<forall>s. fst (session_SerializeToString P s)
        \<and> session_ParseFromString P (snd (session_SerializeToString P s)) = (True, s))
   \<and> (\<forall>r. request_ParseFromString P (request_SerializeAsString P r) = (True, r))"

subsection \<open>toft\<close>

record toftlib =
  StringStartsWith :: "string \<Rightarrow> string \<Rightarrow> bool"
  StringTrimLeft :: "string \<Rightarrow> string \<Rightarrow> string"
  SplitString :: "string \<Rightarrow> string \<Rightarrow> string list"
  PathJoin :: "string \<Rightarrow> string \<Rightarrow> string"
  NumberToString :: "u64 \<Rightarrow> string"
  StringToNumber :: "string \<Rightarrow> u64 option"
  JoinStrings :: "string list \<Rightarrow> string \<Rightarrow> string"

definition toft_ok :: "toftlib \<Rightarrow> bool" where
  "toft_ok T \<longleftrightarrow>
     (\<forall>s p. StringStartsWith T s p \<longleftrightarrow> prefix p s)
   \<and> (\<forall>s cs. StringTrimLeft T s cs = dropWhile (\<lambda>c. c \<in> set cs) s)
   \<and> (\<forall>n. StringToNumber T (NumberToString T n) = Some n)
   \<and> (\<forall>a b. b \<noteq> [] \<and> hd b \<noteq> slash \<longrightarrow> prefix a (PathJoin T a b))"

subsection \<open>All of them\<close>

text \<open>\<open>addTime\<close> is \<^verbatim>\<open>muduo::addTime\<close>: a time in microseconds and a number of seconds (a
  \<^verbatim>\<open>double\<close>, hence a rational) to add. \<open>raft_LEADER\<close> and \<open>raft_STOP\<close> are the
  constants of the raft library's state enumeration.\<close>

record 'db thirdparty =
  ldb :: "'db leveldb"
  pb :: protolib
  toft :: toftlib
  addTime :: "timestamp \<Rightarrow> rat \<Rightarrow> timestamp"
  raft_LEADER :: int
  raft_STOP :: int

definition thirdparty_ok :: "'db thirdparty \<Rightarrow> bool" where
  "thirdparty_ok X \<longleftrightarrow> leveldb_ok (ldb X) \<and> proto_ok (pb X) \<and> toft_ok (toft X)"

subsection \<open>Consequences of the contracts\<close>

lemma ldb_view_Put:
  "leveldb_ok L \<Longrightarrow> ldb_view L (snd (ldb_Put L db k v)) =
     (if ldb_ok (fst (ldb_Put L db k v)) then (ldb_view L db)(k \<mapsto> v) else ldb_view L db)"
  by (simp add: leveldb_ok_def)

lemma ldb_view_Delete:
  "leveldb_ok L \<Longrightarrow> ldb_view L (snd (ldb_Delete L db k)) =
     (if ldb_ok (fst (ldb_Delete L db k)) then (ldb_view L db)(k := None) else ldb_view L db)"
  by (simp add: leveldb_ok_def)

lemma ldb_view_Write:
  "leveldb_ok L \<Longrightarrow> ldb_view L (snd (ldb_Write L db b)) =
     (if ldb_ok (fst (ldb_Write L db b)) then apply_batch b (ldb_view L db) else ldb_view L db)"
  by (simp add: leveldb_ok_def)

lemma ldb_readable_write:
  assumes "leveldb_ok L" and "ldb_readable L db"
  shows "ldb_readable L (snd (ldb_Put L db k v))"
    and "ldb_readable L (snd (ldb_Delete L db k))"
    and "ldb_readable L (snd (ldb_Write L db b))"
  using assms by (simp_all add: leveldb_ok_def)

lemma ldb_Iterate_view:
  assumes "leveldb_ok L" and "ldb_ok (snd (ldb_Iterate L db))"
  shows "om_invar (fst (ldb_Iterate L db))" and "om_find (fst (ldb_Iterate L db)) = ldb_view L db"
  using assms by (simp_all add: leveldb_ok_def)

lemma ldb_Get_view_Some:
  "ldb_view L db k = Some v \<longleftrightarrow> ldb_Get L db k = (ldb_OK, v)"
  by (cases "ldb_Get L db k") (auto simp: ldb_view_def ldb_ok_def)

lemma ldb_Get_view_None:
  assumes "ldb_readable L db" and "ldb_view L db k = None"
  shows "\<not> ldb_ok (fst (ldb_Get L db k))" and "ldb_IsNotFound (fst (ldb_Get L db k))"
proof -
  show "\<not> ldb_ok (fst (ldb_Get L db k))"
    using assms(2) by (auto simp: ldb_view_def split: prod.splits if_splits)
  then show "ldb_IsNotFound (fst (ldb_Get L db k))"
    using assms(1) by (auto simp: ldb_readable_def)
qed

lemma node_roundtrip:
  assumes "proto_ok P"
  shows "node_ParseFromString P (node_SerializeAsString P n) = (True, n)"
    and "node_SerializeToString P n = (True, node_SerializeAsString P n)"
    and "int (length (nd_data n)) \<le> node_ByteSize P n"
    and "node_ByteSize P n = int (length (node_SerializeAsString P n))"
proof -
  obtain r s where rs: "node_SerializeToString P n = (r, s)" by (cases "node_SerializeToString P n")
  have *: "fst (node_SerializeToString P n)
      \<and> node_ParseFromString P (snd (node_SerializeToString P n)) = (True, n)
      \<and> node_ByteSize P n = int (length (snd (node_SerializeToString P n)))
      \<and> int (length (nd_data n)) \<le> node_ByteSize P n"
    using assms unfolding proto_ok_def by blast
  show "node_ParseFromString P (node_SerializeAsString P n) = (True, n)"
    and "node_SerializeToString P n = (True, node_SerializeAsString P n)"
    and "int (length (nd_data n)) \<le> node_ByteSize P n"
    and "node_ByteSize P n = int (length (node_SerializeAsString P n))"
    using * by (simp_all add: rs node_SerializeAsString_def)
qed

lemma session_roundtrip:
  assumes "proto_ok P"
  shows "session_ParseFromString P (snd (session_SerializeToString P s)) = (True, s)"
    and "fst (session_SerializeToString P s)"
  using assms by (auto simp: proto_ok_def)

lemma request_roundtrip:
  "proto_ok P \<Longrightarrow> request_ParseFromString P (request_SerializeAsString P r) = (True, r)"
  by (simp add: proto_ok_def)

lemma toft_laws:
  assumes "toft_ok T"
  shows "StringStartsWith T s p \<longleftrightarrow> prefix p s"
    and "StringTrimLeft T s cs = dropWhile (\<lambda>c. c \<in> set cs) s"
    and "StringToNumber T (NumberToString T n) = Some n"
    and "b \<noteq> [] \<Longrightarrow> hd b \<noteq> slash \<Longrightarrow> prefix a (PathJoin T a b)"
  using assms by (simp_all add: toft_ok_def)

lemma thirdparty_okD:
  assumes "thirdparty_ok X"
  shows "leveldb_ok (ldb X)" and "proto_ok (pb X)" and "toft_ok (toft X)"
  using assms by (simp_all add: thirdparty_ok_def)

end
