(* ===== verification/Proc_DB.thy ===== *)
theory Proc_DB
  imports Thirdparty
begin

text \<open>
  \<^verbatim>\<open>server/proc_db.h\<close> and \<^verbatim>\<open>server/proc_db.cc\<close>: the virtual database behind the paths
  under the proc root. Its entries are callbacks; a path is served by the registered prefix
  that comes first in the reverse key order, and what follows the prefix becomes the
  arguments. A read callback computes a serialised node; a write callback answers a status and
  the effects (\<open>'e\<close>) it causes.
\<close>

text \<open>The two member functions that a map entry can be bound to, and an outside callback.\<close>

datatype ReadNodeCallback =
    Bind_onProcRead
  | Bind_emptyReadCallback
  | Bind_read "string list \<Rightarrow> Status \<times> string"

type_synonym 'e WriteNodeCallback = "string list \<Rightarrow> string \<Rightarrow> Status \<times> 'e list"

record 'e ProcDB =
  pd_root :: string
  pd_readMap :: "(string, ReadNodeCallback) omap"
  pd_writeMap :: "(string, 'e WriteNodeCallback) omap"

definition RegisterReadNode :: "string \<Rightarrow> ReadNodeCallback \<Rightarrow> 'e ProcDB \<Rightarrow> 'e ProcDB" where
  "RegisterReadNode path cb db = db\<lparr>pd_readMap := om_put path cb (pd_readMap db)\<rparr>"

definition RegisterWriteNode :: "string \<Rightarrow> 'e WriteNodeCallback \<Rightarrow> 'e ProcDB \<Rightarrow> 'e ProcDB" where
  "RegisterWriteNode path cb db =
     db\<lparr>pd_writeMap := om_put path cb (pd_writeMap db),
        pd_readMap := om_put path Bind_emptyReadCallback (pd_readMap db)\<rparr>"

definition ProcDB_new :: "string \<Rightarrow> 'e ProcDB" where
  "ProcDB_new rt =
     RegisterReadNode ''/pyxis'' Bind_onProcRead \<lparr>pd_root = rt, pd_readMap = [], pd_writeMap = []\<rparr>"

text \<open>The loop over \<^verbatim>\<open>rbegin() ... rend()\<close> that looks for the entry serving a path.\<close>

definition proc_match :: "toftlib \<Rightarrow> string \<Rightarrow> (string, 'a) omap \<Rightarrow> (string \<times> 'a) option" where
  "proc_match T path m = find (\<lambda>(k, _). StringStartsWith T path k) (rev m)"

text \<open>\<^verbatim>\<open>ProcDB::onProcRead\<close>: the listing of the proc root. \<^verbatim>\<open>substr\<close> throws when an entry
  is shorter than the root.\<close>

definition proc_children :: "'e ProcDB \<Rightarrow> string list" where
  "proc_children db =
     fold (\<lambda>e s. os_insert (fst e) s) (pd_writeMap db)
       (fold (\<lambda>e s. os_insert (fst e) s) (pd_readMap db) [])"

fun add_proc_children :: "toftlib \<Rightarrow> string \<Rightarrow> string list \<Rightarrow> Node \<Rightarrow> Node option" where
  "add_proc_children T rt [] node = Some node"
| "add_proc_children T rt (c # cs) node =
     (if c = rt then add_proc_children T rt cs node
      else if length rt > length c then None
      else add_proc_children T rt cs
        (node\<lparr>nd_children := nd_children node @ [StringTrimLeft T (drop (length rt) c) ''/'']\<rparr>))"

definition onProcRead ::
  "toftlib \<Rightarrow> protolib \<Rightarrow> 'e ProcDB \<Rightarrow> string list \<Rightarrow> (Status \<times> string) option" where
  "onProcRead T P db args =
     (if args \<noteq> [] then Some (NotFound [], [])
      else do {
        node \<leftarrow> add_proc_children T (pd_root db) (proc_children db)
          (Node_default\<lparr>nd_flags := kPersist, nd_data := [], nd_version := 0\<rparr>);
        Some (OK, snd (node_SerializeToString P node)) })"

definition emptyReadCallback :: "protolib \<Rightarrow> string list \<Rightarrow> Status \<times> string" where
  "emptyReadCallback P args =
     (OK, snd (node_SerializeToString P (Node_default\<lparr>nd_data := ''write only''\<rparr>)))"

definition run_read ::
  "toftlib \<Rightarrow> protolib \<Rightarrow> 'e ProcDB \<Rightarrow> ReadNodeCallback \<Rightarrow> string list \<Rightarrow> (Status \<times> string) option" where
  "run_read T P db cb args = (case cb of
       Bind_onProcRead \<Rightarrow> onProcRead T P db args
     | Bind_emptyReadCallback \<Rightarrow> Some (emptyReadCallback P args)
     | Bind_read f \<Rightarrow> Some (f args))"

definition ldb_of_status :: "Status \<Rightarrow> ldb_status" where
  "ldb_of_status st =
     (if \<not> ok st then
        (if IsNotFound st then ldb_NotFound (ToString st) else ldb_InvalidArgument (ToString st))
      else ldb_OK)"

definition ProcDB_Get ::
  "toftlib \<Rightarrow> protolib \<Rightarrow> 'e ProcDB \<Rightarrow> string \<Rightarrow> (ldb_status \<times> string) option" where
  "ProcDB_Get T P db key =
     (let path = c_str key in
      case proc_match T path (pd_readMap db) of
        None \<Rightarrow> Some (ldb_NotFound path, [])
      | Some (pre, cb) \<Rightarrow> do {
          (st, value) \<leftarrow> run_read T P db cb (SplitString T (drop (length pre) path) ''/'');
          Some (ldb_of_status st, value) })"

text \<open>The value reaches the callback through \<^verbatim>\<open>value.data()\<close>, a \<^verbatim>\<open>const char*\<close>.\<close>

definition ProcDB_Put ::
  "toftlib \<Rightarrow> 'e ProcDB \<Rightarrow> string \<Rightarrow> string \<Rightarrow> ldb_status \<times> 'e list" where
  "ProcDB_Put T db key value =
     (let path = c_str key in
      case proc_match T path (pd_writeMap db) of
        None \<Rightarrow> (ldb_NotFound path, [])
      | Some (pre, cb) \<Rightarrow>
          (case cb (SplitString T (drop (length pre) path) ''/'') (c_str value) of
             (st, es) \<Rightarrow> (ldb_of_status st, es)))"

definition ProcDB_Delete :: "'e ProcDB \<Rightarrow> string \<Rightarrow> ldb_status" where
  "ProcDB_Delete db key = ldb_NotSupported ''method not allowed''"

definition ProcDB_Write :: "'e ProcDB \<Rightarrow> batch_op list \<Rightarrow> ldb_status" where
  "ProcDB_Write db updates = ldb_NotSupported ''method not allowed''"

subsection \<open>Matching\<close>

lemma prefix_lex_le: "prefix a b \<Longrightarrow> a \<le> (b :: 'a::linorder list)"
proof (induction a arbitrary: b)
  case (Cons x a)
  then obtain b' where "b = x # b'" and "prefix a b'" by (cases b) auto
  with Cons.IH show ?case by simp
qed simp

lemma prefix_lex_length:
  assumes "prefix a s" and "prefix b s" and "a \<le> (b :: 'a::linorder list)"
  shows "length a \<le> length b"
proof (rule ccontr)
  assume "\<not> length a \<le> length b"
  with assms(1,2) have "prefix b a" by (metis prefix_length_prefix le_cases)
  then have "b \<le> a" by (rule prefix_lex_le)
  with assms(3) have "a = b" by simp
  with \<open>\<not> length a \<le> length b\<close> show False by simp
qed

lemma proc_match_None:
  "toft_ok T \<Longrightarrow> proc_match T path m = None \<longleftrightarrow> (\<forall>k. prefix k path \<longrightarrow> om_find m k = None)"
  by (force simp: proc_match_def find_None_iff toft_laws om_find_def map_of_eq_None_iff)

lemma proc_match_Some:
  assumes "toft_ok T" and "om_invar m" and "proc_match T path m = Some (k, v)"
  shows "om_find m k = Some v" and "prefix k path"
    and "\<And>k' v'. om_find m k' = Some v' \<Longrightarrow> prefix k' path \<Longrightarrow> k' \<le> k"
proof -
  from assms(3) obtain i where i: "i < length m" "rev m ! i = (k, v)" "StringStartsWith T path k"
    and first: "\<And>j. j < i \<Longrightarrow> \<not> StringStartsWith T path (fst (rev m ! j))"
    by (auto simp: proc_match_def find_Some_iff split: prod.splits) (metis fst_conv surj_pair)
  then have "(k, v) \<in> set m" by (metis length_rev nth_mem set_rev)
  then show "om_find m k = Some v" using om_find_iff [OF assms(2)] by simp
  show "prefix k path" using i(3) assms(1) by (simp add: toft_laws)
  fix k' v' assume "om_find m k' = Some v'" and p: "prefix k' path"
  then have "(k', v') \<in> set (rev m)" by (simp add: om_find_set)
  then obtain j where j: "j < length m" "rev m ! j = (k', v')"
    by (metis in_set_conv_nth length_rev)
  with p assms(1) have "StringStartsWith T path (fst (rev m ! j))" by (simp add: toft_laws)
  with first have "\<not> j < i" by blast
  moreover have "sorted_wrt (>) (map fst (rev m))"
    using assms(2) by (simp add: om_invar_def rev_map [symmetric] sorted_wrt_rev)
  ultimately show "k' \<le> k"
    using i j sorted_wrt_nth_less [of "(>)" "map fst (rev m)" i j]
    by (cases "i = j") (auto simp: not_less)
qed

text \<open>
  A path under the proc root is served by the longest registered prefix: the loop over
  the callbacks in reverse key order finds an entry exactly when some registered path is a
  prefix of it, and no registered prefix is longer than the one found.
\<close>

theorem proc_match_longest:
  assumes "toft_ok T" and "om_invar m"
  shows "case proc_match T path m of
       None \<Rightarrow> \<forall>k. prefix k path \<longrightarrow> om_find m k = None
     | Some (k, v) \<Rightarrow> om_find m k = Some v \<and> prefix k path
         \<and> (\<forall>k'. prefix k' path \<and> om_find m k' \<noteq> None \<longrightarrow> length k' \<le> length k)"
proof (cases "proc_match T path m")
  case None
  then show ?thesis using proc_match_None [OF assms(1), of path m] by simp
next
  case (Some e)
  obtain k v where e: "e = (k, v)" by (cases e)
  note facts = proc_match_Some [OF assms Some [unfolded e]]
  have "length k' \<le> length k" if "prefix k' path" and "om_find m k' \<noteq> None" for k'
    using that facts(2,3) by (auto intro: prefix_lex_length)
  with facts(1,2) show ?thesis by (simp add: Some e)
qed

end
