(* ===== verification/Store.thy ===== *)
theory Store
  imports Proc_DB
begin

text \<open>
  \<^verbatim>\<open>server/store.h\<close> and \<^verbatim>\<open>server/store.cc\<close>: the tree of nodes, the sessions and the
  commit index, all kept in one database. Node paths are database keys that begin with a
  slash; a session is kept under \<^verbatim>\<open>"ss"\<close> and the eight bytes of its id; the commit index
  under \<^verbatim>\<open>"commit"\<close>. Paths that begin with the proc root are served by the virtual database,
  which is passed to the operations because its callbacks are bound to the server's state.
\<close>

record 'db Store =
  so_persist :: 'db
  so_procRoot :: string
  so_lib :: "'db thirdparty"
  so_max_node_size :: int

definition SESSION_PREFIX :: string where "SESSION_PREFIX = ''ss''"
definition COMMIT_PREFIX :: string where "COMMIT_PREFIX = ''commit''"
definition kMaxPathSize :: nat where "kMaxPathSize = 4096"

subsection \<open>Paths\<close>

text \<open>\<^verbatim>\<open>std::isalnum\<close> in the C locale.\<close>

definition isalnum :: "char \<Rightarrow> bool" where
  "isalnum c \<longleftrightarrow> (let n = (of_char c :: nat) in
     (48 \<le> n \<and> n \<le> 57) \<or> (65 \<le> n \<and> n \<le> 90) \<or> (97 \<le> n \<and> n \<le> 122))"

definition invalidChar :: "char \<Rightarrow> bool" where
  "invalidChar c \<longleftrightarrow>
     \<not> (isalnum c \<or> c = CHR ''_'' \<or> c = CHR ''/'' \<or> c = CHR ''-'' \<or> c = CHR ''.'')"

definition IsValidPath :: "string \<Rightarrow> bool" where
  "IsValidPath path \<longleftrightarrow>
     path \<noteq> [] \<and> hd path = slash \<and> length path < kMaxPathSize \<and> list_all (\<lambda>c. \<not> invalidChar c) path"

text \<open>\<^verbatim>\<open>SplitPath\<close>: the status and what it left in \<^verbatim>\<open>*parent\<close> and \<^verbatim>\<open>*son\<close>.\<close>

definition SplitPath :: "string \<Rightarrow> Status \<times> string \<times> string" where
  "SplitPath path = (case rfind slash path of
       None \<Rightarrow> (InvalidArgument path, [], [])
     | Some lastslash \<Rightarrow>
         (let parent = take lastslash path;
              son = drop (lastslash + 1) path;
              parent = (if parent = [] then ''/'' else parent)
          in if son = [] then (InvalidArgument path, parent, son) else (OK, parent, son)))"

subsection \<open>Nodes\<close>

definition AddChild :: "Node \<Rightarrow> string \<Rightarrow> Status \<times> Node" where
  "AddChild node son = (OK, node\<lparr>nd_children := nd_children node @ [son]\<rparr>)"

text \<open>The first occurrence is swapped with the last element, which is then removed.\<close>

definition RemoveChild :: "Node \<Rightarrow> string \<Rightarrow> Status \<times> Node" where
  "RemoveChild node son =
     (let children = nd_children node in
      case find (\<lambda>i. children ! i = son) [0..<length children] of
        Some i \<Rightarrow> (OK, node\<lparr>nd_children := butlast (children[i := last children])\<rparr>)
      | None \<Rightarrow> (NotFound (son @ '' not found in '' @ '' children''), node))"

definition NewNode :: "Node \<Rightarrow> string \<Rightarrow> u32 \<Rightarrow> Node" where
  "NewNode node data flag = node\<lparr>nd_data := data, nd_flags := flag, nd_version := 0\<rparr>"

subsection \<open>Reading and writing one node\<close>

definition under_proc :: "'db Store \<Rightarrow> string \<Rightarrow> bool" where
  "under_proc s path = StringStartsWith (toft (so_lib s)) path (so_procRoot s)"

definition max_bytes :: "'db Store \<Rightarrow> int" where
  "max_bytes s = int32 (so_max_node_size s * 1024)"

definition Store_Get :: "'db Store \<Rightarrow> 'e ProcDB \<Rightarrow> string \<Rightarrow> (Status \<times> Node) option" where
  "Store_Get s proc path =
     (let X = so_lib s in
      if \<not> IsValidPath path then Some (InvalidArgument path, Node_default)
      else do {
        (st, data) \<leftarrow> (if under_proc s path then ProcDB_Get (toft X) (pb X) proc path
                        else Some (ldb_Get (ldb X) (so_persist s) path));
        Some (if \<not> ldb_ok st then
                (if ldb_IsNotFound st then (NotFound path, Node_default)
                 else (Internal (path @ '' '' @ ldb_ToString (ldb X) st), Node_default))
              else (case node_ParseFromString (pb X) data of
                      (r, node) \<Rightarrow> if r then (OK, node) else (Internal (path @ '' bad data''), node))) })"

definition Store_Put ::
  "'db Store \<Rightarrow> 'e ProcDB \<Rightarrow> string \<Rightarrow> Node \<Rightarrow> Status \<times> 'db Store \<times> 'e list" where
  "Store_Put s proc path node =
     (let X = so_lib s in
      if \<not> IsValidPath path then (InvalidArgument ''invalid path'', s, [])
      else if node_ByteSize (pb X) node > max_bytes s then (InvalidArgument ''node size exceed'', s, [])
      else (case node_SerializeToString (pb X) node of (r, data) \<Rightarrow>
        if \<not> r then (Internal (path @ '' bad data''), s, [])
        else if under_proc s path then
          (case ProcDB_Put (toft X) proc path data of (st, es) \<Rightarrow>
             (if ldb_ok st then OK else Internal (path @ '' '' @ ldb_ToString (ldb X) st), s, es))
        else
          (case ldb_Put (ldb X) (so_persist s) path data of (st, db) \<Rightarrow>
             (if ldb_ok st then OK else Internal (path @ '' '' @ ldb_ToString (ldb X) st),
              s\<lparr>so_persist := db\<rparr>, []))))"

definition Store_Read :: "'db Store \<Rightarrow> 'e ProcDB \<Rightarrow> string \<Rightarrow> (Status \<times> string) option" where
  "Store_Read s proc path = do {
     (st, node) \<leftarrow> Store_Get s proc path;
     Some (if \<not> ok st then (st, []) else (OK, nd_data node)) }"

definition Store_Write ::
  "'db Store \<Rightarrow> 'e ProcDB \<Rightarrow> string \<Rightarrow> string \<Rightarrow> (Status \<times> 'db Store \<times> 'e list) option" where
  "Store_Write s proc path data = do {
     (st, node) \<leftarrow> Store_Get s proc path;
     Some (if \<not> ok st then (st, s, [])
           else Store_Put s proc path (node\<lparr>nd_data := data, nd_version := nd_version node + 1\<rparr>)) }"

subsection \<open>Creating and deleting nodes\<close>

definition Store_Create ::
  "'db Store \<Rightarrow> 'e ProcDB \<Rightarrow> string \<Rightarrow> string \<Rightarrow> u32 \<Rightarrow> sid_t \<Rightarrow> (Status \<times> 'db Store) option" where
  "Store_Create s proc path data flags sid =
     (let X = so_lib s in
      if under_proc s path then Some (InvalidArgument ''can't create node under pyxis node'', s)
      else if length data > to_size_t (max_bytes s) then Some (InvalidArgument ''node size exceed'', s)
      else (case SplitPath path of (st, parentName, sonName) \<Rightarrow>
        if \<not> ok st then Some (st, s)
        else do {
          (st, son) \<leftarrow> Store_Get s proc path;
          if ok st then Some (Exist path, s)
          else if IsInvalidArgument st then Some (st, s)
          else do {
            (st, parent) \<leftarrow> Store_Get s proc parentName;
            if \<not> ok st then Some (st, s)
            else if is_ephemeral parent then Some (InvalidArgument ''parent not persistent node'', s)
            else (case AddChild parent sonName of (st, parent) \<Rightarrow>
              if \<not> ok st then None
              else if node_ByteSize (pb X) parent > max_bytes s then
                Some (InvalidArgument ''node size exceed'', s)
              else
                (let son = NewNode son data flags;
                     son = (if sid > 0 then son\<lparr>nd_sid := sid\<rparr> else son);
                     batch = [BPut path (node_SerializeAsString (pb X) son),
                              BPut parentName (node_SerializeAsString (pb X) parent)]
                 in case ldb_Write (ldb X) (so_persist s) batch of (status, db) \<Rightarrow>
                   Some (if \<not> ldb_ok status then Internal (ldb_ToString (ldb X) status) else OK,
                         s\<lparr>so_persist := db\<rparr>))) } }))"

text \<open>A failed batch reports the text of the last successful status, which is empty.\<close>

definition Store_Delete :: "'db Store \<Rightarrow> 'e ProcDB \<Rightarrow> string \<Rightarrow> (Status \<times> 'db Store) option" where
  "Store_Delete s proc path =
     (let X = so_lib s in
      if under_proc s path then Some (InvalidArgument ''can't delete node under pyxis node'', s)
      else (case SplitPath path of (st, parentName, sonName) \<Rightarrow>
        if \<not> ok st then Some (st, s)
        else do {
          (st, son) \<leftarrow> Store_Get s proc path;
          if \<not> ok st then Some (if IsNotFound st then NotFound path else st, s)
          else if nd_children son \<noteq> [] then Some (InvalidArgument ''children not empty'', s)
          else do {
            (st, parent) \<leftarrow> Store_Get s proc parentName;
            if \<not> ok st then Some (st, s)
            else (case RemoveChild parent sonName of (st, parent) \<Rightarrow>
              if \<not> ok st then None
              else
                (let batch = [BDelete path,
                              BPut parentName (node_SerializeAsString (pb X) parent)]
                 in case ldb_Write (ldb X) (so_persist s) batch of (status, db) \<Rightarrow>
                   Some (if \<not> ldb_ok status then Internal (ToString st) else OK,
                         s\<lparr>so_persist := db\<rparr>))) } }))"

text \<open>\<^verbatim>\<open>Store::init\<close>: the root is written once; its first child is the proc root.\<close>

definition Store_init :: "'db Store \<Rightarrow> 'e ProcDB \<Rightarrow> 'db Store option" where
  "Store_init s proc =
     (let X = so_lib s in
      if ldb_ok (fst (ldb_Get (ldb X) (so_persist s) ''/'')) then Some s
      else
        (let r = NewNode Node_default [] kPersist;
             r = r\<lparr>nd_children := nd_children r @ [StringTrimLeft (toft X) (so_procRoot s) ''/'']\<rparr>
         in case Store_Put s proc ''/'' r of (st, s', es) \<Rightarrow> if ok st then Some s' else None))"

subsection \<open>Traversals\<close>

text \<open>The entries an iterator visits from \<^verbatim>\<open>Seek(start)\<close> while the key is below \<^verbatim>\<open>end\<close>.\<close>

definition seek_range :: "string \<Rightarrow> string \<Rightarrow> (string \<times> string) list \<Rightarrow> (string \<times> string) list" where
  "seek_range lo hi es = takeWhile (\<lambda>e. fst e < hi) (dropWhile (\<lambda>e. fst e < lo) es)"

definition Store_WalkTree ::
  "'db Store \<Rightarrow> (string \<Rightarrow> Node \<Rightarrow> 'w \<Rightarrow> 'w option) \<Rightarrow> 'w \<Rightarrow> (Status \<times> 'w) option" where
  "Store_WalkTree s func w =
     (let X = so_lib s in
      case ldb_Iterate (ldb X) (so_persist s) of (es, st) \<Rightarrow> do {
        w \<leftarrow> fold_opt (\<lambda>(key, value) w. func key (snd (node_ParseFromString (pb X) value)) w)
               (seek_range ''/'' (''/'' @ [CHR 0xFF]) es) w;
        Some (if ldb_ok st then OK else Internal (ldb_ToString (ldb X) st), w) })"

definition session_key :: "sid_t \<Rightarrow> string" where
  "session_key sid = SESSION_PREFIX @ u64_bytes sid"

definition Store_AddSession :: "'db Store \<Rightarrow> StoredSession \<Rightarrow> Status \<times> 'db Store" where
  "Store_AddSession s ss =
     (let X = so_lib s in
      case ldb_Put (ldb X) (so_persist s) (session_key (sp_sid ss))
             (snd (session_SerializeToString (pb X) ss)) of (st, db) \<Rightarrow>
        (if ldb_ok st then OK else Internal (ldb_ToString (ldb X) st), s\<lparr>so_persist := db\<rparr>))"

definition Store_RemoveSession :: "'db Store \<Rightarrow> sid_t \<Rightarrow> Status \<times> 'db Store" where
  "Store_RemoveSession s sid =
     (let X = so_lib s in
      case ldb_Delete (ldb X) (so_persist s) (session_key sid) of (st, db) \<Rightarrow>
        (if ldb_ok st then OK else Internal (ldb_ToString (ldb X) st), s\<lparr>so_persist := db\<rparr>))"

definition walk_session_entry ::
  "protolib \<Rightarrow> (StoredSession \<Rightarrow> 'w \<Rightarrow> 'w option) \<Rightarrow> string \<times> string \<Rightarrow> 'w \<Rightarrow> 'w option" where
  "walk_session_entry P func e w =
     (case e of (key, value) \<Rightarrow>
        if length key \<noteq> length SESSION_PREFIX + 8 then None
        else
          (let sid = u64_of_bytes (drop (length SESSION_PREFIX) key);
               ss = snd (session_ParseFromString P value)
           in if sid \<noteq> sp_sid ss then None else func ss w))"

definition Store_WalkSessions ::
  "'db Store \<Rightarrow> (StoredSession \<Rightarrow> 'w \<Rightarrow> 'w option) \<Rightarrow> 'w \<Rightarrow> (Status \<times> 'w) option" where
  "Store_WalkSessions s func w =
     (let X = so_lib s in
      case ldb_Iterate (ldb X) (so_persist s) of (es, st) \<Rightarrow> do {
        w \<leftarrow> fold_opt (walk_session_entry (pb X) func)
               (seek_range SESSION_PREFIX (SESSION_PREFIX @ replicate 8 (CHR 0xFF)) es) w;
        Some (if ldb_ok st then OK else Internal (ldb_ToString (ldb X) st), w) })"

subsection \<open>The commit index\<close>

definition Store_SetCommitIndex :: "'db Store \<Rightarrow> u64 \<Rightarrow> Status \<times> 'db Store" where
  "Store_SetCommitIndex s idx =
     (let X = so_lib s in
      case ldb_Put (ldb X) (so_persist s) COMMIT_PREFIX (u64_bytes idx) of (st, db) \<Rightarrow>
        (if ldb_ok st then OK else Internal (ldb_ToString (ldb X) st), s\<lparr>so_persist := db\<rparr>))"

text \<open>The second component is what was stored into \<^verbatim>\<open>*idx\<close>, if anything was.\<close>

definition Store_GetCommitIndex :: "'db Store \<Rightarrow> (Status \<times> u64 option) option" where
  "Store_GetCommitIndex s =
     (let X = so_lib s in
      case ldb_Get (ldb X) (so_persist s) COMMIT_PREFIX of (st, value) \<Rightarrow>
        if ldb_IsNotFound st then Some (OK, Some 0)
        else if \<not> ldb_ok st then Some (Internal (ldb_ToString (ldb X) st), None)
        else if length value \<noteq> 8 then None
        else Some (OK, Some (u64_of_bytes value)))"

subsection \<open>Snapshots\<close>

text \<open>The copying loop: the target database, the open batch and its size, and the status of
  the last write. Every 1024 entries the batch is written and cleared.\<close>

fun snapshot_loop ::
  "'db leveldb \<Rightarrow> (string \<times> string) list \<Rightarrow> 'db \<Rightarrow> batch_op list \<Rightarrow> nat \<Rightarrow> ldb_status
     \<Rightarrow> 'db \<times> batch_op list \<times> nat \<times> ldb_status" where
  "snapshot_loop L [] newdb batch n st = (newdb, batch, n, st)"
| "snapshot_loop L ((k, v) # es) newdb batch n st =
     (let batch = batch @ [BPut k v]; n = n + 1 in
      if n \<ge> 1024 then
        (case ldb_Write L newdb batch of (st, newdb) \<Rightarrow> snapshot_loop L es newdb [] 0 st)
      else snapshot_loop L es newdb batch n st)"

text \<open>\<^verbatim>\<open>Store::TakeSnapshot\<close>, given the database that \<^verbatim>\<open>leveldb::DB::Open\<close> opened under the
  snapshot's path; the result is its final contents, \<open>None\<close> when the closing \<^verbatim>\<open>CHECK\<close> fails.\<close>

definition Store_TakeSnapshot :: "'db Store \<Rightarrow> 'db \<Rightarrow> 'db option" where
  "Store_TakeSnapshot s newdb =
     (let L = ldb (so_lib s) in
      case ldb_Iterate L (so_persist s) of (es, st1) \<Rightarrow>
      case snapshot_loop L es newdb [] 0 ldb_OK of (newdb, batch, n, st) \<Rightarrow>
      case (if n > 0 then ldb_Write L newdb batch else (st, newdb)) of (st, newdb) \<Rightarrow>
        if ldb_ok st \<and> ldb_ok st1 then Some newdb else None)"

subsection \<open>The database's own status node\<close>

definition OnProcDBStatusRead :: "'db Store \<Rightarrow> string list \<Rightarrow> Status \<times> string" where
  "OnProcDBStatusRead s args =
     (let X = so_lib s;
          node = Node_default\<lparr>nd_flags := kPersist, nd_data := [], nd_version := 0\<rparr>
      in case args of
           [] \<Rightarrow> (OK, snd (node_SerializeToString (pb X) (node\<lparr>nd_children :=
                   [''leveldb.num-files-at-level<N>'', ''leveldb.stats'', ''leveldb.sstables'']\<rparr>)))
         | a # _ \<Rightarrow>
             (case ldb_GetProperty (ldb X) (so_persist s) a of
                None \<Rightarrow> (InvalidArgument (''bad request '' @ a), [])
              | Some d \<Rightarrow> (OK, snd (node_SerializeToString (pb X) (node\<lparr>nd_data := d\<rparr>)))))"

end
