(* ===== verification/Doubles.thy ===== *)
theory Doubles
  imports Prelude "HOL-Library.Log_Nat"
begin

text \<open>
  The \<^verbatim>\<open>double\<close> arithmetic of the session timers: the result of an operation is the exact
  rational rounded to the nearest number of 53 significant bits, ties to even. The range of
  the exponent is left out; the values are times and quotients of times.
\<close>

definition ilog2 :: "rat \<Rightarrow> int" where
  "ilog2 x = (case quotient_of x of (n, d) \<Rightarrow>
     (let e = int (floorlog 2 (nat n)) - int (floorlog 2 (nat d))
      in if 2 powi e \<le> x then e else e - 1))"

definition round_even :: "rat \<Rightarrow> int" where
  "round_even r = (let f = \<lfloor>r\<rfloor>; d = r - of_int f in
     if d < 1 / 2 then f else if d > 1 / 2 then f + 1 else if even f then f else f + 1)"

definition fl :: "rat \<Rightarrow> rat" where
  "fl x = (if x = 0 then 0 else
     (let u = 2 powi (ilog2 \<bar>x\<bar> - 52) in of_int (round_even (x / u)) * u))"

text \<open>\<^verbatim>\<open>static_cast<int64_t>\<close> of a \<^verbatim>\<open>double\<close>.\<close>

definition trunc :: "rat \<Rightarrow> int" where
  "trunc r = (if r < 0 then \<lceil>r\<rceil> else \<lfloor>r\<rfloor>)"

lemma ilog2_le:
  assumes "0 < x"
  shows "2 powi (ilog2 x) \<le> x"
proof -
  obtain n d where q: "quotient_of x = (n, d)" by fastforce
  have x: "x = of_int n / of_int d" and d: "0 < d"
    using quotient_of_div [OF q] quotient_of_denom_pos [OF q] by auto
  have n: "0 < n" using assms x d by (simp add: zero_less_divide_iff)
  let ?a = "floorlog 2 (nat n)" and ?b = "floorlog 2 (nat d)"
  have a: "2 ^ (?a - 1) \<le> nat n" and b: "nat d < 2 ^ ?b"
    using floorlog_bounds [of "nat n" 2] floorlog_bounds [of "nat d" 2] n d by auto
  have "?a \<noteq> 0" using n by (simp add: floorlog_eq_zero_iff)
  have a': "(2 :: rat) ^ (?a - 1) \<le> of_int n"
    using a n by (metis (mono_tags, opaque_lifting) nat_le_iff of_int_le_iff of_int_numeral of_int_power
        int_nat_eq le_nat_iff less_imp_le of_nat_numeral of_nat_power order_le_less zle_int nat_0_le)
  have b': "of_int d < (2 :: rat) ^ ?b"
    using b d by (metis nat_less_numeral_power_cancel_iff of_int_less_iff of_int_numeral of_int_power)
  have "(2 :: rat) powi (int ?a - int ?b - 1) = 2 ^ (?a - 1) / 2 ^ ?b"
    using \<open>?a \<noteq> 0\<close> by (simp add: power_int_diff power_diff divide_simps)
  also have "\<dots> \<le> of_int n / of_int d"
    using a' b' d n by (intro frac_le) auto
  finally show ?thesis using q x by (simp add: ilog2_def Let_def)
qed

lemma round_even_close: "\<bar>of_int (round_even r) - r\<bar> \<le> 1 / 2"
proof -
  have "of_int \<lfloor>r\<rfloor> \<le> r" and "r < of_int \<lfloor>r\<rfloor> + 1" by linarith+
  then show ?thesis unfolding round_even_def Let_def by (auto simp: abs_le_iff split: if_splits)
qed

lemma round_even_int: "round_even (of_int k) = k"
  by (simp add: round_even_def)

lemma fl_close: "\<bar>fl x - x\<bar> \<le> \<bar>x\<bar> / 2 ^ 53"
proof (cases "x = 0")
  case False
  define u where "u = (2 :: rat) powi (ilog2 \<bar>x\<bar> - 52)"
  have u: "0 < u" "u \<le> \<bar>x\<bar> / 2 ^ 52"
    using ilog2_le [of "\<bar>x\<bar>"] False by (simp_all add: u_def power_int_diff field_simps)
  have "fl x - x = (of_int (round_even (x / u)) - x / u) * u"
    using False u by (simp add: fl_def u_def [symmetric] Let_def field_simps)
  then have "\<bar>fl x - x\<bar> = \<bar>of_int (round_even (x / u)) - x / u\<bar> * u" using u by (simp add: abs_mult)
  also have "\<dots> \<le> 1 / 2 * u" using round_even_close [of "x / u"] u by (intro mult_right_mono) auto
  also have "\<dots> \<le> \<bar>x\<bar> / 2 ^ 53" using u by simp
  finally show ?thesis .
qed (simp add: fl_def)

lemma fl_int:
  assumes "0 \<le> n" and "n < 2 ^ 53"
  shows "fl (of_int n) = of_int n"
proof (cases "n = 0")
  case False
  then have n: "0 < n" using assms by simp
  define e where "e = ilog2 (of_int n)"
  have "2 powi e \<le> (of_int n :: rat)" unfolding e_def using n by (intro ilog2_le) simp
  also have "\<dots> < 2 powi 53" using assms(2) by (metis of_int_less_iff of_int_numeral of_int_power power_int_numeral)
  finally have "e < 53" using power_int_increasing [of 53 e "2 :: rat"] by linarith
  define k where "k = nat (52 - e)"
  have e': "e - 52 = - int k" using \<open>e < 53\<close> by (simp add: k_def)
  have "of_int n / (2 powi (e - 52)) = (of_int (n * 2 ^ k) :: rat)"
    by (simp add: e' power_int_minus divide_inverse)
  then have "fl (of_int n) = of_int (round_even (of_int (n * 2 ^ k))) * 2 powi (e - 52)"
    using n by (simp add: fl_def e_def Let_def)
  also have "\<dots> = of_int n" unfolding round_even_int by (simp add: e' power_int_minus)
  finally show ?thesis .
qed (simp add: fl_def)

end
