(* ===== verification/Reference_Libs.thy ===== *)
theory Reference_Libs
  imports Thirdparty Doubles
begin

text \<open>
  An executable instance of the libraries: the database is an ordered map that never fails,
  messages are written field by field with unary lengths, strings are split at every
  separator and empty pieces are dropped. It shows that the contracts of \<open>Thirdparty\<close> can hold
  together, and the concrete runs that accompany the theorems are evaluated on it.
\<close>

subsection \<open>A database that never fails\<close>

type_synonym memdb = "(string, string) omap"

fun mem_apply :: "batch_op list \<Rightarrow> memdb \<Rightarrow> memdb" where
  "mem_apply [] m = m"
| "mem_apply (BPut k v # b) m = mem_apply b (om_put k v m)"
| "mem_apply (BDelete k # b) m = mem_apply b (om_erase k m)"

text \<open>An iterator runs over the entries in key order.\<close>

definition mem_entries :: "memdb \<Rightarrow> memdb" where
  "mem_entries m = foldr (\<lambda>(k, v). om_put k v) m []"

lemma mem_entries [simp]: "om_invar (mem_entries m)" "om_find (mem_entries m) = om_find m"
  by (induction m) (auto simp: mem_entries_def)

definition memdb_ops :: "memdb leveldb" where
  "memdb_ops = \<lparr>
     ldb_Get = (\<lambda>m k. case om_find m k of Some v \<Rightarrow> (ldb_OK, v) | None \<Rightarrow> (ldb_NotFound k, [])),
     ldb_Put = (\<lambda>m k v. (ldb_OK, om_put k v m)),
     ldb_Delete = (\<lambda>m k. (ldb_OK, om_erase k m)),
     ldb_Write = (\<lambda>m b. (ldb_OK, mem_apply b m)),
     ldb_Iterate = (\<lambda>m. (mem_entries m, ldb_OK)),
     ldb_GetProperty = (\<lambda>m p. None),
     ldb_ToString = (\<lambda>s. [])\<rparr>"

lemma memdb_ops_sel [simp]:
  "ldb_Get memdb_ops m k =
     (case om_find m k of Some v \<Rightarrow> (ldb_OK, v) | None \<Rightarrow> (ldb_NotFound k, []))"
  "ldb_Put memdb_ops m k v = (ldb_OK, om_put k v m)"
  "ldb_Delete memdb_ops m k = (ldb_OK, om_erase k m)"
  "ldb_Write memdb_ops m b = (ldb_OK, mem_apply b m)"
  "ldb_Iterate memdb_ops m = (mem_entries m, ldb_OK)"
  by (simp_all add: memdb_ops_def)

lemma memdb_view [simp]: "ldb_view memdb_ops m = om_find m"
  by (auto simp: ldb_view_def ldb_ok_def split: option.splits)

lemma memdb_readable [simp]: "ldb_readable memdb_ops m"
  by (auto simp: ldb_readable_def ldb_ok_def ldb_IsNotFound_def split: option.splits)

lemma om_find_put_fun: "om_find (om_put k v m) = (om_find m)(k \<mapsto> v)"
  and om_find_erase_fun: "om_find (om_erase k m) = (om_find m)(k := None)"
  by auto

lemma om_find_mem_apply: "om_find (mem_apply b m) = apply_batch b (om_find m)"
  by (induction b m rule: mem_apply.induct)
    (simp_all only: mem_apply.simps apply_batch.simps om_find_put_fun om_find_erase_fun)

lemma memdb_ok: "leveldb_ok memdb_ops"
  by (auto simp: leveldb_ok_def ldb_ok_def om_find_mem_apply split: if_splits)

subsection \<open>A message encoding\<close>

definition enc_nat :: "nat \<Rightarrow> string" where
  "enc_nat n = replicate n CHR ''1'' @ ''0''"

fun dec_nat :: "string \<Rightarrow> (nat \<times> string) option" where
  "dec_nat [] = None"
| "dec_nat (c # cs) =
     (if c = CHR ''1'' then map_option (\<lambda>(n, r). (Suc n, r)) (dec_nat cs) else Some (0, cs))"

definition enc_str :: "string \<Rightarrow> string" where
  "enc_str s = enc_nat (length s) @ s"

definition dec_str :: "string \<Rightarrow> (string \<times> string) option" where
  "dec_str r = map_option (\<lambda>(n, r). (take n r, drop n r)) (dec_nat r)"

definition enc_list :: "('a \<Rightarrow> string) \<Rightarrow> 'a list \<Rightarrow> string" where
  "enc_list e xs = enc_nat (length xs) @ concat (map e xs)"

fun dec_items :: "(string \<Rightarrow> ('a \<times> string) option) \<Rightarrow> nat \<Rightarrow> string \<Rightarrow> ('a list \<times> string) option" where
  "dec_items d 0 r = Some ([], r)"
| "dec_items d (Suc n) r = do {
     (x, r) \<leftarrow> d r;
     (xs, r) \<leftarrow> dec_items d n r;
     Some (x # xs, r) }"

definition dec_list :: "(string \<Rightarrow> ('a \<times> string) option) \<Rightarrow> string \<Rightarrow> ('a list \<times> string) option" where
  "dec_list d r = do { (n, r) \<leftarrow> dec_nat r; dec_items d n r }"

lemma dec_enc_nat [simp]: "dec_nat (enc_nat n @ r) = Some (n, r)"
  by (induction n) (simp_all add: enc_nat_def)

lemma dec_enc_str [simp]: "dec_str (enc_str s @ r) = Some (s, r)"
  by (simp add: dec_str_def enc_str_def)

lemma dec_enc_list [simp]:
  assumes "\<And>x r. d (e x @ r) = Some (x, r)"
  shows "dec_list d (enc_list e xs @ r) = Some (xs, r)"
proof -
  have "dec_items d (length xs) (concat (map e xs) @ r) = Some (xs, r)"
    by (induction xs) (simp_all add: assms)
  then show ?thesis by (simp add: dec_list_def enc_list_def)
qed

definition enc_node :: "Node \<Rightarrow> string" where
  "enc_node n = enc_str (nd_data n) @ enc_list enc_str (nd_children n) @ enc_nat (unat (nd_flags n))
     @ enc_nat (unat (nd_version n)) @ enc_nat (unat (nd_sid n))"

definition dec_node :: "string \<Rightarrow> Node option" where
  "dec_node r = do {
     (d, r) \<leftarrow> dec_str r;
     (c, r) \<leftarrow> dec_list dec_str r;
     (f, r) \<leftarrow> dec_nat r;
     (v, r) \<leftarrow> dec_nat r;
     (s, r) \<leftarrow> dec_nat r;
     Some \<lparr>nd_data = d, nd_children = c, nd_flags = word_of_nat f, nd_version = word_of_nat v,
           nd_sid = word_of_nat s\<rparr> }"

definition enc_watch :: "StoredWatch \<Rightarrow> string" where
  "enc_watch w = enc_str (sw_path w) @ enc_nat (unat (sw_type w))
     @ enc_nat (if sw_recursive w then 1 else 0)"

definition dec_watch :: "string \<Rightarrow> (StoredWatch \<times> string) option" where
  "dec_watch r = do {
     (p, r) \<leftarrow> dec_str r;
     (t, r) \<leftarrow> dec_nat r;
     (c, r) \<leftarrow> dec_nat r;
     Some (\<lparr>sw_path = p, sw_type = word_of_nat t, sw_recursive = (c = 1)\<rparr>, r) }"

definition enc_session :: "StoredSession \<Rightarrow> string" where
  "enc_session s = enc_nat (unat (sp_sid s)) @ enc_list enc_watch (sp_watch s)
     @ enc_list enc_str (sp_node s) @ enc_nat (unat (sp_timeout s))"

definition dec_session :: "string \<Rightarrow> StoredSession option" where
  "dec_session r = do {
     (i, r) \<leftarrow> dec_nat r;
     (w, r) \<leftarrow> dec_list dec_watch r;
     (n, r) \<leftarrow> dec_list dec_str r;
     (t, r) \<leftarrow> dec_nat r;
     Some \<lparr>sp_sid = word_of_nat i, sp_watch = w, sp_node = n, sp_timeout = word_of_nat t\<rparr> }"

lemma dec_enc_node [simp]: "dec_node (enc_node n) = Some n"
proof -
  have "dec_nat (enc_nat k) = Some (k, [])" for k using dec_enc_nat [of k "[]"] by simp
  then show ?thesis by (simp add: dec_node_def enc_node_def)
qed

lemma dec_enc_watch [simp]: "dec_watch (enc_watch w @ r) = Some (w, r)"
  by (simp add: dec_watch_def enc_watch_def)

lemma dec_enc_session [simp]: "dec_session (enc_session s) = Some s"
proof -
  have "dec_nat (enc_nat k) = Some (k, [])" for k using dec_enc_nat [of k "[]"] by simp
  then show ?thesis by (simp add: dec_session_def enc_session_def)
qed

definition enc_opt :: "('a \<Rightarrow> string) \<Rightarrow> 'a option \<Rightarrow> string" where
  "enc_opt e x = enc_list e (case x of None \<Rightarrow> [] | Some y \<Rightarrow> [y])"

definition dec_opt :: "(string \<Rightarrow> ('a \<times> string) option) \<Rightarrow> string \<Rightarrow> ('a option \<times> string) option" where
  "dec_opt d r = map_option (\<lambda>(xs, r). (case xs of [] \<Rightarrow> None | x # _ \<Rightarrow> Some x, r)) (dec_list d r)"

definition enc_word :: "'a::len word \<Rightarrow> string" where
  "enc_word w = enc_nat (unat w)"

definition dec_word :: "string \<Rightarrow> ('a::len word \<times> string) option" where
  "dec_word r = map_option (\<lambda>(n, r). (word_of_nat n, r)) (dec_nat r)"

definition enc_bool :: "bool \<Rightarrow> string" where
  "enc_bool b = enc_nat (if b then 1 else 0)"

definition dec_bool :: "string \<Rightarrow> (bool \<times> string) option" where
  "dec_bool r = map_option (\<lambda>(n, r). (n = 1, r)) (dec_nat r)"

lemma dec_enc_opt [simp]:
  "(\<And>x r. d (e x @ r) = Some (x, r)) \<Longrightarrow> dec_opt d (enc_opt e x @ r) = Some (x, r)"
  by (cases x) (simp_all add: dec_opt_def enc_opt_def)

lemma dec_enc_word [simp]: "dec_word (enc_word w @ r) = Some (w, r)"
  by (simp add: dec_word_def enc_word_def)

lemma dec_enc_bool [simp]: "dec_bool (enc_bool b @ r) = Some (b, r)"
  by (simp add: dec_bool_def enc_bool_def)

definition enc_create :: "CreateRequest \<Rightarrow> string" where
  "enc_create c = enc_str (cr_path c) @ enc_word (cr_flags c) @ enc_str (cr_data c)"

definition dec_create :: "string \<Rightarrow> (CreateRequest \<times> string) option" where
  "dec_create r = do {
     (p, r) \<leftarrow> dec_str r; (f, r) \<leftarrow> dec_word r; (d, r) \<leftarrow> dec_str r;
     Some (\<lparr>cr_path = p, cr_flags = f, cr_data = d\<rparr>, r) }"

definition enc_write :: "WriteRequest \<Rightarrow> string" where
  "enc_write w = enc_str (wr_path w) @ enc_str (wr_data w)"

definition dec_write :: "string \<Rightarrow> (WriteRequest \<times> string) option" where
  "dec_write r = do {
     (p, r) \<leftarrow> dec_str r; (d, r) \<leftarrow> dec_str r;
     Some (\<lparr>wr_path = p, wr_data = d\<rparr>, r) }"

definition enc_watchreq :: "WatchRequest \<Rightarrow> string" where
  "enc_watchreq w = enc_str (wq_path w) @ enc_word (wq_watch w) @ enc_bool (wq_recursive w)"

definition dec_watchreq :: "string \<Rightarrow> (WatchRequest \<times> string) option" where
  "dec_watchreq r = do {
     (p, r) \<leftarrow> dec_str r; (t, r) \<leftarrow> dec_word r; (c, r) \<leftarrow> dec_bool r;
     Some (\<lparr>wq_path = p, wq_watch = t, wq_recursive = c\<rparr>, r) }"

lemma dec_enc_parts [simp]:
  "dec_create (enc_create c @ r) = Some (c, r)" "dec_write (enc_write w @ r) = Some (w, r)"
  "dec_watchreq (enc_watchreq q @ r) = Some (q, r)"
  by (simp_all add: dec_create_def enc_create_def dec_write_def enc_write_def dec_watchreq_def
      enc_watchreq_def)

definition enc_request :: "Request \<Rightarrow> string" where
  "enc_request q = enc_opt enc_word (rq_sid q) @ enc_word (rq_xid q) @ enc_opt enc_word (rq_register q)
     @ enc_bool (rq_unregister q) @ enc_bool (rq_ping q) @ enc_opt enc_create (rq_create q)
     @ enc_opt enc_str (rq_delete q) @ enc_opt enc_write (rq_write q) @ enc_opt enc_str (rq_read q)
     @ enc_opt enc_str (rq_stat q) @ enc_opt enc_watchreq (rq_watch q)"

definition dec_request :: "string \<Rightarrow> (Request \<times> string) option" where
  "dec_request r = do {
     (sid, r) \<leftarrow> dec_opt dec_word r; (xid, r) \<leftarrow> dec_word r; (reg, r) \<leftarrow> dec_opt dec_word r;
     (unr, r) \<leftarrow> dec_bool r; (ping, r) \<leftarrow> dec_bool r; (cr, r) \<leftarrow> dec_opt dec_create r;
     (del, r) \<leftarrow> dec_opt dec_str r; (wr, r) \<leftarrow> dec_opt dec_write r; (rd, r) \<leftarrow> dec_opt dec_str r;
     (stt, r) \<leftarrow> dec_opt dec_str r; (wt, r) \<leftarrow> dec_opt dec_watchreq r;
     Some (\<lparr>rq_sid = sid, rq_xid = xid, rq_register = reg, rq_unregister = unr, rq_ping = ping,
       rq_create = cr, rq_delete = del, rq_write = wr, rq_read = rd, rq_stat = stt, rq_watch = wt\<rparr>, r) }"

lemma dec_enc_request: "dec_request (enc_request q @ r) = Some (q, r)"
  by (simp add: dec_request_def enc_request_def)

lemma dec_enc_request_end [simp]: "dec_request (enc_request q) = Some (q, [])"
  using dec_enc_request [of q "[]"] by simp

definition ref_proto :: protolib where
  "ref_proto = \<lparr>
     node_SerializeToString = (\<lambda>n. (True, enc_node n)),
     node_ParseFromString =
       (\<lambda>s. case dec_node s of Some n \<Rightarrow> (True, n) | None \<Rightarrow> (False, Node_default)),
     node_ByteSize = (\<lambda>n. int (length (enc_node n))),
     session_SerializeToString = (\<lambda>s. (True, enc_session s)),
     session_ParseFromString = (\<lambda>r. case dec_session r of Some s \<Rightarrow> (True, s)
       | None \<Rightarrow> (False, \<lparr>sp_sid = 0, sp_watch = [], sp_node = [], sp_timeout = 0\<rparr>)),
     request_SerializeAsString = enc_request,
     request_ParseFromString = (\<lambda>r. case dec_request r of Some (q, _) \<Rightarrow> (True, q)
       | None \<Rightarrow> (False, Request_default)),
     session_Json = (\<lambda>s j l. enc_session s)\<rparr>"

lemma length_enc_node: "length (nd_data n) \<le> length (enc_node n)"
  by (simp add: enc_node_def enc_str_def)

lemma ref_proto_ok: "proto_ok ref_proto"
  by (simp add: proto_ok_def ref_proto_def length_enc_node)

subsection \<open>String helpers\<close>

fun split_on :: "char \<Rightarrow> string \<Rightarrow> string \<Rightarrow> string list" where
  "split_on c [] acc = (if acc = [] then [] else [rev acc])"
| "split_on c (x # xs) acc =
     (if x = c then (if acc = [] then [] else [rev acc]) @ split_on c xs []
      else split_on c xs (x # acc))"

fun join_with :: "string \<Rightarrow> string list \<Rightarrow> string" where
  "join_with d [] = []"
| "join_with d [x] = x"
| "join_with d (x # y # ys) = x @ d @ join_with d (y # ys)"

fun is_prefix :: "'a list \<Rightarrow> 'a list \<Rightarrow> bool" where
  "is_prefix [] ys = True"
| "is_prefix (x # xs) [] = False"
| "is_prefix (x # xs) (y # ys) = (x = y \<and> is_prefix xs ys)"

lemma is_prefix_iff [simp]: "is_prefix p s = prefix p s"
  by (induction p s rule: is_prefix.induct) auto

definition ref_toft :: toftlib where
  "ref_toft = \<lparr>
     StringStartsWith = (\<lambda>s p. is_prefix p s),
     StringTrimLeft = (\<lambda>s cs. dropWhile (\<lambda>c. c \<in> set cs) s),
     SplitString = (\<lambda>s d. case d of [] \<Rightarrow> [s] | c # _ \<Rightarrow> split_on c s []),
     PathJoin = (\<lambda>a b. a @ ''/'' @ b),
     NumberToString = (\<lambda>n. enc_nat (unat n)),
     StringToNumber = (\<lambda>s. map_option (\<lambda>(n, r). word_of_nat n) (dec_nat s)),
     JoinStrings = (\<lambda>xs d. join_with d xs)\<rparr>"

lemma ref_toft_ok: "toft_ok ref_toft"
proof -
  have "dec_nat (enc_nat k) = Some (k, [])" for k using dec_enc_nat [of k "[]"] by simp
  then show ?thesis by (simp add: toft_ok_def ref_toft_def)
qed

definition ref_libs :: "memdb thirdparty" where
  "ref_libs = \<lparr>ldb = memdb_ops, pb = ref_proto, toft = ref_toft,
     addTime = (\<lambda>t s. t + trunc (fl (s * 1000000))), raft_LEADER = 3, raft_STOP = 0\<rparr>"

lemma ref_libs_ok: "thirdparty_ok ref_libs"
  by (simp add: thirdparty_ok_def ref_libs_def memdb_ok ref_proto_ok ref_toft_ok)

end
