(* ===== verification/Store_Tree.thy ===== *)
theory Store_Tree
  imports Store Reference_Libs
begin

text \<open>
  The tree of nodes as a data structure: the abstract view of the store (a partial map from
  paths to nodes), the invariant that ties every node to its parent's list of children, and
  the proof that the operations of \<open>Store\<close> refine map updates, keep the invariant and never
  reach a failing \<^verbatim>\<open>CHECK\<close>.
\<close>

subsection \<open>Paths\<close>

lemma SplitPath_append:
  "slash \<notin> set son \<Longrightarrow> SplitPath (a @ slash # son) =
     (if son = [] then InvalidArgument (a @ slash # son) else OK, if a = [] then ''/'' else a, son)"
  by (simp add: SplitPath_def)

lemma SplitPath_cases:
  obtains (noslash) "slash \<notin> set path" "SplitPath path = (InvalidArgument path, [], [])"
  | (slashed) a son where "path = a @ slash # son" "slash \<notin> set son"
      "SplitPath path = (if son = [] then InvalidArgument path else OK,
         if a = [] then ''/'' else a, son)"
proof (cases "slash \<in> set path")
  case False
  then have "rfind slash path = None" by simp
  with False noslash show thesis by (simp add: SplitPath_def)
next
  case True
  then obtain a son where "path = a @ slash # son" "slash \<notin> set son" by (meson split_list_last)
  with slashed SplitPath_append show thesis by blast
qed

text \<open>The keys whose \<^verbatim>\<open>SplitPath\<close> is a given parent and son: a child of the root can be
  written with one slash or with two.\<close>

definition child_paths :: "string \<Rightarrow> string \<Rightarrow> string list" where
  "child_paths p son =
     (if son = [] \<or> slash \<in> set son then []
      else if p = ''/'' then [slash # son, slash # slash # son]
      else if p = [] then [] else [p @ slash # son])"

lemma SplitPath_child_paths:
  "SplitPath q = (OK, p, son) \<longleftrightarrow> q \<in> set (child_paths p son)"
proof
  assume "SplitPath q = (OK, p, son)"
  then show "q \<in> set (child_paths p son)"
    by (cases q rule: SplitPath_cases) (auto simp: child_paths_def split: if_splits)
next
  assume "q \<in> set (child_paths p son)"
  then obtain a where "q = a @ slash # son" "slash \<notin> set son" "son \<noteq> []"
    "p = (if a = [] then ''/'' else a)"
    by (fastforce simp: child_paths_def split: if_splits)
  then show "SplitPath q = (OK, p, son)" by (simp add: SplitPath_append)
qed

lemma distinct_child_paths [simp]: "distinct (child_paths p son)"
  by (simp add: child_paths_def)

lemma SplitPath_shorter:
  assumes "SplitPath q = (OK, p, son)" and "hd q = slash"
  shows "q \<noteq> ''/''" and "q \<noteq> p" and "p \<noteq> []" and "hd p = slash" and "son \<noteq> []"
proof -
  have "q \<in> set (child_paths p son)" using assms(1) SplitPath_child_paths by blast
  then show "q \<noteq> ''/''" and "q \<noteq> p" and "p \<noteq> []" and "hd p = slash" and "son \<noteq> []"
    using assms(2) by (auto simp: child_paths_def append_eq_Cons_conv split: if_splits)
qed

lemma SplitPath_parent_valid:
  assumes "SplitPath q = (OK, p, son)" and "IsValidPath q"
  shows "IsValidPath p" and "p = ''/'' \<or> strict_prefix p q"
proof -
  have q: "q \<in> set (child_paths p son)" using assms(1) SplitPath_child_paths by blast
  then have "p = ''/'' \<or> (p \<noteq> [] \<and> q = p @ slash # son)"
    by (auto simp: child_paths_def split: if_splits)
  then show "IsValidPath p" and "p = ''/'' \<or> strict_prefix p q"
    using assms(2)
    by (auto simp: IsValidPath_def kMaxPathSize_def invalidChar_def strict_prefix_def)
qed

text \<open>
  Splitting a path and writing the parts together again: \<^verbatim>\<open>SplitPath\<close> accepts exactly
  the paths that have a slash and a non-empty last component, the son it returns has no slash,
  and the path is the parent, a slash and the son; the empty parent is replaced by the root.
  The root itself can also be the literal parent, of a path that begins with two slashes.
\<close>

theorem SplitPath_roundtrip:
  "(ok (fst (SplitPath path)) \<longleftrightarrow> (\<exists>a b. path = a @ slash # b \<and> slash \<notin> set b \<and> b \<noteq> []))
   \<and> (\<forall>p son. SplitPath path = (OK, p, son) \<longrightarrow>
        slash \<notin> set son \<and> son \<noteq> []
        \<and> (path = p @ slash # son \<or> p = ''/'' \<and> path = slash # son))"
proof (cases path rule: SplitPath_cases)
  case noslash
  then show ?thesis by auto
next
  case (slashed a b)
  have "\<exists>x y. path = x @ slash # y \<and> slash \<notin> set y \<and> y \<noteq> []" if "b \<noteq> []"
    using slashed that by blast
  moreover have "b \<noteq> []" if "path = x @ slash # y" "slash \<notin> set y" "y \<noteq> []" for x y
    using split_last_unique [of a slash b x y] slashed that by auto
  ultimately show ?thesis using slashed by (auto split: if_splits)
qed

theorem SplitPath_roundtrip_witness:
  "SplitPath ''/aos/hello'' = (OK, ''/aos'', ''hello'') \<and> slash \<notin> set ''hello''
   \<and> SplitPath ''/aos'' = (OK, ''/'', ''aos'')"
proof -
  have "SplitPath ''/aos/hello'' = (OK, ''/aos'', ''hello'')"
    and root: "SplitPath ''/aos'' = (OK, ''/'', ''aos'')"
    by (simp_all add: SplitPath_def)
  then show ?thesis using SplitPath_roundtrip [of "''/aos/hello''"] by blast
qed

subsection \<open>The abstract tree\<close>

definition nodes_of :: "protolib \<Rightarrow> (string \<rightharpoonup> string) \<Rightarrow> (string \<rightharpoonup> Node)" where
  "nodes_of P m p = (case m p of None \<Rightarrow> None
     | Some v \<Rightarrow> (case node_ParseFromString P v of (r, n) \<Rightarrow> if r then Some n else None))"

definition store_view :: "'db Store \<Rightarrow> (string \<rightharpoonup> string)" where
  "store_view s = ldb_view (ldb (so_lib s)) (so_persist s)"

definition node_at :: "'db Store \<Rightarrow> (string \<rightharpoonup> Node)" where
  "node_at s = nodes_of (pb (so_lib s)) (store_view s)"

definition key_path :: "string \<Rightarrow> bool" where
  "key_path p \<longleftrightarrow> (\<exists>r. p = slash # r)"

text \<open>The environment of a store: its libraries meet their contracts, the database answers its
  reads, what is stored under a path is a node, and the proc root is one component long.\<close>

definition store_ok :: "'db Store \<Rightarrow> bool" where
  "store_ok s \<longleftrightarrow>
     thirdparty_ok (so_lib s)
   \<and> ldb_readable (ldb (so_lib s)) (so_persist s)
   \<and> (\<forall>p v. key_path p \<and> store_view s p = Some v \<longrightarrow> fst (node_ParseFromString (pb (so_lib s)) v))
   \<and> (\<exists>r. so_procRoot s = slash # r \<and> r \<noteq> [] \<and> slash \<notin> set r)"

text \<open>The tree invariant: the root is there and is persistent; every other stored path is valid,
  not under the proc root, and has a stored, persistent parent; and a node lists a child's name
  once for each stored path that splits into the node and that name (the root lists the proc
  root once more, without storing it).\<close>

definition root_ok :: "(string \<rightharpoonup> Node) \<Rightarrow> bool" where
  "root_ok t \<longleftrightarrow> (\<exists>n. t ''/'' = Some n \<and> \<not> is_ephemeral n)"

definition parents_ok :: "string \<Rightarrow> (string \<rightharpoonup> Node) \<Rightarrow> bool" where
  "parents_ok pr t \<longleftrightarrow> (\<forall>q. key_path q \<and> q \<noteq> ''/'' \<and> t q \<noteq> None \<longrightarrow>
     IsValidPath q \<and> \<not> prefix pr q
     \<and> (\<exists>p son pn. SplitPath q = (OK, p, son) \<and> t p = Some pn \<and> \<not> is_ephemeral pn))"

definition stored_children :: "(string \<rightharpoonup> Node) \<Rightarrow> string \<Rightarrow> string \<Rightarrow> nat" where
  "stored_children t p son = length (filter (\<lambda>q. t q \<noteq> None) (child_paths p son))"

definition children_ok :: "string \<Rightarrow> (string \<rightharpoonup> Node) \<Rightarrow> bool" where
  "children_ok pr t \<longleftrightarrow> (\<forall>p n son. key_path p \<and> t p = Some n \<longrightarrow>
     count_list (nd_children n) son =
       stored_children t p son + (if p = ''/'' \<and> slash # son = pr then 1 else 0))"

definition tree_ok :: "'db Store \<Rightarrow> bool" where
  "tree_ok s \<longleftrightarrow> root_ok (node_at s) \<and> parents_ok (so_procRoot s) (node_at s)
     \<and> children_ok (so_procRoot s) (node_at s)"

definition store_inv :: "'db Store \<Rightarrow> bool" where
  "store_inv s \<longleftrightarrow> store_ok s \<and> tree_ok s"

text \<open>What the operations do to the tree.\<close>

definition new_node :: "string \<Rightarrow> u32 \<Rightarrow> sid_t \<Rightarrow> Node" where
  "new_node data flags sid =
     \<lparr>nd_data = data, nd_children = [], nd_flags = flags, nd_version = 0, nd_sid = sid\<rparr>"

definition add_child :: "string \<Rightarrow> Node \<Rightarrow> Node" where
  "add_child son n = n\<lparr>nd_children := nd_children n @ [son]\<rparr>"

definition drop_child :: "string \<Rightarrow> Node \<Rightarrow> Node" where
  "drop_child son n = snd (RemoveChild n son)"

lemma key_path_simps [simp]: "key_path ''/''" "key_path (slash # r)" "\<not> key_path []"
  by (auto simp: key_path_def)

lemma valid_key_path: "IsValidPath p \<Longrightarrow> key_path p"
  by (cases p) (auto simp: IsValidPath_def key_path_def)

lemma key_path_hd: "key_path p \<Longrightarrow> hd p = slash"
  by (auto simp: key_path_def)

lemma IsValidPath_root [simp]: "IsValidPath ''/''"
  by (simp add: IsValidPath_def kMaxPathSize_def invalidChar_def)

lemma nodes_of_upd [simp]:
  "proto_ok P \<Longrightarrow> nodes_of P (m(k \<mapsto> node_SerializeAsString P n)) = (nodes_of P m)(k \<mapsto> n)"
  "nodes_of P (m(k := None)) = (nodes_of P m)(k := None)"
  by (auto simp: nodes_of_def node_roundtrip)

lemma store_okD:
  assumes "store_ok s"
  shows "leveldb_ok (ldb (so_lib s))" and "proto_ok (pb (so_lib s))" and "toft_ok (toft (so_lib s))"
    and "ldb_readable (ldb (so_lib s)) (so_persist s)"
    and "\<exists>r. so_procRoot s = slash # r \<and> r \<noteq> [] \<and> slash \<notin> set r"
  using assms by (auto simp: store_ok_def thirdparty_ok_def)

lemma under_proc_prefix: "store_ok s \<Longrightarrow> under_proc s p \<longleftrightarrow> prefix (so_procRoot s) p"
  by (simp add: under_proc_def toft_laws store_okD)

lemma root_not_under_proc [simp]: "store_ok s \<Longrightarrow> \<not> under_proc s ''/''"
  using store_okD(5) [of s] by (auto simp: under_proc_prefix)

lemma parent_not_under_proc:
  assumes "store_ok s" and "\<not> under_proc s q" and "SplitPath q = (OK, p, son)" and "IsValidPath q"
  shows "\<not> under_proc s p"
proof (cases "p = ''/''")
  case False
  then have "prefix p q" using SplitPath_parent_valid(2) [OF assms(3,4)] by (simp add: strict_prefix_def)
  with assms(1,2) show ?thesis by (auto simp: under_proc_prefix dest: prefix_order.trans)
qed (simp add: assms(1))

lemma Store_Get_node_at [store_simps]:
  assumes "store_ok s" and "IsValidPath p" and "\<not> under_proc s p"
  shows "Store_Get s proc p =
     Some (case node_at s p of Some n \<Rightarrow> (OK, n) | None \<Rightarrow> (NotFound p, Node_default))"
proof (cases "store_view s p")
  case None
  then have "node_at s p = None" by (simp add: node_at_def nodes_of_def)
  moreover obtain st v where get: "ldb_Get (ldb (so_lib s)) (so_persist s) p = (st, v)"
    by (cases "ldb_Get (ldb (so_lib s)) (so_persist s) p")
  moreover have "\<not> ldb_ok st" "ldb_IsNotFound st"
    using ldb_Get_view_None [OF store_okD(4) [OF assms(1)], of p] None get
    by (simp_all add: store_view_def)
  ultimately show ?thesis using assms(2,3) by (simp add: Store_Get_def Let_def)
next
  case (Some v)
  then have get: "ldb_Get (ldb (so_lib s)) (so_persist s) p = (ldb_OK, v)"
    by (simp add: store_view_def ldb_Get_view_Some)
  have "fst (node_ParseFromString (pb (so_lib s)) v)"
    using assms(1) Some valid_key_path [OF assms(2)] by (auto simp: store_ok_def)
  then obtain n where "node_ParseFromString (pb (so_lib s)) v = (True, n)"
    by (metis prod.collapse)
  with get Some assms(2,3) show ?thesis
    by (simp add: Store_Get_def Let_def ldb_ok_def node_at_def nodes_of_def)
qed

lemma Store_Get_invalid [store_simps]:
  "\<not> IsValidPath p \<Longrightarrow> Store_Get s proc p = Some (InvalidArgument p, Node_default)"
  by (simp add: Store_Get_def Let_def)

subsection \<open>Database writes seen from the tree\<close>

definition parses :: "protolib \<Rightarrow> (string \<rightharpoonup> string) \<Rightarrow> bool" where
  "parses P m \<longleftrightarrow> (\<forall>p v. key_path p \<and> m p = Some v \<longrightarrow> fst (node_ParseFromString P v))"

definition node_batch :: "protolib \<Rightarrow> batch_op list \<Rightarrow> bool" where
  "node_batch P b \<longleftrightarrow> (\<forall>k v. BPut k v \<in> set b \<longrightarrow> \<not> key_path k \<or> (\<exists>n. v = node_SerializeAsString P n))"

lemma parses_upd:
  "proto_ok P \<Longrightarrow> parses P m \<Longrightarrow> parses P (m(k \<mapsto> node_SerializeAsString P n))"
  "\<not> key_path k \<Longrightarrow> parses P m \<Longrightarrow> parses P (m(k \<mapsto> v))"
  "parses P m \<Longrightarrow> parses P (m(k := None))"
  by (auto simp: parses_def node_roundtrip)

lemma parses_apply_batch:
  "proto_ok P \<Longrightarrow> node_batch P b \<Longrightarrow> parses P m \<Longrightarrow> parses P (apply_batch b m)"
proof (induction b arbitrary: m)
  case (Cons x b)
  then have IH: "parses P m' \<Longrightarrow> parses P (apply_batch b m')" for m'
    by (simp add: node_batch_def)
  show ?case
  proof (cases x)
    case (BPut k v)
    with Cons.prems(2) have "\<not> key_path k \<or> (\<exists>n. v = node_SerializeAsString P n)"
      unfolding node_batch_def by (metis list.set_intros(1))
    with Cons.prems(1,3) have "parses P (m(k \<mapsto> v))" using parses_upd(1,2) by blast
    then show ?thesis unfolding BPut apply_batch.simps by (rule IH)
  next
    case (BDelete k)
    show ?thesis unfolding BDelete apply_batch.simps by (intro IH parses_upd Cons.prems(3))
  qed
qed simp

lemma store_ok_change:
  assumes "store_ok s" and "ldb_readable (ldb (so_lib s)) db"
    and "parses (pb (so_lib s)) (ldb_view (ldb (so_lib s)) db)"
  shows "store_ok (s\<lparr>so_persist := db\<rparr>)"
  using assms by (simp add: store_ok_def store_view_def parses_def)

lemma store_ok_parses: "store_ok s \<Longrightarrow> parses (pb (so_lib s)) (store_view s)"
  by (simp add: store_ok_def parses_def)

lemma ldb_Write_store:
  assumes "store_ok s" and "node_batch (pb (so_lib s)) b"
    and "ldb_Write (ldb (so_lib s)) (so_persist s) b = (st, db)"
  shows "store_ok (s\<lparr>so_persist := db\<rparr>)"
    and "store_view (s\<lparr>so_persist := db\<rparr>) =
      (if ldb_ok st then apply_batch b (store_view s) else store_view s)"
proof -
  have v: "ldb_view (ldb (so_lib s)) db =
      (if ldb_ok st then apply_batch b (store_view s) else store_view s)"
    using ldb_view_Write [OF store_okD(1) [OF assms(1)], of "so_persist s" b] assms(3)
    by (simp add: store_view_def)
  then show "store_view (s\<lparr>so_persist := db\<rparr>) =
      (if ldb_ok st then apply_batch b (store_view s) else store_view s)"
    by (simp add: store_view_def)
  have "ldb_readable (ldb (so_lib s)) db"
    using ldb_readable_write(3) [OF store_okD(1,4) [OF assms(1)], of b] assms(3) by simp
  then show "store_ok (s\<lparr>so_persist := db\<rparr>)"
    using v assms(1,2) by (auto intro!: store_ok_change
        simp: parses_apply_batch store_ok_parses store_okD)
qed

lemma ldb_Put_store:
  assumes "store_ok s" and "node_batch (pb (so_lib s)) [BPut k v]"
    and "ldb_Put (ldb (so_lib s)) (so_persist s) k v = (st, db)"
  shows "store_ok (s\<lparr>so_persist := db\<rparr>)"
    and "store_view (s\<lparr>so_persist := db\<rparr>) = (if ldb_ok st then (store_view s)(k \<mapsto> v) else store_view s)"
proof -
  have v: "ldb_view (ldb (so_lib s)) db = (if ldb_ok st then (store_view s)(k \<mapsto> v) else store_view s)"
    using ldb_view_Put [OF store_okD(1) [OF assms(1)], of "so_persist s" k v] assms(3)
    by (simp add: store_view_def)
  then show "store_view (s\<lparr>so_persist := db\<rparr>) =
      (if ldb_ok st then (store_view s)(k \<mapsto> v) else store_view s)"
    by (simp add: store_view_def)
  have "ldb_readable (ldb (so_lib s)) db"
    using ldb_readable_write(1) [OF store_okD(1,4) [OF assms(1)], of k v] assms(3) by simp
  moreover have "parses (pb (so_lib s)) ((store_view s)(k \<mapsto> v))"
    using parses_apply_batch [OF store_okD(2) [OF assms(1)] assms(2) store_ok_parses [OF assms(1)]]
    by simp
  ultimately show "store_ok (s\<lparr>so_persist := db\<rparr>)"
    using v assms(1) by (auto intro!: store_ok_change simp: store_ok_parses)
qed

lemma ldb_Delete_store:
  assumes "store_ok s" and "ldb_Delete (ldb (so_lib s)) (so_persist s) k = (st, db)"
  shows "store_ok (s\<lparr>so_persist := db\<rparr>)"
    and "store_view (s\<lparr>so_persist := db\<rparr>) = (if ldb_ok st then (store_view s)(k := None) else store_view s)"
proof -
  have v: "ldb_view (ldb (so_lib s)) db = (if ldb_ok st then (store_view s)(k := None) else store_view s)"
    using ldb_view_Delete [OF store_okD(1) [OF assms(1)], of "so_persist s" k] assms(2)
    by (simp add: store_view_def)
  then show "store_view (s\<lparr>so_persist := db\<rparr>) =
      (if ldb_ok st then (store_view s)(k := None) else store_view s)"
    by (simp add: store_view_def)
  have "ldb_readable (ldb (so_lib s)) db"
    using ldb_readable_write(2) [OF store_okD(1,4) [OF assms(1)], of k] assms(2) by simp
  moreover have "parses (pb (so_lib s)) ((store_view s)(k := None))"
    using store_ok_parses [OF assms(1)] by (auto simp: parses_def split: if_splits)
  ultimately show "store_ok (s\<lparr>so_persist := db\<rparr>)"
    using v assms(1) by (auto intro!: store_ok_change simp: store_ok_parses)
qed

subsection \<open>The invariant on abstract trees\<close>

lemma new_node_children [simp]: "nd_children (new_node data flags sid) = []"
  by (simp add: new_node_def)

lemma ephemeral_add_child [simp]: "is_ephemeral (add_child son n) = is_ephemeral n"
  by (simp add: is_ephemeral_def add_child_def)

lemma RemoveChild_spec:
  assumes "RemoveChild n son = (st, n')"
  shows "(ok st \<longleftrightarrow> son \<in> set (nd_children n)) \<and> (\<not> ok st \<longrightarrow> n' = n)
    \<and> is_ephemeral n' = is_ephemeral n
    \<and> count_list (nd_children n') x =
      count_list (nd_children n) x - (if x = son \<and> son \<in> set (nd_children n) then 1 else 0)"
proof (cases "find (\<lambda>i. nd_children n ! i = son) [0..<length (nd_children n)]")
  case None
  then have "son \<notin> set (nd_children n)" by (auto simp: find_None_iff in_set_conv_nth)
  with None assms show ?thesis by (auto simp: RemoveChild_def Let_def)
next
  case (Some i)
  then have i: "i < length (nd_children n)" "nd_children n ! i = son"
    by (auto simp: find_Some_iff)
  then have "son \<in> set (nd_children n)" by auto
  with Some i assms show ?thesis
    by (auto simp: RemoveChild_def Let_def is_ephemeral_def count_list_butlast_update)
qed

lemma drop_child_spec:
  "is_ephemeral (drop_child son n) = is_ephemeral n"
  "count_list (nd_children (drop_child son n)) x =
     count_list (nd_children n) x - (if x = son \<and> son \<in> set (nd_children n) then 1 else 0)"
  using RemoveChild_spec [of n son "fst (RemoveChild n son)" "drop_child son n" x]
  by (simp_all add: drop_child_def)

lemma mset_drop_add_child [simp]:
  "mset (nd_children (drop_child son (add_child son n))) = mset (nd_children n)"
proof (rule multiset_eqI)
  fix x
  have "count_list (nd_children (drop_child son (add_child son n))) x = count_list (nd_children n) x"
    using drop_child_spec(2) [of son "add_child son n" x] by (simp add: add_child_def)
  then show "count (mset (nd_children (drop_child son (add_child son n)))) x =
      count (mset (nd_children n)) x" by (simp only: count_mset)
qed

lemma length_filter_insert:
  "distinct xs \<Longrightarrow> \<not> P x \<Longrightarrow> length (filter (\<lambda>q. q = x \<or> P q) xs) =
     length (filter P xs) + (if x \<in> set xs then 1 else 0)"
  by (induction xs) auto

lemma length_filter_remove:
  "distinct xs \<Longrightarrow> P x \<Longrightarrow> length (filter (\<lambda>q. q \<noteq> x \<and> P q) xs) =
     length (filter P xs) - (if x \<in> set xs then 1 else 0)"
proof (induction xs)
  case (Cons y ys)
  have "x \<in> set ys \<Longrightarrow> 0 < length (filter P ys)" using Cons.prems by (auto simp: filter_empty_conv)
  with Cons show ?case by auto
qed simp

lemma stored_children_zero:
  assumes "parents_ok pr t" and "t p = None" and "key_path p"
  shows "stored_children t p son = 0"
proof -
  have "t q = None" if "q \<in> set (child_paths p son)" for q
  proof (rule ccontr)
    assume q: "t q \<noteq> None"
    have sp: "SplitPath q = (OK, p, son)" using that SplitPath_child_paths by blast
    have "key_path q" using that assms(3) by (auto simp: child_paths_def key_path_def split: if_splits)
    moreover have "q \<noteq> ''/''" using SplitPath_shorter(1) [OF sp] \<open>key_path q\<close> key_path_hd by blast
    ultimately show False using assms(1,2) q sp unfolding parents_ok_def by fastforce
  qed
  then show ?thesis by (simp add: stored_children_def filter_empty_conv)
qed

text \<open>Inserting a leaf under a persistent parent.\<close>

lemma create_tree_ok:
  assumes t: "root_ok t" "parents_ok pr t" "children_ok pr t"
    and q: "IsValidPath q" "\<not> prefix pr q" "SplitPath q = (OK, p, son)" "t q = None"
    and p: "t p = Some pn" "\<not> is_ephemeral pn" and n: "nd_children n = []"
  defines "t' \<equiv> t(q \<mapsto> n, p \<mapsto> add_child son pn)"
  shows "root_ok t'" and "parents_ok pr t'" and "children_ok pr t'"
proof -
  have kq: "key_path q" using q(1) by (rule valid_key_path)
  have pq: "p \<noteq> q" using SplitPath_shorter(2) [OF q(3)] kq key_path_hd by blast
  have dom': "t' x \<noteq> None \<longleftrightarrow> x = q \<or> t x \<noteq> None" for x
    using p(1) by (auto simp: t'_def)
  show "root_ok t'" using t(1) p q(4) by (auto simp: root_ok_def t'_def)
  have keep: "\<exists>n'. t' x = Some n' \<and> \<not> is_ephemeral n'" if "t x = Some m" "\<not> is_ephemeral m" for x m
    using that q(4) p by (auto simp: t'_def)
  show "parents_ok pr t'"
    unfolding parents_ok_def
  proof (intro allI impI)
    fix x assume x: "key_path x \<and> x \<noteq> ''/'' \<and> t' x \<noteq> None"
    show "IsValidPath x \<and> \<not> prefix pr x \<and>
       (\<exists>p son pn. SplitPath x = (OK, p, son) \<and> t' p = Some pn \<and> \<not> is_ephemeral pn)"
    proof (cases "x = q")
      case True
      then show ?thesis using q keep [OF p] by blast
    next
      case False
      with x dom' have "t x \<noteq> None" by blast
      with x t(2) show ?thesis unfolding parents_ok_def using keep by blast
    qed
  qed
  have sc: "stored_children t' x y = stored_children t x y + (if x = p \<and> y = son then 1 else 0)" for x y
  proof -
    have "q \<in> set (child_paths x y) \<longleftrightarrow> x = p \<and> y = son"
      using q(3) SplitPath_child_paths [of q x y] by auto
    then show ?thesis
      unfolding stored_children_def dom'
      using length_filter_insert [of "child_paths x y" "\<lambda>z. t z \<noteq> None" q] q(4) by simp
  qed
  have q_root: "q \<noteq> ''/''" using SplitPath_shorter(1) [OF q(3)] kq key_path_hd by blast
  show "children_ok pr t'"
    unfolding children_ok_def
  proof (intro allI impI)
    fix x m y assume x: "key_path x \<and> t' x = Some m"
    consider (q) "x = q" | (p) "x = p" | (other) "x \<noteq> q" "x \<noteq> p" by blast
    then show "count_list (nd_children m) y =
       stored_children t' x y + (if x = ''/'' \<and> slash # y = pr then 1 else 0)"
    proof cases
      case q
      with x pq have "m = n" by (simp add: t'_def)
      with q n q_root pq show ?thesis
        using stored_children_zero [OF t(2) \<open>t q = None\<close> kq] by (simp add: sc)
    next
      case p
      with x have "m = add_child son pn" by (simp add: t'_def)
      moreover have "count_list (nd_children pn) y =
          stored_children t p y + (if p = ''/'' \<and> slash # y = pr then 1 else 0)"
        using t(3) x p \<open>t p = Some pn\<close> unfolding children_ok_def by blast
      ultimately show ?thesis using p by (simp add: sc add_child_def)
    next
      case other
      with x have "t x = Some m" by (simp add: t'_def)
      then have "count_list (nd_children m) y =
          stored_children t x y + (if x = ''/'' \<and> slash # y = pr then 1 else 0)"
        using t(3) x unfolding children_ok_def by blast
      with other show ?thesis by (simp add: sc)
    qed
  qed
qed

text \<open>Removing a leaf, and its name from the parent's list.\<close>

lemma children_ok_count:
  "children_ok pr t \<Longrightarrow> key_path p \<Longrightarrow> t p = Some n \<Longrightarrow> count_list (nd_children n) son =
     stored_children t p son + (if p = ''/'' \<and> slash # son = pr then 1 else 0)"
  unfolding children_ok_def by blast

lemma stored_child_pos:
  assumes "SplitPath q = (OK, p, son)" and "t q \<noteq> None"
  shows "0 < stored_children t p son"
proof -
  have "q \<in> set (child_paths p son)" using assms(1) SplitPath_child_paths by blast
  then show ?thesis using assms(2) by (auto simp: stored_children_def filter_empty_conv)
qed

lemma listed_child:
  assumes "children_ok pr t" and "SplitPath q = (OK, p, son)" and "key_path q"
    and "t q \<noteq> None" and "t p = Some pn"
  shows "son \<in> set (nd_children pn)"
proof -
  have "key_path p" using SplitPath_shorter(3,4) [OF assms(2)] assms(3)
    by (metis key_path_def key_path_hd list.collapse)
  then have "0 < count_list (nd_children pn) son"
    using children_ok_count [OF assms(1) _ assms(5)] stored_child_pos [OF assms(2), of t] assms(4) by simp
  then show ?thesis using count_notin by fastforce
qed

lemma delete_tree_ok:
  assumes t: "root_ok t" "parents_ok pr t" "children_ok pr t"
    and q: "key_path q" "SplitPath q = (OK, p, son)" "t q = Some n" "nd_children n = []"
    and p: "t p = Some pn"
  defines "t' \<equiv> t(q := None, p \<mapsto> drop_child son pn)"
  shows "root_ok t'" and "parents_ok pr t'" and "children_ok pr t'"
proof -
  have hq: "hd q = slash" using q(1) by (rule key_path_hd)
  have pq: "p \<noteq> q" and q_root: "q \<noteq> ''/''"
    using SplitPath_shorter(1,2) [OF q(2) hq] by auto
  have dom': "t' x \<noteq> None \<longleftrightarrow> x \<noteq> q \<and> t x \<noteq> None" for x
    using p pq by (auto simp: t'_def)
  have keep: "\<exists>n'. t' x = Some n' \<and> \<not> is_ephemeral n'" if "t x = Some m" "\<not> is_ephemeral m" "x \<noteq> q" for x m
    using that p by (auto simp: t'_def drop_child_spec)
  show "root_ok t'" using t(1) keep q_root by (auto simp: root_ok_def)
  have leaf: "p' \<noteq> q" if "SplitPath x = (OK, p', y)" "t x \<noteq> None" for x p' y
  proof
    assume "p' = q"
    with that have "0 < stored_children t q y" using stored_child_pos by blast
    moreover have "count_list (nd_children n) y = stored_children t q y"
      using children_ok_count [OF t(3) q(1,3), of y] q_root by simp
    ultimately show False using q(4) by simp
  qed
  show "parents_ok pr t'"
    unfolding parents_ok_def
  proof (intro allI impI)
    fix x assume x: "key_path x \<and> x \<noteq> ''/'' \<and> t' x \<noteq> None"
    with dom' have tx: "t x \<noteq> None" by blast
    with x t(2) obtain p' y m where "IsValidPath x" "\<not> prefix pr x"
      and sp: "SplitPath x = (OK, p', y)" "t p' = Some m" "\<not> is_ephemeral m"
      unfolding parents_ok_def by blast
    then show "IsValidPath x \<and> \<not> prefix pr x \<and>
       (\<exists>p son pn. SplitPath x = (OK, p, son) \<and> t' p = Some pn \<and> \<not> is_ephemeral pn)"
      using keep [OF sp(2,3) leaf [OF sp(1) tx]] by blast
  qed
  have sc: "stored_children t' x y = stored_children t x y - (if x = p \<and> y = son then 1 else 0)" for x y
  proof -
    have "q \<in> set (child_paths x y) \<longleftrightarrow> x = p \<and> y = son"
      using q(2) SplitPath_child_paths [of q x y] by auto
    then show ?thesis
      unfolding stored_children_def dom'
      using length_filter_remove [of "child_paths x y" "\<lambda>z. t z \<noteq> None" q] q(3) by simp
  qed
  show "children_ok pr t'"
    unfolding children_ok_def
  proof (intro allI impI)
    fix x m y assume x: "key_path x \<and> t' x = Some m"
    show "count_list (nd_children m) y =
       stored_children t' x y + (if x = ''/'' \<and> slash # y = pr then 1 else 0)"
    proof (cases "x = p")
      case True
      with x have m: "m = drop_child son pn" by (simp add: t'_def)
      have cnt: "count_list (nd_children pn) y =
          stored_children t p y + (if p = ''/'' \<and> slash # y = pr then 1 else 0)"
        using children_ok_count [OF t(3) _ p] x True by blast
      have "son \<in> set (nd_children pn)" using listed_child [OF t(3) q(2,1) _ p] q(3) by simp
      with stored_child_pos [OF q(2), of t] q(3) cnt True m show ?thesis
        by (auto simp: sc drop_child_spec)
    next
      case False
      with x have "t x = Some m" by (auto simp: t'_def split: if_splits)
      with False x show ?thesis using children_ok_count [OF t(3)] by (simp add: sc)
    qed
  qed
qed

text \<open>Replacing a node by one with the same children and flags.\<close>

lemma update_tree_ok:
  assumes "root_ok t" "parents_ok pr t" "children_ok pr t" and "t p = Some n"
    and "nd_children n' = nd_children n" and "nd_flags n' = nd_flags n"
  shows "root_ok (t(p \<mapsto> n'))" and "parents_ok pr (t(p \<mapsto> n'))" and "children_ok pr (t(p \<mapsto> n'))"
proof -
  have dom': "(t(p \<mapsto> n')) x \<noteq> None \<longleftrightarrow> t x \<noteq> None" for x using assms(4) by simp
  have keep: "\<exists>m'. (t(p \<mapsto> n')) x = Some m' \<and> \<not> is_ephemeral m'" if "t x = Some m" "\<not> is_ephemeral m" for x m
    using that assms(4,6) by (auto simp: is_ephemeral_def)
  show "root_ok (t(p \<mapsto> n'))" using assms(1) keep unfolding root_ok_def by blast
  show "parents_ok pr (t(p \<mapsto> n'))"
    using assms(2) keep unfolding parents_ok_def dom' by blast
  have sc: "stored_children (t(p \<mapsto> n')) x y = stored_children t x y" for x y
    unfolding stored_children_def dom' ..
  show "children_ok pr (t(p \<mapsto> n'))"
    using assms(3-5) unfolding children_ok_def sc by (auto split: if_splits)
qed

subsection \<open>Creating, deleting and writing, on the tree\<close>

lemma node_at_change:
  "node_at (s\<lparr>so_persist := db\<rparr>) = nodes_of (pb (so_lib s)) (store_view (s\<lparr>so_persist := db\<rparr>))"
  by (simp add: node_at_def)

lemma Store_Create_eq:
  assumes "store_ok s" and "\<not> under_proc s path" and "SplitPath path = (OK, p, son)"
    and "IsValidPath path"
  shows "Store_Create s proc path data flags sid =
    (if length data > to_size_t (max_bytes s) then Some (InvalidArgument ''node size exceed'', s)
     else case node_at s path of
       Some _ \<Rightarrow> Some (Exist path, s)
     | None \<Rightarrow> (case node_at s p of
         None \<Rightarrow> Some (NotFound p, s)
       | Some pn \<Rightarrow>
           if is_ephemeral pn then Some (InvalidArgument ''parent not persistent node'', s)
           else if node_ByteSize (pb (so_lib s)) (add_child son pn) > max_bytes s then
             Some (InvalidArgument ''node size exceed'', s)
           else (case ldb_Write (ldb (so_lib s)) (so_persist s)
                   [BPut path (node_SerializeAsString (pb (so_lib s)) (new_node data flags sid)),
                    BPut p (node_SerializeAsString (pb (so_lib s)) (add_child son pn))] of (st, db) \<Rightarrow>
               Some (if \<not> ldb_ok st then Internal (ldb_ToString (ldb (so_lib s)) st) else OK,
                     s\<lparr>so_persist := db\<rparr>))))"
proof -
  have p: "IsValidPath p" "\<not> under_proc s p"
    using SplitPath_parent_valid(1) [OF assms(3,4)] parent_not_under_proc [OF assms(1-4)] by auto
  have nn: "(if 0 < sid then (NewNode Node_default data flags)\<lparr>nd_sid := sid\<rparr>
       else NewNode Node_default data flags) = new_node data flags sid"
    by (auto simp: NewNode_def new_node_def Node_default_def word_gt_0)
  show ?thesis
    using assms p
    by (auto simp: Store_Create_def Let_def Store_Get_node_at AddChild_def add_child_def nn
        split: option.splits prod.splits)
qed

lemma Store_Create_refused:
  assumes "under_proc s path \<or> \<not> IsValidPath path \<or> \<not> ok (fst (SplitPath path))"
  shows "\<exists>st. Store_Create s proc path data flags sid = Some (st, s) \<and> IsInvalidArgument st"
proof (cases "SplitPath path")
  case (fields st p son)
  have "\<not> ok st \<Longrightarrow> st = InvalidArgument path"
    using fields by (cases path rule: SplitPath_cases) (auto split: if_splits)
  with assms fields show ?thesis by (auto simp: Store_Create_def Let_def Store_Get_invalid)
qed

lemma Store_Delete_eq:
  assumes "store_ok s" and "\<not> under_proc s path" and "SplitPath path = (OK, p, son)"
    and "IsValidPath path"
  shows "Store_Delete s proc path =
    (case node_at s path of
       None \<Rightarrow> Some (NotFound path, s)
     | Some n \<Rightarrow>
         if nd_children n \<noteq> [] then Some (InvalidArgument ''children not empty'', s)
         else (case node_at s p of
           None \<Rightarrow> Some (NotFound p, s)
         | Some pn \<Rightarrow>
             if son \<notin> set (nd_children pn) then None
             else (case ldb_Write (ldb (so_lib s)) (so_persist s)
                     [BDelete path,
                      BPut p (node_SerializeAsString (pb (so_lib s)) (drop_child son pn))] of (st, db) \<Rightarrow>
                 Some (if \<not> ldb_ok st then Internal [] else OK, s\<lparr>so_persist := db\<rparr>))))"
proof -
  have p: "IsValidPath p" "\<not> under_proc s p"
    using SplitPath_parent_valid(1) [OF assms(3,4)] parent_not_under_proc [OF assms(1-4)] by auto
  have rc: "(case RemoveChild pn son of (st, parent) \<Rightarrow>
      if \<not> ok st then None
      else case ldb_Write (ldb (so_lib s)) (so_persist s)
              [BDelete path, BPut p (node_SerializeAsString (pb (so_lib s)) parent)] of (status, db) \<Rightarrow>
            Some (if \<not> ldb_ok status then Internal (ToString st) else OK, s\<lparr>so_persist := db\<rparr>)) =
      (if son \<notin> set (nd_children pn) then None
       else case ldb_Write (ldb (so_lib s)) (so_persist s)
              [BDelete path, BPut p (node_SerializeAsString (pb (so_lib s)) (drop_child son pn))] of (st, db) \<Rightarrow>
            Some (if \<not> ldb_ok st then Internal [] else OK, s\<lparr>so_persist := db\<rparr>))" for pn
    using RemoveChild_spec [of pn son]
    by (auto simp: drop_child_def ToString_def ok_def split: prod.splits)
  show ?thesis
    using assms p unfolding Store_Delete_def Let_def
    by (auto simp: Store_Get_node_at rc split: option.splits)
qed

lemma Store_Delete_refused:
  assumes "under_proc s path \<or> \<not> IsValidPath path \<or> \<not> ok (fst (SplitPath path))"
  shows "\<exists>st. Store_Delete s proc path = Some (st, s) \<and> IsInvalidArgument st"
proof (cases "SplitPath path")
  case (fields st p son)
  have "\<not> ok st \<Longrightarrow> st = InvalidArgument path"
    using fields by (cases path rule: SplitPath_cases) (auto split: if_splits)
  with assms fields show ?thesis by (auto simp: Store_Delete_def Let_def Store_Get_invalid)
qed

end
