(* ===== verification/Store_Refine.thy ===== *)
theory Store_Refine
  imports Store_Tree
begin

text \<open>
  What the store promises its clients, as the locale \<open>node_store\<close>: creating and removing a
  node are map updates on an abstract tree, an operation that reports a failure leaves the tree
  alone, the invariant is kept and every call returns. The lemmas its clients use are proved
  once from these laws, and the operations of \<open>Store\<close> are shown to provide them.
\<close>

locale node_store =
  fixes tree :: "'s \<Rightarrow> (string \<rightharpoonup> Node)"
    and invar :: "'s \<Rightarrow> bool"
    and create :: "'s \<Rightarrow> 'p \<Rightarrow> string \<Rightarrow> string \<Rightarrow> u32 \<Rightarrow> sid_t \<Rightarrow> (Status \<times> 's) option"
    and remove :: "'s \<Rightarrow> 'p \<Rightarrow> string \<Rightarrow> (Status \<times> 's) option"
  assumes create_total: "invar s \<Longrightarrow> \<exists>r. create s pr path data flags sid = Some r"
    and create_invar: "invar s \<Longrightarrow> create s pr path data flags sid = Some (st, s') \<Longrightarrow> invar s'"
    and create_fail: "invar s \<Longrightarrow> create s pr path data flags sid = Some (st, s') \<Longrightarrow> \<not> ok st \<Longrightarrow>
      tree s' = tree s"
    and create_ok: "invar s \<Longrightarrow> create s pr path data flags sid = Some (st, s') \<Longrightarrow> ok st \<Longrightarrow>
      tree s path = None \<and> (\<exists>p son pn. SplitPath path = (OK, p, son) \<and> tree s p = Some pn
        \<and> \<not> is_ephemeral pn \<and> p \<noteq> path
        \<and> tree s' = (tree s)(path \<mapsto> new_node data flags sid, p \<mapsto> add_child son pn))"
    and remove_total: "invar s \<Longrightarrow> \<exists>r. remove s pr path = Some r"
    and remove_invar: "invar s \<Longrightarrow> remove s pr path = Some (st, s') \<Longrightarrow> invar s'"
    and remove_fail: "invar s \<Longrightarrow> remove s pr path = Some (st, s') \<Longrightarrow> \<not> ok st \<Longrightarrow> tree s' = tree s"
    and remove_ok: "invar s \<Longrightarrow> remove s pr path = Some (st, s') \<Longrightarrow> ok st \<Longrightarrow>
      (\<exists>n p son pn. tree s path = Some n \<and> nd_children n = [] \<and> SplitPath path = (OK, p, son)
        \<and> tree s p = Some pn \<and> son \<in> set (nd_children pn) \<and> p \<noteq> path
        \<and> tree s' = (tree s)(path := None, p \<mapsto> drop_child son pn))"
begin

text \<open>A node that was created is there, and what is neither the node nor its parent is not touched.\<close>

lemma create_lookup:
  assumes "invar s" and "create s pr path data flags sid = Some (st, s')" and "ok st"
  shows "tree s' path = Some (new_node data flags sid)"
  using create_ok [OF assms] by auto

lemma create_frame:
  assumes "invar s" and "create s pr path data flags sid = Some (st, s')"
    and "q \<noteq> path" and "SplitPath path = (OK, p, son)" and "q \<noteq> p"
  shows "tree s' q = tree s q"
  using create_ok [OF assms(1,2)] create_fail [OF assms(1,2)] assms(3-5) by (cases "ok st") auto

text \<open>A second creation under the same name is refused, whatever its data.\<close>

lemma create_twice:
  assumes "invar s" and "create s pr path data flags sid = Some (st, s')" and "ok st"
    and "create s' pr path data' flags' sid' = Some (st', s'')"
  shows "\<not> ok st'" and "tree s'' = tree s'"
proof -
  have i: "invar s'" using create_invar assms(1,2) by blast
  show "\<not> ok st'" using create_ok [OF i assms(4)] create_lookup [OF assms(1-3)] by fastforce
  then show "tree s'' = tree s'" using create_fail i assms(4) by blast
qed

text \<open>Creating a node and removing it again gives the tree back, up to the order of the
  parent's children.\<close>

lemma create_remove:
  assumes "invar s" and "create s pr path data flags sid = Some (st, s')" and "ok st"
    and "remove s' pr path = Some (st', s'')" and "ok st'"
    and "SplitPath path = (OK, p, son)"
  shows "\<forall>q. q \<noteq> p \<longrightarrow> tree s'' q = tree s q"
    and "\<exists>pn pn'. tree s p = Some pn \<and> tree s'' p = Some pn'
      \<and> mset (nd_children pn') = mset (nd_children pn)"
proof -
  have i: "invar s'" using create_invar assms(1,2) by blast
  from create_ok [OF assms(1-3)] assms(6) obtain pn where c: "tree s path = None" "tree s p = Some pn"
    "p \<noteq> path" "tree s' = (tree s)(path \<mapsto> new_node data flags sid, p \<mapsto> add_child son pn)" by auto
  from remove_ok [OF i assms(4,5)] assms(6) obtain pn' where r: "tree s' p = Some pn'"
    "tree s'' = (tree s')(path := None, p \<mapsto> drop_child son pn')" by auto
  show "\<forall>q. q \<noteq> p \<longrightarrow> tree s'' q = tree s q" using c r by auto
  have "pn' = add_child son pn" using c(4) r(1) by simp
  then have "mset (nd_children (drop_child son pn')) = mset (nd_children pn)" by simp
  moreover have "tree s'' p = Some (drop_child son pn')" using r(2) by simp
  ultimately show "\<exists>pn pn'. tree s p = Some pn \<and> tree s'' p = Some pn'
      \<and> mset (nd_children pn') = mset (nd_children pn)"
    using c(2) by blast
qed

text \<open>Removing never adds a path, and a removed path is gone.\<close>

lemma remove_shrinks:
  assumes "invar s" and "remove s pr path = Some (st, s')"
  shows "dom (tree s') \<subseteq> dom (tree s)" and "ok st \<Longrightarrow> tree s' path = None"
proof -
  have *: "dom (tree s') \<subseteq> dom (tree s) \<and> tree s' path = None" if "ok st"
  proof -
    from remove_ok [OF assms that] obtain p pn n where "tree s p = Some n" "p \<noteq> path"
      "tree s' = (tree s)(path := None, p \<mapsto> pn)" by blast
    then show ?thesis by auto
  qed
  with remove_fail [OF assms] show "dom (tree s') \<subseteq> dom (tree s)" by (cases "ok st") simp_all
  show "ok st \<Longrightarrow> tree s' path = None" using * by blast
qed

end

subsection \<open>The store provides it\<close>

lemma SplitPath_ok: "ok (fst (SplitPath q)) \<longleftrightarrow> (\<exists>p son. SplitPath q = (OK, p, son))"
  by (cases q rule: SplitPath_cases) (auto split: if_splits)

lemma store_invD: "store_inv s \<Longrightarrow> store_ok s" "store_inv s \<Longrightarrow> root_ok (node_at s)"
  "store_inv s \<Longrightarrow> parents_ok (so_procRoot s) (node_at s)"
  "store_inv s \<Longrightarrow> children_ok (so_procRoot s) (node_at s)"
  by (auto simp: store_inv_def tree_ok_def)

text \<open>A batch of node updates: if the tree it describes is well-formed, the invariant holds
  afterwards, whether or not the database accepted the batch.\<close>

lemma batch_commit:
  assumes inv: "store_inv s" and nb: "node_batch (pb (so_lib s)) b"
    and w: "ldb_Write (ldb (so_lib s)) (so_persist s) b = (status, db)"
    and t: "nodes_of (pb (so_lib s)) (apply_batch b (store_view s)) = t"
      "root_ok t" "parents_ok (so_procRoot s) t" "children_ok (so_procRoot s) t"
  shows "store_inv (s\<lparr>so_persist := db\<rparr>)"
    and "node_at (s\<lparr>so_persist := db\<rparr>) = (if ldb_ok status then t else node_at s)"
proof -
  note ws = ldb_Write_store [OF store_invD(1) [OF inv] nb w]
  show n: "node_at (s\<lparr>so_persist := db\<rparr>) = (if ldb_ok status then t else node_at s)"
    unfolding node_at_change ws(2) using t(1) by (simp add: node_at_def)
  show "store_inv (s\<lparr>so_persist := db\<rparr>)"
    using ws(1) t(2-4) inv unfolding store_inv_def tree_ok_def n by auto
qed

lemma Store_Create_cases:
  assumes ok_s: "store_ok s" and run: "Store_Create s proc path data flags sid = Some (st, s')"
  obtains (refused) "s' = s" "\<not> ok st"
  | (written) p son pn status db where
      "IsValidPath path" "\<not> under_proc s path" "SplitPath path = (OK, p, son)"
      "node_at s path = None" "node_at s p = Some pn" "\<not> is_ephemeral pn"
      "ldb_Write (ldb (so_lib s)) (so_persist s)
         [BPut path (node_SerializeAsString (pb (so_lib s)) (new_node data flags sid)),
          BPut p (node_SerializeAsString (pb (so_lib s)) (add_child son pn))] = (status, db)"
      "s' = s\<lparr>so_persist := db\<rparr>" "ok st \<longleftrightarrow> ldb_ok status"
proof (cases "under_proc s path \<or> \<not> IsValidPath path \<or> \<not> ok (fst (SplitPath path))")
  case True
  from Store_Create_refused [OF this, of proc data flags sid] run refused show thesis
    by (auto simp: ok_def IsInvalidArgument_def)
next
  case False
  then obtain p son where v: "IsValidPath path" "\<not> under_proc s path" and sp: "SplitPath path = (OK, p, son)"
    using SplitPath_ok by blast
  note eq = Store_Create_eq [OF ok_s v(2) sp v(1), of proc data flags sid]
  show thesis
  proof (cases "node_at s path = None \<and> (\<exists>pn. node_at s p = Some pn \<and> \<not> is_ephemeral pn
      \<and> length data \<le> to_size_t (max_bytes s)
      \<and> node_ByteSize (pb (so_lib s)) (add_child son pn) \<le> max_bytes s)")
    case False
    with run have "s' = s \<and> \<not> ok st" unfolding eq by (auto split: if_splits option.splits)
    with refused show thesis by blast
  next
    case True
    then obtain pn where pn: "node_at s path = None" "node_at s p = Some pn" "\<not> is_ephemeral pn"
      and sz: "length data \<le> to_size_t (max_bytes s)"
        "node_ByteSize (pb (so_lib s)) (add_child son pn) \<le> max_bytes s" by blast
    obtain status db where w: "ldb_Write (ldb (so_lib s)) (so_persist s)
         [BPut path (node_SerializeAsString (pb (so_lib s)) (new_node data flags sid)),
          BPut p (node_SerializeAsString (pb (so_lib s)) (add_child son pn))] = (status, db)" by fastforce
    with run pn sz have "s' = s\<lparr>so_persist := db\<rparr>" and "ok st \<longleftrightarrow> ldb_ok status"
      unfolding eq by (auto split: if_splits)
    with written [OF v sp pn w] show thesis by blast
  qed
qed

lemma Store_Create_spec:
  assumes inv: "store_inv s" and run: "Store_Create s proc path data flags sid = Some (st, s')"
  shows "store_inv s' \<and> (\<not> ok st \<longrightarrow> node_at s' = node_at s)
    \<and> (ok st \<longrightarrow> node_at s path = None \<and> (\<exists>p son pn. SplitPath path = (OK, p, son)
      \<and> node_at s p = Some pn \<and> \<not> is_ephemeral pn \<and> p \<noteq> path
      \<and> node_at s' = (node_at s)(path \<mapsto> new_node data flags sid, p \<mapsto> add_child son pn)))"
  using store_invD(1) [OF inv] run
proof (cases rule: Store_Create_cases)
  case refused
  with inv show ?thesis by simp
next
  case (written p son pn status db)
  have "\<not> prefix (so_procRoot s) path"
    using written(2) store_invD(1) [OF inv] by (simp add: under_proc_prefix)
  note c = create_tree_ok [OF store_invD(2-4) [OF inv] written(1) this written(3-6),
      of "new_node data flags sid", simplified]
  have pq: "p \<noteq> path"
    using SplitPath_shorter(2) [OF written(3)] valid_key_path [OF written(1)] key_path_hd by blast
  have t: "nodes_of (pb (so_lib s)) (apply_batch
        [BPut path (node_SerializeAsString (pb (so_lib s)) (new_node data flags sid)),
         BPut p (node_SerializeAsString (pb (so_lib s)) (add_child son pn))] (store_view s))
      = (node_at s)(path \<mapsto> new_node data flags sid, p \<mapsto> add_child son pn)"
    unfolding apply_batch.simps nodes_of_upd(1) [OF store_okD(2) [OF store_invD(1) [OF inv]]]
    by (simp only: node_at_def)
  have nb: "node_batch (pb (so_lib s))
        [BPut path (node_SerializeAsString (pb (so_lib s)) (new_node data flags sid)),
         BPut p (node_SerializeAsString (pb (so_lib s)) (add_child son pn))]"
    by (auto simp: node_batch_def)
  note bc = batch_commit [OF inv nb written(7) t c]
  show ?thesis using bc written pq by auto
qed


lemma Store_Create_total:
  assumes "store_ok s"
  shows "\<exists>r. Store_Create s proc path data flags sid = Some r"
proof (cases "under_proc s path \<or> \<not> IsValidPath path \<or> \<not> ok (fst (SplitPath path))")
  case True
  then show ?thesis using Store_Create_refused by blast
next
  case False
  then obtain p son where "SplitPath path = (OK, p, son)" using SplitPath_ok by blast
  with False show ?thesis
    by (auto simp: Store_Create_eq [OF assms] split: option.splits prod.splits)
qed

text \<open>Deleting: under the invariant the parent always lists the child, so the \<^verbatim>\<open>CHECK\<close> on
  \<^verbatim>\<open>RemoveChild\<close> holds.\<close>

lemma Store_Delete_cases:
  assumes inv: "store_inv s"
  obtains (refused) st where "Store_Delete s proc path = Some (st, s)" "\<not> ok st"
  | (written) n p son pn status db where
      "IsValidPath path" "SplitPath path = (OK, p, son)"
      "node_at s path = Some n" "nd_children n = []" "node_at s p = Some pn"
      "son \<in> set (nd_children pn)"
      "ldb_Write (ldb (so_lib s)) (so_persist s)
         [BDelete path, BPut p (node_SerializeAsString (pb (so_lib s)) (drop_child son pn))] = (status, db)"
      "Store_Delete s proc path =
         Some (if \<not> ldb_ok status then Internal [] else OK, s\<lparr>so_persist := db\<rparr>)"
proof (cases "under_proc s path \<or> \<not> IsValidPath path \<or> \<not> ok (fst (SplitPath path))")
  case True
  from Store_Delete_refused [OF this, of proc] refused show thesis
    by (auto simp: ok_def IsInvalidArgument_def)
next
  case False
  then obtain p son where v: "IsValidPath path" "\<not> under_proc s path" and sp: "SplitPath path = (OK, p, son)"
    using SplitPath_ok by blast
  note eq = Store_Delete_eq [OF store_invD(1) [OF inv] v(2) sp v(1), of proc]
  show thesis
  proof (cases "\<exists>n pn. node_at s path = Some n \<and> nd_children n = [] \<and> node_at s p = Some pn")
    case False
    then have "\<exists>st. Store_Delete s proc path = Some (st, s) \<and> \<not> ok st"
      unfolding eq by (auto split: option.splits)
    with refused show thesis by blast
  next
    case True
    then obtain n pn where n: "node_at s path = Some n" "nd_children n = []" "node_at s p = Some pn"
      by blast
    have son: "son \<in> set (nd_children pn)"
      using listed_child [OF store_invD(4) [OF inv] sp valid_key_path [OF v(1)] _ n(3)] n(1) by simp
    obtain status db where w: "ldb_Write (ldb (so_lib s)) (so_persist s)
         [BDelete path, BPut p (node_SerializeAsString (pb (so_lib s)) (drop_child son pn))] = (status, db)"
      by fastforce
    show thesis by (rule written [OF v(1) sp n son w]) (simp add: eq n son w)
  qed
qed

lemma Store_Delete_total: "store_inv s \<Longrightarrow> \<exists>r. Store_Delete s proc path = Some r"
  by (erule Store_Delete_cases [of s proc path]) auto

lemma Store_Delete_spec:
  assumes inv: "store_inv s" and run: "Store_Delete s proc path = Some (st, s')"
  shows "store_inv s' \<and> (\<not> ok st \<longrightarrow> node_at s' = node_at s)
    \<and> (ok st \<longrightarrow> (\<exists>n p son pn. node_at s path = Some n \<and> nd_children n = []
      \<and> SplitPath path = (OK, p, son) \<and> node_at s p = Some pn \<and> son \<in> set (nd_children pn)
      \<and> p \<noteq> path \<and> node_at s' = (node_at s)(path := None, p \<mapsto> drop_child son pn)))"
  using inv
proof (cases rule: Store_Delete_cases [of s proc path])
  case (refused st)
  with inv run show ?thesis by simp
next
  case (written n p son pn status db)
  have kp: "key_path path" using written(1) by (rule valid_key_path)
  note c = delete_tree_ok [OF store_invD(2-4) [OF inv] kp written(2-5)]
  have pq: "p \<noteq> path" using SplitPath_shorter(2) [OF written(2)] kp key_path_hd by blast
  have t: "nodes_of (pb (so_lib s)) (apply_batch
        [BDelete path, BPut p (node_SerializeAsString (pb (so_lib s)) (drop_child son pn))] (store_view s))
      = (node_at s)(path := None, p \<mapsto> drop_child son pn)"
    unfolding apply_batch.simps nodes_of_upd(1) [OF store_okD(2) [OF store_invD(1) [OF inv]]]
      nodes_of_upd(2) by (simp only: node_at_def)
  have nb: "node_batch (pb (so_lib s))
        [BDelete path, BPut p (node_SerializeAsString (pb (so_lib s)) (drop_child son pn))]"
    by (auto simp: node_batch_def)
  note bc = batch_commit [OF inv nb written(7) t c]
  show ?thesis using bc written pq run by (auto split: if_splits)
qed

interpretation st: node_store node_at store_inv Store_Create Store_Delete
proof unfold_locales
  show "\<exists>r. Store_Create s pr path data flags sid = Some r" if "store_inv s"
    for s :: "'a Store" and pr :: "'b ProcDB" and path data flags sid
    using Store_Create_total [OF store_invD(1)] that by blast
  show "\<exists>r. Store_Delete s pr path = Some r" if "store_inv s"
    for s :: "'a Store" and pr :: "'b ProcDB" and path
    using Store_Delete_total that by blast
qed (use Store_Create_spec Store_Delete_spec in blast)+

end
