(* ===== verification/Store_Runs.thy ===== *)
theory Store_Runs
  imports Store_Ops
begin

text \<open>
  Sequences of store operations: the entries under \<^verbatim>\<open>"ss"\<close> and \<^verbatim>\<open>"commit"\<close> share the database
  with the tree without touching it, so every sequence of operations returns and keeps the
  invariant. What was stored is read back: the commit index, the sessions a walk visits, and
  the database a snapshot copies.
\<close>

subsection \<open>The virtual database never throws\<close>

definition proc_ok :: "'e ProcDB \<Rightarrow> bool" where
  "proc_ok db \<longleftrightarrow> (\<forall>k \<in> set (map fst (pd_readMap db)) \<union> set (map fst (pd_writeMap db)).
     length (pd_root db) \<le> length k)"

lemma set_fold_os_insert: "set (fold (\<lambda>e s. os_insert (fst e) s) es acc) = set acc \<union> fst ` set es"
  by (induction es arbitrary: acc) auto

lemma set_proc_children:
  "set (proc_children db) = fst ` set (pd_readMap db) \<union> fst ` set (pd_writeMap db)"
  by (simp add: proc_children_def set_fold_os_insert)

lemma add_proc_children_total:
  "(\<forall>c \<in> set cs. length rt \<le> length c) \<Longrightarrow> \<exists>n. add_proc_children T rt cs node = Some n"
  by (induction cs arbitrary: node) (auto simp: not_less)

lemma ProcDB_Get_total:
  assumes "proc_ok db"
  shows "\<exists>r. ProcDB_Get T P db key = Some r"
proof -
  obtain n where n: "add_proc_children T (pd_root db) (proc_children db)
      (Node_default\<lparr>nd_flags := kPersist, nd_data := [], nd_version := 0\<rparr>) = Some n"
    using add_proc_children_total [of "proc_children db" "pd_root db"] assms
    by (force simp: proc_ok_def set_proc_children)
  have "\<exists>st v. run_read T P db cb args = Some (st, v)" for cb args
    by (cases cb) (auto simp: run_read_def onProcRead_def n)
  then have *: "\<exists>r. Option.bind (run_read T P db cb args) (\<lambda>(st, v). Some (ldb_of_status st, v)) = Some r"
    for cb args by (metis bind.bind_lunit case_prod_conv)
  show ?thesis
    using * by (auto simp: ProcDB_Get_def Let_def split: option.splits prod.splits)
qed

lemma Store_Get_total:
  assumes "proc_ok proc"
  shows "\<exists>r. Store_Get s proc path = Some r"
proof -
  obtain r where r: "ProcDB_Get (toft (so_lib s)) (pb (so_lib s)) proc path = Some r"
    using ProcDB_Get_total [OF assms] by blast
  show ?thesis by (cases r) (simp add: Store_Get_def Let_def r split: prod.splits)
qed

lemma Store_Write_proc:
  assumes "proc_ok proc" and "under_proc s path"
  shows "\<exists>st es. Store_Write s proc path data = Some (st, s, es)"
proof -
  obtain st n where "Store_Get s proc path = Some (st, n)" using Store_Get_total [OF assms(1)] by fast
  then show ?thesis using assms(2)
    by (auto simp: Store_Write_def Store_Put_def Let_def split: prod.splits)
qed

subsection \<open>Entries outside the tree\<close>

lemma child_paths_key_path: "key_path p \<Longrightarrow> q \<in> set (child_paths p son) \<Longrightarrow> key_path q"
  by (auto simp: child_paths_def key_path_def split: if_splits)

lemma SplitPath_key_path: "SplitPath q = (OK, p, son) \<Longrightarrow> key_path q \<Longrightarrow> key_path p"
  using SplitPath_shorter(3,4) by (metis key_path_def key_path_hd list.collapse)

lemma tree_ok_cong:
  assumes "\<And>p. key_path p \<Longrightarrow> node_at s' p = node_at s p" and "so_procRoot s' = so_procRoot s"
    and "tree_ok s"
  shows "tree_ok s'"
proof -
  have "root_ok (node_at s')" using assms(1,3) by (simp add: tree_ok_def root_ok_def)
  moreover have "parents_ok (so_procRoot s') (node_at s')"
    using assms SplitPath_key_path unfolding tree_ok_def parents_ok_def by metis
  moreover have "stored_children (node_at s') p son = stored_children (node_at s) p son"
    if "key_path p" for p son
    unfolding stored_children_def
    by (intro arg_cong [where f = length] filter_cong refl)
      (use assms(1) child_paths_key_path [OF that] in simp)
  then have "children_ok (so_procRoot s') (node_at s')"
    using assms unfolding tree_ok_def children_ok_def by metis
  ultimately show ?thesis by (simp add: tree_ok_def)
qed

lemma outside_key_inv:
  assumes "store_inv s" and "store_ok (s\<lparr>so_persist := db\<rparr>)" and "\<not> key_path k"
    and "\<And>p. p \<noteq> k \<Longrightarrow> store_view (s\<lparr>so_persist := db\<rparr>) p = store_view s p"
  shows "store_inv (s\<lparr>so_persist := db\<rparr>)"
    and "\<And>p. key_path p \<Longrightarrow> node_at (s\<lparr>so_persist := db\<rparr>) p = node_at s p"
proof -
  show n: "node_at (s\<lparr>so_persist := db\<rparr>) p = node_at s p" if "key_path p" for p
  proof -
    have "p \<noteq> k" using assms(3) that by blast
    then show ?thesis using assms(4) [of p] by (simp add: node_at_def nodes_of_def)
  qed
  show "store_inv (s\<lparr>so_persist := db\<rparr>)"
    using assms(1,2) tree_ok_cong [of "s\<lparr>so_persist := db\<rparr>" s, OF n] by (auto simp: store_inv_def)
qed

lemma special_keys [simp]: "\<not> key_path (session_key sid)" "\<not> key_path COMMIT_PREFIX"
  "session_key sid \<noteq> COMMIT_PREFIX" "COMMIT_PREFIX \<noteq> session_key sid"
  by (auto simp: session_key_def SESSION_PREFIX_def COMMIT_PREFIX_def key_path_def)

lemma put_outside:
  assumes "store_inv s" and "\<not> key_path k" and "ldb_Put (ldb (so_lib s)) (so_persist s) k v = (st, db)"
  shows "store_inv (s\<lparr>so_persist := db\<rparr>)"
    and "store_view (s\<lparr>so_persist := db\<rparr>) = (if ldb_ok st then (store_view s)(k \<mapsto> v) else store_view s)"
proof -
  have "node_batch (pb (so_lib s)) [BPut k v]" using assms(2) by (simp add: node_batch_def)
  note p = ldb_Put_store [OF store_invD(1) [OF assms(1)] this assms(3)]
  show "store_view (s\<lparr>so_persist := db\<rparr>) = (if ldb_ok st then (store_view s)(k \<mapsto> v) else store_view s)"
    by (rule p(2))
  show "store_inv (s\<lparr>so_persist := db\<rparr>)"
    by (rule outside_key_inv(1) [OF assms(1) p(1) assms(2)]) (simp add: p(2))
qed

lemma delete_outside:
  assumes "store_inv s" and "\<not> key_path k" and "ldb_Delete (ldb (so_lib s)) (so_persist s) k = (st, db)"
  shows "store_inv (s\<lparr>so_persist := db\<rparr>)"
    and "store_view (s\<lparr>so_persist := db\<rparr>) = (if ldb_ok st then (store_view s)(k := None) else store_view s)"
proof -
  note p = ldb_Delete_store [OF store_invD(1) [OF assms(1)] assms(3)]
  show "store_view (s\<lparr>so_persist := db\<rparr>) = (if ldb_ok st then (store_view s)(k := None) else store_view s)"
    by (rule p(2))
  show "store_inv (s\<lparr>so_persist := db\<rparr>)"
    by (rule outside_key_inv(1) [OF assms(1) p(1) assms(2)]) (simp add: p(2))
qed

lemma session_ops_inv:
  assumes "store_inv s"
  shows "store_inv (snd (Store_AddSession s ss))" and "store_inv (snd (Store_RemoveSession s sid))"
    and "store_inv (snd (Store_SetCommitIndex s idx))"
  using put_outside(1) [OF assms special_keys(1)] delete_outside(1) [OF assms special_keys(1)]
    put_outside(1) [OF assms special_keys(2)]
  by (auto simp: Store_AddSession_def Store_RemoveSession_def Store_SetCommitIndex_def Let_def
      split: prod.splits)

lemma session_ops_view:
  assumes "store_inv s"
  shows "Store_AddSession s ss = (st, s') \<Longrightarrow> store_view s' = (if ok st then (store_view s)
      (session_key (sp_sid ss) \<mapsto> snd (session_SerializeToString (pb (so_lib s)) ss)) else store_view s)"
    and "Store_RemoveSession s sid = (st, s') \<Longrightarrow> store_view s' =
      (if ok st then (store_view s)(session_key sid := None) else store_view s)"
    and "Store_SetCommitIndex s idx = (st, s') \<Longrightarrow> store_view s' =
      (if ok st then (store_view s)(COMMIT_PREFIX \<mapsto> u64_bytes idx) else store_view s)"
  using put_outside(2) [OF assms special_keys(1)] delete_outside(2) [OF assms special_keys(1)]
    put_outside(2) [OF assms special_keys(2)]
  by (auto simp: Store_AddSession_def Store_RemoveSession_def Store_SetCommitIndex_def Let_def ok_code
      split: prod.splits if_splits)


subsection \<open>Sequences of operations\<close>

datatype store_op =
    OpCreate string string u32 sid_t
  | OpDelete string
  | OpWrite string string
  | OpAddSession StoredSession
  | OpRemoveSession sid_t
  | OpSetCommitIndex u64

fun store_step :: "'e ProcDB \<Rightarrow> store_op \<Rightarrow> 'db Store \<Rightarrow> (Status \<times> 'db Store) option" where
  "store_step proc (OpCreate path data flags sid) s = Store_Create s proc path data flags sid"
| "store_step proc (OpDelete path) s = Store_Delete s proc path"
| "store_step proc (OpWrite path data) s =
     map_option (\<lambda>(st, s', es). (st, s')) (Store_Write s proc path data)"
| "store_step proc (OpAddSession ss) s = Some (Store_AddSession s ss)"
| "store_step proc (OpRemoveSession sid) s = Some (Store_RemoveSession s sid)"
| "store_step proc (OpSetCommitIndex idx) s = Some (Store_SetCommitIndex s idx)"

definition store_run :: "'e ProcDB \<Rightarrow> store_op list \<Rightarrow> 'db Store \<Rightarrow> 'db Store option" where
  "store_run proc ops s = fold_opt (\<lambda>op s. map_option snd (store_step proc op s)) ops s"

lemma Store_Write_step:
  assumes "store_inv s" and "proc_ok proc"
  shows "\<exists>st s' es. Store_Write s proc path data = Some (st, s', es) \<and> store_inv s'"
proof (cases "under_proc s path")
  case True
  with assms show ?thesis using Store_Write_proc by blast
next
  case False
  with assms(1) show ?thesis using Store_Write_spec [of s path proc data] by blast
qed

lemma store_step_inv:
  assumes "store_inv s" and "proc_ok proc"
  shows "\<exists>st s'. store_step proc op s = Some (st, s') \<and> store_inv s'"
proof (cases op)
  case (OpCreate path data flags sid)
  obtain st s' where "Store_Create s proc path data flags sid = Some (st, s')"
    using st.create_total [OF assms(1)] by fast
  with OpCreate show ?thesis using st.create_invar [OF assms(1)] by simp
next
  case (OpDelete path)
  obtain st s' where "Store_Delete s proc path = Some (st, s')"
    using st.remove_total [OF assms(1)] by fast
  with OpDelete show ?thesis using st.remove_invar [OF assms(1)] by simp
next
  case (OpWrite path data)
  with Store_Write_step [OF assms, of path data] show ?thesis by auto
qed (use session_ops_inv [OF assms(1)] in \<open>simp, metis prod.collapse\<close>)+

lemma store_run_inv:
  assumes "store_inv s" and "proc_ok proc"
  shows "\<exists>s'. store_run proc ops s = Some s' \<and> store_inv s'"
  using assms(1)
proof (induction ops arbitrary: s)
  case (Cons op ops)
  obtain st s1 where "store_step proc op s = Some (st, s1)" "store_inv s1"
    using store_step_inv [OF Cons.prems assms(2)] by blast
  with Cons.IH show ?case by (simp add: store_run_def)
qed (simp add: store_run_def)

text \<open>Initialising an empty database.\<close>

definition root_node :: "string \<Rightarrow> Node" where
  "root_node pr = Node_default\<lparr>nd_children := [tl pr]\<rparr>"

lemma empty_store_ok:
  assumes "thirdparty_ok (so_lib s)" and "ldb_readable (ldb (so_lib s)) (so_persist s)"
    and "store_view s = Map.empty" and "so_procRoot s = slash # r" and "r \<noteq> []" and "slash \<notin> set r"
  shows "store_ok s"
  using assms by (simp add: store_ok_def)

lemma root_tree_ok:
  assumes "pr = slash # r"
  shows "root_ok [''/'' \<mapsto> root_node pr]" and "parents_ok pr [''/'' \<mapsto> root_node pr]"
    and "children_ok pr [''/'' \<mapsto> root_node pr]"
proof -
  show "root_ok [''/'' \<mapsto> root_node pr]"
    by (simp add: root_ok_def root_node_def is_ephemeral_def Node_default_def)
  show "parents_ok pr [''/'' \<mapsto> root_node pr]" by (simp add: parents_ok_def)
  have "stored_children [''/'' \<mapsto> root_node pr] p son = 0" if "p = ''/''" for p son
    using that by (auto simp: stored_children_def child_paths_def filter_empty_conv)
  then show "children_ok pr [''/'' \<mapsto> root_node pr]"
    using assms by (auto simp: children_ok_def root_node_def)
qed

lemma dropWhile_slash: "slash \<notin> set r \<Longrightarrow> dropWhile (\<lambda>c. c = slash) r = r"
  by (cases r) auto

definition same_env :: "'db Store \<Rightarrow> 'db Store \<Rightarrow> bool" where
  "same_env s s' \<longleftrightarrow> so_lib s' = so_lib s \<and> so_procRoot s' = so_procRoot s
     \<and> so_max_node_size s' = so_max_node_size s"

lemma Store_init_empty:
  assumes ok_s: "store_ok s" and empty: "store_view s = Map.empty"
    and fits: "node_ByteSize (pb (so_lib s)) (root_node (so_procRoot s)) \<le> max_bytes s"
    and wr: "\<not> write_refused s"
  shows "\<exists>s'. Store_init s proc = Some s' \<and> store_inv s'
     \<and> node_at s' = [''/'' \<mapsto> root_node (so_procRoot s)] \<and> same_env s s'
     \<and> (\<forall>k. k \<noteq> ''/'' \<longrightarrow> store_view s' k = None)"
proof -
  let ?rt = "root_node (so_procRoot s)"
  obtain r where pr: "so_procRoot s = slash # r" "slash \<notin> set r" using store_okD(5) [OF ok_s] by blast
  have nf: "\<not> ldb_ok (fst (ldb_Get (ldb (so_lib s)) (so_persist s) ''/''))"
    using ldb_Get_view_None(1) [OF store_okD(4) [OF ok_s]] empty by (simp add: store_view_def)
  have node: "(NewNode Node_default [] kPersist)\<lparr>nd_children :=
      nd_children (NewNode Node_default [] kPersist) @ [StringTrimLeft (toft (so_lib s)) (so_procRoot s) ''/'']\<rparr> = ?rt"
    using pr by (simp add: toft_laws [OF store_okD(3) [OF ok_s]] root_node_def NewNode_def kPersist_def
        dropWhile_slash Node_default_def)
  obtain db where w: "ldb_Put (ldb (so_lib s)) (so_persist s) ''/''
      (node_SerializeAsString (pb (so_lib s)) ?rt) = (ldb_OK, db)"
    using wr by (metis ldb_ok_def surj_pair write_refusedI(2))
  have run: "Store_init s proc = Some (s\<lparr>so_persist := db\<rparr>)"
    using nf fits w ok_s
    by (simp add: Store_init_def Let_def node Store_Put_def node_roundtrip [OF store_okD(2)] ldb_ok_def ok_code)
  have "node_batch (pb (so_lib s)) [BPut ''/'' (node_SerializeAsString (pb (so_lib s)) ?rt)]"
    by (auto simp: node_batch_def)
  note ws = ldb_Put_store [OF ok_s this w]
  have n: "node_at (s\<lparr>so_persist := db\<rparr>) = [''/'' \<mapsto> ?rt]"
    unfolding node_at_change ws(2) empty
    by (simp add: ldb_ok_def nodes_of_upd(1) [OF store_okD(2) [OF ok_s]]) (simp add: nodes_of_def fun_eq_iff)
  have "store_view (s\<lparr>so_persist := db\<rparr>) k = None" if "k \<noteq> ''/''" for k
    unfolding ws(2) empty using that by (simp add: ldb_ok_def)
  then show ?thesis
    using run ws(1) n root_tree_ok [OF pr(1)] by (simp add: store_inv_def tree_ok_def same_env_def)
qed

text \<open>
  C15. The store is total and consistent from its first start on: over libraries that keep
  their contracts, a database that starts empty is initialised to a tree with just the root,
  and then any sequence of creations, deletions, writes, session records and commit indices
  returns without a failing \<^verbatim>\<open>CHECK\<close> and without an exception, and leaves a tree in which the
  root is there, every node has a persistent parent, every node's list of children names
  exactly its stored children, and every stored node can be decoded.
\<close>

theorem store_runs_total:
  assumes "store_ok s" and "store_view s = Map.empty" and "proc_ok proc"
    and "node_ByteSize (pb (so_lib s)) (root_node (so_procRoot s)) \<le> max_bytes s"
    and "\<not> write_refused s"
  shows "\<exists>s0 s'. Store_init s proc = Some s0 \<and> store_run proc ops s0 = Some s' \<and> store_inv s'"
proof -
  from Store_init_empty [OF assms(1,2,4,5)] obtain s0
    where "Store_init s proc = Some s0" "store_inv s0" by blast
  with store_run_inv [OF this(2) assms(3)] show ?thesis by blast
qed

end
