(* ===== verification/Store_Persist.thy ===== *)
theory Store_Persist
  imports Store_Runs
begin

text \<open>
  What the store gives back after it was stored, and keeps across other operations: the commit
  index, the sessions that a walk visits, and the copy that a snapshot makes.
\<close>

subsection \<open>Frames\<close>

lemma apply_batch_other:
  "(\<And>op. op \<in> set b \<Longrightarrow> (case op of BPut k' _ \<Rightarrow> k' \<noteq> k | BDelete k' \<Rightarrow> k' \<noteq> k)) \<Longrightarrow>
     apply_batch b m k = m k"
proof (induction b arbitrary: m)
  case (Cons x b)
  then have "apply_batch b m' k = m' k" for m' by simp
  with Cons.prems [of x] show ?case by (cases x) (simp_all only: apply_batch.simps, auto)
qed simp

lemma batch_frame:
  assumes "store_ok s" and "node_batch (pb (so_lib s)) b"
    and "ldb_Write (ldb (so_lib s)) (so_persist s) b = (status, db)"
    and "\<And>op. op \<in> set b \<Longrightarrow> (case op of BPut k' _ \<Rightarrow> key_path k' | BDelete k' \<Rightarrow> key_path k')"
    and "\<not> key_path k"
  shows "store_view (s\<lparr>so_persist := db\<rparr>) k = store_view s k"
proof -
  have "apply_batch b (store_view s) k = store_view s k"
    by (rule apply_batch_other) (use assms(4,5) in \<open>fastforce split: batch_op.splits\<close>)
  then show ?thesis using ldb_Write_store(2) [OF assms(1-3)] by simp
qed

lemma Store_Create_frame:
  assumes inv: "store_inv s" and run: "Store_Create s proc path data flags sid = Some (st, s')"
    and k: "\<not> key_path k"
  shows "store_view s' k = store_view s k"
  using store_invD(1) [OF inv] run
proof (cases rule: Store_Create_cases)
  case (written p son pn status db)
  have kp: "key_path path" using written(1) by (rule valid_key_path)
  then have "key_path p" using SplitPath_key_path written(3) by blast
  with kp k show ?thesis unfolding written(8)
    by (intro batch_frame [OF store_invD(1) [OF inv] _ written(7)]) (auto simp: node_batch_def)
qed simp

lemma Store_Delete_frame:
  assumes inv: "store_inv s" and run: "Store_Delete s proc path = Some (st, s')"
    and k: "\<not> key_path k"
  shows "store_view s' k = store_view s k"
  using inv
proof (cases rule: Store_Delete_cases [of s proc path])
  case (written n p son pn status db)
  have kp: "key_path path" using written(1) by (rule valid_key_path)
  then have "key_path p" using SplitPath_key_path written(2) by blast
  moreover have "s' = s\<lparr>so_persist := db\<rparr>" using written(8) run by simp
  ultimately show ?thesis using kp k
    by (simp, intro batch_frame [OF store_invD(1) [OF inv] _ written(7)]) (auto simp: node_batch_def)
qed (use run in simp)

lemma Store_Put_frame:
  assumes "store_ok s" and "Store_Put s proc path n = (st, s', es)" and "\<not> key_path k"
  shows "store_view s' k = store_view s k"
proof (cases "IsValidPath path \<and> \<not> under_proc s path
    \<and> node_ByteSize (pb (so_lib s)) n \<le> max_bytes s")
  case False
  then have "s' = s" using assms(2)
    by (auto simp: Store_Put_def Let_def split: if_splits prod.splits)
  then show ?thesis by simp
next
  case True
  obtain status db where w: "ldb_Put (ldb (so_lib s)) (so_persist s) path
      (node_SerializeAsString (pb (so_lib s)) n) = (status, db)" by fastforce
  have "s' = s\<lparr>so_persist := db\<rparr>" using True assms(2) w
    by (auto simp: Store_Put_def Let_def node_roundtrip [OF store_okD(2) [OF assms(1)]])
  moreover have "node_batch (pb (so_lib s)) [BPut path (node_SerializeAsString (pb (so_lib s)) n)]"
    by (auto simp: node_batch_def)
  ultimately show ?thesis
    using ldb_Put_store(2) [OF assms(1) _ w] True assms(3) valid_key_path [of path] by auto
qed

lemma Store_Write_frame:
  assumes "store_ok s" and "Store_Write s proc path data = Some (st, s', es)" and "\<not> key_path k"
  shows "store_view s' k = store_view s k"
proof -
  obtain st0 n where "Store_Get s proc path = Some (st0, n)"
    using assms(2) by (auto simp: Store_Write_def elim: bind_eq_SomeE)
  with assms show ?thesis using Store_Put_frame [OF assms(1) _ assms(3)]
    by (auto simp: Store_Write_def split: if_splits)
qed

lemma store_step_frame:
  assumes inv: "store_inv s" and run: "store_step proc op s = Some (st, s')" and k: "\<not> key_path k"
    and other: "case op of OpAddSession ss \<Rightarrow> k \<noteq> session_key (sp_sid ss)
      | OpRemoveSession sid \<Rightarrow> k \<noteq> session_key sid | OpSetCommitIndex _ \<Rightarrow> k \<noteq> COMMIT_PREFIX | _ \<Rightarrow> True"
  shows "store_view s' k = store_view s k"
proof (cases op)
  case (OpCreate path data flags sid)
  with run show ?thesis using Store_Create_frame [OF inv _ k] by simp
next
  case (OpDelete path)
  with run show ?thesis using Store_Delete_frame [OF inv _ k] by simp
next
  case (OpWrite path data)
  with run show ?thesis using Store_Write_frame [OF store_invD(1) [OF inv] _ k] by auto
qed (use run other session_ops_view [OF inv] in auto)

subsection \<open>The commit index\<close>

lemma GetCommitIndex_view:
  assumes "ldb_readable (ldb (so_lib s)) (so_persist s)"
  shows "Store_GetCommitIndex s = (case store_view s COMMIT_PREFIX of
       None \<Rightarrow> Some (OK, Some 0)
     | Some v \<Rightarrow> if length v \<noteq> 8 then None else Some (OK, Some (u64_of_bytes v)))"
proof (cases "store_view s COMMIT_PREFIX")
  case None
  then show ?thesis using ldb_Get_view_None [OF assms, of COMMIT_PREFIX]
    by (auto simp: Store_GetCommitIndex_def Let_def store_view_def split: prod.splits)
next
  case (Some v)
  then have "ldb_Get (ldb (so_lib s)) (so_persist s) COMMIT_PREFIX = (ldb_OK, v)"
    by (simp add: store_view_def ldb_Get_view_Some)
  then show ?thesis using Some by (simp add: Store_GetCommitIndex_def ldb_IsNotFound_def ldb_ok_def)
qed

fun sets_commit :: "store_op \<Rightarrow> bool" where
  "sets_commit (OpSetCommitIndex _) = True"
| "sets_commit _ = False"

lemma store_run_commit:
  assumes "store_inv s" and "proc_ok proc" and "store_run proc ops s = Some s'"
    and "\<forall>op \<in> set ops. \<not> sets_commit op"
  shows "store_view s' COMMIT_PREFIX = store_view s COMMIT_PREFIX \<and> store_inv s'"
  using assms(1,3,4)
proof (induction ops arbitrary: s)
  case (Cons op ops)
  obtain st s1 where s1: "store_step proc op s = Some (st, s1)" "store_inv s1"
    using store_step_inv [OF Cons.prems(1) assms(2)] by blast
  with Cons.prems(2) have "store_run proc ops s1 = Some s'" by (simp add: store_run_def)
  moreover have "store_view s1 COMMIT_PREFIX = store_view s COMMIT_PREFIX"
    by (rule store_step_frame [OF Cons.prems(1) s1(1)])
      (use Cons.prems(3) in \<open>auto split: store_op.splits\<close>)
  ultimately show ?case using Cons.IH [OF s1(2)] Cons.prems(3) by simp
qed (simp add: store_run_def)

text \<open>
  The commit index is durable: after a successful \<^verbatim>\<open>SetCommitIndex\<close> the store reads back
  that index, and still does after any sequence of creations, deletions, writes and session
  updates; in particular none of them can make \<^verbatim>\<open>GetCommitIndex\<close> abort.
\<close>

theorem commit_index_durable:
  assumes "store_inv s" and "proc_ok proc" and "Store_SetCommitIndex s idx = (st, s1)" and "ok st"
    and "\<forall>op \<in> set ops. \<not> sets_commit op"
  shows "\<exists>s2. store_run proc ops s1 = Some s2 \<and> Store_GetCommitIndex s2 = Some (OK, Some idx)"
proof -
  have inv: "store_inv s1" using session_ops_inv(3) [OF assms(1), of idx] assms(3) by simp
  have v: "store_view s1 COMMIT_PREFIX = Some (u64_bytes idx)"
    using session_ops_view(3) [OF assms(1,3)] assms(4) by simp
  obtain s2 where s2: "store_run proc ops s1 = Some s2" using store_run_inv [OF inv assms(2)] by blast
  note f = store_run_commit [OF inv assms(2) s2 assms(5)]
  then have "ldb_readable (ldb (so_lib s2)) (so_persist s2)" using store_okD(4) store_invD(1) by blast
  with f v s2 show ?thesis by (simp add: GetCommitIndex_view)
qed


subsection \<open>The stored sessions\<close>

definition stored_session :: "'db Store \<Rightarrow> sid_t \<Rightarrow> StoredSession option" where
  "stored_session s sid =
     map_option (\<lambda>v. snd (session_ParseFromString (pb (so_lib s)) v)) (store_view s (session_key sid))"

text \<open>Every key that begins with the session prefix is that of the session stored there.\<close>

definition sessions_ok :: "'db Store \<Rightarrow> bool" where
  "sessions_ok s \<longleftrightarrow> (\<forall>r v. store_view s (SESSION_PREFIX @ r) = Some v \<longrightarrow>
     (\<exists>ss. r = u64_bytes (sp_sid ss) \<and> v = snd (session_SerializeToString (pb (so_lib s)) ss)))"

lemma same_env_simps [simp]: "same_env s s" "same_env s (s\<lparr>so_persist := db\<rparr>)"
  by (simp_all add: same_env_def)

lemma Store_Put_env: "Store_Put s proc p n = (st, s', es) \<Longrightarrow> same_env s s'"
  by (auto simp: Store_Put_def Let_def split: if_splits prod.splits)

lemma store_step_env:
  assumes "store_step proc op s = Some (st, s')"
  shows "same_env s s'"
proof (cases op)
  case (OpCreate path data flags sid)
  with assms show ?thesis
    by (auto simp: Store_Create_def Let_def split: if_splits prod.splits elim!: bind_eq_SomeE)
next
  case (OpDelete path)
  with assms show ?thesis
    by (auto simp: Store_Delete_def Let_def split: if_splits prod.splits elim!: bind_eq_SomeE)
next
  case (OpWrite path data)
  with assms show ?thesis
    by (auto simp: Store_Write_def split: if_splits elim!: bind_eq_SomeE intro: Store_Put_env)
qed (use assms in \<open>auto simp: Store_AddSession_def Store_RemoveSession_def Store_SetCommitIndex_def Let_def
      split: prod.splits\<close>)

lemma store_step_lib: "store_step proc op s = Some (st, s') \<Longrightarrow> so_lib s' = so_lib s"
  by (drule store_step_env) (simp add: same_env_def)

lemma SESSION_PREFIX_key [simp]: "\<not> key_path (SESSION_PREFIX @ r)" "SESSION_PREFIX @ r \<noteq> COMMIT_PREFIX"
  "(SESSION_PREFIX @ r = session_key sid) = (r = u64_bytes sid)"
  by (auto simp: SESSION_PREFIX_def COMMIT_PREFIX_def session_key_def key_path_def)

lemma store_step_sessions:
  assumes inv: "store_inv s" and sok: "sessions_ok s" and run: "store_step proc op s = Some (st, s')"
  shows "sessions_ok s'"
  unfolding sessions_ok_def store_step_lib [OF run]
proof (intro allI impI)
  fix r v assume v: "store_view s' (SESSION_PREFIX @ r) = Some v"
  show "\<exists>ss. r = u64_bytes (sp_sid ss) \<and> v = snd (session_SerializeToString (pb (so_lib s)) ss)"
  proof (cases "store_view s' (SESSION_PREFIX @ r) = store_view s (SESSION_PREFIX @ r)")
    case True
    with v sok show ?thesis unfolding sessions_ok_def by metis
  next
    case False
    note f = store_step_frame [OF inv run SESSION_PREFIX_key(1) [of r]]
    from False f consider ss where "op = OpAddSession ss" "r = u64_bytes (sp_sid ss)"
      | sid where "op = OpRemoveSession sid" "r = u64_bytes sid"
      by (cases op) auto
    then show ?thesis
    proof cases
      case 1
      with run session_ops_view(1) [OF inv] v False show ?thesis
        by (fastforce simp: session_key_def split: if_splits)
    next
      case 2
      with run session_ops_view(2) [OF inv] v False show ?thesis
        by (fastforce simp: session_key_def split: if_splits)
    qed
  qed
qed

lemma lex_between_prefix:
  "(p :: 'a::linorder list) \<le> k \<and> k < p @ h \<longleftrightarrow> (\<exists>r. k = p @ r \<and> r < h)"
proof (induction p arbitrary: k)
  case (Cons x p)
  show ?case
  proof (cases k)
    case (Cons y k')
    then show ?thesis using Cons.IH [of k'] by auto
  qed simp
qed simp

lemma char_max: "c \<le> (CHR 0xFF :: char)"
proof -
  have "of_char c < (256 :: nat)" by (rule nat_of_char_less_256)
  then have "of_char c \<le> (255 :: nat)" by linarith
  then show ?thesis by (simp add: less_eq_char_def)
qed

lemma less_replicate_max:
  "xs < replicate (length xs) (CHR 0xFF) \<longleftrightarrow> xs \<noteq> replicate (length xs) (CHR 0xFF)"
proof (induction xs)
  case (Cons c xs)
  then show ?case using char_max [of c] by (auto simp: order.order_iff_strict)
qed simp

lemma le_bytes_max: "le_bytes k (256 ^ k - 1) = replicate k (CHR 0xFF)"
proof (induction k)
  case (Suc k)
  have e: "(256 :: nat) ^ Suc k - 1 = 255 + 256 * (256 ^ k - 1)"
    by (simp add: algebra_simps)
  have "(256 ^ Suc k - 1) mod 256 = (255 :: nat)" "(256 ^ Suc k - 1) div 256 = (256 ^ k - 1 :: nat)"
    unfolding e by simp_all
  moreover have "char_of (255 :: nat) = CHR 0xFF" by code_simp
  ultimately show ?case using Suc by (simp del: power_Suc)
qed simp

lemma u64_bytes_max: "u64_bytes (- 1) = replicate 8 (CHR 0xFF)"
  using le_bytes_max [of 8] by (simp add: u64_bytes_def unsigned_minus_1_eq_mask mask_eq_exp_minus_1)

lemma u64_bytes_below: "u64_bytes sid < replicate 8 (CHR 0xFF) \<longleftrightarrow> sid \<noteq> - 1"
  using less_replicate_max [of "u64_bytes sid"] u64_bytes_inject [of sid "- 1"]
  by (simp add: u64_bytes_max)

lemma seek_range_filter:
  "om_invar es \<Longrightarrow> seek_range lo hi es = filter (\<lambda>e. lo \<le> fst e \<and> fst e < hi) es"
proof (induction es)
  case (Cons e es)
  have tail: "om_invar es" and above: "\<forall>e' \<in> set es. fst e < fst e'"
    using Cons.prems by (auto simp: om_invar_def)
  have tw: "takeWhile (\<lambda>e. fst e < hi) es = filter (\<lambda>e. fst e < hi) es"
    using tail by (rule om_takeWhile)
  show ?case
  proof (cases "fst e < lo")
    case True
    then show ?thesis using Cons.IH [OF tail] by (simp add: seek_range_def not_le)
  next
    case False
    then have "\<forall>e' \<in> set es. lo \<le> fst e'" using above by (meson less_imp_le not_less order.trans)
    then have "filter (\<lambda>e. lo \<le> fst e \<and> fst e < hi) es = filter (\<lambda>e. fst e < hi) es"
      by (intro filter_cong) auto
    moreover have "\<not> fst e < hi \<Longrightarrow> filter (\<lambda>e. fst e < hi) es = []"
      using above by (auto simp: filter_empty_conv dest: order.strict_trans)
    ultimately show ?thesis using False tw by (auto simp: seek_range_def)
  qed
qed (simp add: seek_range_def)


text \<open>The sessions a walk visits, in the order of their keys.\<close>

definition walked_sessions :: "'db Store \<Rightarrow> StoredSession list" where
  "walked_sessions s =
     map (\<lambda>e. snd (session_ParseFromString (pb (so_lib s)) (snd e)))
       (seek_range SESSION_PREFIX (SESSION_PREFIX @ replicate 8 (CHR 0xFF))
         (fst (ldb_Iterate (ldb (so_lib s)) (so_persist s))))"

lemma fold_opt_map: "fold_opt f (map g xs) w = fold_opt (\<lambda>x. f (g x)) xs w"
proof (induction xs arbitrary: w)
  case (Cons x xs)
  then show ?case by (cases "f (g x) w") simp_all
qed simp

lemma fold_opt_cong: "(\<And>x w. x \<in> set xs \<Longrightarrow> f x w = g x w) \<Longrightarrow> fold_opt f xs w = fold_opt g xs w"
proof (induction xs arbitrary: w)
  case (Cons x xs)
  then show ?case by (cases "g x w") simp_all
qed simp

lemma session_range:
  assumes "store_ok s" and "sessions_ok s"
    and "ldb_ok (snd (ldb_Iterate (ldb (so_lib s)) (so_persist s)))"
  defines "es \<equiv> fst (ldb_Iterate (ldb (so_lib s)) (so_persist s))"
  shows "(k, v) \<in> set (seek_range SESSION_PREFIX (SESSION_PREFIX @ replicate 8 (CHR 0xFF)) es) \<longleftrightarrow>
    (\<exists>ss. k = session_key (sp_sid ss) \<and> v = snd (session_SerializeToString (pb (so_lib s)) ss)
      \<and> sp_sid ss \<noteq> - 1 \<and> store_view s k = Some v)"
proof -
  note it = ldb_Iterate_view [OF store_okD(1) [OF assms(1)] assms(3), folded es_def]
  have "(k, v) \<in> set (seek_range SESSION_PREFIX (SESSION_PREFIX @ replicate 8 (CHR 0xFF)) es) \<longleftrightarrow>
      store_view s k = Some v \<and> (\<exists>r. k = SESSION_PREFIX @ r \<and> r < replicate 8 (CHR 0xFF))"
    using it om_find_iff [OF it(1), of k v]
    by (auto simp: seek_range_filter lex_between_prefix store_view_def)
  also have "\<dots> \<longleftrightarrow> (\<exists>ss. k = session_key (sp_sid ss)
      \<and> v = snd (session_SerializeToString (pb (so_lib s)) ss) \<and> sp_sid ss \<noteq> - 1 \<and> store_view s k = Some v)"
    (is "?l \<longleftrightarrow> ?r")
  proof
    assume ?l
    then obtain r where r: "store_view s (SESSION_PREFIX @ r) = Some v" "k = SESSION_PREFIX @ r"
      "r < replicate 8 (CHR 0xFF)" by auto
    with assms(2) obtain ss where "r = u64_bytes (sp_sid ss)"
      "v = snd (session_SerializeToString (pb (so_lib s)) ss)" unfolding sessions_ok_def by blast
    with r show ?r by (auto simp: session_key_def u64_bytes_below)
  qed (auto simp: session_key_def u64_bytes_below)
  finally show ?thesis .
qed

lemma distinct_seek_range: "om_invar es \<Longrightarrow> distinct (map fst (seek_range lo hi es))"
  using om.entries_distinct [of es] by (simp add: seek_range_filter distinct_map_filter)

lemma stored_session_iff:
  assumes "store_ok s" and "sessions_ok s"
  shows "stored_session s sid = Some ss \<longleftrightarrow> sid = sp_sid ss \<and>
    store_view s (session_key sid) = Some (snd (session_SerializeToString (pb (so_lib s)) ss))"
  (is "?l \<longleftrightarrow> ?r")
proof
  note rt = session_roundtrip(1) [OF store_okD(2) [OF assms(1)]]
  show ?r if ?l
  proof -
    from that obtain v where v: "store_view s (session_key sid) = Some v"
      "ss = snd (session_ParseFromString (pb (so_lib s)) v)" by (auto simp: stored_session_def)
    with assms(2) obtain ss' where "u64_bytes sid = u64_bytes (sp_sid ss')"
      "v = snd (session_SerializeToString (pb (so_lib s)) ss')"
      unfolding sessions_ok_def session_key_def by metis
    with v rt show ?r by simp
  qed
  show ?l if ?r using that rt [of ss] by (auto simp: stored_session_def)
qed

lemma walk_sessions:
  assumes "store_inv s" and "sessions_ok s"
    and "ldb_ok (snd (ldb_Iterate (ldb (so_lib s)) (so_persist s)))"
  shows "Store_WalkSessions s func w = map_option (Pair OK) (fold_opt func (walked_sessions s) w)
     \<and> distinct (map sp_sid (walked_sessions s))
     \<and> set (walked_sessions s) = {ss. \<exists>sid. sid \<noteq> - 1 \<and> stored_session s sid = Some ss}"
proof -
  let ?R = "seek_range SESSION_PREFIX (SESSION_PREFIX @ replicate 8 (CHR 0xFF))
    (fst (ldb_Iterate (ldb (so_lib s)) (so_persist s)))"
  let ?parse = "\<lambda>e. snd (session_ParseFromString (pb (so_lib s)) (snd e))"
  note ok_s = store_invD(1) [OF assms(1)]
  note it = ldb_Iterate_view [OF store_okD(1) [OF ok_s] assms(3)]
  note rt = session_roundtrip(1) [OF store_okD(2) [OF ok_s]]
  note range = session_range [OF ok_s assms(2,3)]
  have key: "fst e = session_key (sp_sid (?parse e))" if "e \<in> set ?R" for e
    using that range [of "fst e" "snd e"] rt by auto
  have "walk_session_entry (pb (so_lib s)) func e x = func (?parse e) x" if "e \<in> set ?R" for e x
    using key [OF that] by (cases e) (simp add: walk_session_entry_def Let_def session_key_def)
  then have "fold_opt (walk_session_entry (pb (so_lib s)) func) ?R w = fold_opt func (walked_sessions s) w"
    unfolding walked_sessions_def fold_opt_map by (intro fold_opt_cong)
  then have 1: "Store_WalkSessions s func w = map_option (Pair OK) (fold_opt func (walked_sessions s) w)"
    using assms(3) by (cases "fold_opt func (walked_sessions s) w")
      (auto simp: Store_WalkSessions_def Let_def split: prod.splits)
  have "map fst ?R = map (\<lambda>e. session_key (sp_sid (?parse e))) ?R"
    by (rule map_cong [OF refl key])
  then have "distinct (map (\<lambda>e. session_key (sp_sid (?parse e))) ?R)"
    by (rule subst) (rule distinct_seek_range [OF it(1)])
  then have 2: "distinct (map sp_sid (walked_sessions s))"
    by (simp add: walked_sessions_def comp_def distinct_map inj_on_def session_key_def)
  have 3: "set (walked_sessions s) = {ss. \<exists>sid. sid \<noteq> - 1 \<and> stored_session s sid = Some ss}"
  proof (rule set_eqI)
    fix ss
    have "ss \<in> set (walked_sessions s) \<longleftrightarrow> (\<exists>k v. (k, v) \<in> set ?R
        \<and> ss = snd (session_ParseFromString (pb (so_lib s)) v))"
      by (force simp: walked_sessions_def)
    also have "\<dots> \<longleftrightarrow> (\<exists>sid. sid \<noteq> - 1 \<and> stored_session s sid = Some ss)"
      unfolding range stored_session_iff [OF ok_s assms(2)] using rt by (metis snd_conv)
    finally show "ss \<in> set (walked_sessions s) \<longleftrightarrow>
        ss \<in> {ss. \<exists>sid. sid \<noteq> - 1 \<and> stored_session s sid = Some ss}" by simp
  qed
  from 1 2 3 show ?thesis by blast
qed

text \<open>
  Recovery visits the stored sessions: when the database can be iterated,
  \<^verbatim>\<open>WalkSessions\<close> never fails its checks, returns OK, and calls its function exactly once
  for every stored session but the one whose id is the largest 64-bit number (the end key
  excludes it), with the session as it was stored.
\<close>

theorem WalkSessions_visits:
  assumes "store_inv s" and "sessions_ok s"
    and "ldb_ok (snd (ldb_Iterate (ldb (so_lib s)) (so_persist s)))"
  shows "Store_WalkSessions s func w = map_option (Pair OK) (fold_opt func (walked_sessions s) w)
     \<and> distinct (map sp_sid (walked_sessions s))
     \<and> set (walked_sessions s) = {ss. \<exists>sid. sid \<noteq> - 1 \<and> stored_session s sid = Some ss}"
  by (rule walk_sessions [OF assms])

subsection \<open>Snapshots\<close>

lemma apply_batch_append: "apply_batch (a @ b) m = apply_batch b (apply_batch a m)"
proof (induction a arbitrary: m)
  case (Cons x a)
  then show ?case by (cases x) (simp_all only: append_Cons apply_batch.simps)
qed simp

lemma apply_batch_puts: "apply_batch (map (\<lambda>e. BPut (fst e) (snd e)) es) m = m ++ map_of (rev es)"
proof (induction es arbitrary: m)
  case (Cons e es)
  show ?case unfolding list.map apply_batch.simps Cons by (simp add: map_add_upd_left)
qed simp

lemma snapshot_loop_view:
  assumes L: "leveldb_ok L" and wr: "\<And>db b. ldb_ok (fst (ldb_Write L db b))"
  shows "snapshot_loop L es newdb batch (length batch) st = (newdb', batch', n', st') \<Longrightarrow>
    apply_batch batch' (ldb_view L newdb') =
      apply_batch (batch @ map (\<lambda>e. BPut (fst e) (snd e)) es) (ldb_view L newdb)
    \<and> n' = length batch' \<and> (ldb_ok st \<longrightarrow> ldb_ok st')"
proof (induction es arbitrary: newdb batch st)
  case (Cons e es)
  obtain k v where e: "e = (k, v)" by (cases e)
  obtain st1 db1 where w: "ldb_Write L newdb (batch @ [BPut k v]) = (st1, db1)" by fastforce
  have ok1: "ldb_ok st1" using wr [of newdb "batch @ [BPut k v]"] w by simp
  have v1: "ldb_view L db1 = apply_batch (batch @ [BPut k v]) (ldb_view L newdb)"
    using ldb_view_Write [OF L, of newdb "batch @ [BPut k v]"] w ok1 by simp
  show ?case
  proof (cases "length batch + 1 \<ge> 1024")
    case True
    then have "snapshot_loop L es db1 [] (length []) st1 = (newdb', batch', n', st')"
      using Cons.prems by (simp add: e w)
    note ih = Cons.IH [OF this, unfolded append_Nil]
    have "apply_batch (batch @ BPut k v # x) (ldb_view L newdb) = apply_batch x (ldb_view L db1)" for x
      unfolding v1 apply_batch_append apply_batch.simps ..
    with ih ok1 show ?thesis unfolding list.map e fst_conv snd_conv by simp
  next
    case False
    then have "snapshot_loop L es newdb (batch @ [BPut k v]) (length (batch @ [BPut k v])) st
        = (newdb', batch', n', st')"
      using Cons.prems by (simp add: e)
    from Cons.IH [OF this] show ?thesis
      unfolding list.map e fst_conv snd_conv append_assoc append_Cons append_Nil .
  qed
qed simp

text \<open>
  C23. A snapshot is a copy: when the iteration and the writes into the new database succeed,
  \<^verbatim>\<open>TakeSnapshot\<close> into an empty database returns, and the new database holds exactly the
  entries of the old one, whatever their number (the copy is written in batches of 1024).
\<close>

theorem TakeSnapshot_copies:
  assumes "store_ok s" and "ldb_view (ldb (so_lib s)) newdb = Map.empty"
    and "ldb_ok (snd (ldb_Iterate (ldb (so_lib s)) (so_persist s)))"
    and "\<And>db b. ldb_ok (fst (ldb_Write (ldb (so_lib s)) db b))"
  shows "\<exists>db. Store_TakeSnapshot s newdb = Some db
     \<and> ldb_view (ldb (so_lib s)) db = ldb_view (ldb (so_lib s)) (so_persist s)"
proof -
  let ?L = "ldb (so_lib s)" and ?es = "fst (ldb_Iterate (ldb (so_lib s)) (so_persist s))"
  note L = store_okD(1) [OF assms(1)]
  note it = ldb_Iterate_view [OF L assms(3)]
  obtain db1 b1 n1 st1 where run: "snapshot_loop ?L ?es newdb [] (length ([] :: batch_op list)) ldb_OK
      = (db1, b1, n1, st1)" by (metis prod_cases4)
  note sl = snapshot_loop_view [OF L assms(4) run]
  have "map_of (rev ?es) = map_of ?es"
    using om.entries_distinct [OF it(1)] by (intro map_of_inject_set [THEN iffD2]) (simp_all add: rev_map [symmetric])
  then have view: "apply_batch b1 (ldb_view ?L db1) = ldb_view ?L (so_persist s)"
    using sl it(2) assms(2) by (simp add: apply_batch_puts om_find_def fun_eq_iff)
  obtain st2 db2 where w: "ldb_Write ?L db1 b1 = (st2, db2)" by fastforce
  have "ldb_ok st2" using assms(4) [of db1 b1] w by simp
  then have v2: "ldb_view ?L db2 = apply_batch b1 (ldb_view ?L db1)"
    using ldb_view_Write [OF L, of db1 b1] w by simp
  show ?thesis
    using run sl view v2 w \<open>ldb_ok st2\<close> assms(3)
    by (cases "n1 > 0") (auto simp: Store_TakeSnapshot_def Let_def ldb_ok_def split: prod.splits)
qed

end
