(* ===== verification/Replica.thy ===== *)
theory Replica
  imports Store_Persist
begin

text \<open>
  The replicated state machine as a specification: what all replicas must agree on is the tree,
  the session records in the database and the ephemeral nodes of every session. A committed
  command changes it the same way everywhere, whatever the replica's role, clock, watchers and
  waiting requests. Here are the specification and its store part.
\<close>

subsection \<open>The specification\<close>

record Config =
  cf_root :: string
  cf_max :: int
  cf_size :: "Node \<Rightarrow> int"

record Replica =
  ra_tree :: "string \<rightharpoonup> Node"
  ra_nodes :: "sid_t \<rightharpoonup> string list"
  ra_sess :: "sid_t \<rightharpoonup> StoredSession"

definition spec_register :: "sid_t \<Rightarrow> u32 \<Rightarrow> Replica \<Rightarrow> Replica" where
  "spec_register sid timeout ra =
     ra\<lparr>ra_sess := (ra_sess ra)(sid \<mapsto> \<lparr>sp_sid = sid, sp_watch = [], sp_node = [], sp_timeout = timeout\<rparr>),
        ra_nodes := (case ra_nodes ra sid of None \<Rightarrow> (ra_nodes ra)(sid \<mapsto> []) | Some _ \<Rightarrow> ra_nodes ra)\<rparr>"

text \<open>Removing one of a closed session's nodes: skipped when it is gone or belongs to another
  session; \<open>None\<close> (every replica aborts) when it cannot be deleted.\<close>

definition spec_destroy_node ::
  "Config \<Rightarrow> sid_t \<Rightarrow> string \<Rightarrow> (string \<rightharpoonup> Node) \<Rightarrow> (string \<rightharpoonup> Node) option" where
  "spec_destroy_node cfg sid path t = (case t path of
       None \<Rightarrow> Some t
     | Some n \<Rightarrow>
         if nd_sid n \<noteq> sid then Some t
         else (case tree_delete (cf_root cfg) t path of (c, t') \<Rightarrow>
           if c = kOk \<or> c = kNotFound then Some t' else None))"

definition spec_unregister :: "Config \<Rightarrow> sid_t \<Rightarrow> Replica \<Rightarrow> Replica option" where
  "spec_unregister cfg sid ra = (case ra_nodes ra sid of
       None \<Rightarrow> Some ra
     | Some ns \<Rightarrow> do {
         t \<leftarrow> fold_opt (spec_destroy_node cfg sid) ns (ra_tree ra);
         Some (ra\<lparr>ra_tree := t, ra_nodes := (ra_nodes ra)(sid := None), ra_sess := (ra_sess ra)(sid := None)\<rparr>) })"

definition spec_create :: "Config \<Rightarrow> sid_t \<Rightarrow> CreateRequest \<Rightarrow> Replica \<Rightarrow> Code \<times> Replica" where
  "spec_create cfg sid c ra =
     (let ephemeral = (cr_flags c AND kEphemeral \<noteq> 0) in
      if ra_nodes ra sid = None \<and> ephemeral then (kSessionExpired, ra)
      else (case tree_create (cf_root cfg) (cf_max cfg) (cf_size cfg) (ra_tree ra) (cr_path c) (cr_data c)
              (cr_flags c) sid of (code, t) \<Rightarrow>
        (code, ra\<lparr>ra_tree := t,
           ra_nodes := (if code = kOk \<and> ephemeral
             then (ra_nodes ra)(sid := map_option (os_insert (cr_path c)) (ra_nodes ra sid))
             else ra_nodes ra)\<rparr>)))"

definition spec_delete :: "Config \<Rightarrow> sid_t \<Rightarrow> string \<Rightarrow> Replica \<Rightarrow> Code \<times> Replica" where
  "spec_delete cfg sid path ra =
     (case tree_delete (cf_root cfg) (ra_tree ra) path of (code, t) \<Rightarrow>
        if code = kOk then
          (if ra_nodes ra sid = None then kSessionExpired else kOk,
           ra\<lparr>ra_tree := t, ra_nodes := (ra_nodes ra)(sid := map_option (os_erase path) (ra_nodes ra sid))\<rparr>)
        else (code, ra))"

definition spec_write :: "Config \<Rightarrow> WriteRequest \<Rightarrow> Replica \<Rightarrow> Code \<times> Replica" where
  "spec_write cfg w ra =
     (if prefix (cf_root cfg) (wr_path w) then (kOk, ra)
      else (case tree_write (cf_max cfg) (cf_size cfg) (ra_tree ra) (wr_path w) (wr_data w) of (code, t) \<Rightarrow>
        (code, ra\<lparr>ra_tree := t\<rparr>)))"

text \<open>What a command does to the replicated state.\<close>

definition spec_command :: "Config \<Rightarrow> Request \<Rightarrow> Replica \<Rightarrow> Replica option" where
  "spec_command cfg req ra = (case rq_register req of
       Some timeout \<Rightarrow> Some (spec_register (req_sid req) timeout ra)
     | None \<Rightarrow>
         if rq_unregister req then spec_unregister cfg (req_sid req) ra
         else (case rq_create req of
             Some c \<Rightarrow> Some (snd (spec_create cfg (req_sid req) c ra))
           | None \<Rightarrow> (case rq_delete req of
               Some path \<Rightarrow> Some (snd (spec_delete cfg (req_sid req) path ra))
             | None \<Rightarrow> (case rq_write req of
                 Some w \<Rightarrow> Some (snd (spec_write cfg w ra))
               | None \<Rightarrow> Some ra))))"

text \<open>The commands a leader broadcasts for well-formed requests: \<^verbatim>\<open>onCommand\<close> tests for a read
  before a write.\<close>

definition replicable :: "Request \<Rightarrow> bool" where
  "replicable req \<longleftrightarrow> rq_register req \<noteq> None \<or> rq_unregister req \<or> rq_create req \<noteq> None
     \<or> rq_delete req \<noteq> None
     \<or> rq_read req = None \<and> (rq_write req \<noteq> None \<or> rq_stat req = None \<and> rq_watch req = None)"

subsection \<open>The store's part\<close>

definition db_reliable :: "'db leveldb \<Rightarrow> bool" where
  "db_reliable L \<longleftrightarrow> (\<forall>db k v. ldb_ok (fst (ldb_Put L db k v))) \<and> (\<forall>db k. ldb_ok (fst (ldb_Delete L db k)))
     \<and> (\<forall>db b. ldb_ok (fst (ldb_Write L db b)))"

definition key_tree :: "'db Store \<Rightarrow> (string \<rightharpoonup> Node)" where
  "key_tree s p = (if key_path p then node_at s p else None)"

definition commit_ok :: "'db Store \<Rightarrow> bool" where
  "commit_ok s \<longleftrightarrow> (\<forall>v. store_view s COMMIT_PREFIX = Some v \<longrightarrow> length v = 8)"

definition store_good :: "'db Store \<Rightarrow> bool" where
  "store_good s \<longleftrightarrow> store_inv s \<and> sessions_ok s \<and> commit_ok s \<and> db_reliable (ldb (so_lib s))"

definition config_of :: "'db Store \<Rightarrow> Config" where
  "config_of s = \<lparr>cf_root = so_procRoot s, cf_max = max_bytes s, cf_size = node_ByteSize (pb (so_lib s))\<rparr>"

lemma store_goodD: "store_good s \<Longrightarrow> store_inv s" "store_good s \<Longrightarrow> sessions_ok s"
  "store_good s \<Longrightarrow> commit_ok s" "store_good s \<Longrightarrow> db_reliable (ldb (so_lib s))"
  "store_good s \<Longrightarrow> store_ok s"
  by (auto simp: store_good_def store_invD)

lemma good_not_refused: "store_good s \<Longrightarrow> \<not> write_refused s"
  by (simp add: store_good_def db_reliable_def write_refused_def)

lemma config_same: "same_env s s' \<Longrightarrow> config_of s' = config_of s"
  by (simp add: same_env_def config_of_def max_bytes_def)

lemma store_step_good:
  assumes good: "store_good s" and run: "store_step proc op s = Some (st, s')" and pok: "proc_ok proc"
  shows "store_good s'"
proof -
  have inv: "store_inv s'" using store_step_inv [OF store_goodD(1) [OF good] pok, of op] run by auto
  have "commit_ok s'"
  proof (cases "sets_commit op")
    case True
    then obtain idx where op: "op = OpSetCommitIndex idx" by (cases op) auto
    with session_ops_view(3) [OF store_goodD(1) [OF good], of idx st s'] run store_goodD(3) [OF good]
    show ?thesis by (auto simp: commit_ok_def split: if_splits)
  next
    case False
    then have "store_view s' COMMIT_PREFIX = store_view s COMMIT_PREFIX"
      by (intro store_step_frame [OF store_goodD(1) [OF good] run]) (cases op; simp)+
    then show ?thesis using store_goodD(3) [OF good] by (simp add: commit_ok_def)
  qed
  then show ?thesis
    using inv store_step_sessions [OF store_goodD(1,2) [OF good] run] store_step_lib [OF run] good
    by (simp add: store_good_def)
qed

lemma stored_session_frame:
  assumes "store_inv s" and run: "store_step proc op s = Some (st, s')"
    and "case op of OpAddSession _ \<Rightarrow> False | OpRemoveSession _ \<Rightarrow> False | _ \<Rightarrow> True"
  shows "stored_session s' = stored_session s"
proof
  fix sid
  have "store_view s' (session_key sid) = store_view s (session_key sid)"
    using assms(3) by (intro store_step_frame [OF assms(1) run]) (cases op; simp)+
  then show "stored_session s' sid = stored_session s sid"
    using store_step_lib [OF run] by (simp add: stored_session_def)
qed

text \<open>The specifications only look at, and change, path keys.\<close>

definition restrict_keys :: "(string \<rightharpoonup> Node) \<Rightarrow> (string \<rightharpoonup> Node)" where
  "restrict_keys t p = (if key_path p then t p else None)"

lemma key_tree_restrict: "key_tree s = restrict_keys (node_at s)"
  by (simp add: fun_eq_iff key_tree_def restrict_keys_def)

lemma restrict_keys_upd: "key_path p \<Longrightarrow> restrict_keys (t(p := x)) = (restrict_keys t)(p := x)"
  by (auto simp: restrict_keys_def)

lemma restrict_keys_at: "key_path p \<Longrightarrow> restrict_keys t p = t p"
  by (simp add: restrict_keys_def)

lemma split_keys:
  assumes "IsValidPath path" and "SplitPath path = (st, p, son)" and "ok st"
  shows "key_path path" and "key_path p"
proof -
  show kp: "key_path path" using assms(1) by (rule valid_key_path)
  have "SplitPath path = (OK, p, son)" using assms(2,3) SplitPath_ok [of path] by auto
  then show "key_path p" using SplitPath_key_path kp by blast
qed

lemma tree_create_restrict:
  "tree_create pr mx sz (restrict_keys t) path data flags sid =
     (case tree_create pr mx sz t path data flags sid of (c, t') \<Rightarrow> (c, restrict_keys t'))"
  using split_keys [of path]
  by (auto simp: tree_create_def restrict_keys_at restrict_keys_upd split: option.splits prod.splits)

lemma tree_delete_restrict:
  "tree_delete pr (restrict_keys t) path =
     (case tree_delete pr t path of (c, t') \<Rightarrow> (c, restrict_keys t'))"
  using split_keys [of path]
  by (auto simp: tree_delete_def restrict_keys_at restrict_keys_upd split: option.splits prod.splits)

lemma tree_write_restrict:
  "tree_write mx sz (restrict_keys t) path data =
     (case tree_write mx sz t path data of (c, t') \<Rightarrow> (c, restrict_keys t'))"
  using valid_key_path [of path]
  by (auto simp: tree_write_def Let_def restrict_keys_at restrict_keys_upd split: option.splits)

lemma Store_Create_abs:
  assumes "store_good s" and "proc_ok proc"
  obtains st s' where "Store_Create s proc path data flags sid = Some (st, s')" "store_good s'" "same_env s s'"
    "(st_code st, key_tree s') = tree_create (so_procRoot s) (max_bytes s) (node_ByteSize (pb (so_lib s)))
       (key_tree s) path data flags sid"
    "stored_session s' = stored_session s"
proof -
  from Store_Create_refinement [OF store_goodD(1) [OF assms(1)], of proc path data flags sid]
    good_not_refused [OF assms(1)] obtain st s' where
    run: "Store_Create s proc path data flags sid = Some (st, s')" and
    t: "(st_code st, node_at s') = tree_create (so_procRoot s) (max_bytes s) (node_ByteSize (pb (so_lib s)))
       (node_at s) path data flags sid" by blast
  have step: "store_step proc (OpCreate path data flags sid) s = Some (st, s')" using run by simp
  show thesis
    by (rule that [OF run store_step_good [OF assms(1) step assms(2)] store_step_env [OF step]])
      (use t [symmetric] stored_session_frame [OF store_goodD(1) [OF assms(1)] step] in
        \<open>simp_all add: key_tree_restrict tree_create_restrict\<close>)
qed

lemma Store_Delete_abs:
  assumes "store_good s" and "proc_ok proc"
  obtains st s' where "Store_Delete s proc path = Some (st, s')" "store_good s'" "same_env s s'"
    "(st_code st, key_tree s') = tree_delete (so_procRoot s) (key_tree s) path"
    "stored_session s' = stored_session s"
proof -
  from Store_Delete_refinement [OF store_goodD(1) [OF assms(1)], of proc path]
    good_not_refused [OF assms(1)] obtain st s' where
    run: "Store_Delete s proc path = Some (st, s')" and
    t: "(st_code st, node_at s') = tree_delete (so_procRoot s) (node_at s) path" by blast
  have step: "store_step proc (OpDelete path) s = Some (st, s')" using run by simp
  show thesis
    by (rule that [OF run store_step_good [OF assms(1) step assms(2)] store_step_env [OF step]])
      (use t [symmetric] stored_session_frame [OF store_goodD(1) [OF assms(1)] step] in
        \<open>simp_all add: key_tree_restrict tree_delete_restrict\<close>)
qed

lemma Store_Write_abs:
  assumes "store_good s" and "proc_ok proc" and "\<not> under_proc s path"
  obtains st s' where "Store_Write s proc path data = Some (st, s', [])" "store_good s'" "same_env s s'"
    "(st_code st, key_tree s') = tree_write (max_bytes s) (node_ByteSize (pb (so_lib s))) (key_tree s) path data"
    "stored_session s' = stored_session s"
proof -
  from Store_Write_refinement [OF store_goodD(1) [OF assms(1)] assms(3), of proc data]
    good_not_refused [OF assms(1)] obtain st s' where
    run: "Store_Write s proc path data = Some (st, s', [])" and
    t: "(st_code st, node_at s') = tree_write (max_bytes s) (node_ByteSize (pb (so_lib s))) (node_at s) path data"
    by blast
  have step: "store_step proc (OpWrite path data) s = Some (st, s')" using run by simp
  show thesis
    by (rule that [OF run store_step_good [OF assms(1) step assms(2)] store_step_env [OF step]])
      (use t [symmetric] stored_session_frame [OF store_goodD(1) [OF assms(1)] step] in
        \<open>simp_all add: key_tree_restrict tree_write_restrict\<close>)
qed


lemma key_tree_outside:
  assumes "store_inv s" and "\<And>p. key_path p \<Longrightarrow> store_view s' p = store_view s p" and "same_env s s'"
  shows "key_tree s' = key_tree s"
  using assms(2,3) by (auto simp: fun_eq_iff key_tree_def node_at_def nodes_of_def same_env_def)

lemma Store_AddSession_abs:
  assumes "store_good s"
  obtains st s' where "Store_AddSession s ss = (st, s')" "ok st" "store_good s'" "same_env s s'"
    "key_tree s' = key_tree s" "stored_session s' = (stored_session s)(sp_sid ss \<mapsto> ss)"
proof -
  obtain st s' where run: "Store_AddSession s ss = (st, s')" by fastforce
  have ok: "ok st" using run store_goodD(4) [OF assms]
    by (auto simp: Store_AddSession_def db_reliable_def ok_code Let_def split: prod.splits) (metis fst_conv)
  have step: "store_step (ProcDB_new [] :: unit ProcDB) (OpAddSession ss) s = Some (st, s')" using run by simp
  have pok: "proc_ok (ProcDB_new [] :: unit ProcDB)" by (simp add: proc_ok_def ProcDB_new_def RegisterReadNode_def)
  note v = session_ops_view(1) [OF store_goodD(1) [OF assms] run]
  have "key_tree s' = key_tree s"
    by (rule key_tree_outside [OF store_goodD(1) [OF assms] _ store_step_env [OF step]])
      (use v ok special_keys(1) in \<open>auto split: if_splits\<close>)
  moreover have "stored_session s' = (stored_session s)(sp_sid ss \<mapsto> ss)"
    using v ok session_roundtrip(1) [OF store_okD(2) [OF store_goodD(5) [OF assms]], of ss]
      store_step_lib [OF step]
    by (auto simp: stored_session_def fun_eq_iff session_key_def)
  ultimately show thesis using that [OF run ok store_step_good [OF assms step pok] store_step_env [OF step]] by blast
qed

lemma Store_RemoveSession_abs:
  assumes "store_good s"
  obtains st s' where "Store_RemoveSession s sid = (st, s')" "ok st" "store_good s'" "same_env s s'"
    "key_tree s' = key_tree s" "stored_session s' = (stored_session s)(sid := None)"
proof -
  obtain st s' where run: "Store_RemoveSession s sid = (st, s')" by fastforce
  have ok: "ok st" using run store_goodD(4) [OF assms]
    by (auto simp: Store_RemoveSession_def db_reliable_def ok_code Let_def split: prod.splits) (metis fst_conv)
  have step: "store_step (ProcDB_new [] :: unit ProcDB) (OpRemoveSession sid) s = Some (st, s')" using run by simp
  have pok: "proc_ok (ProcDB_new [] :: unit ProcDB)" by (simp add: proc_ok_def ProcDB_new_def RegisterReadNode_def)
  note v = session_ops_view(2) [OF store_goodD(1) [OF assms] run]
  have "key_tree s' = key_tree s"
    by (rule key_tree_outside [OF store_goodD(1) [OF assms] _ store_step_env [OF step]])
      (use v ok special_keys(1) in \<open>auto split: if_splits\<close>)
  moreover have "stored_session s' = (stored_session s)(sid := None)"
    using v ok store_step_lib [OF step] by (auto simp: stored_session_def fun_eq_iff session_key_def)
  ultimately show thesis using that [OF run ok store_step_good [OF assms step pok] store_step_env [OF step]] by blast
qed

lemma Store_Get_key_tree:
  assumes "store_good s" and "IsValidPath p" and "\<not> under_proc s p"
  shows "Store_Get s proc p =
     Some (case key_tree s p of Some n \<Rightarrow> (OK, n) | None \<Rightarrow> (NotFound p, Node_default))"
  using Store_Get_node_at [OF store_goodD(5) [OF assms(1)] assms(2,3), of proc] valid_key_path [OF assms(2)]
  by (simp add: key_tree_def)

lemma GetCommitIndex_total:
  assumes "store_good s"
  shows "\<exists>i. Store_GetCommitIndex s = Some (OK, Some i)"
  using GetCommitIndex_view [OF store_okD(4) [OF store_goodD(5) [OF assms]]] store_goodD(3) [OF assms]
  by (auto simp: commit_ok_def split: option.splits)

end
