(* ===== verification/Watch_Manager.thy ===== *)
theory Watch_Manager
  imports Messages Containers
begin

text \<open>
  \<^verbatim>\<open>server/watcher.h\<close>, \<^verbatim>\<open>server/watcher.cc\<close>, \<^verbatim>\<open>server/watch_manager.h\<close> and
  \<^verbatim>\<open>server/watch_manager.cc\<close>: one-shot watchers on paths. A watcher sits in a multimap under
  its path; an event on a node notifies the watchers of the node and the recursive watchers of
  its ancestors whose mask has the event's bit, and removes them. A watcher's callback runs in
  the server (\<^verbatim>\<open>Server::watchCallback\<close>) and never touches the watch manager, so triggering is
  given as the watchers to notify, in order, and the watchers that stay.
\<close>

record Watcher =
  w_path :: string
  w_sid :: sid_t
  w_mask :: EventType
  w_recursive :: bool

type_synonym WatchManager = "(string \<times> Watcher) list"

definition WM_Add :: "string \<Rightarrow> Watcher \<Rightarrow> WatchManager \<Rightarrow> WatchManager" where
  "WM_Add path w wm = mm_insert path w wm"

text \<open>The first watcher of the path's range that belongs to the same session.\<close>

fun WM_Remove :: "Watcher \<Rightarrow> WatchManager \<Rightarrow> WatchManager" where
  "WM_Remove w [] = []"
| "WM_Remove w (e # wm) =
     (if fst e = w_path w \<and> w_sid w = w_sid (snd e) then wm else e # WM_Remove w wm)"

definition WM_HasWatcher :: "WatchManager \<Rightarrow> string \<Rightarrow> bool" where
  "WM_HasWatcher wm path \<longleftrightarrow> (\<exists>e \<in> set wm. fst e = path)"

definition WM_Reset :: "WatchManager \<Rightarrow> WatchManager" where
  "WM_Reset wm = []"

definition notifies :: "WEvent \<Rightarrow> bool \<Rightarrow> Watcher \<Rightarrow> bool" where
  "notifies e fromChild w \<longleftrightarrow> (\<not> fromChild \<or> w_recursive w) \<and> w_mask w AND we_type e \<noteq> 0"

definition trigerInternal ::
  "string \<Rightarrow> WEvent \<Rightarrow> bool \<Rightarrow> WatchManager \<Rightarrow> Watcher list \<times> WatchManager" where
  "trigerInternal path e fromChild wm =
     (map snd (filter (\<lambda>x. fst x = path \<and> notifies e fromChild (snd x)) wm),
      filter (\<lambda>x. \<not> (fst x = path \<and> notifies e fromChild (snd x))) wm)"

text \<open>\<^verbatim>\<open>path.substr(0, path.rfind("/"))\<close>: the whole path when it has no slash.\<close>

definition cut_last :: "string \<Rightarrow> string" where
  "cut_last path = substr_to path (rfind slash path)"

partial_function (option) triger_loop ::
  "WEvent \<Rightarrow> string \<Rightarrow> WatchManager \<Rightarrow> (Watcher list \<times> WatchManager) option" where
  "triger_loop e path wm =
     (if path = [] then Some ([], wm)
      else do {
        (rest, wm') \<leftarrow> triger_loop e (cut_last path) (snd (trigerInternal path e True wm));
        Some (fst (trigerInternal path e True wm) @ rest, wm') })"

definition WM_Triger :: "WEvent \<Rightarrow> WatchManager \<Rightarrow> (Watcher list \<times> WatchManager) option" where
  "WM_Triger e wm =
     (case trigerInternal (we_node e) e False wm of (f1, wm1) \<Rightarrow> do {
        (f2, wm2) \<leftarrow> triger_loop e (cut_last (we_node e)) wm1;
        (case trigerInternal ''/'' e True wm2 of (f3, wm3) \<Rightarrow> Some (f1 @ f2 @ f3, wm3)) })"

subsection \<open>The ancestors of a path\<close>

lemma cut_last_append [simp]: "slash \<notin> set b \<Longrightarrow> cut_last (a @ slash # b) = a"
  by (simp add: cut_last_def)

lemma cut_last_noslash: "slash \<notin> set p \<Longrightarrow> cut_last p = p"
  using rfind_None [of slash p] by (simp add: cut_last_def del: rfind_None)

text \<open>The paths the loop visits, for a path that begins with a slash.\<close>

function ancestors :: "string \<Rightarrow> string list" where
  "ancestors path = (if path = [] \<or> slash \<notin> set path then [] else
     (let p = cut_last path in if p = [] then [] else p # ancestors p))"
  by auto
termination
proof (relation "measure length")
  fix path p :: string
  assume "\<not> (path = [] \<or> slash \<notin> set path)" and p: "p = cut_last path"
  then obtain a b where "path = a @ slash # b" "slash \<notin> set b" by (meson split_list_last)
  then show "(p, path) \<in> measure length" using p by simp
qed simp

declare ancestors.simps [simp del]

lemma ancestors_append:
  "slash \<notin> set b \<Longrightarrow> ancestors (a @ slash # b) = (if a = [] then [] else a # ancestors a)"
  by (subst ancestors.simps) simp

lemma ancestors_simps [simp]: "ancestors [] = []" "slash \<notin> set b \<Longrightarrow> ancestors (slash # b) = []"
  using ancestors_append [of b "[]"] by (simp_all add: ancestors.simps [of "[]"])

lemma slashed_split:
  assumes "path \<noteq> []" and "hd path = slash"
  obtains a b where "path = a @ slash # b" "slash \<notin> set b" "a = [] \<or> hd a = slash"
proof -
  have "slash \<in> set path" using assms by (metis list.set_sel(1))
  then obtain a b where "path = a @ slash # b" "slash \<notin> set b" by (meson split_list_last)
  moreover from this assms(2) have "a = [] \<or> hd a = slash" by (cases a) auto
  ultimately show thesis using that by blast
qed

text \<open>What they are: the non-empty prefixes that a slash follows.\<close>

lemma set_ancestors:
  "path \<noteq> [] \<Longrightarrow> hd path = slash \<Longrightarrow> k \<in> set (ancestors path) \<longleftrightarrow> k \<noteq> [] \<and> prefix (k @ [slash]) path"
proof (induction "length path" arbitrary: path rule: less_induct)
  case less
  then obtain a b where ab: "path = a @ slash # b" "slash \<notin> set b" "a = [] \<or> hd a = slash"
    by (meson slashed_split)
  have pre: "prefix (k @ [slash]) path \<longleftrightarrow> k = a \<or> prefix (k @ [slash]) a"
  proof
    assume "prefix (k @ [slash]) path"
    then obtain r where r: "a @ slash # b = k @ slash # r" using ab by (auto simp: prefix_def)
    then consider us where "a = k @ us" "us @ slash # b = slash # r"
      | us where "k = a @ us" "slash # b = us @ slash # r"
      by (auto simp: append_eq_append_conv2)
    then show "k = a \<or> prefix (k @ [slash]) a"
    proof cases
      case 1
      then show ?thesis by (cases us) (auto simp: prefix_def)
    next
      case 2
      with ab(2) show ?thesis by (cases us) auto
    qed
  next
    assume "k = a \<or> prefix (k @ [slash]) a"
    then show "prefix (k @ [slash]) path" using ab(1) by (auto simp: prefix_def)
  qed
  show ?case
  proof (cases "a = []")
    case True
    with ab pre show ?thesis by (auto simp: ancestors_append)
  next
    case False
    have "length a < length path" using ab(1) by simp
    from less.hyps [OF this False] ab False pre show ?thesis by (auto simp: ancestors_append)
  qed
qed

subsection \<open>Triggering\<close>

definition fired_by :: "WEvent \<Rightarrow> string list \<Rightarrow> string \<times> Watcher \<Rightarrow> bool" where
  "fired_by e ps x \<longleftrightarrow> fst x \<in> set ps \<and> notifies e True (snd x)"

lemma mset_trigerInternal:
  "mset (fst (trigerInternal path e c wm)) =
     image_mset snd (filter_mset (\<lambda>x. fst x = path \<and> notifies e c (snd x)) (mset wm))"
  by (simp add: trigerInternal_def)

lemma filter_mset_cover:
  assumes "\<And>x. R x \<longleftrightarrow> P x \<or> Q x"
  shows "filter_mset P M + filter_mset Q (filter_mset (\<lambda>x. \<not> P x) M) = filter_mset R M"
proof (rule multiset_eqI)
  fix x
  show "count (filter_mset P M + filter_mset Q (filter_mset (\<lambda>x. \<not> P x) M)) x = count (filter_mset R M) x"
    using assms [of x] by (cases "P x"; cases "Q x") simp_all
qed

lemma triger_loop_spec:
  "p = [] \<or> hd p = slash \<Longrightarrow>
     \<exists>f. triger_loop e p wm = Some (f, filter (\<lambda>x. \<not> fired_by e (if p = [] then [] else p # ancestors p) x) wm)
       \<and> mset f = image_mset snd (filter_mset (fired_by e (if p = [] then [] else p # ancestors p)) (mset wm))"
proof (induction "length p" arbitrary: p wm rule: less_induct)
  case less
  show ?case
  proof (cases "p = []")
    case True
    then show ?thesis by (simp add: triger_loop.simps fired_by_def)
  next
    case False
    with less.prems obtain a b where ab: "p = a @ slash # b" "slash \<notin> set b" "a = [] \<or> hd a = slash"
      by (meson slashed_split)
    define anc where "anc = (if a = [] then [] else a # ancestors a)"
    have anc: "ancestors p = anc" "cut_last p = a" using ab by (simp_all add: anc_def ancestors_append)
    define wm1 where "wm1 = snd (trigerInternal p e True wm)"
    have "length a < length p" using ab by simp
    from less.hyps [OF this ab(3), of wm1, folded anc_def] obtain f where
      f: "triger_loop e a wm1 = Some (f, filter (\<lambda>x. \<not> fired_by e anc x) wm1)"
        "mset f = image_mset snd (filter_mset (fired_by e anc) (mset wm1))" by blast
    have run: "triger_loop e p wm = Some (fst (trigerInternal p e True wm) @ f,
        filter (\<lambda>x. \<not> fired_by e anc x) wm1)"
      using False f(1) by (subst triger_loop.simps) (simp add: anc wm1_def)
    have "filter (\<lambda>x. \<not> fired_by e anc x) wm1 = filter (\<lambda>x. \<not> fired_by e (p # anc) x) wm"
      by (auto simp: wm1_def trigerInternal_def fired_by_def intro!: filter_cong)
    moreover have w: "mset wm1 = filter_mset (\<lambda>x. \<not> (fst x = p \<and> notifies e True (snd x))) (mset wm)"
      by (simp add: wm1_def trigerInternal_def)
    have "mset (fst (trigerInternal p e True wm) @ f) =
        image_mset snd (filter_mset (fired_by e (p # anc)) (mset wm))"
      unfolding mset_append mset_trigerInternal f(2) w image_mset_union [symmetric]
      by (rule arg_cong [where f = "image_mset snd"], rule filter_mset_cover) (auto simp: fired_by_def)
    ultimately show ?thesis using run False anc by simp
  qed
qed

text \<open>The watchers an event is for.\<close>

definition interested :: "WEvent \<Rightarrow> string \<times> Watcher \<Rightarrow> bool" where
  "interested e x \<longleftrightarrow> w_mask (snd x) AND we_type e \<noteq> 0 \<and>
     (fst x = we_node e \<or>
      w_recursive (snd x) \<and> (fst x = ''/'' \<or> fst x \<noteq> [] \<and> prefix (fst x @ [slash]) (we_node e)))"

lemma Triger_interested:
  assumes "we_node e \<noteq> []" and "hd (we_node e) = slash"
  shows "\<exists>fired. WM_Triger e wm = Some (fired, filter (\<lambda>x. \<not> interested e x) wm)
     \<and> mset fired = image_mset snd (filter_mset (interested e) (mset wm))"
proof -
  let ?n = "we_node e" and ?r = "''/''"
  obtain a b where ab: "?n = a @ slash # b" "slash \<notin> set b" "a = [] \<or> hd a = slash"
    using assms by (meson slashed_split)
  define anc where "anc = ancestors ?n"
  have anc: "anc = (if a = [] then [] else a # ancestors a)" "cut_last ?n = a"
    using ab by (simp_all add: anc_def ancestors_append)
  define wm1 where "wm1 = snd (trigerInternal ?n e False wm)"
  from triger_loop_spec [OF ab(3), of e wm1, folded anc(1)] obtain f where
    f: "triger_loop e a wm1 = Some (f, filter (\<lambda>x. \<not> fired_by e anc x) wm1)"
      "mset f = image_mset snd (filter_mset (fired_by e anc) (mset wm1))" by blast
  define wm2 where "wm2 = filter (\<lambda>x. \<not> fired_by e anc x) wm1"
  have run: "WM_Triger e wm = Some (fst (trigerInternal ?n e False wm) @ f @ fst (trigerInternal ?r e True wm2),
      snd (trigerInternal ?r e True wm2))"
    using f(1) anc(2) unfolding WM_Triger_def wm2_def wm1_def
    by (cases "trigerInternal ?n e False wm") (simp split: prod.splits)
  have i: "interested e x \<longleftrightarrow> (fst x = ?n \<and> notifies e False (snd x)) \<or> fired_by e anc x
      \<or> (fst x = ?r \<and> notifies e True (snd x))" for x
    using set_ancestors [OF assms, of "fst x"]
    by (auto simp: interested_def notifies_def fired_by_def anc_def)
  have "snd (trigerInternal ?r e True wm2) = filter (\<lambda>x. \<not> interested e x) wm"
    by (auto simp: wm2_def wm1_def trigerInternal_def i intro!: filter_cong)
  moreover have "mset (fst (trigerInternal ?n e False wm) @ f @ fst (trigerInternal ?r e True wm2)) =
      image_mset snd (filter_mset (interested e) (mset wm))"
  proof -
    let ?A = "\<lambda>x. fst x = ?n \<and> notifies e False (snd x)"
      and ?C = "\<lambda>x. fst x = ?r \<and> notifies e True (snd x)"
    have "filter_mset (fired_by e anc) (mset wm1) + filter_mset ?C (filter_mset (\<lambda>x. \<not> fired_by e anc x) (mset wm1))
        = filter_mset (\<lambda>x. fired_by e anc x \<or> ?C x) (mset wm1)"
      by (rule filter_mset_cover) simp
    moreover have "filter_mset ?A (mset wm) + filter_mset (\<lambda>x. fired_by e anc x \<or> ?C x)
        (filter_mset (\<lambda>x. \<not> ?A x) (mset wm)) = filter_mset (interested e) (mset wm)"
      by (rule filter_mset_cover) (simp add: i)
    ultimately show ?thesis
      unfolding mset_append mset_trigerInternal f(2) wm2_def mset_filter image_mset_union [symmetric]
      by (simp add: wm1_def trigerInternal_def)
  qed
  ultimately show ?thesis using run by simp
qed

text \<open>
  C19. Triggering an event reaches exactly the watchers it is for, once: for an event on a path
  that begins with a slash, \<^verbatim>\<open>Triger\<close> returns, notifies each watcher whose mask has the
  event's bit and that sits on the node itself or is recursive and sits on an ancestor or the
  root, as often as it is registered, removes exactly those, and leaves the others in place.
\<close>

theorem Triger_exact:
  assumes "we_node e \<noteq> []" and "hd (we_node e) = slash"
  shows "\<exists>fired. WM_Triger e wm = Some (fired, filter (\<lambda>x. \<not> interested e x) wm)
     \<and> mset fired = image_mset snd (filter_mset (interested e) (mset wm))"
  using assms by (rule Triger_interested)


theorem Triger_exact_witness:
  "\<exists>fired. WM_Triger (mk_event ''/a/b'' kModify)
       [(''/a'', \<lparr>w_path = ''/a'', w_sid = 1, w_mask = kAll, w_recursive = True\<rparr>),
        (''/a/b'', \<lparr>w_path = ''/a/b'', w_sid = 2, w_mask = kCreate, w_recursive = False\<rparr>)] =
     Some (fired, [(''/a/b'', \<lparr>w_path = ''/a/b'', w_sid = 2, w_mask = kCreate, w_recursive = False\<rparr>)])
     \<and> map w_sid fired = [1]"
proof -
  let ?e = "mk_event ''/a/b'' kModify"
  let ?wm = "[(''/a'', \<lparr>w_path = ''/a'', w_sid = 1, w_mask = kAll, w_recursive = True\<rparr>),
        (''/a/b'', \<lparr>w_path = ''/a/b'', w_sid = 2, w_mask = kCreate, w_recursive = False\<rparr>)]"
  from Triger_exact [of ?e ?wm] obtain fired where
    f: "WM_Triger ?e ?wm = Some (fired, filter (\<lambda>x. \<not> interested ?e x) ?wm)"
      "mset fired = image_mset snd (filter_mset (interested ?e) (mset ?wm))" by auto
  then have "mset fired = {#\<lparr>w_path = ''/a'', w_sid = 1, w_mask = kAll, w_recursive = True\<rparr>#}"
    by (simp add: interested_def event_type_defs)
  then have "fired = [\<lparr>w_path = ''/a'', w_sid = 1, w_mask = kAll, w_recursive = True\<rparr>]" by simp
  with f(1) show ?thesis by (simp add: interested_def event_type_defs)
qed

text \<open>The loop makes no progress on a path that has no slash.\<close>

lemma triger_loop_noslash:
  assumes "triger_loop e p wm = Some r"
  shows "p = [] \<or> slash \<in> set p"
proof (rule triger_loop.raw_induct [where P = "\<lambda>e p wm r. p = [] \<or> slash \<in> set p", OF _ assms])
  fix f e p wm r
  assume IH: "\<And>e p wm r. f e p wm = Some r \<Longrightarrow> p = [] \<or> slash \<in> set p"
    and run: "(if p = [] then Some ([], wm) else do {
        (rest, wm') \<leftarrow> f e (cut_last p) (snd (trigerInternal p e True wm));
        Some (fst (trigerInternal p e True wm) @ rest, wm') }) = Some r"
  show "p = [] \<or> slash \<in> set p"
  proof (rule ccontr)
    assume n: "\<not> (p = [] \<or> slash \<in> set p)"
    with run obtain r' where "f e p (snd (trigerInternal p e True wm)) = Some r'"
      by (auto simp: cut_last_noslash elim: bind_eq_SomeE)
    with IH n show False by blast
  qed
qed

text \<open>
  C37. \<^verbatim>\<open>Triger\<close> relies on its callers for the leading slash: on a non-empty node name without
  any slash its loop never ends, because \<^verbatim>\<open>substr(0, rfind("/"))\<close> of such a name is the name
  itself. (The server only triggers events on paths that \<^verbatim>\<open>IsValidPath\<close> has accepted, and on
  their parents.)
\<close>

theorem Triger_diverges:
  assumes "we_node e \<noteq> []" and "slash \<notin> set (we_node e)"
  shows "WM_Triger e wm = None"
proof -
  have "triger_loop e (we_node e) w = None" for w
    using triger_loop_noslash [of e "we_node e" w] assms by (cases "triger_loop e (we_node e) w") auto
  then show ?thesis using assms(2) by (simp add: WM_Triger_def cut_last_noslash split: prod.splits)
qed

theorem Triger_diverges_witness: "WM_Triger (mk_event ''foo'' kModify) [] = None"
  by (rule Triger_diverges) simp_all

end
