(* ===== verification/Session.thy ===== *)
theory Session
  imports Watch_Manager Thirdparty
begin

text \<open>
  \<^verbatim>\<open>server/session.h\<close> and \<^verbatim>\<open>server/session.cc\<close>: a client's session. It holds the client's last
  ping until there is something to tell it, the watch events waiting for a ping, the watchers
  it has set and the ephemeral nodes it owns. What an operation makes visible outside the
  server (a response that is sent, a line of the event log, a message to the other replicas)
  is an \<open>effect\<close>. The work of the destructor needs the server and is modelled there.
\<close>

datatype effect =
    Reply Event
  | Broadcast string
  | Log_session sid_t string
  | Log_watch sid_t WEvent
  | Reload_log
  | Take_snapshot u64
  | Check_failed

text \<open>The destructor of an event runs its closure, which sends the response; nothing else calls \<^verbatim>\<open>Done\<close>. (The
  default constructor, without a closure, is not used.)\<close>

definition Event_Done :: "Event \<Rightarrow> effect list" where
  [simp]: "Event_Done e = [Reply e]"

definition Event_destroy :: "Event \<Rightarrow> effect list" where
  [simp]: "Event_destroy e = Event_Done e"

record Session =
  ss_addr :: nat
  ss_sid :: sid_t
  ss_timeout :: int
  ss_expire :: timestamp
  ss_join :: timestamp
  ss_lastActive :: timestamp
  ss_active :: bool
  ss_pingEvent :: "Event option"
  ss_pendingWatcher :: "(string \<times> WEvent) list"
  ss_watches :: "(string, Watcher) omap"
  ss_nodeSet :: "string list"

text \<open>\<open>ss_addr\<close> is the object's address, which orders the sets of session pointers. The clock's
  value and the address the allocator returned are arguments of the constructor.\<close>

definition Session_new :: "nat \<Rightarrow> timestamp \<Rightarrow> sid_t \<Rightarrow> int \<Rightarrow> Session" where
  "Session_new addr now sid timeout =
     \<lparr>ss_addr = addr, ss_sid = sid, ss_timeout = timeout, ss_expire = 0, ss_join = now,
      ss_lastActive = now, ss_active = True, ss_pingEvent = None, ss_pendingWatcher = [],
      ss_watches = [], ss_nodeSet = []\<rparr>"

definition SetTimeout :: "int \<Rightarrow> Session \<Rightarrow> Session" where
  "SetTimeout t s = s\<lparr>ss_timeout := t\<rparr>"

definition SetExpireTime :: "timestamp \<Rightarrow> Session \<Rightarrow> Session" where
  "SetExpireTime t s = s\<lparr>ss_expire := t\<rparr>"

definition Close :: "Session \<Rightarrow> Session" where
  "Close s = s\<lparr>ss_active := False\<rparr>"

text \<open>Assigning the event pointer drops the session's reference to the ping it held, whose
  response is then sent.\<close>

definition HoldPing :: "Event \<Rightarrow> Session \<Rightarrow> Session \<times> effect list" where
  "HoldPing e s =
     (s\<lparr>ss_pingEvent := Some e\<rparr>,
      (case ss_pingEvent s of None \<Rightarrow> [] | Some old \<Rightarrow> Event_destroy old))"

definition HasPendingPing :: "Session \<Rightarrow> bool" where
  "HasPendingPing s \<longleftrightarrow> ss_pingEvent s \<noteq> None"

definition HasPendingWatcher :: "Session \<Rightarrow> bool" where
  "HasPendingWatcher s \<longleftrightarrow> ss_pendingWatcher s \<noteq> []"

definition PendingWatcher :: "string \<Rightarrow> WEvent \<Rightarrow> Session \<Rightarrow> Session" where
  "PendingWatcher path e s = s\<lparr>ss_pendingWatcher := mm_insert path e (ss_pendingWatcher s)\<rparr>"

text \<open>The event that is logged is read through an iterator that has just been erased; the
  model logs the value the iterator had.\<close>

definition PingBack :: "timestamp \<Rightarrow> Session \<Rightarrow> Session \<times> effect list" where
  "PingBack now s = (case ss_pingEvent s of
       None \<Rightarrow> (s, [])
     | Some ping \<Rightarrow>
         (let s = s\<lparr>ss_lastActive := now\<rparr> in
          case ss_pendingWatcher s of
            [] \<Rightarrow> (s\<lparr>ss_pingEvent := None\<rparr>, [Reply ping])
          | (path, e) # rest \<Rightarrow>
              (s\<lparr>ss_pingEvent := None, ss_pendingWatcher := rest\<rparr>,
               [Log_watch (ss_sid s) e,
                Reply (ping\<lparr>ev_Rep := (ev_Rep ping)\<lparr>rp_path := Some path, rp_watch := Some e\<rparr>\<rparr>)])))"

definition BindWatch :: "Watcher \<Rightarrow> Session \<Rightarrow> Session" where
  "BindWatch w s = s\<lparr>ss_watches := om_put (w_path w) w (ss_watches s)\<rparr>"

definition RemoveWatch :: "Watcher \<Rightarrow> Session \<Rightarrow> Session" where
  "RemoveWatch w s = s\<lparr>ss_watches := om_erase (w_path w) (ss_watches s)\<rparr>"

definition HasWatch :: "string \<Rightarrow> Session \<Rightarrow> bool" where
  "HasWatch p s \<longleftrightarrow> om_find (ss_watches s) p \<noteq> None"

definition ResetWatch :: "Session \<Rightarrow> Session" where
  "ResetWatch s = s\<lparr>ss_watches := []\<rparr>"

definition BindNode :: "string \<Rightarrow> Session \<Rightarrow> Session" where
  "BindNode path s = s\<lparr>ss_nodeSet := os_insert path (ss_nodeSet s)\<rparr>"

definition RemoveNode :: "string \<Rightarrow> Session \<Rightarrow> Session" where
  "RemoveNode path s = s\<lparr>ss_nodeSet := os_erase path (ss_nodeSet s)\<rparr>"

definition toProtobuf :: "Session \<Rightarrow> StoredSession" where
  "toProtobuf s =
     \<lparr>sp_sid = ss_sid s,
      sp_watch = map (\<lambda>(k, w). \<lparr>sw_path = w_path w, sw_type = w_mask w, sw_recursive = w_recursive w\<rparr>)
        (ss_watches s),
      sp_node = ss_nodeSet s,
      sp_timeout = word_of_int (ss_timeout s)\<rparr>"

definition Session_SerializeToString :: "protolib \<Rightarrow> Session \<Rightarrow> bool \<times> string" where
  "Session_SerializeToString P s = session_SerializeToString P (toProtobuf s)"

definition Session_SerializeToJson :: "protolib \<Rightarrow> Session \<Rightarrow> bool \<times> string" where
  "Session_SerializeToJson P s =
     (True, session_Json P (toProtobuf s) (word_of_int (ss_join s div 1000000))
        (word_of_int (ss_lastActive s div 1000000)))"

subsection \<open>Watch events reach the client through its pings\<close>

text \<open>The watch events that the effects deliver.\<close>

fun delivered :: "effect list \<Rightarrow> (string \<times> WEvent) list" where
  "delivered [] = []"
| "delivered (Reply e # es) =
     (case (rp_path (ev_Rep e), rp_watch (ev_Rep e)) of
        (Some p, Some w) \<Rightarrow> (p, w) # delivered es | _ \<Rightarrow> delivered es)"
| "delivered (_ # es) = delivered es"

fun replies :: "effect list \<Rightarrow> Event list" where
  "replies [] = []"
| "replies (Reply e # es) = e # replies es"
| "replies (_ # es) = replies es"

lemma replies_append [simp]: "replies (a @ b) = replies a @ replies b"
  by (induction a rule: replies.induct) auto

definition fresh_rep :: "Event \<Rightarrow> bool" where
  "fresh_rep e \<longleftrightarrow> rp_path (ev_Rep e) = None \<and> rp_watch (ev_Rep e) = None"

text \<open>
  A ping takes home exactly the oldest waiting watch event of the first path: answering
  the held ping sends its response once, with the first pending watch event if there is one,
  and nothing pending is lost or delivered twice; without a held ping nothing is sent.
\<close>

theorem PingBack_delivers:
  assumes "\<forall>p. ss_pingEvent s = Some p \<longrightarrow> fresh_rep p"
  shows "case PingBack now s of (s', es) \<Rightarrow>
     ss_pingEvent s' = None
   \<and> delivered es @ ss_pendingWatcher s' = ss_pendingWatcher s
   \<and> map ev_done (replies es) = (case ss_pingEvent s of None \<Rightarrow> [] | Some p \<Rightarrow> [ev_done p])
   \<and> (ss_pingEvent s \<noteq> None \<and> ss_pendingWatcher s \<noteq> [] \<longrightarrow> length (delivered es) = 1)"
proof (cases "ss_pingEvent s")
  case None
  then show ?thesis by (simp add: PingBack_def)
next
  case (Some p)
  with assms have p: "rp_path (ev_Rep p) = None" "rp_watch (ev_Rep p) = None" by (auto simp: fresh_rep_def)
  show ?thesis
    by (cases "ss_pendingWatcher s") (auto simp: PingBack_def Some p Let_def split: prod.splits)
qed

theorem PingBack_delivers_witness:
  "let p = \<lparr>ev_Req = Request_default, ev_Rep = Response_default, ev_Addr = ''a'', ev_done = 3\<rparr>;
       s = (PendingWatcher ''/a'' (mk_event ''/a/b'' kCreate)
             (fst (HoldPing p (Session_new 1 0 7 5000))))
   in fresh_rep p \<and> delivered (snd (PingBack 9 s)) = [(''/a'', mk_event ''/a/b'' kCreate)]"
  using PingBack_delivers [of "PendingWatcher ''/a'' (mk_event ''/a/b'' kCreate)
      (fst (HoldPing \<lparr>ev_Req = Request_default, ev_Rep = Response_default, ev_Addr = ''a'', ev_done = 3\<rparr>
        (Session_new 1 0 7 5000)))" 9]
  by (simp add: Let_def PendingWatcher_def HoldPing_def Session_new_def fresh_rep_def Response_default_def
      PingBack_def)

end
