(* ===== verification/Session_Manager.thy ===== *)
theory Session_Manager
  imports Session Store Doubles
begin

text \<open>
  \<^verbatim>\<open>server/session_manager.h\<close> and \<^verbatim>\<open>server/session_manager.cc\<close>: the sessions by id, and the
  timer wheel: a map from expiry times (rounded to the check interval) to the sets of the
  sessions that expire then. Both containers hold pointers to the same session objects; the
  object is kept in \<open>sm_sessions\<close>, and a timer set holds its address and its id. The store
  that \<^verbatim>\<open>store_\<close> points to is passed along. \<open>None\<close> is a failing \<^verbatim>\<open>CHECK\<close>.
\<close>

type_synonym SessionSet = "(nat \<times> sid_t) list"

record SessionManager =
  sm_sid :: sid_t
  sm_interval :: int
  sm_sessions :: "(sid_t, Session) omap"
  sm_timers :: "(timestamp, SessionSet) omap"

text \<open>\<^verbatim>\<open>roundTo\<close>, in \<^verbatim>\<open>double\<close> arithmetic; the step in microseconds is an \<^verbatim>\<open>int\<close>.\<close>

definition roundTo :: "timestamp \<Rightarrow> int \<Rightarrow> timestamp" where
  "roundTo t1 step =
     (let step = int32 (step * 1000);
          begin' = fl (of_int t1)
      in trunc (fl (fl (begin' / fl (of_int step)) + 1 / 2)) * step)"

text \<open>\<^verbatim>\<open>initSid\<close>: five bytes of the time in milliseconds above two zero bytes.\<close>

definition initSid :: "timestamp \<Rightarrow> sid_t" where
  "initSid now =
     (let myid = (0 :: u64);
          sid = (word_of_int (now div 1000) :: u64)
      in drop_bit 8 (push_bit 24 sid) OR push_bit 56 myid)"

definition SessionManager_new :: "timestamp \<Rightarrow> int \<Rightarrow> SessionManager" where
  "SessionManager_new now interval =
     \<lparr>sm_sid = initSid now, sm_interval = interval, sm_sessions = [], sm_timers = []\<rparr>"

definition GenSid :: "SessionManager \<Rightarrow> sid_t \<times> SessionManager" where
  "GenSid sm = (let sid = sm_sid sm + 1 in (sid, sm\<lparr>sm_sid := sid\<rparr>))"

definition SM_Get :: "SessionManager \<Rightarrow> sid_t \<Rightarrow> Session option" where
  "SM_Get sm sid = om_find (sm_sessions sm) sid"

text \<open>Changing a session through a pointer to it.\<close>

definition SM_adjust :: "sid_t \<Rightarrow> (Session \<Rightarrow> Session) \<Rightarrow> SessionManager \<Rightarrow> SessionManager" where
  "SM_adjust sid f sm = sm\<lparr>sm_sessions := om_adjust sid f (sm_sessions sm)\<rparr>"

definition removeFromTimers :: "sid_t \<Rightarrow> SessionManager \<Rightarrow> SessionManager option" where
  "removeFromTimers sid sm = (case SM_Get sm sid of
       None \<Rightarrow> None
     | Some s \<Rightarrow>
         (case om_find (sm_timers sm) (ss_expire s) of
            None \<Rightarrow> Some sm
          | Some bucket \<Rightarrow>
              (let bucket = os_erase (ss_addr s, sid) bucket in
               Some (sm\<lparr>sm_timers := (if bucket = [] then om_erase (ss_expire s) (sm_timers sm)
                                      else om_put (ss_expire s) bucket (sm_timers sm))\<rparr>))))"

definition removeFromSessions :: "sid_t \<Rightarrow> SessionManager \<Rightarrow> SessionManager" where
  "removeFromSessions sid sm = sm\<lparr>sm_sessions := om_erase sid (sm_sessions sm)\<rparr>"

text \<open>\<^verbatim>\<open>timers_[expire]\<close> makes an empty set when there is none.\<close>

definition timer_insert :: "timestamp \<Rightarrow> nat \<times> sid_t \<Rightarrow> SessionManager \<Rightarrow> SessionManager" where
  "timer_insert expire x sm =
     (let bucket = (case om_find (sm_timers sm) expire of None \<Rightarrow> [] | Some bucket \<Rightarrow> bucket)
      in sm\<lparr>sm_timers := om_put expire (os_insert x bucket) (sm_timers sm)\<rparr>)"

definition expiry :: "'db thirdparty \<Rightarrow> timestamp \<Rightarrow> int \<Rightarrow> timestamp" where
  "expiry X now timeout = addTime X now (fl (of_int timeout / 1000))"

definition Touch :: "'db thirdparty \<Rightarrow> timestamp \<Rightarrow> sid_t \<Rightarrow> SessionManager \<Rightarrow> SessionManager option" where
  "Touch X now sid sm = (case SM_Get sm sid of
       None \<Rightarrow> None
     | Some s \<Rightarrow>
         if \<not> ss_active s then Some sm
         else do {
           sm \<leftarrow> removeFromTimers sid sm;
           let expire = roundTo (expiry X now (ss_timeout s)) (sm_interval sm);
           Some (timer_insert expire (ss_addr s, sid) (SM_adjust sid (SetExpireTime expire) sm)) })"

definition SM_Add ::
  "timestamp \<Rightarrow> Session \<Rightarrow> SessionManager \<Rightarrow> 'db Store \<Rightarrow> (SessionManager \<times> 'db Store) option" where
  "SM_Add now s sm store =
     (let sm = (if sm_sid sm < ss_sid s then sm\<lparr>sm_sid := ss_sid s\<rparr> else sm) in
      case Store_AddSession store (toProtobuf s) of (st, store) \<Rightarrow>
        if \<not> ok st then None
        else do {
          let sm = sm\<lparr>sm_sessions := om_insert (ss_sid s) s (sm_sessions sm)\<rparr>;
          sm \<leftarrow> Touch (so_lib store) now (ss_sid s) sm;
          Some (sm, store) })"

definition SM_Remove ::
  "sid_t \<Rightarrow> SessionManager \<Rightarrow> 'db Store \<Rightarrow> (SessionManager \<times> 'db Store) option" where
  "SM_Remove sid sm store = (case SM_Get sm sid of
       None \<Rightarrow> None
     | Some s \<Rightarrow>
         if ss_active s then None
         else do {
           sm \<leftarrow> removeFromTimers sid sm;
           let sm = removeFromSessions sid sm;
           (case Store_RemoveSession store sid of (st, store) \<Rightarrow>
              if \<not> ok st then None else Some (sm, store)) })"

definition GetSessions :: "timestamp \<Rightarrow> SessionManager \<Rightarrow> SessionSet option" where
  "GetSessions when sm = om_find (sm_timers sm) when"

text \<open>\<^verbatim>\<open>Step\<close>: the sessions whose expiry time is before now, in the order the two loops visit
  them, and the time of the next check. The callback runs in the server.\<close>

definition due_sessions :: "timestamp \<Rightarrow> SessionManager \<Rightarrow> sid_t list" where
  "due_sessions now sm =
     map snd (concat (map snd (takeWhile (\<lambda>e. fst e < now) (sm_timers sm))))"

definition next_check :: "'db thirdparty \<Rightarrow> timestamp \<Rightarrow> SessionManager \<Rightarrow> timestamp" where
  "next_check X now sm = roundTo (expiry X now (sm_interval sm)) (sm_interval sm)"

text \<open>\<^verbatim>\<open>ResetTimer\<close>: every old set moves, whole, to the expiry time of its first session; the
  \<open>i\<close>-th reading of the clock is \<open>nows i\<close>. The swap puts a set that is already there into the
  old map, which is dropped.\<close>

fun reset_timers ::
  "'db thirdparty \<Rightarrow> (nat \<Rightarrow> timestamp) \<Rightarrow> nat \<Rightarrow> (timestamp \<times> SessionSet) list
     \<Rightarrow> (timestamp, SessionSet) omap \<Rightarrow> SessionManager \<Rightarrow> SessionManager option" where
  "reset_timers X nows i [] newTimers sm = Some (sm\<lparr>sm_timers := newTimers\<rparr>)"
| "reset_timers X nows i ((_, bucket) # rest) newTimers sm = (case bucket of
       [] \<Rightarrow> None
     | x # _ \<Rightarrow>
         (case SM_Get sm (snd x) of
            None \<Rightarrow> None
          | Some first \<Rightarrow>
              (let expire = expiry X (nows i) (ss_timeout first);
                   sm = fold (\<lambda>y sm. SM_adjust (snd y) (SetExpireTime expire) sm) bucket sm
               in reset_timers X nows (i + 1) rest (om_put expire bucket newTimers) sm)))"

definition ResetTimer ::
  "'db thirdparty \<Rightarrow> (nat \<Rightarrow> timestamp) \<Rightarrow> SessionManager \<Rightarrow> SessionManager option" where
  "ResetTimer X nows sm = reset_timers X nows 0 (sm_timers sm) [] sm"

definition ResetWatchers :: "SessionManager \<Rightarrow> SessionManager" where
  "ResetWatchers sm = sm\<lparr>sm_sessions := map (\<lambda>(sid, s). (sid, ResetWatch s)) (sm_sessions sm)\<rparr>"

definition ResetPendingPing :: "timestamp \<Rightarrow> SessionManager \<Rightarrow> SessionManager \<times> effect list" where
  "ResetPendingPing now sm =
     (sm\<lparr>sm_sessions := map (\<lambda>(sid, s). (sid, fst (PingBack now s))) (sm_sessions sm)\<rparr>,
      concat (map (\<lambda>(sid, s). snd (PingBack now s)) (sm_sessions sm)))"

definition SM_OnProcRead ::
  "'db thirdparty \<Rightarrow> SessionManager \<Rightarrow> string list \<Rightarrow> Status \<times> string" where
  "SM_OnProcRead X sm args =
     (let node = Node_default\<lparr>nd_flags := kPersist, nd_data := [], nd_version := 0\<rparr> in
      case args of
        [] \<Rightarrow> (OK, snd (node_SerializeToString (pb X)
                 (node\<lparr>nd_children := map (\<lambda>e. NumberToString (toft X) (fst e)) (sm_sessions sm)\<rparr>)))
      | a # _ \<Rightarrow>
          (case StringToNumber (toft X) a of
             None \<Rightarrow> (NotFound a, [])
           | Some sid \<Rightarrow>
               (case SM_Get sm sid of
                  None \<Rightarrow> (NotFound a, [])
                | Some session \<Rightarrow>
                    (case Session_SerializeToJson (pb X) session of (r, data) \<Rightarrow>
                       if \<not> r then (Internal ''get session error'', [])
                       else
                         (case node_SerializeToString (pb X) (node\<lparr>nd_data := data\<rparr>) of (r, value) \<Rightarrow>
                            if \<not> r then (Internal ''serialize node error'', value)
                            else (OK, value))))))"

end
