(* ===== verification/Server.thy ===== *)
theory Server
  imports Session_Manager
begin

text \<open>
  \<^verbatim>\<open>server/server.h\<close>, \<^verbatim>\<open>server/server.cc\<close>, \<^verbatim>\<open>server/options.h\<close> and
  \<^verbatim>\<open>server/rpc_service.cc\<close>: one replica. Requests arrive on one channel, committed commands on
  another, and changes of the raft role on a third; the main thread runs one of three loops
  according to its role. The leader answers reads, pings and watches itself, broadcasts what
  changes the tree or the sessions, and answers such a request when its command comes back.
  The state is a record; what leaves the server is appended to \<open>sv_out\<close>; \<open>None\<close> is a failing
  \<^verbatim>\<open>CHECK\<close>. The clock, the allocator and the raft library's idea of the leader are read from an
  environment that every step is given anew.
\<close>

subsection \<open>Options and state\<close>

record Options =
  op_DBDir :: string
  op_SnapshotDir :: string
  op_MaxSessionTimeout :: int
  op_MinSessionTimeout :: int
  op_SessionCheckInterval :: int
  op_ProcRoot :: string
  op_MyID :: int
  op_AddrList :: "string list"
  op_RpcChannelSize :: int

definition Options_default :: Options where
  "Options_default = \<lparr>op_DBDir = [], op_SnapshotDir = [], op_MaxSessionTimeout = 2 * 60 * 1000,
     op_MinSessionTimeout = 5 * 1000, op_SessionCheckInterval = 1000, op_ProcRoot = ''/pyxis'',
     op_MyID = 0, op_AddrList = [], op_RpcChannelSize = 1024\<rparr>"

datatype State = kLeader | kWaiter | kFollower | kStop

text \<open>Where the main thread is: about to enter a loop, or waiting in one (the leader's loop with
  the time its timer is set to, the waiting loop with the tag of its ping).\<close>

datatype Loop = At_main | In_leader timestamp | In_follower | In_wait u64 | Returned

record Env =
  en_now :: timestamp
  en_now2 :: timestamp
  en_nows :: "nat \<Rightarrow> timestamp"
  en_addr :: nat
  en_LeaderId :: int

record 'db Server =
  sv_options :: Options
  sv_state :: State
  sv_requests :: "Event list"
  sv_eventch :: "Event list"
  sv_cmdch :: "Request list"
  sv_statech :: "int list"
  sv_store :: "'db Store"
  sv_sm :: SessionManager
  sv_wm :: WatchManager
  sv_logIndex :: u64
  sv_loop :: Loop
  sv_out :: "effect list"

abbreviation sv_lib :: "'db Server \<Rightarrow> 'db thirdparty" where
  "sv_lib srv \<equiv> so_lib (sv_store srv)"

definition emit :: "effect list \<Rightarrow> 'db Server \<Rightarrow> 'db Server" where
  "emit es srv = srv\<lparr>sv_out := sv_out srv @ es\<rparr>"

text \<open>Changing a session through a pointer to it, without and with visible effects.\<close>

definition sv_adjust :: "sid_t \<Rightarrow> (Session \<Rightarrow> Session) \<Rightarrow> 'db Server \<Rightarrow> 'db Server" where
  "sv_adjust sid f srv = srv\<lparr>sv_sm := SM_adjust sid f (sv_sm srv)\<rparr>"

definition sv_session :: "sid_t \<Rightarrow> (Session \<Rightarrow> Session \<times> effect list) \<Rightarrow> 'db Server \<Rightarrow> 'db Server" where
  "sv_session sid f srv = (case SM_Get (sv_sm srv) sid of
       None \<Rightarrow> srv
     | Some s \<Rightarrow> emit (snd (f s)) (sv_adjust sid (\<lambda>_. fst (f s)) srv))"

text \<open>The sub-messages of a request, with the protocol's defaults when they are not set.\<close>

definition req_create :: "Request \<Rightarrow> CreateRequest" where
  "req_create r = (case rq_create r of None \<Rightarrow> \<lparr>cr_path = [], cr_flags = 0, cr_data = []\<rparr> | Some c \<Rightarrow> c)"

definition req_write :: "Request \<Rightarrow> WriteRequest" where
  "req_write r = (case rq_write r of None \<Rightarrow> \<lparr>wr_path = [], wr_data = []\<rparr> | Some w \<Rightarrow> w)"

definition req_watch :: "Request \<Rightarrow> WatchRequest" where
  "req_watch r = (case rq_watch r of None \<Rightarrow> \<lparr>wq_path = [], wq_watch = 0, wq_recursive = False\<rparr> | Some w \<Rightarrow> w)"

definition req_path :: "string option \<Rightarrow> string" where
  "req_path p = (case p of None \<Rightarrow> [] | Some s \<Rightarrow> s)"

definition req_timeout :: "Request \<Rightarrow> u32" where
  "req_timeout r = (case rq_register r of None \<Rightarrow> 0 | Some t \<Rightarrow> t)"

definition needBoradcast :: "Request \<Rightarrow> bool" where
  "needBoradcast req \<longleftrightarrow> rq_unregister req \<or> rq_register req \<noteq> None \<or> rq_create req \<noteq> None
     \<or> rq_delete req \<noteq> None \<or> rq_write req \<noteq> None"

subsection \<open>The virtual nodes\<close>

text \<open>A failing \<^verbatim>\<open>CHECK\<close> inside a write callback is reported as the effect \<open>Check_failed\<close>.\<close>

definition onProcTakeSnapshot :: "'db Server \<Rightarrow> string list \<Rightarrow> string \<Rightarrow> Status \<times> effect list" where
  "onProcTakeSnapshot srv args value = (case Store_GetCommitIndex (sv_store srv) of
       None \<Rightarrow> (OK, [Check_failed])
     | Some (st, idx) \<Rightarrow>
         if \<not> ok st then (st, [])
         else (OK, case idx of None \<Rightarrow> [] | Some i \<Rightarrow> [Take_snapshot i]))"

definition leader_addr :: "Options \<Rightarrow> int \<Rightarrow> string" where
  "leader_addr opts leaderid = op_AddrList opts ! nat (leaderid - 1)"

definition onProcCluster :: "Env \<Rightarrow> 'db Server \<Rightarrow> string list \<Rightarrow> Status \<times> string" where
  "onProcCluster env srv args =
     (let P = pb (sv_lib srv);
          node = Node_default\<lparr>nd_flags := kPersist, nd_data := [], nd_version := 0\<rparr>
      in case args of
           [] \<Rightarrow> (OK, snd (node_SerializeToString P (node\<lparr>nd_children := [''leader'', ''addrlist'']\<rparr>)))
         | a # _ \<Rightarrow>
             (let node =
                (if a = ''addrlist'' then
                   node\<lparr>nd_data := JoinStrings (toft (sv_lib srv)) (op_AddrList (sv_options srv)) '',''\<rparr>
                 else if a = ''leader'' \<and> en_LeaderId env \<noteq> 0 then
                   node\<lparr>nd_data := leader_addr (sv_options srv) (en_LeaderId env)\<rparr>
                 else node)
              in (OK, snd (node_SerializeToString P node))))"

definition EventLog_OnProcWrite :: "string list \<Rightarrow> string \<Rightarrow> Status \<times> effect list" where
  "EventLog_OnProcWrite args value = (OK, [Reload_log])"

text \<open>The virtual database with the callbacks that the constructor registers, bound to the
  server's present state.\<close>

definition server_proc :: "Env \<Rightarrow> 'db Server \<Rightarrow> effect ProcDB" where
  "server_proc env srv =
     (let X = sv_lib srv; J = PathJoin (toft X) (op_ProcRoot (sv_options srv)) in
      RegisterReadNode (J ''db'') (Bind_read (OnProcDBStatusRead (sv_store srv)))
        (RegisterReadNode (J ''cluster'') (Bind_read (onProcCluster env srv))
          (RegisterWriteNode (J ''snapshot'') (onProcTakeSnapshot srv)
            (RegisterWriteNode (J ''eventlog'') EventLog_OnProcWrite
              (RegisterReadNode (J ''session'') (Bind_read (SM_OnProcRead X (sv_sm srv)))
                (ProcDB_new (op_ProcRoot (sv_options srv))))))))"

text \<open>The constructor, given the opened database.\<close>

definition Server_new ::
  "Env \<Rightarrow> 'db thirdparty \<Rightarrow> int \<Rightarrow> Options \<Rightarrow> 'db \<Rightarrow> 'db Server option" where
  "Server_new env X max_node_size opts db =
     (let srv = \<lparr>sv_options = opts, sv_state = kFollower, sv_requests = [], sv_eventch = [],
            sv_cmdch = [], sv_statech = [],
            sv_store = \<lparr>so_persist = db, so_procRoot = op_ProcRoot opts, so_lib = X,
              so_max_node_size = max_node_size\<rparr>,
            sv_sm = SessionManager_new (en_now env) (op_SessionCheckInterval opts),
            sv_wm = [], sv_logIndex = 0, sv_loop = At_main, sv_out = []\<rparr>
      in do {
        store \<leftarrow> Store_init (sv_store srv) (server_proc env srv);
        Some (srv\<lparr>sv_store := store\<rparr>) })"

subsection \<open>Watches\<close>

text \<open>\<^verbatim>\<open>watchCallback\<close>: the watcher is still in the watch manager when it is notified, so its weak
  pointer can be locked.\<close>

definition watchCallback :: "Env \<Rightarrow> WEvent \<Rightarrow> Watcher \<Rightarrow> 'db Server \<Rightarrow> 'db Server" where
  "watchCallback env e w srv = (case SM_Get (sv_sm srv) (w_sid w) of
       None \<Rightarrow> srv
     | Some _ \<Rightarrow>
         (let srv = (if sv_state srv = kLeader then
              sv_session (w_sid w) (PingBack (en_now env))
                (sv_adjust (w_sid w) (PendingWatcher (w_path w) e) srv)
            else srv)
          in sv_adjust (w_sid w) (RemoveWatch w) srv))"

definition server_Triger :: "Env \<Rightarrow> WEvent \<Rightarrow> 'db Server \<Rightarrow> 'db Server option" where
  "server_Triger env e srv = do {
     (fired, wm) \<leftarrow> WM_Triger e (sv_wm srv);
     Some (fold (watchCallback env e) fired (srv\<lparr>sv_wm := wm\<rparr>)) }"

definition getSession :: "sid_t \<Rightarrow> 'db Server \<Rightarrow> Status" where
  "getSession sid srv =
     (if SM_Get (sv_sm srv) sid = None then SessionExpired ''session expired'' else OK)"

definition onWatch :: "Request \<Rightarrow> 'db Server \<Rightarrow> Status \<times> 'db Server" where
  "onWatch req srv = (case SM_Get (sv_sm srv) (req_sid req) of
       None \<Rightarrow> (SessionExpired ''session expired'', srv)
     | Some s \<Rightarrow>
         (let path = wq_path (req_watch req) in
          if HasWatch path s then (OK, srv)
          else
            (let w = \<lparr>w_path = path, w_sid = ss_sid s, w_mask = wq_watch (req_watch req),
                      w_recursive = wq_recursive (req_watch req)\<rparr>
             in (OK, sv_adjust (req_sid req) (BindWatch w) (srv\<lparr>sv_wm := WM_Add path w (sv_wm srv)\<rparr>)))))"

end
