(* ===== verification/Server_Commands.thy ===== *)
theory Server_Commands
  imports Server
begin

text \<open>
  The part of \<^verbatim>\<open>server/server.cc\<close> that every replica runs on a committed command, with
  \<^verbatim>\<open>Session::~Session\<close> of \<^verbatim>\<open>server/session.cc\<close>: registering and unregistering sessions,
  creating, deleting and writing nodes.
\<close>

subsection \<open>Nodes\<close>

definition ReadNode :: "Env \<Rightarrow> string \<Rightarrow> 'db Server \<Rightarrow> (Status \<times> Node) option" where
  "ReadNode env path srv = Store_Get (sv_store srv) (server_proc env srv) path"

definition DeleteNode :: "Env \<Rightarrow> string \<Rightarrow> 'db Server \<Rightarrow> (Status \<times> 'db Server) option" where
  "DeleteNode env path srv = do {
     (st, store) \<leftarrow> Store_Delete (sv_store srv) (server_proc env srv) path;
     let srv = srv\<lparr>sv_store := store\<rparr>;
     if \<not> ok st then Some (st, srv)
     else do {
       srv \<leftarrow> server_Triger env (mk_event path kDelete) srv;
       srv \<leftarrow> server_Triger env (mk_event (fst (snd (SplitPath path))) kChildren) srv;
       Some (OK, srv) } }"

definition onCreate :: "Env \<Rightarrow> Request \<Rightarrow> 'db Server \<Rightarrow> (Status \<times> 'db Server) option" where
  "onCreate env req srv =
     (let st = getSession (req_sid req) srv;
          ephemeral = (cr_flags (req_create req) AND kEphemeral \<noteq> 0);
          path = cr_path (req_create req)
      in if \<not> ok st \<and> ephemeral then Some (st, srv)
         else do {
           (st, store) \<leftarrow> Store_Create (sv_store srv) (server_proc env srv) path
             (cr_data (req_create req)) (cr_flags (req_create req)) (req_sid req);
           let srv = srv\<lparr>sv_store := store\<rparr>;
           if \<not> ok st then Some (st, srv)
           else do {
             srv \<leftarrow> (if ephemeral then
                 (case SM_Get (sv_sm srv) (req_sid req) of
                    None \<Rightarrow> None
                  | Some _ \<Rightarrow> Some (sv_adjust (req_sid req) (BindNode path) srv))
               else Some srv);
             srv \<leftarrow> server_Triger env (mk_event path kCreate) srv;
             srv \<leftarrow> server_Triger env (mk_event (fst (snd (SplitPath path))) kChildren) srv;
             Some (st, srv) } })"

definition onDelete :: "Env \<Rightarrow> Request \<Rightarrow> 'db Server \<Rightarrow> (Status \<times> 'db Server) option" where
  "onDelete env req srv =
     (let path = req_path (rq_delete req) in do {
        (st, node) \<leftarrow> Store_Get (sv_store srv) (server_proc env srv) path;
        if \<not> ok st then Some (st, srv)
        else do {
          (st, srv) \<leftarrow> DeleteNode env path srv;
          if \<not> ok st then Some (st, srv)
          else
            (let st = getSession (req_sid req) srv in
             if \<not> ok st then Some (st, srv)
             else Some (st, sv_adjust (req_sid req) (RemoveNode path) srv)) } })"

definition onWrite :: "Env \<Rightarrow> Request \<Rightarrow> 'db Server \<Rightarrow> (Status \<times> 'db Server) option" where
  "onWrite env req srv =
     (let path = wr_path (req_write req) in do {
        (st, store, es) \<leftarrow> Store_Write (sv_store srv) (server_proc env srv) path (wr_data (req_write req));
        if Check_failed \<in> set es then None
        else
          (let srv = emit es (srv\<lparr>sv_store := store\<rparr>) in
           if \<not> ok st then Some (st, srv)
           else do {
             srv \<leftarrow> server_Triger env (mk_event path kModify) srv;
             Some (st, srv) }) })"

text \<open>\<^verbatim>\<open>onRead\<close> and \<^verbatim>\<open>onStat\<close> with what they leave in \<^verbatim>\<open>*data\<close>.\<close>

definition onRead :: "Env \<Rightarrow> Request \<Rightarrow> 'db Server \<Rightarrow> (Status \<times> string \<times> 'db Server) option" where
  "onRead env req srv =
     (if rq_watch req = None then None
      else do {
        (st, data) \<leftarrow> Store_Read (sv_store srv) (server_proc env srv) (req_path (rq_read req));
        if \<not> ok st then Some (st, data, srv)
        else (case onWatch req srv of (st, srv) \<Rightarrow> Some (st, data, srv)) })"

definition onStat :: "Env \<Rightarrow> Request \<Rightarrow> 'db Server \<Rightarrow> (Status \<times> string \<times> 'db Server) option" where
  "onStat env req srv =
     (if rq_watch req = None then None
      else do {
        (st, node) \<leftarrow> Store_Get (sv_store srv) (server_proc env srv) (req_path (rq_stat req));
        if \<not> ok st then
          (if \<not> IsNotFound st then Some (st, [], srv)
           else (case onWatch req srv of (st1, srv) \<Rightarrow>
             Some (if \<not> ok st1 then st1 else st, [], srv)))
        else (case onWatch req srv of (st1, srv) \<Rightarrow>
          Some (st1, snd (node_SerializeToString (pb (sv_lib srv)) node), srv)) })"

subsection \<open>Sessions\<close>

text \<open>\<^verbatim>\<open>Session::~Session\<close>: the watchers go, then the ephemeral nodes that still belong to the
  session, then its members, among them the held ping, whose response is sent.\<close>

definition destroy_node :: "Env \<Rightarrow> sid_t \<Rightarrow> string \<Rightarrow> 'db Server \<Rightarrow> 'db Server option" where
  "destroy_node env sid path srv = do {
     (st, node) \<leftarrow> ReadNode env path srv;
     if IsNotFound st then Some srv
     else if nd_sid node \<noteq> sid then Some srv
     else do {
       (st, srv) \<leftarrow> DeleteNode env path srv;
       if ok st \<or> IsNotFound st then Some srv else None } }"

definition Session_destroy :: "Env \<Rightarrow> Session \<Rightarrow> 'db Server \<Rightarrow> 'db Server option" where
  "Session_destroy env s srv =
     (let srv = srv\<lparr>sv_wm := fold (\<lambda>e wm. WM_Remove (snd e) wm) (ss_watches s) (sv_wm srv)\<rparr> in do {
        srv \<leftarrow> fold_opt (destroy_node env (ss_sid s)) (ss_nodeSet s) srv;
        Some (emit (case ss_pingEvent s of None \<Rightarrow> [] | Some p \<Rightarrow> [Reply p]) srv) })"

definition onRegister :: "Env \<Rightarrow> Request \<Rightarrow> 'db Server \<Rightarrow> (Status \<times> sid_t \<times> 'db Server) option" where
  "onRegister env req srv =
     (let s = Session_new (en_addr env) (en_now env) (req_sid req) (sint (req_timeout req)) in do {
        (sm, store) \<leftarrow> SM_Add (en_now env) s (sv_sm srv) (sv_store srv);
        Some (OK, req_sid req,
          emit [Log_session (req_sid req) ''new''] (srv\<lparr>sv_sm := sm, sv_store := store\<rparr>)) })"

definition onUnRegister :: "Env \<Rightarrow> Request \<Rightarrow> 'db Server \<Rightarrow> (Status \<times> 'db Server) option" where
  "onUnRegister env req srv = (case SM_Get (sv_sm srv) (req_sid req) of
       None \<Rightarrow> Some (SessionExpired ''session expired'', srv)
     | Some s \<Rightarrow>
         (let sid = req_sid req;
              srv = emit [Log_session sid ''close''] srv;
              srv = sv_adjust sid Close srv
          in do {
            (sm, store) \<leftarrow> SM_Remove sid (sv_sm srv) (sv_store srv);
            srv \<leftarrow> Session_destroy env (Close s) (srv\<lparr>sv_sm := sm, sv_store := store\<rparr>);
            Some (OK, srv) }))"

subsection \<open>Commands\<close>

text \<open>What a command does, and the response it makes: the chain of \<^verbatim>\<open>if\<close>s of \<^verbatim>\<open>onCommand\<close>.\<close>

definition run_command :: "Env \<Rightarrow> Request \<Rightarrow> 'db Server \<Rightarrow> (Status \<times> Response \<times> 'db Server) option" where
  "run_command env req srv =
     (let rep = Response_default in
      if rq_register req \<noteq> None then do {
        (st, sid, srv) \<leftarrow> onRegister env req srv;
        Some (st, if ok st then rep\<lparr>rp_sid := Some sid\<rparr> else rep, srv) }
      else if rq_unregister req then do { (st, srv) \<leftarrow> onUnRegister env req srv; Some (st, rep, srv) }
      else if rq_create req \<noteq> None then do { (st, srv) \<leftarrow> onCreate env req srv; Some (st, rep, srv) }
      else if rq_delete req \<noteq> None then do { (st, srv) \<leftarrow> onDelete env req srv; Some (st, rep, srv) }
      else if rq_read req \<noteq> None then do {
        (st, data, srv) \<leftarrow> onRead env req srv; Some (st, rep\<lparr>rp_data := Some data\<rparr>, srv) }
      else if rq_write req \<noteq> None then do { (st, srv) \<leftarrow> onWrite env req srv; Some (st, rep, srv) }
      else if rq_stat req \<noteq> None then do {
        (st, data, srv) \<leftarrow> onStat env req srv; Some (st, rep\<lparr>rp_data := Some data\<rparr>, srv) }
      else if rq_watch req \<noteq> None then (case onWatch req srv of (st, srv) \<Rightarrow> Some (st, rep, srv))
      else Some (OK, rep, srv))"

definition onCommand :: "Env \<Rightarrow> Request \<Rightarrow> 'db Server \<Rightarrow> 'db Server option" where
  "onCommand env req srv = do {
     (e, srv) \<leftarrow> (if sv_state srv = kLeader then
         (case sv_requests srv of
            [] \<Rightarrow> None
          | e # rest \<Rightarrow> Some (Some e, srv\<lparr>sv_requests := rest\<rparr>))
       else Some (None, srv));
     (st, rep, srv) \<leftarrow> run_command env req srv;
     let rep = (if \<not> ok st then set_err st rep else rep);
     Some (case e of None \<Rightarrow> srv | Some e \<Rightarrow> emit [Reply (e\<lparr>ev_Rep := rep\<rparr>)] srv) }"

end
