(* ===== verification/Session_Timers.thy ===== *)
theory Session_Timers
  imports Session_Manager Reference_Libs
begin

text \<open>
  The timer wheel of the session manager: the invariant that ties the timer sets to the
  sessions, the effect of touching, adding and removing a session on both, how far the
  rounding moves an expiry time, and which sessions a check finds due.
\<close>

definition timer_set :: "(timestamp, SessionSet) omap \<Rightarrow> timestamp \<Rightarrow> (nat \<times> sid_t) set" where
  "timer_set tm t = (case om_find tm t of None \<Rightarrow> {} | Some b \<Rightarrow> set b)"

definition timers_wf :: "(timestamp, SessionSet) omap \<Rightarrow> bool" where
  "timers_wf tm \<longleftrightarrow> om_invar tm \<and> (\<forall>t b. om_find tm t = Some b \<longrightarrow> b \<noteq> [] \<and> sorted b \<and> distinct b)"

definition sessions_wf :: "SessionManager \<Rightarrow> bool" where
  "sessions_wf sm \<longleftrightarrow> om_invar (sm_sessions sm)
     \<and> (\<forall>sid s. SM_Get sm sid = Some s \<longrightarrow> ss_sid s = sid \<and> sid \<le> sm_sid sm)"

text \<open>Sound: a timer set holds live sessions that expire then. Complete: every session is in the
  set of its expiry time.\<close>

definition timers_sound :: "SessionManager \<Rightarrow> bool" where
  "timers_sound sm \<longleftrightarrow> (\<forall>t. \<forall>x \<in> timer_set (sm_timers sm) t.
     \<exists>s. SM_Get sm (snd x) = Some s \<and> ss_addr s = fst x \<and> ss_expire s = t)"

definition timers_complete :: "SessionManager \<Rightarrow> bool" where
  "timers_complete sm \<longleftrightarrow> (\<forall>sid s. SM_Get sm sid = Some s \<longrightarrow>
     (ss_addr s, sid) \<in> timer_set (sm_timers sm) (ss_expire s))"

definition sm_inv :: "SessionManager \<Rightarrow> bool" where
  "sm_inv sm \<longleftrightarrow> sessions_wf sm \<and> timers_wf (sm_timers sm) \<and> timers_sound sm"

lemma sm_invD:
  "sm_inv sm \<Longrightarrow> sessions_wf sm" "sm_inv sm \<Longrightarrow> timers_wf (sm_timers sm)"
  "sm_inv sm \<Longrightarrow> timers_sound sm"
  by (simp_all add: sm_inv_def)

lemma SM_Get_upd [simp]:
  "SM_Get (sm\<lparr>sm_timers := tm\<rparr>) sid = SM_Get sm sid"
  "SM_Get (sm\<lparr>sm_sid := i\<rparr>) sid = SM_Get sm sid"
  "SM_Get (SM_adjust sid f sm) sid' = (if sid' = sid then map_option f (SM_Get sm sid) else SM_Get sm sid')"
  "SM_Get (removeFromSessions sid sm) sid' = (if sid' = sid then None else SM_Get sm sid')"
  "SM_Get (timer_insert t x sm) sid = SM_Get sm sid"
  "SM_Get (sm\<lparr>sm_sessions := om_insert i s (sm_sessions sm)\<rparr>) sid =
     (if sid = i \<and> SM_Get sm i = None then Some s else SM_Get sm sid)"
  by (simp_all add: SM_Get_def SM_adjust_def removeFromSessions_def timer_insert_def Let_def om_find_insert)

lemma SM_sel_upd [simp]:
  "sm_timers (SM_adjust sid f sm) = sm_timers sm" "sm_sid (SM_adjust sid f sm) = sm_sid sm"
  "sm_interval (SM_adjust sid f sm) = sm_interval sm"
  "sm_timers (removeFromSessions sid sm) = sm_timers sm"
  "sm_sid (removeFromSessions sid sm) = sm_sid sm"
  "sm_sid (timer_insert t x sm) = sm_sid sm" "sm_interval (timer_insert t x sm) = sm_interval sm"
  "sm_sessions (timer_insert t x sm) = sm_sessions sm"
  by (simp_all add: SM_adjust_def removeFromSessions_def timer_insert_def Let_def)

lemma om_invar_upd [simp]:
  "om_invar (sm_sessions (SM_adjust sid f sm)) = om_invar (sm_sessions sm)"
  "om_invar (sm_sessions sm) \<Longrightarrow> om_invar (sm_sessions (removeFromSessions sid sm))"
  by (simp_all add: SM_adjust_def removeFromSessions_def)

lemma timer_set_erase:
  "timer_set (if bs = [] then om_erase e tm else om_put e bs tm) t = (if t = e then set bs else timer_set tm t)"
  by (auto simp: timer_set_def)

lemma removeFromTimers_spec:
  assumes inv: "sm_inv sm" and s: "SM_Get sm sid = Some s"
  obtains tm where "removeFromTimers sid sm = Some (sm\<lparr>sm_timers := tm\<rparr>)" "timers_wf tm"
    "\<And>t. timer_set tm t = timer_set (sm_timers sm) t - {(ss_addr s, sid)}"
    "\<And>t x. x \<in> timer_set tm t \<Longrightarrow> snd x \<noteq> sid"
proof -
  have only: "x = (ss_addr s, sid) \<and> t = ss_expire s"
    if "x \<in> timer_set (sm_timers sm) t" "snd x = sid" for x t
    using sm_invD(3) [OF inv] that s unfolding timers_sound_def by (metis option.inject prod.collapse)
  show thesis
  proof (cases "om_find (sm_timers sm) (ss_expire s)")
    case None
    have "removeFromTimers sid sm = Some (sm\<lparr>sm_timers := sm_timers sm\<rparr>)"
      using s None by (simp add: removeFromTimers_def)
    moreover have absent: "(ss_addr s, sid) \<notin> timer_set (sm_timers sm) t" for t
      using only [of "(ss_addr s, sid)" t] None by (auto simp: timer_set_def)
    moreover have "snd x \<noteq> sid" if "x \<in> timer_set (sm_timers sm) t" for x t
      using only [OF that] absent that by auto
    ultimately show thesis using that [OF _ sm_invD(2) [OF inv]] by auto
  next
    case (Some b)
    define tm where "tm = (if os_erase (ss_addr s, sid) b = [] then om_erase (ss_expire s) (sm_timers sm)
      else om_put (ss_expire s) (os_erase (ss_addr s, sid) b) (sm_timers sm))"
    have 1: "removeFromTimers sid sm = Some (sm\<lparr>sm_timers := tm\<rparr>)"
      using s Some by (simp add: removeFromTimers_def tm_def Let_def)
    have 2: "timers_wf tm"
      using sm_invD(2) [OF inv] Some by (auto simp: timers_wf_def tm_def)
    have ts: "timer_set tm t = timer_set (sm_timers sm) t - {(ss_addr s, sid)}" for t
      unfolding tm_def timer_set_erase using Some only [of "(ss_addr s, sid)" t]
      by (auto simp: timer_set_def)
    have "snd x \<noteq> sid" if "x \<in> timer_set tm t" for x t
      using that only [of x t] unfolding ts by auto
    then show thesis by (rule that [OF 1 2 ts])
  qed
qed

text \<open>Where \<^verbatim>\<open>Touch\<close> moves an active session to.\<close>

definition touched :: "'db thirdparty \<Rightarrow> timestamp \<Rightarrow> SessionManager \<Rightarrow> Session \<Rightarrow> timestamp" where
  "touched X now sm s = roundTo (expiry X now (ss_timeout s)) (sm_interval sm)"

lemma timer_set_insert [simp]:
  "timer_set (sm_timers (timer_insert e x sm)) t =
     timer_set (sm_timers sm) t \<union> (if t = e then {x} else {})"
  by (auto simp: timer_insert_def timer_set_def Let_def split: option.splits)

lemma timers_wf_insert: "timers_wf (sm_timers sm) \<Longrightarrow> timers_wf (sm_timers (timer_insert e x sm))"
  by (auto simp: timers_wf_def timer_insert_def Let_def split: option.splits)

lemma Touch_spec:
  fixes X :: "'db thirdparty" and now :: timestamp
  assumes inv: "sm_inv sm" and s: "SM_Get sm sid = Some s" and act: "ss_active s"
  defines "e \<equiv> touched X now sm s"
  obtains sm' where "Touch X now sid sm = Some sm'" "sm_inv sm'"
    "SM_Get sm' = (SM_Get sm)(sid \<mapsto> s\<lparr>ss_expire := e\<rparr>)"
    "sm_sid sm' = sm_sid sm" "sm_interval sm' = sm_interval sm"
    "\<And>t. timer_set (sm_timers sm') t =
      timer_set (sm_timers sm) t - {(ss_addr s, sid)} \<union> (if t = e then {(ss_addr s, sid)} else {})"
proof -
  from removeFromTimers_spec [OF inv s] obtain tm where tm: "removeFromTimers sid sm = Some (sm\<lparr>sm_timers := tm\<rparr>)"
    "timers_wf tm" "\<And>t. timer_set tm t = timer_set (sm_timers sm) t - {(ss_addr s, sid)}"
    "\<And>t x. x \<in> timer_set tm t \<Longrightarrow> snd x \<noteq> sid" by metis
  define sm' where "sm' = timer_insert e (ss_addr s, sid)
    (SM_adjust sid (SetExpireTime e) (sm\<lparr>sm_timers := tm\<rparr>))"
  have run: "Touch X now sid sm = Some sm'"
    using s act tm(1) by (simp add: Touch_def sm'_def e_def touched_def Let_def)
  have get: "SM_Get sm' = (SM_Get sm)(sid \<mapsto> s\<lparr>ss_expire := e\<rparr>)"
    using s by (auto simp: sm'_def SetExpireTime_def)
  have ts: "timer_set (sm_timers sm') t =
      timer_set (sm_timers sm) t - {(ss_addr s, sid)} \<union> (if t = e then {(ss_addr s, sid)} else {})" for t
    by (simp add: sm'_def tm(3))
  have "timers_wf (sm_timers sm')" unfolding sm'_def by (rule timers_wf_insert) (simp add: tm(2))
  moreover have "sessions_wf sm'"
    using sm_invD(1) [OF inv] s by (auto simp: sessions_wf_def get) (simp_all add: sm'_def)
  moreover have "timers_sound sm'"
    unfolding timers_sound_def
  proof (intro allI ballI)
    fix t x assume x: "x \<in> timer_set (sm_timers sm') t"
    show "\<exists>s. SM_Get sm' (snd x) = Some s \<and> ss_addr s = fst x \<and> ss_expire s = t"
    proof (cases "snd x = sid")
      case True
      then have "x = (ss_addr s, sid) \<and> t = e"
        using x tm(4) [of x t] unfolding ts tm(3) by (auto split: if_splits)
      then show ?thesis by (simp add: get)
    next
      case False
      then have "x \<in> timer_set (sm_timers sm) t" using x unfolding ts by (auto split: if_splits)
      with sm_invD(3) [OF inv] False show ?thesis unfolding timers_sound_def get by fastforce
    qed
  qed
  ultimately have "sm_inv sm'" by (simp add: sm_inv_def)
  then show thesis using that [OF run _ get _ _ ts] by (simp add: sm'_def)
qed


lemma Touch_closed: "SM_Get sm sid = Some s \<Longrightarrow> \<not> ss_active s \<Longrightarrow> Touch X now sid sm = Some sm"
  by (simp add: Touch_def)

lemma Touch_complete:
  assumes "sm_inv sm" and "timers_complete sm" and "Touch X now sid sm = Some sm'"
  shows "timers_complete sm'"
proof -
  obtain s where s: "SM_Get sm sid = Some s" using assms(3) by (auto simp: Touch_def split: option.splits)
  show ?thesis
  proof (cases "ss_active s")
    case False
    with s assms(2,3) show ?thesis by (simp add: Touch_closed)
  next
    case True
    define e where "e = touched X now sm s"
    obtain sm'' where t: "Touch X now sid sm = Some sm''"
      "SM_Get sm'' = (SM_Get sm)(sid \<mapsto> s\<lparr>ss_expire := e\<rparr>)"
      "\<And>t. timer_set (sm_timers sm'') t = timer_set (sm_timers sm) t - {(ss_addr s, sid)}
        \<union> (if t = e then {(ss_addr s, sid)} else {})"
      unfolding e_def by (rule Touch_spec [OF assms(1) s True, of X now]) blast
    have "sm'' = sm'" using t(1) assms(3) by simp
    then have g: "SM_Get sm' = (SM_Get sm)(sid \<mapsto> s\<lparr>ss_expire := e\<rparr>)"
      and ts: "timer_set (sm_timers sm') t = timer_set (sm_timers sm) t - {(ss_addr s, sid)}
        \<union> (if t = e then {(ss_addr s, sid)} else {})" for t
      using t(2,3) by simp_all
    show ?thesis using assms(2) unfolding timers_complete_def g ts by auto
  qed
qed

subsection \<open>Adding and removing\<close>

lemma sm_inv_insert:
  assumes "sm_inv sm" and "SM_Get sm (ss_sid s) = None"
  shows "sm_inv (sm\<lparr>sm_sid := max (sm_sid sm) (ss_sid s),
    sm_sessions := om_insert (ss_sid s) s (sm_sessions sm)\<rparr>)"
proof -
  have g: "SM_Get (sm\<lparr>sm_sid := i, sm_sessions := om_insert (ss_sid s) s (sm_sessions sm)\<rparr>) sid =
      (if sid = ss_sid s then Some s else SM_Get sm sid)" for i sid
    using assms(2) by (simp add: SM_Get_def om_find_insert)
  have le: "sid \<le> max (sm_sid sm) (ss_sid s)" if "SM_Get sm sid = Some s'" for sid s'
    using sm_invD(1) [OF assms(1)] that by (auto simp: sessions_wf_def le_max_iff_disj)
  have "sessions_wf (sm\<lparr>sm_sid := max (sm_sid sm) (ss_sid s),
      sm_sessions := om_insert (ss_sid s) s (sm_sessions sm)\<rparr>)"
    using sm_invD(1) [OF assms(1)] le by (auto simp: sessions_wf_def g)
  moreover have "timers_sound (sm\<lparr>sm_sid := max (sm_sid sm) (ss_sid s),
      sm_sessions := om_insert (ss_sid s) s (sm_sessions sm)\<rparr>)"
    using sm_invD(3) [OF assms(1)] assms(2) unfolding timers_sound_def g by fastforce
  ultimately show ?thesis using assms(1) by (simp add: sm_inv_def)
qed

lemma raise_sid: "(if sm_sid sm < i then sm\<lparr>sm_sid := i\<rparr> else sm) = sm\<lparr>sm_sid := max (sm_sid sm) i\<rparr>"
  by (cases sm) (auto simp: max_def not_less)

lemma sm_inv_raise: "sm_inv sm \<Longrightarrow> sm_inv (sm\<lparr>sm_sid := max (sm_sid sm) i\<rparr>)"
  by (auto simp: sm_inv_def sessions_wf_def timers_sound_def le_max_iff_disj)

text \<open>Adding a session under a new id makes it the session of that id and starts its timer;
  adding one under an id in use keeps the session that is there, and restarts its timer if it is
  active.\<close>

lemma SM_Add_spec:
  assumes inv: "sm_inv sm" and add: "Store_AddSession st (toProtobuf s) = (status, st')" and okst: "ok status"
  obtains sm' e where "SM_Add now s sm st = Some (sm', st')" "sm_inv sm'"
    "SM_Get sm' = (SM_Get sm)(ss_sid s \<mapsto>
       (case SM_Get sm (ss_sid s) of None \<Rightarrow> s | Some s' \<Rightarrow> s')\<lparr>ss_expire := e\<rparr>)"
    "sm_sid sm' = max (sm_sid sm) (ss_sid s)" "sm_interval sm' = sm_interval sm"
proof -
  define sm1 where "sm1 = sm\<lparr>sm_sid := max (sm_sid sm) (ss_sid s),
    sm_sessions := om_insert (ss_sid s) s (sm_sessions sm)\<rparr>"
  define s1 where "s1 = (case SM_Get sm (ss_sid s) of None \<Rightarrow> s | Some s' \<Rightarrow> s')"
  have run: "SM_Add now s sm st = map_option (\<lambda>sm. (sm, st')) (Touch (so_lib st') now (ss_sid s) sm1)"
    using add okst by (simp add: SM_Add_def Let_def raise_sid sm1_def map_option_case split: option.splits)
  have get: "SM_Get sm1 = (SM_Get sm)(ss_sid s \<mapsto> s1)"
    by (auto simp: sm1_def s1_def SM_Get_def om_find_insert split: option.splits)
  have inv1: "sm_inv sm1"
  proof (cases "SM_Get sm (ss_sid s)")
    case None
    then show ?thesis unfolding sm1_def by (rule sm_inv_insert [OF inv])
  next
    case (Some s')
    then have "sm1 = sm\<lparr>sm_sid := max (sm_sid sm) (ss_sid s)\<rparr>"
      by (simp add: sm1_def om_insert_def SM_Get_def)
    then show ?thesis using sm_inv_raise [OF inv] by simp
  qed
  have g1: "SM_Get sm1 (ss_sid s) = Some s1" by (simp add: get)
  show thesis
  proof (cases "ss_active s1")
    case True
    define e where "e = touched (so_lib st') now sm1 s1"
    obtain sm' where t: "Touch (so_lib st') now (ss_sid s) sm1 = Some sm'" "sm_inv sm'"
        "SM_Get sm' = (SM_Get sm1)(ss_sid s \<mapsto> s1\<lparr>ss_expire := e\<rparr>)"
        "sm_sid sm' = sm_sid sm1" "sm_interval sm' = sm_interval sm1"
      unfolding e_def by (rule Touch_spec [OF inv1 g1 True, of "so_lib st'" now]) blast
    have "SM_Get sm' = (SM_Get sm)(ss_sid s \<mapsto> s1\<lparr>ss_expire := e\<rparr>)" using t(3) by (simp add: get)
    from that [OF _ t(2) this [unfolded s1_def]] show thesis using t run by (simp add: sm1_def)
  next
    case False
    then have "Touch (so_lib st') now (ss_sid s) sm1 = Some sm1" by (simp add: Touch_def g1)
    moreover have "SM_Get sm1 = (SM_Get sm)(ss_sid s \<mapsto> s1\<lparr>ss_expire := ss_expire s1\<rparr>)" by (simp add: get)
    ultimately show thesis
      using that [OF _ inv1, of "ss_expire s1"] run by (simp add: sm1_def s1_def)
  qed
qed

lemma SM_Remove_spec:
  assumes inv: "sm_inv sm" and s: "SM_Get sm sid = Some s" "\<not> ss_active s"
    and rem: "Store_RemoveSession st sid = (status, st')" and okst: "ok status"
  obtains sm' where "SM_Remove sid sm st = Some (sm', st')" "sm_inv sm'"
    "SM_Get sm' = (SM_Get sm)(sid := None)" "sm_sid sm' = sm_sid sm" "sm_interval sm' = sm_interval sm"
    "\<And>t. timer_set (sm_timers sm') t = timer_set (sm_timers sm) t - {(ss_addr s, sid)}"
proof -
  from removeFromTimers_spec [OF inv s(1)] obtain tm where tm: "removeFromTimers sid sm = Some (sm\<lparr>sm_timers := tm\<rparr>)"
    "timers_wf tm" "\<And>t. timer_set tm t = timer_set (sm_timers sm) t - {(ss_addr s, sid)}"
    "\<And>t x. x \<in> timer_set tm t \<Longrightarrow> snd x \<noteq> sid" by metis
  define sm' where "sm' = removeFromSessions sid (sm\<lparr>sm_timers := tm\<rparr>)"
  have run: "SM_Remove sid sm st = Some (sm', st')"
    using s tm(1) rem okst by (simp add: SM_Remove_def sm'_def Let_def)
  have get: "SM_Get sm' = (SM_Get sm)(sid := None)" by (auto simp: sm'_def)
  have "sessions_wf sm'" using sm_invD(1) [OF inv] by (auto simp: sessions_wf_def get) (simp_all add: sm'_def)
  moreover have "timers_sound sm'"
    unfolding timers_sound_def
  proof (intro allI ballI)
    fix t x assume "x \<in> timer_set (sm_timers sm') t"
    then have x: "x \<in> timer_set tm t" by (simp add: sm'_def)
    then have "x \<in> timer_set (sm_timers sm) t" "snd x \<noteq> sid" using tm(3) [of t] tm(4) [OF x] by auto
    then show "\<exists>s. SM_Get sm' (snd x) = Some s \<and> ss_addr s = fst x \<and> ss_expire s = t"
      using sm_invD(3) [OF inv] unfolding timers_sound_def get by auto
  qed
  ultimately have "sm_inv sm'" using tm(2) by (simp add: sm_inv_def sm'_def)
  then show thesis
    by (rule that [OF run _ get]) (simp_all add: sm'_def removeFromSessions_def tm(3))
qed

subsection \<open>Session ids\<close>

text \<open>
  The layout of the first session id: \<^verbatim>\<open>initSid\<close> puts the low forty bits of the time in
  milliseconds above sixteen zero bits, and the top byte (the server's own id) stays zero.
\<close>

theorem initSid_layout:
  assumes "0 \<le> now"
  shows "uint (initSid now) = (now div 1000) mod 2 ^ 40 * 2 ^ 16"
proof -
  let ?w = "word_of_int (now div 1000) :: u64"
  have "uint (initSid now) = uint (push_bit 24 ?w) div 2 ^ 8"
    by (simp add: initSid_def Let_def drop_bit_eq_div uint_div_distrib)
  also have "uint (push_bit 24 ?w) = (now div 1000 * 2 ^ 24) mod 2 ^ 64"
    unfolding unsigned_push_bit_eq by (simp add: push_bit_eq_mult take_bit_eq_mod uint_word_of_int_eq mod_simps)
  also have "\<dots> = (now div 1000) mod 2 ^ 40 * 2 ^ 24"
    using mult_mod_left [of "now div 1000" "2 ^ 40" "2 ^ 24 :: int"] by simp
  also have "\<dots> div 2 ^ 8 = (now div 1000) mod 2 ^ 40 * 2 ^ 16" by simp
  finally show ?thesis .
qed

theorem initSid_layout_witness: "uint (initSid 1400000000000000) = 1400000000000 mod 2 ^ 40 * 2 ^ 16"
  using initSid_layout [of 1400000000000000] by simp

lemma sid_less: "(x :: sid_t) \<noteq> - 1 \<Longrightarrow> x < x + 1"
proof -
  assume "x \<noteq> - 1"
  then have "1 + x \<noteq> 0" by (metis add.inverse_unique add.commute minus_minus)
  then show ?thesis using unatSuc [of x] by (simp add: word_less_nat_alt add.commute)
qed

text \<open>
  Session ids are fresh: \<^verbatim>\<open>GenSid\<close> returns an id that is larger than every id the manager
  holds or has handed out, as long as the 64-bit counter does not wrap around, and keeps the
  manager's invariant.
\<close>

theorem GenSid_fresh:
  assumes "sm_inv sm" and "sm_sid sm \<noteq> - 1"
  shows "case GenSid sm of (sid, sm') \<Rightarrow>
     SM_Get sm sid = None \<and> (\<forall>i. SM_Get sm i \<noteq> None \<longrightarrow> i < sid) \<and> sm_sid sm < sid
   \<and> sm_sid sm' = sid \<and> sm_inv sm'"
proof -
  have lt: "sm_sid sm < sm_sid sm + 1" by (rule sid_less [OF assms(2)])
  have below: "i \<le> sm_sid sm" if "SM_Get sm i \<noteq> None" for i
    using sm_invD(1) [OF assms(1)] that by (auto simp: sessions_wf_def)
  have "SM_Get sm (sm_sid sm + 1) = None" using below [of "sm_sid sm + 1"] lt by fastforce
  moreover have "sm_inv (sm\<lparr>sm_sid := sm_sid sm + 1\<rparr>)"
    using sm_inv_raise [OF assms(1), of "sm_sid sm + 1"] lt by (simp add: max.absorb2 less_imp_le)
  ultimately show ?thesis using below lt by (auto simp: GenSid_def Let_def intro: order.strict_trans1)
qed


theorem GenSid_fresh_witness:
  "case GenSid (SessionManager_new 1400000000000000 1000) of (sid, sm') \<Rightarrow>
     SM_Get (SessionManager_new 1400000000000000 1000) sid = None \<and> sm_inv sm'"
proof -
  have "sm_inv (SessionManager_new 1400000000000000 1000)"
    by (simp add: sm_inv_def SessionManager_new_def sessions_wf_def timers_wf_def timers_sound_def
        timer_set_def SM_Get_def)
  moreover have "sm_sid (SessionManager_new 1400000000000000 1000) \<noteq> - 1"
    by (simp add: SessionManager_new_def initSid_def)
  ultimately show ?thesis
    using GenSid_fresh [of "SessionManager_new 1400000000000000 1000"] by (simp split: prod.splits)
qed

subsection \<open>Rounding\<close>

lemma roundTo_exact:
  assumes t: "0 \<le> t" "t < 2 ^ 51" and st: "0 < step" "step * 1000 < 2 ^ 31"
  obtains k where "roundTo t step = k * (step * 1000)"
    "\<bar>of_int k - of_int t / of_int (step * 1000)\<bar> * of_int (step * 1000) < (of_int (step * 1000) / 2 + 1 :: rat)"
proof -
  define S where "S = (of_int (step * 1000) :: rat)"
  define q where "q = of_int t / S"
  have S: "1 \<le> S" "S < 2 ^ 51" using st by (simp_all add: S_def)
  have q: "0 \<le> q" "q * S = of_int t" using t S by (simp_all add: q_def)
  define y where "y = fl (fl q + 1 / 2)"
  have e1: "\<bar>fl q - q\<bar> \<le> q / 2 ^ 53" using fl_close [of q] q by simp
  have small: "q / 2 ^ 53 \<le> q" using q by (simp add: field_simps)
  have f: "0 \<le> fl q" "fl q \<le> q + q / 2 ^ 53" using abs_le_D1 [OF e1] abs_le_D2 [OF e1] small by linarith+
  have e2: "\<bar>y - (fl q + 1 / 2)\<bar> \<le> (fl q + 1 / 2) / 2 ^ 53"
    using fl_close [of "fl q + 1 / 2"] f by (simp add: y_def)
  have "(fl q + 1 / 2) / 2 ^ 53 \<le> fl q + 1 / 2" using f by (simp add: field_simps)
  then have y0: "0 \<le> y" using abs_le_D2 [OF e2] by linarith
  define eps where "eps = q / 2 ^ 53 + (q + q / 2 ^ 53 + 1 / 2) / 2 ^ 53"
  have "\<bar>of_int \<lfloor>y\<rfloor> - q\<bar> \<le> 1 / 2 + eps"
  proof -
    have "of_int \<lfloor>y\<rfloor> \<le> y" "y < of_int \<lfloor>y\<rfloor> + 1" by linarith+
    moreover have "\<bar>y - (q + 1 / 2)\<bar> \<le> eps"
    proof -
      have "(fl q + 1 / 2) / 2 ^ 53 \<le> (q + q / 2 ^ 53 + 1 / 2) / 2 ^ 53"
        using f(2) by (intro divide_right_mono) simp_all
      then show ?thesis using e1 e2 unfolding eps_def by linarith
    qed
    ultimately show ?thesis by linarith
  qed
  then have "\<bar>of_int \<lfloor>y\<rfloor> - q\<bar> * S \<le> (1 / 2 + eps) * S" using S by (intro mult_right_mono) auto
  also have "\<dots> = S / 2 + eps * S" by (simp add: algebra_simps)
  also have "\<dots> < S / 2 + 1"
  proof -
    have "eps * S = (2 * (q * S) + (q * S) / 2 ^ 53 + S / 2) / 2 ^ 53"
      by (simp add: eps_def field_simps)
    also have "\<dots> < 1"
      using t(2) S unfolding q(2)
      by (simp add: field_simps)
    finally show ?thesis by simp
  qed
  finally have close: "\<bar>of_int \<lfloor>y\<rfloor> - q\<bar> * S < S / 2 + 1" .
  have "fl (of_int t) = of_int t" "fl (of_int (step * 1000)) = of_int (step * 1000)"
    using t st by (intro fl_int; simp)+
  then have "roundTo t step = \<lfloor>y\<rfloor> * (step * 1000)"
    using y0 st by (simp add: roundTo_def Let_def trunc_def y_def q_def S_def)
  then show thesis by (rule that) (use close in \<open>simp add: q_def S_def\<close>)
qed

lemma roundTo_half:
  assumes "0 \<le> t" "t < 2 ^ 51" and "0 < step" "step * 1000 < 2 ^ 31"
  shows "step * 1000 dvd roundTo t step \<and> 2 * \<bar>roundTo t step - t\<bar> \<le> step * 1000"
proof -
  from roundTo_exact [OF assms] obtain k where k: "roundTo t step = k * (step * 1000)"
    "\<bar>of_int k - of_int t / of_int (step * 1000)\<bar> * of_int (step * 1000) < (of_int (step * 1000) / 2 + 1 :: rat)"
    by blast
  have pos: "(0 :: rat) < of_int (step * 1000)" using assms(3) by simp
  have "(of_int \<bar>k * (step * 1000) - t\<bar> :: rat) =
      \<bar>of_int k - of_int t / of_int (step * 1000)\<bar> * of_int (step * 1000)"
  proof -
    have "(of_int (k * (step * 1000) - t) :: rat) =
        (of_int k - of_int t / of_int (step * 1000)) * of_int (step * 1000)"
      using pos by (simp add: left_diff_distrib)
    then show ?thesis using pos by (metis abs_mult abs_of_pos of_int_abs)
  qed
  with k(2) have "(of_int (2 * \<bar>k * (step * 1000) - t\<bar>) :: rat) < of_int (step * 1000 + 2)" by simp
  then have "2 * \<bar>k * (step * 1000) - t\<bar> < step * 1000 + 2" by (simp only: of_int_less_iff)
  moreover have "even (step * 1000)" by simp
  ultimately have "2 * \<bar>k * (step * 1000) - t\<bar> \<le> step * 1000" by presburger
  then show ?thesis using k(1) by simp
qed

text \<open>
  Rounding moves a time by at most half an interval: up to the year 2041 \<^verbatim>\<open>roundTo\<close>
  returns a multiple of the interval (in microseconds) that is at most half an interval away,
  in spite of the two rounding errors of the \<^verbatim>\<open>double\<close> arithmetic, as long as the interval in microseconds fits an \<^verbatim>\<open>int\<close>. Beyond that the
  product overflows.
\<close>

theorem roundTo_close:
  assumes "0 \<le> t" "t < 2 ^ 51" and "0 < step" "step * 1000 < 2 ^ 31"
  shows "step * 1000 dvd roundTo t step \<and> 2 * \<bar>roundTo t step - t\<bar> \<le> step * 1000"
  using assms by (rule roundTo_half)

theorem roundTo_close_witness:
  "1000 * 1000 dvd roundTo 1400000000499999 1000 \<and> 2 * \<bar>roundTo 1400000000499999 1000 - 1400000000499999\<bar> \<le> 1000000"
  using roundTo_close [of 1400000000499999 1000] by simp

text \<open>\<^verbatim>\<open>muduo::addTime\<close>: the seconds are multiplied by a million, as a \<^verbatim>\<open>double\<close>, and cut off.\<close>

definition addTime_ok :: "'db thirdparty \<Rightarrow> bool" where
  "addTime_ok X \<longleftrightarrow> (\<forall>t s. addTime X t s = t + trunc (fl (s * 1000000)))"

lemma fl_nonneg: "0 \<le> x \<Longrightarrow> 0 \<le> fl x"
proof -
  assume x: "0 \<le> x"
  have "x / 2 ^ 53 \<le> x" using x by (simp add: field_simps)
  with fl_close [of x] x show ?thesis by linarith
qed

lemma trunc_bounds: "0 \<le> x \<Longrightarrow> of_int (trunc x) \<le> x \<and> x < of_int (trunc x) + 1"
  by (simp add: trunc_def) linarith

text \<open>Going through seconds and back can cost a microsecond.\<close>

lemma expiry_close:
  assumes "addTime_ok X" and "0 \<le> ms" and "ms < 2 ^ 31"
  shows "now + ms * 1000 - 1 \<le> expiry X now ms" and "expiry X now ms \<le> now + ms * 1000"
proof -
  define r :: rat where "r = of_int ms"
  define a where "a = fl (r / 1000)"
  define x where "x = fl (a * 1000000)"
  have "(of_int ms :: rat) < of_int (2 ^ 31)" using assms(3) unfolding of_int_less_iff .
  then have m: "0 \<le> r" "r < 2 ^ 31" using assms(2) by (simp_all add: r_def)
  have a: "0 \<le> a" "\<bar>a - r / 1000\<bar> \<le> r / 1000 / 2 ^ 53"
    using fl_close [of "r / 1000"] m fl_nonneg [of "r / 1000"] by (simp_all add: a_def)
  note d = abs_le_D1 [OF a(2)] abs_le_D2 [OF a(2)]
  have "a * 1000000 < 2 ^ 42" using d(1) m by (simp add: field_simps)
  moreover have x: "0 \<le> x" "\<bar>x - a * 1000000\<bar> \<le> a * 1000000 / 2 ^ 53"
    using fl_close [of "a * 1000000"] a(1) fl_nonneg [of "a * 1000000"] by (simp_all add: x_def)
  ultimately have "\<bar>x - a * 1000000\<bar> < 1 / 4" by (simp add: field_simps)
  moreover have "a * 1000000 - r * 1000 < 1 / 4" "r * 1000 - a * 1000000 < 1 / 4" using d m by (simp_all add: field_simps)
  ultimately have "x < r * 1000 + 1 / 2" "r * 1000 - 1 / 2 < x" by linarith+
  then have "of_int (trunc x) < r * 1000 + 1" "r * 1000 - 2 < of_int (trunc x)" using trunc_bounds [OF x(1)] by linarith+
  then have "(of_int (trunc x) :: rat) < of_int (ms * 1000 + 1)" "(of_int (ms * 1000 - 2) :: rat) < of_int (trunc x)" by (simp_all add: r_def)
  then have "trunc x < ms * 1000 + 1" "ms * 1000 - 2 < trunc x" unfolding of_int_less_iff .
  moreover have "expiry X now ms = now + trunc x" using assms(1) by (simp add: expiry_def addTime_ok_def a_def x_def r_def)
  ultimately show "now + ms * 1000 - 1 \<le> expiry X now ms" "expiry X now ms \<le> now + ms * 1000" by simp_all
qed

subsection \<open>Which sessions a check finds\<close>

lemma due_sessions_iff:
  assumes "sm_inv sm"
  shows "sid \<in> set (due_sessions now sm) \<longleftrightarrow> (\<exists>t a. t < now \<and> (a, sid) \<in> timer_set (sm_timers sm) t)"
proof -
  have inv: "om_invar (sm_timers sm)" using sm_invD(2) [OF assms] by (simp add: timers_wf_def)
  have "sid \<in> set (due_sessions now sm) \<longleftrightarrow> (\<exists>t b a. (t, b) \<in> set (sm_timers sm) \<and> t < now \<and> (a, sid) \<in> set b)"
    unfolding due_sessions_def om_takeWhile [OF inv] by force
  also have "\<dots> \<longleftrightarrow> (\<exists>t a. t < now \<and> (a, sid) \<in> timer_set (sm_timers sm) t)"
    unfolding om_find_iff [OF inv, symmetric] timer_set_def
    by (metis empty_iff option.case_eq_if option.collapse option.sel option.simps(5))
  finally show ?thesis .
qed

lemma due_sessions_expired:
  assumes "sm_inv sm" and "(ss_addr s, sid) \<in> timer_set (sm_timers sm) (ss_expire s)"
    and "SM_Get sm sid = Some s"
  shows "sid \<in> set (due_sessions now sm) \<longleftrightarrow> ss_expire s < now"
  using sm_invD(3) [OF assms(1)] assms(2,3)
  unfolding due_sessions_iff [OF assms(1)] timers_sound_def by fastforce

text \<open>
  C22. A session expires when its timeout is over, give or take half a check interval: after a
  session was touched, no check earlier than its timeout less half an interval finds it due, and every
  check after its timeout plus half an interval does (unless it was touched again). The clock is before the year 2041, and the
  interval in microseconds fits an \<^verbatim>\<open>int\<close>, which is up to 35 minutes.
\<close>

theorem expiry_window:
  assumes inv: "sm_inv sm" and s: "SM_Get sm sid = Some s" "ss_active s"
    and touch: "Touch X now0 sid sm = Some sm'" and X: "addTime_ok X"
    and t: "0 < now0" "0 \<le> ss_timeout s" "ss_timeout s < 2 ^ 31" "now0 + ss_timeout s * 1000 < 2 ^ 51"
    and iv: "0 < sm_interval sm" "sm_interval sm * 1000 < 2 ^ 31"
  shows "(now < now0 + ss_timeout s * 1000 - sm_interval sm * 500 \<longrightarrow> sid \<notin> set (due_sessions now sm'))
     \<and> (now0 + ss_timeout s * 1000 + sm_interval sm * 500 < now \<longrightarrow> sid \<in> set (due_sessions now sm'))"
proof -
  define e where "e = touched X now0 sm s"
  obtain sm'' where u: "Touch X now0 sid sm = Some sm''" "sm_inv sm''"
      "SM_Get sm'' = (SM_Get sm)(sid \<mapsto> s\<lparr>ss_expire := e\<rparr>)"
      "\<And>t. timer_set (sm_timers sm'') t = timer_set (sm_timers sm) t - {(ss_addr s, sid)}
        \<union> (if t = e then {(ss_addr s, sid)} else {})"
    unfolding e_def by (rule Touch_spec [OF inv s, of X now0]) blast
  have "sm'' = sm'" using u(1) touch by simp
  then have d: "sid \<in> set (due_sessions now sm') \<longleftrightarrow> e < now"
    using due_sessions_expired [OF u(2), of "s\<lparr>ss_expire := e\<rparr>" sid now] u(3,4) by auto
  note x = expiry_close [OF X t(2,3), of now0]
  have "2 * \<bar>e - expiry X now0 (ss_timeout s)\<bar> \<le> sm_interval sm * 1000"
    using roundTo_half [of "expiry X now0 (ss_timeout s)" "sm_interval sm"] x t iv by (simp add: e_def touched_def)
  then show ?thesis using x d by auto
qed


definition two_sessions :: SessionManager where
  "two_sessions =
     (let s = (\<lambda>sid e. (Session_new 1 0 sid 5000)\<lparr>ss_expire := e\<rparr>) in
      \<lparr>sm_sid = 2, sm_interval = 1000, sm_sessions = [(1, s 1 1000000), (2, s 2 2000000)],
       sm_timers = [(1000000, [(1, 1)]), (2000000, [(1, 2)])]\<rparr>)"

lemma two_sessions_inv: "sm_inv two_sessions" "timers_complete two_sessions"
  by (auto simp: sm_inv_def two_sessions_def Session_new_def sessions_wf_def timers_wf_def timers_sound_def
      timers_complete_def timer_set_def SM_Get_def om_invar_def om_find_def Let_def split: if_splits)

lemma ref_addTime_ok: "addTime_ok ref_libs"
  by (simp add: addTime_ok_def ref_libs_def)

theorem expiry_window_witness:
  "\<exists>sm'. Touch ref_libs 1400000000000000 1 two_sessions = Some sm' \<and> 1 \<notin> set (due_sessions 1400000004499999 sm')
     \<and> 1 \<in> set (due_sessions 1400000005500001 sm')"
proof -
  obtain s where s: "SM_Get two_sessions 1 = Some s" "ss_active s" "ss_timeout s = 5000"
    by (simp add: two_sessions_def SM_Get_def Session_new_def Let_def)
  have iv: "sm_interval two_sessions = 1000" by (simp add: two_sessions_def Let_def)
  obtain sm' where t: "Touch ref_libs 1400000000000000 1 two_sessions = Some sm'"
    by (rule Touch_spec [OF two_sessions_inv(1) s(1,2), of ref_libs 1400000000000000])
  show ?thesis
    using expiry_window [OF two_sessions_inv(1) s(1,2) t ref_addTime_ok, of 1400000004499999]
      expiry_window [OF two_sessions_inv(1) s(1,2) t ref_addTime_ok, of 1400000005500001] s(3) iv t by simp
qed

subsection \<open>Resetting the timers\<close>

lemma fold_expire_get:
  "SM_Get (fold (\<lambda>y sm. SM_adjust (snd y) (SetExpireTime e) sm) ys sm) sid =
     map_option (\<lambda>s. if sid \<in> snd ` set ys then SetExpireTime e s else s) (SM_Get sm sid)"
proof (induction ys arbitrary: sm)
  case (Cons y ys)
  then show ?case by (cases "SM_Get sm sid") (auto simp: SetExpireTime_def)
qed (simp add: option.map_ident)

text \<open>
  C36. \<^verbatim>\<open>ResetTimer\<close> can lose sessions: when two timer sets are moved to the same new expiry
  time (their first sessions have the same timeout and the clock shows the same microsecond),
  the second swap replaces the set that the first one installed, and the sessions of the first
  set are in no timer set any more: they never expire until they are touched again.
\<close>

theorem ResetTimer_loses:
  assumes "sm_timers sm = [(t1, b1), (t2, b2)]" and "b1 = x1 # r1" and "b2 = x2 # r2"
    and "SM_Get sm (snd x1) = Some s1" and "SM_Get sm (snd x2) = Some s2"
    and "ss_timeout s1 = ss_timeout s2" and "nows 0 = nows 1"
  shows "\<exists>sm'. ResetTimer X nows sm = Some sm' \<and> sm_timers sm' = [(expiry X (nows 0) (ss_timeout s1), b2)]"
proof -
  define e where "e = expiry X (nows 0) (ss_timeout s1)"
  define sm1 where "sm1 = fold (\<lambda>y sm. SM_adjust (snd y) (SetExpireTime e) sm) b1 sm"
  obtain s' where s': "SM_Get sm1 (snd x2) = Some s'" "ss_timeout s' = ss_timeout s2"
    using assms(5) by (auto simp: sm1_def fold_expire_get SetExpireTime_def)
  have "ResetTimer X nows sm = reset_timers X nows 1 [(t2, b2)] [(e, b1)] sm1"
    using assms(1,2,4) by (simp add: ResetTimer_def Let_def e_def sm1_def)
  moreover have "expiry X (nows 1) (ss_timeout s') = e" using s'(2) assms(6,7) by (simp add: e_def)
  ultimately show ?thesis using s'(1) assms(3) by (simp add: Let_def e_def)
qed

theorem ResetTimer_loses_witness:
  "\<exists>sm'. ResetTimer ref_libs (\<lambda>_. 0) two_sessions = Some sm'
     \<and> sm_timers sm' = [(expiry ref_libs 0 5000, [(1, 2)])] \<and> SM_Get sm' 1 \<noteq> None"
proof -
  have "\<exists>sm'. ResetTimer ref_libs (\<lambda>_. 0) two_sessions = Some sm'
      \<and> sm_timers sm' = [(expiry ref_libs 0 (ss_timeout (Session_new 1 0 1 5000\<lparr>ss_expire := 1000000\<rparr>)), [(1, 2)])]"
    by (rule ResetTimer_loses [where ?t1.0 = 1000000 and ?t2.0 = 2000000 and ?x1.0 = "(1, 1)" and ?r1.0 = "[]"
          and ?x2.0 = "(1, 2)" and ?r2.0 = "[]" and ?s2.0 = "Session_new 1 0 2 5000\<lparr>ss_expire := 2000000\<rparr>"])
      (simp_all add: two_sessions_def Let_def SM_Get_def Session_new_def)
  then show ?thesis
    by (auto simp: Session_new_def two_sessions_def ResetTimer_def Let_def SM_Get_def SM_adjust_def om_adjust_def)
qed

end
