(* ===== verification/Replica_Server.thy ===== *)
theory Replica_Server
  imports Replica Server_Commands Session_Timers
begin

text \<open>
  The server implements the replicated state machine: running a committed command changes the
  abstraction of the server's state as the specification says, keeps the invariant, and aborts
  exactly when the specification does. It follows that replicas that run the same commands
  agree, whatever their roles, clocks, watchers and clients.
\<close>

subsection \<open>Abstraction and invariant\<close>

definition abs_of :: "'db Server \<Rightarrow> Replica" where
  "abs_of srv = \<lparr>ra_tree = key_tree (sv_store srv),
     ra_nodes = (\<lambda>sid. map_option ss_nodeSet (SM_Get (sv_sm srv) sid)),
     ra_sess = stored_session (sv_store srv)\<rparr>"

definition nodes_ok :: "'db Server \<Rightarrow> bool" where
  "nodes_ok srv \<longleftrightarrow> (\<forall>sid s. SM_Get (sv_sm srv) sid = Some s \<longrightarrow>
     (\<forall>p \<in> set (ss_nodeSet s). IsValidPath p \<and> \<not> under_proc (sv_store srv) p))"

definition replica_ok :: "'db Server \<Rightarrow> bool" where
  "replica_ok srv \<longleftrightarrow> store_good (sv_store srv) \<and> sm_inv (sv_sm srv) \<and> nodes_ok srv
     \<and> length (op_ProcRoot (sv_options srv)) \<le> length ''/pyxis''"

lemma replica_okD:
  "replica_ok srv \<Longrightarrow> store_good (sv_store srv)" "replica_ok srv \<Longrightarrow> sm_inv (sv_sm srv)"
  "replica_ok srv \<Longrightarrow> nodes_ok srv"
  "replica_ok srv \<Longrightarrow> length (op_ProcRoot (sv_options srv)) \<le> length ''/pyxis''"
  by (simp_all add: replica_ok_def)

lemma server_proc_ok:
  assumes "replica_ok srv"
  shows "proc_ok (server_proc env srv)"
proof -
  let ?T = "toft (sv_lib srv)" and ?r = "op_ProcRoot (sv_options srv)"
  have T: "toft_ok ?T" using store_okD(3) store_goodD(5) replica_okD(1) [OF assms] by blast
  have j: "length ?r \<le> length (PathJoin ?T ?r b)" if "b \<noteq> []" "hd b \<noteq> slash" for b
    using prefix_length_le [OF toft_laws(4) [OF T that]] .
  show ?thesis
    using replica_okD(4) [OF assms] j [of "''db''"] j [of "''cluster''"] j [of "''snapshot''"]
      j [of "''eventlog''"] j [of "''session''"]
    by (simp add: proc_ok_def server_proc_def Let_def RegisterReadNode_def RegisterWriteNode_def
        ProcDB_new_def set_om_put_subset del: om_put.simps set_map)
qed

text \<open>The part of a session that the timers and the replicas see.\<close>

definition core :: "Session \<Rightarrow> sid_t \<times> nat \<times> timestamp \<times> string list" where
  "core s = (ss_sid s, ss_addr s, ss_expire s, ss_nodeSet s)"

text \<open>A step that leaves the replicated part of the state alone.\<close>

definition local_step :: "'db Server \<Rightarrow> 'db Server \<Rightarrow> bool" where
  "local_step srv srv' \<longleftrightarrow> sv_store srv' = sv_store srv \<and> sv_options srv' = sv_options srv
     \<and> sv_state srv' = sv_state srv \<and> sv_requests srv' = sv_requests srv
     \<and> sm_sid (sv_sm srv') = sm_sid (sv_sm srv) \<and> sm_timers (sv_sm srv') = sm_timers (sv_sm srv)
     \<and> (om_invar (sm_sessions (sv_sm srv)) \<longrightarrow> om_invar (sm_sessions (sv_sm srv')))
     \<and> (\<forall>sid. map_option core (SM_Get (sv_sm srv') sid) = map_option core (SM_Get (sv_sm srv) sid))"

lemma local_refl [simp]: "local_step srv srv"
  by (simp add: local_step_def)

lemma local_trans: "local_step a b \<Longrightarrow> local_step b c \<Longrightarrow> local_step a c"
  by (auto simp: local_step_def)

lemma local_upd [simp]:
  "local_step srv (srv'\<lparr>sv_wm := a\<rparr>) = local_step srv srv'" "local_step (srv\<lparr>sv_wm := a\<rparr>) srv' = local_step srv srv'"
  "local_step srv (emit es srv') = local_step srv srv'"
  by (simp_all add: local_step_def emit_def)

lemma local_get:
  assumes "local_step srv srv'"
  shows "SM_Get (sv_sm srv') sid = None \<longleftrightarrow> SM_Get (sv_sm srv) sid = None"
    and "SM_Get (sv_sm srv') sid = Some s' \<Longrightarrow> \<exists>s. SM_Get (sv_sm srv) sid = Some s \<and> core s' = core s"
    and "SM_Get (sv_sm srv) sid = Some s \<Longrightarrow> \<exists>s'. SM_Get (sv_sm srv') sid = Some s' \<and> core s' = core s"
proof -
  have e: "map_option core (SM_Get (sv_sm srv') sid) = map_option core (SM_Get (sv_sm srv) sid)"
    using assms by (simp add: local_step_def)
  show "SM_Get (sv_sm srv') sid = None \<longleftrightarrow> SM_Get (sv_sm srv) sid = None"
    using e by (cases "SM_Get (sv_sm srv') sid"; cases "SM_Get (sv_sm srv) sid") simp_all
  show "SM_Get (sv_sm srv') sid = Some s' \<Longrightarrow> \<exists>s. SM_Get (sv_sm srv) sid = Some s \<and> core s' = core s"
    using e by (cases "SM_Get (sv_sm srv) sid") simp_all
  show "SM_Get (sv_sm srv) sid = Some s \<Longrightarrow> \<exists>s'. SM_Get (sv_sm srv') sid = Some s' \<and> core s' = core s"
    using e by (cases "SM_Get (sv_sm srv') sid") simp_all
qed

lemma core_eq: "core s' = core s \<longleftrightarrow> ss_sid s' = ss_sid s \<and> ss_addr s' = ss_addr s
    \<and> ss_expire s' = ss_expire s \<and> ss_nodeSet s' = ss_nodeSet s"
  by (auto simp: core_def)

lemma local_abs: "local_step srv srv' \<Longrightarrow> abs_of srv' = abs_of srv"
proof -
  assume l: "local_step srv srv'"
  have "map_option ss_nodeSet (SM_Get (sv_sm srv') sid) = map_option ss_nodeSet (SM_Get (sv_sm srv) sid)" for sid
    using local_get(1,2) [OF l, of sid] by (cases "SM_Get (sv_sm srv') sid") (auto simp: core_eq)
  then show ?thesis using l by (simp add: abs_of_def local_step_def)
qed

lemma local_sm_inv:
  assumes "local_step srv srv'" and "sm_inv (sv_sm srv)"
  shows "sm_inv (sv_sm srv')"
proof -
  have "ss_sid s' = sid \<and> sid \<le> sm_sid (sv_sm srv')" if "SM_Get (sv_sm srv') sid = Some s'" for sid s'
    using local_get(2) [OF assms(1) that] sm_invD(1) [OF assms(2)] assms(1)
    by (auto simp: sessions_wf_def local_step_def core_eq)
  then have "sessions_wf (sv_sm srv')"
    using sm_invD(1) [OF assms(2)] assms(1) by (simp add: sessions_wf_def local_step_def)
  moreover have "\<exists>s. SM_Get (sv_sm srv') (snd x) = Some s \<and> ss_addr s = fst x \<and> ss_expire s = t"
    if x: "x \<in> timer_set (sm_timers (sv_sm srv')) t" for t x
  proof -
    have "x \<in> timer_set (sm_timers (sv_sm srv)) t" using x assms(1) by (simp add: local_step_def)
    then obtain s where "SM_Get (sv_sm srv) (snd x) = Some s" "ss_addr s = fst x" "ss_expire s = t"
      using sm_invD(3) [OF assms(2)] unfolding timers_sound_def by blast
    with local_get(3) [OF assms(1) this(1)] show ?thesis by (auto simp: core_eq)
  qed
  then have "timers_sound (sv_sm srv')" unfolding timers_sound_def by blast
  ultimately show ?thesis using assms by (simp add: sm_inv_def local_step_def)
qed

lemma local_replica_ok:
  assumes "local_step srv srv'" and "replica_ok srv"
  shows "replica_ok srv'"
proof -
  have "IsValidPath p \<and> \<not> under_proc (sv_store srv') p"
    if "SM_Get (sv_sm srv') sid = Some s'" "p \<in> set (ss_nodeSet s')" for sid s' p
    using local_get(2) [OF assms(1) that(1)] that(2) replica_okD(3) [OF assms(2)] assms(1)
    by (auto simp: nodes_ok_def local_step_def core_eq)
  then have "nodes_ok srv'" by (simp add: nodes_ok_def)
  then show ?thesis
    using local_sm_inv [OF assms(1) replica_okD(2) [OF assms(2)]] assms
    by (simp add: replica_ok_def local_step_def)
qed

lemma local_adjust:
  assumes "\<And>s. core (f s) = core s"
  shows "local_step srv (sv_adjust sid f srv)"
  using assms by (auto simp: local_step_def sv_adjust_def option.map_comp comp_def)

lemma local_session:
  assumes "\<And>s. core (fst (f s)) = core s"
  shows "local_step srv (sv_session sid f srv)"
proof (cases "SM_Get (sv_sm srv) sid")
  case (Some s)
  then show ?thesis
    using assms [of s] by (auto simp: sv_session_def local_step_def sv_adjust_def emit_def)
qed (simp add: sv_session_def)

lemma core_simps [simp]:
  "core (PendingWatcher p e s) = core s" "core (RemoveWatch w s) = core s" "core (BindWatch w s) = core s"
  "core (SetTimeout t s) = core s" "core (Close s) = core s" "core (fst (PingBack now s)) = core s"
  "core (fst (HoldPing x s)) = core s" "core (ResetWatch s) = core s"
  by (auto simp: core_def PendingWatcher_def RemoveWatch_def BindWatch_def SetTimeout_def Close_def
      PingBack_def HoldPing_def ResetWatch_def Let_def split: option.splits list.splits)

lemma local_watchCallback: "local_step srv (watchCallback env e w srv)"
proof (cases "SM_Get (sv_sm srv) (w_sid w)")
  case (Some s)
  have "local_step srv (if sv_state srv = kLeader then
      sv_session (w_sid w) (PingBack (en_now env)) (sv_adjust (w_sid w) (PendingWatcher (w_path w) e) srv)
    else srv)"
    by (auto intro: local_trans [OF local_adjust local_session])
  then show ?thesis
    using Some by (auto simp: watchCallback_def Let_def intro: local_trans [OF _ local_adjust])
qed (simp add: watchCallback_def)

lemma local_fold: "(\<And>x srv. local_step srv (f x srv)) \<Longrightarrow> local_step srv (fold f xs srv)"
proof (induction xs arbitrary: srv)
  case (Cons x xs)
  then show ?case using local_trans [OF Cons.prems Cons.IH] by simp
qed simp

text \<open>Events on paths are always delivered and change nothing that is replicated.\<close>

lemma Triger_local:
  assumes "p \<noteq> []" and "hd p = slash"
  obtains srv' where "server_Triger env (mk_event p t) srv = Some srv'" "local_step srv srv'"
proof -
  from Triger_interested [of "mk_event p t" "sv_wm srv"] assms obtain fired wm where
    "WM_Triger (mk_event p t) (sv_wm srv) = Some (fired, wm)" by auto
  then have "server_Triger env (mk_event p t) srv =
      Some (fold (watchCallback env (mk_event p t)) fired (srv\<lparr>sv_wm := wm\<rparr>))"
    by (simp add: server_Triger_def)
  moreover have "local_step srv (fold (watchCallback env (mk_event p t)) fired (srv\<lparr>sv_wm := wm\<rparr>))"
    using local_fold [of "watchCallback env (mk_event p t)", OF local_watchCallback] by (metis local_upd(2))
  ultimately show thesis by (rule that)
qed

lemma Triger_node_local:
  assumes "IsValidPath path" and "ok (fst (SplitPath path))"
  obtains srv1 srv2 where "server_Triger env (mk_event path t) srv = Some srv1"
    "server_Triger env (mk_event (fst (snd (SplitPath path))) t') srv1 = Some srv2" "local_step srv srv2"
proof -
  obtain p son where sp: "SplitPath path = (OK, p, son)" using assms(2) SplitPath_ok by blast
  have path: "path \<noteq> []" "hd path = slash" using assms(1) by (simp_all add: IsValidPath_def)
  note p = SplitPath_shorter(3,4) [OF sp path(2)]
  obtain srv1 where 1: "server_Triger env (mk_event path t) srv = Some srv1" "local_step srv srv1"
    by (rule Triger_local [OF path])
  obtain srv2 where 2: "server_Triger env (mk_event p t') srv1 = Some srv2" "local_step srv1 srv2"
    by (rule Triger_local [OF p])
  show thesis using that [OF 1(1)] 2 local_trans [OF 1(2) 2(2)] sp by simp
qed


subsection \<open>Deleting nodes\<close>

definition same_config :: "'db Server \<Rightarrow> 'db Server \<Rightarrow> bool" where
  "same_config srv srv' \<longleftrightarrow> same_env (sv_store srv) (sv_store srv') \<and> sv_options srv' = sv_options srv
     \<and> sv_state srv' = sv_state srv \<and> sv_requests srv' = sv_requests srv"

lemma same_config_refl [simp]: "same_config srv srv"
  by (simp add: same_config_def)

lemma same_config_trans: "same_config a b \<Longrightarrow> same_config b c \<Longrightarrow> same_config a c"
  by (auto simp: same_config_def same_env_def)

lemma local_config: "local_step srv srv' \<Longrightarrow> same_config srv srv'"
  by (simp add: local_step_def same_config_def)

lemma same_config_of: "same_config srv srv' \<Longrightarrow> config_of (sv_store srv') = config_of (sv_store srv)"
  by (simp add: same_config_def config_same)

lemma under_proc_same: "same_env s s' \<Longrightarrow> under_proc s' p = under_proc s p"
  by (simp add: same_env_def under_proc_def)

lemma set_store_ok:
  assumes "replica_ok srv" and "store_good st" and "same_env (sv_store srv) st"
  shows "replica_ok (srv\<lparr>sv_store := st\<rparr>)" and "same_config srv (srv\<lparr>sv_store := st\<rparr>)"
  using assms by (auto simp: replica_ok_def nodes_ok_def same_config_def under_proc_same)

lemma tree_delete_ok_path:
  assumes "tree_delete pr t path = (kOk, t')"
  shows "IsValidPath path" and "ok (fst (SplitPath path))" and "\<not> prefix pr path"
  using assms by (auto simp: tree_delete_def split: if_splits prod.splits option.splits)

lemma DeleteNode_spec:
  assumes inv: "replica_ok srv"
  obtains st srv' where "DeleteNode env path srv = Some (st, srv')" "replica_ok srv'" "same_config srv srv'"
    "(st_code st, ra_tree (abs_of srv')) = tree_delete (so_procRoot (sv_store srv)) (ra_tree (abs_of srv)) path"
    "abs_of srv' = (abs_of srv)\<lparr>ra_tree := ra_tree (abs_of srv')\<rparr>"
proof -
  obtain st store where d: "Store_Delete (sv_store srv) (server_proc env srv) path = Some (st, store)"
    "store_good store" "same_env (sv_store srv) store"
    "(st_code st, key_tree store) = tree_delete (so_procRoot (sv_store srv)) (key_tree (sv_store srv)) path"
    "stored_session store = stored_session (sv_store srv)"
    by (rule Store_Delete_abs [OF replica_okD(1) [OF inv] server_proc_ok [OF inv]])
  define srv1 where "srv1 = srv\<lparr>sv_store := store\<rparr>"
  have s1: "replica_ok srv1" "same_config srv srv1" unfolding srv1_def by (rule set_store_ok [OF inv d(2,3)])+
  have a1: "abs_of srv1 = (abs_of srv)\<lparr>ra_tree := key_tree store\<rparr>"
    by (simp add: abs_of_def srv1_def d(5))
  show thesis
  proof (cases "ok st")
    case False
    then have "DeleteNode env path srv = Some (st, srv1)" by (simp add: DeleteNode_def d(1) srv1_def Let_def)
    then show thesis by (rule that) (use s1 a1 d(4) in \<open>simp_all add: abs_of_def\<close>)
  next
    case True
    then have "tree_delete (so_procRoot (sv_store srv)) (key_tree (sv_store srv)) path = (kOk, key_tree store)"
      using d(4) by (simp add: ok_code)
    note path = tree_delete_ok_path [OF this]
    obtain srv2 srv3 where t: "server_Triger env (mk_event path kDelete) srv1 = Some srv2"
      "server_Triger env (mk_event (fst (snd (SplitPath path))) kChildren) srv2 = Some srv3" "local_step srv1 srv3"
      by (rule Triger_node_local [OF path(1,2)])
    have "DeleteNode env path srv = Some (OK, srv3)"
      using True t by (simp add: DeleteNode_def d(1) srv1_def Let_def)
    then show thesis
      by (rule that)
        (use local_replica_ok [OF t(3) s1(1)] same_config_trans [OF s1(2) local_config [OF t(3)]]
          local_abs [OF t(3)] a1 d(4) True in \<open>simp_all add: abs_of_def ok_code\<close>)
  qed
qed

lemma abs_sel [simp]: "ra_tree (abs_of srv) = key_tree (sv_store srv)"
  "ra_nodes (abs_of srv) sid = map_option ss_nodeSet (SM_Get (sv_sm srv) sid)"
  "ra_sess (abs_of srv) = stored_session (sv_store srv)"
  by (simp_all add: abs_of_def)

lemma destroy_node_spec:
  assumes inv: "replica_ok srv" and path: "IsValidPath path" "\<not> under_proc (sv_store srv) path"
    and cfg: "cfg = config_of (sv_store srv)"
  shows "case spec_destroy_node cfg sid path (ra_tree (abs_of srv)) of
      None \<Rightarrow> destroy_node env sid path srv = None
    | Some t \<Rightarrow> \<exists>srv'. destroy_node env sid path srv = Some srv' \<and> replica_ok srv' \<and> same_config srv srv'
        \<and> abs_of srv' = (abs_of srv)\<lparr>ra_tree := t\<rparr>"
proof -
  let ?t = "key_tree (sv_store srv)"
  have get: "ReadNode env path srv = Some (case ?t path of Some n \<Rightarrow> (OK, n) | None \<Rightarrow> (NotFound path, Node_default))"
    unfolding ReadNode_def by (rule Store_Get_key_tree [OF replica_okD(1) [OF inv] path])
  show ?thesis
  proof (cases "?t path")
    case None
    then show ?thesis using inv by (simp add: spec_destroy_node_def destroy_node_def get IsNotFound_def)
  next
    case (Some n)
    obtain st srv' where d: "DeleteNode env path srv = Some (st, srv')" "replica_ok srv'" "same_config srv srv'"
      "(st_code st, ra_tree (abs_of srv')) = tree_delete (so_procRoot (sv_store srv)) (ra_tree (abs_of srv)) path"
      "abs_of srv' = (abs_of srv)\<lparr>ra_tree := ra_tree (abs_of srv')\<rparr>"
      by (rule DeleteNode_spec [OF inv])
    have td: "tree_delete (cf_root cfg) ?t path = (st_code st, key_tree (sv_store srv'))"
      using d(4) cfg by (simp add: config_of_def)
    have a: "abs_of srv' = (abs_of srv)\<lparr>ra_tree := key_tree (sv_store srv')\<rparr>" using d(5) by simp
    show ?thesis
      using Some inv td a d(1-3)
      by (auto simp: spec_destroy_node_def destroy_node_def get IsNotFound_def ok_code)
  qed
qed

lemma destroy_nodes_spec:
  assumes "replica_ok srv" and "cfg = config_of (sv_store srv)"
    and "\<forall>p \<in> set ns. IsValidPath p \<and> \<not> under_proc (sv_store srv) p"
  shows "case fold_opt (spec_destroy_node cfg sid) ns (ra_tree (abs_of srv)) of
      None \<Rightarrow> fold_opt (destroy_node env sid) ns srv = None
    | Some t \<Rightarrow> \<exists>srv'. fold_opt (destroy_node env sid) ns srv = Some srv' \<and> replica_ok srv' \<and> same_config srv srv'
        \<and> abs_of srv' = (abs_of srv)\<lparr>ra_tree := t\<rparr>"
  using assms
proof (induction ns arbitrary: srv)
  case Nil
  then show ?case by (simp add: abs_of_def)
next
  case (Cons p ns)
  note d = destroy_node_spec [OF Cons.prems(1) _ _ Cons.prems(2), where path = p and sid = sid and env = env]
  show ?case
  proof (cases "spec_destroy_node cfg sid p (ra_tree (abs_of srv))")
    case None
    with d Cons.prems(3) show ?thesis by simp
  next
    case (Some t)
    with d Cons.prems(3) obtain srv1 where s1: "destroy_node env sid p srv = Some srv1" "replica_ok srv1"
      "same_config srv srv1" "abs_of srv1 = (abs_of srv)\<lparr>ra_tree := t\<rparr>" by auto
    have cfg: "cfg = config_of (sv_store srv1)" using Cons.prems(2) same_config_of [OF s1(3)] by simp
    have up: "under_proc (sv_store srv1) q = under_proc (sv_store srv) q" for q
      using s1(3) by (simp add: same_config_def under_proc_same)
    have t: "ra_tree (abs_of srv1) = t" unfolding s1(4) by simp
    note ih = Cons.IH [OF s1(2) cfg, unfolded up t]
    show ?thesis
      using ih Cons.prems(3) s1 Some same_config_trans [OF s1(3)]
      by (auto split: option.splits)
  qed
qed

subsection \<open>Each command implements its specification\<close>

text \<open>The outcome \<open>r\<close> of an operation on \<open>srv\<close> is what the specification says: it aborts, or
  ends in a server that is well-formed and represents \<open>ra\<close>.\<close>

definition implements :: "'db Server \<Rightarrow> Replica option \<Rightarrow> 'db Server option \<Rightarrow> bool" where
  "implements srv ra r = (case ra of
       None \<Rightarrow> r = None
     | Some ra \<Rightarrow> \<exists>srv'. r = Some srv' \<and> replica_ok srv' \<and> same_config srv srv' \<and> abs_of srv' = ra)"

lemma implementsI:
  "r = Some srv' \<Longrightarrow> replica_ok srv' \<Longrightarrow> same_config srv srv' \<Longrightarrow> abs_of srv' = ra
    \<Longrightarrow> implements srv (Some ra) r"
  by (simp add: implements_def)

lemma implements_local:
  assumes "replica_ok srv'" and "same_config srv srv'" and "local_step srv' srv''" and "abs_of srv' = ra"
  shows "implements srv (Some ra) (Some srv'')"
  using local_replica_ok [OF assms(3,1)] same_config_trans [OF assms(2) local_config [OF assms(3)]]
    local_abs [OF assms(3)] assms(4)
  by (simp add: implements_def)

lemma set_sm_ok:
  assumes inv: "replica_ok srv" and st: "store_good st" "same_env (sv_store srv) st" and sm: "sm_inv sm"
    and sub: "\<And>sid s. SM_Get sm sid = Some s \<Longrightarrow> (\<forall>p \<in> set (ss_nodeSet s). IsValidPath p \<and> \<not> under_proc st p)"
  shows "replica_ok (srv\<lparr>sv_sm := sm, sv_store := st\<rparr>)" and "same_config srv (srv\<lparr>sv_sm := sm, sv_store := st\<rparr>)"
  using assms by (auto simp: replica_ok_def nodes_ok_def same_config_def)

lemma set_sm_eq: "srv\<lparr>sv_store := st, sv_sm := sm\<rparr> = srv\<lparr>sv_sm := sm, sv_store := st\<rparr>"
  by simp

lemma toProtobuf_new: "toProtobuf (Session_new a n sid (sint t)) =
    \<lparr>sp_sid = sid, sp_watch = [], sp_node = [], sp_timeout = (t :: u32)\<rparr>"
  by (simp add: toProtobuf_def Session_new_def)

lemma onRegister_spec:
  assumes inv: "replica_ok srv" and req: "rq_register req = Some t"
  shows "implements srv (Some (spec_register (req_sid req) t (abs_of srv)))
    (map_option (\<lambda>r. snd (snd r)) (onRegister env req srv))"
proof -
  let ?s = "Session_new (en_addr env) (en_now env) (req_sid req) (sint (req_timeout req))"
  have tp: "toProtobuf ?s = \<lparr>sp_sid = req_sid req, sp_watch = [], sp_node = [], sp_timeout = t\<rparr>"
    using req by (simp add: toProtobuf_new req_timeout_def)
  have sid: "ss_sid ?s = req_sid req" "ss_nodeSet ?s = []" by (simp_all add: Session_new_def)
  obtain st store where a: "Store_AddSession (sv_store srv) (toProtobuf ?s) = (st, store)" "ok st"
    "store_good store" "same_env (sv_store srv) store" "key_tree store = key_tree (sv_store srv)"
    "stored_session store = (stored_session (sv_store srv))(sp_sid (toProtobuf ?s) \<mapsto> toProtobuf ?s)"
    by (rule Store_AddSession_abs [OF replica_okD(1) [OF inv], of "toProtobuf ?s"])
  obtain sm e where m: "SM_Add (en_now env) ?s (sv_sm srv) (sv_store srv) = Some (sm, store)" "sm_inv sm"
    "SM_Get sm = (SM_Get (sv_sm srv))(ss_sid ?s \<mapsto>
       (case SM_Get (sv_sm srv) (ss_sid ?s) of None \<Rightarrow> ?s | Some s' \<Rightarrow> s')\<lparr>ss_expire := e\<rparr>)"
    by (rule SM_Add_spec [OF replica_okD(2) [OF inv] a(1,2), of "en_now env"])
  define srv1 where "srv1 = srv\<lparr>sv_sm := sm, sv_store := store\<rparr>"
  have nodes: "\<forall>p \<in> set (ss_nodeSet s). IsValidPath p \<and> \<not> under_proc store p"
    if "SM_Get sm sid = Some s" for sid s
    using that replica_okD(3) [OF inv] under_proc_same [OF a(4)]
    by (auto simp: m(3) sid nodes_ok_def split: if_splits option.splits)
  have ok1: "replica_ok srv1" "same_config srv srv1"
    unfolding srv1_def by (rule set_sm_ok [OF inv a(3,4) m(2)], erule nodes)+
  have "abs_of srv1 = spec_register (req_sid req) t (abs_of srv)"
    by (auto simp: abs_of_def srv1_def spec_register_def a(5,6) tp m(3) sid fun_eq_iff split: option.splits)
  moreover have "map_option (\<lambda>r. snd (snd r)) (onRegister env req srv) =
      Some (emit [Log_session (req_sid req) ''new''] srv1)"
    by (simp add: onRegister_def m(1) srv1_def Let_def)
  ultimately show ?thesis using implements_local [OF ok1] by (simp del: map_option_eq_Some)
qed

lemma onUnRegister_spec:
  assumes inv: "replica_ok srv"
  shows "implements srv (spec_unregister (config_of (sv_store srv)) (req_sid req) (abs_of srv))
    (map_option snd (onUnRegister env req srv))"
proof (cases "SM_Get (sv_sm srv) (req_sid req)")
  case None
  then show ?thesis using inv by (simp add: onUnRegister_def spec_unregister_def implements_def)
next
  case (Some s)
  note get = Some
  let ?sid = "req_sid req"
  define srv1 where "srv1 = sv_adjust ?sid Close (emit [Log_session ?sid ''close''] srv)"
  have l1: "local_step srv srv1"
    unfolding srv1_def by (rule local_trans [OF _ local_adjust]) simp_all
  note ok1 = local_replica_ok [OF l1 inv] and c1 = local_config [OF l1] and a1 = local_abs [OF l1]
  have g1: "SM_Get (sv_sm srv1) ?sid = Some (Close s)"
    using Some by (simp add: srv1_def sv_adjust_def emit_def)
  have ina: "\<not> ss_active (Close s)" by (simp add: Close_def)
  obtain st store where r: "Store_RemoveSession (sv_store srv1) ?sid = (st, store)" "ok st"
    "store_good store" "same_env (sv_store srv1) store" "key_tree store = key_tree (sv_store srv1)"
    "stored_session store = (stored_session (sv_store srv1))(?sid := None)"
    by (rule Store_RemoveSession_abs [OF replica_okD(1) [OF ok1], of ?sid])
  obtain sm where m: "SM_Remove ?sid (sv_sm srv1) (sv_store srv1) = Some (sm, store)" "sm_inv sm"
    "SM_Get sm = (SM_Get (sv_sm srv1))(?sid := None)"
    by (rule SM_Remove_spec [OF replica_okD(2) [OF ok1] g1 ina r(1,2)])
  define srv2 where "srv2 = srv1\<lparr>sv_sm := sm, sv_store := store\<rparr>"
  have nodes: "\<forall>p \<in> set (ss_nodeSet s). IsValidPath p \<and> \<not> under_proc store p"
    if "SM_Get sm sid = Some s" for sid s
    using that replica_okD(3) [OF ok1] under_proc_same [OF r(4)]
    by (auto simp: m(3) nodes_ok_def split: if_splits)
  have ok2: "replica_ok srv2" "same_config srv1 srv2"
    unfolding srv2_def by (rule set_sm_ok [OF ok1 r(3,4) m(2)], erule nodes)+
  have a2: "abs_of srv2 = (abs_of srv)\<lparr>ra_nodes := (ra_nodes (abs_of srv))(?sid := None),
      ra_sess := (ra_sess (abs_of srv))(?sid := None)\<rparr>"
    unfolding a1 [symmetric] by (auto simp: abs_of_def srv2_def r(5,6) m(3) fun_eq_iff)
  define srv3 where "srv3 = srv2\<lparr>sv_wm := fold (\<lambda>e wm. WM_Remove (snd e) wm) (ss_watches s) (sv_wm srv1)\<rparr>"
  have l3: "local_step srv2 srv3" by (simp add: srv3_def)
  note ok3 = local_replica_ok [OF l3 ok2(1)] and a3 = local_abs [OF l3]
    and c3 = same_config_trans [OF same_config_trans [OF c1 ok2(2)] local_config [OF l3]]
  have run: "map_option snd (onUnRegister env req srv) =
      map_option (emit (case ss_pingEvent s of None \<Rightarrow> [] | Some p \<Rightarrow> [Reply p]))
        (fold_opt (destroy_node env ?sid) (ss_nodeSet s) srv3)"
    using Some m(1) sm_invD(1) [OF replica_okD(2) [OF inv]]
    by (simp add: onUnRegister_def Let_def srv1_def [symmetric] srv2_def [symmetric] Session_destroy_def
        Close_def srv3_def [symmetric] sessions_wf_def map_option_case split: option.splits Option.bind_splits)
  have ns: "\<forall>p \<in> set (ss_nodeSet s). IsValidPath p \<and> \<not> under_proc (sv_store srv3) p"
    using replica_okD(3) [OF inv] Some c3 under_proc_same [of "sv_store srv" "sv_store srv3"]
    by (auto simp: nodes_ok_def same_config_def)
  note d = destroy_nodes_spec [OF ok3 same_config_of [OF c3, symmetric] ns, where sid = ?sid and env = env]
  have tr: "ra_tree (abs_of srv3) = ra_tree (abs_of srv)" unfolding a3 a2 by simp
  show ?thesis
  proof (cases "fold_opt (spec_destroy_node (config_of (sv_store srv)) ?sid) (ss_nodeSet s) (ra_tree (abs_of srv))")
    case None
    with d [unfolded tr] Some show ?thesis by (simp add: spec_unregister_def implements_def run)
  next
    case (Some t)
    with d [unfolded tr] obtain srv4 where s4: "fold_opt (destroy_node env ?sid) (ss_nodeSet s) srv3 = Some srv4"
      "replica_ok srv4" "same_config srv3 srv4" "abs_of srv4 = (abs_of srv3)\<lparr>ra_tree := t\<rparr>" by auto
    have "spec_unregister (config_of (sv_store srv)) ?sid (abs_of srv) = Some (abs_of srv4)"
      using Some get unfolding s4(4) a3 a2 by (simp add: spec_unregister_def)
    then show ?thesis
      using implements_local [OF s4(2) same_config_trans [OF c3 s4(3)] _ refl] by (simp add: run s4(1))
  qed
qed

lemma tree_create_ok_path:
  assumes "tree_create pr mx sz t path data flags sid = (kOk, t')"
  shows "IsValidPath path" and "ok (fst (SplitPath path))" and "\<not> prefix pr path"
  using assms by (auto simp: tree_create_def split: if_splits prod.splits option.splits)

lemma sm_inv_adjust:
  assumes inv: "sm_inv sm"
    and f: "\<And>s. ss_sid (f s) = ss_sid s" "\<And>s. ss_addr (f s) = ss_addr s" "\<And>s. ss_expire (f s) = ss_expire s"
  shows "sm_inv (SM_adjust sid f sm)"
proof -
  have "sessions_wf (SM_adjust sid f sm)"
    using sm_invD(1) [OF inv] f(1) by (auto simp: sessions_wf_def split: if_splits)
  moreover have "timers_sound (SM_adjust sid f sm)"
    unfolding timers_sound_def
  proof (intro allI ballI)
    fix t x
    assume "x \<in> timer_set (sm_timers (SM_adjust sid f sm)) t"
    then obtain s where "SM_Get sm (snd x) = Some s" "ss_addr s = fst x" "ss_expire s = t"
      using sm_invD(3) [OF inv] by (auto simp: timers_sound_def)
    then show "\<exists>s. SM_Get (SM_adjust sid f sm) (snd x) = Some s \<and> ss_addr s = fst x \<and> ss_expire s = t"
      using f by (cases "snd x = sid") auto
  qed
  ultimately show ?thesis using inv by (simp add: sm_inv_def)
qed

lemma bind_node_ok:
  assumes inv: "replica_ok srv" and path: "IsValidPath path" "\<not> under_proc (sv_store srv) path"
  shows "replica_ok (sv_adjust sid (BindNode path) srv)"
    and "same_config srv (sv_adjust sid (BindNode path) srv)"
    and "abs_of (sv_adjust sid (BindNode path) srv) = (abs_of srv)\<lparr>ra_nodes := (ra_nodes (abs_of srv))
      (sid := map_option (os_insert path) (ra_nodes (abs_of srv) sid))\<rparr>"
proof -
  let ?sm = "SM_adjust sid (BindNode path) (sv_sm srv)"
  have "sm_inv ?sm" by (rule sm_inv_adjust [OF replica_okD(2) [OF inv]]) (simp_all add: BindNode_def)
  moreover have "nodes_ok (sv_adjust sid (BindNode path) srv)"
    using replica_okD(3) [OF inv] path by (auto simp: nodes_ok_def sv_adjust_def BindNode_def split: if_splits)
  ultimately show "replica_ok (sv_adjust sid (BindNode path) srv)"
    using inv by (simp add: replica_ok_def sv_adjust_def)
qed (auto simp: same_config_def abs_of_def sv_adjust_def BindNode_def fun_eq_iff option.map_comp comp_def)

lemma remove_node_ok:
  assumes inv: "replica_ok srv"
  shows "replica_ok (sv_adjust sid (RemoveNode path) srv)"
    and "same_config srv (sv_adjust sid (RemoveNode path) srv)"
    and "abs_of (sv_adjust sid (RemoveNode path) srv) = (abs_of srv)\<lparr>ra_nodes := (ra_nodes (abs_of srv))
      (sid := map_option (os_erase path) (ra_nodes (abs_of srv) sid))\<rparr>"
proof -
  let ?sm = "SM_adjust sid (RemoveNode path) (sv_sm srv)"
  have "sm_inv ?sm" by (rule sm_inv_adjust [OF replica_okD(2) [OF inv]]) (simp_all add: RemoveNode_def)
  moreover have "nodes_ok (sv_adjust sid (RemoveNode path) srv)"
    using replica_okD(3) [OF inv] by (auto simp: nodes_ok_def sv_adjust_def RemoveNode_def split: if_splits)
  ultimately show "replica_ok (sv_adjust sid (RemoveNode path) srv)"
    using inv by (simp add: replica_ok_def sv_adjust_def)
qed (auto simp: same_config_def abs_of_def sv_adjust_def RemoveNode_def fun_eq_iff option.map_comp comp_def)

lemma onCreate_spec:
  assumes inv: "replica_ok srv" and req: "rq_create req = Some c"
  shows "implements srv (Some (snd (spec_create (config_of (sv_store srv)) (req_sid req) c (abs_of srv))))
    (map_option snd (onCreate env req srv))"
proof -
  let ?sid = "req_sid req" and ?eph = "cr_flags c AND kEphemeral \<noteq> 0"
  have rc: "req_create req = c" using req by (simp add: req_create_def)
  obtain st store where d: "Store_Create (sv_store srv) (server_proc env srv) (cr_path c) (cr_data c) (cr_flags c) ?sid
      = Some (st, store)" "store_good store" "same_env (sv_store srv) store"
    "(st_code st, key_tree store) = tree_create (so_procRoot (sv_store srv)) (max_bytes (sv_store srv))
      (node_ByteSize (pb (so_lib (sv_store srv)))) (key_tree (sv_store srv)) (cr_path c) (cr_data c) (cr_flags c) ?sid"
    "stored_session store = stored_session (sv_store srv)"
    by (rule Store_Create_abs [OF replica_okD(1) [OF inv] server_proc_ok [OF inv]])
  define srv1 where "srv1 = srv\<lparr>sv_store := store\<rparr>"
  have s1: "replica_ok srv1" "same_config srv srv1" unfolding srv1_def by (rule set_store_ok [OF inv d(2,3)])+
  have a1: "abs_of srv1 = (abs_of srv)\<lparr>ra_tree := key_tree store\<rparr>"
    by (simp add: abs_of_def srv1_def d(5))
  have sm1: "sv_sm srv1 = sv_sm srv" by (simp add: srv1_def)
  note tc = d(4) [symmetric] and sc = spec_create_def config_of_def Let_def
  consider "SM_Get (sv_sm srv) ?sid = None \<and> ?eph" | "\<not> (SM_Get (sv_sm srv) ?sid = None \<and> ?eph)" "\<not> ok st"
    | "\<not> (SM_Get (sv_sm srv) ?sid = None \<and> ?eph)" "ok st" by blast
  then show ?thesis
  proof cases
    case 1
    then show ?thesis
      using inv by (simp add: implements_def onCreate_def Let_def rc getSession_def sc)
  next
    case 2
    then have "onCreate env req srv = Some (st, srv1)"
      by (auto simp: onCreate_def Let_def rc getSession_def d(1) srv1_def)
    with 2 show ?thesis
      using s1 a1 by (auto simp: implements_def sc tc ok_code)
  next
    case 3
    then have "tree_create (so_procRoot (sv_store srv)) (max_bytes (sv_store srv))
      (node_ByteSize (pb (so_lib (sv_store srv)))) (key_tree (sv_store srv)) (cr_path c) (cr_data c) (cr_flags c) ?sid
      = (kOk, key_tree store)" using tc by (simp add: ok_code)
    note path = tree_create_ok_path [OF this]
    have np: "\<not> under_proc (sv_store srv1) (cr_path c)"
      using path(3) under_proc_prefix [OF store_goodD(5) [OF d(2)]] d(3) by (simp add: srv1_def same_env_def)
    define srv2 where "srv2 = (if ?eph then sv_adjust ?sid (BindNode (cr_path c)) srv1 else srv1)"
    have s2: "replica_ok srv2" "same_config srv srv2"
      using s1 bind_node_ok(1) [OF s1(1) path(1) np] same_config_trans [OF s1(2) bind_node_ok(2) [OF s1(1) path(1) np]]
      by (auto simp: srv2_def)
    have a2: "abs_of srv2 = snd (spec_create (config_of (sv_store srv)) ?sid c (abs_of srv))"
      using 3 a1 bind_node_ok(3) [OF s1(1) path(1) np, of ?sid] tc by (auto simp: srv2_def sc ok_code)
    obtain srv3 srv4 where t: "server_Triger env (mk_event (cr_path c) kCreate) srv2 = Some srv3"
      "server_Triger env (mk_event (fst (snd (SplitPath (cr_path c)))) kChildren) srv3 = Some srv4"
      "local_step srv2 srv4"
      by (rule Triger_node_local [OF path(1,2)])
    have "onCreate env req srv = Some (st, srv4)"
      using 3 t by (auto simp: onCreate_def Let_def rc getSession_def d(1) srv1_def [symmetric] srv2_def sm1
          split: option.splits if_splits)
    then show ?thesis using implements_local [OF s2 t(3) a2] by simp
  qed
qed

lemma tree_delete_refused:
  "tree_delete pr t path = (c, t') \<Longrightarrow> c \<noteq> kOk \<Longrightarrow> t' = t"
  by (auto simp: tree_delete_def split: if_splits prod.splits option.splits)

lemma tree_delete_present:
  "tree_delete pr t path = (kOk, t') \<Longrightarrow> \<exists>n. t path = Some n"
  by (auto simp: tree_delete_def split: if_splits prod.splits option.splits)

lemma onDelete_spec:
  assumes inv: "replica_ok srv" and req: "rq_delete req = Some path"
  shows "implements srv (Some (snd (spec_delete (config_of (sv_store srv)) (req_sid req) path (abs_of srv))))
    (map_option snd (onDelete env req srv))"
proof -
  let ?t = "key_tree (sv_store srv)" and ?pr = "so_procRoot (sv_store srv)"
  have rp: "req_path (rq_delete req) = path" using req by (simp add: req_path_def)
  obtain gst node where get: "Store_Get (sv_store srv) (server_proc env srv) path = Some (gst, node)"
    using Store_Get_total [OF server_proc_ok [OF inv]] by fast
  obtain st srv1 where d: "DeleteNode env path srv = Some (st, srv1)" "replica_ok srv1" "same_config srv srv1"
    "(st_code st, ra_tree (abs_of srv1)) = tree_delete ?pr (ra_tree (abs_of srv)) path"
    "abs_of srv1 = (abs_of srv)\<lparr>ra_tree := ra_tree (abs_of srv1)\<rparr>"
    by (rule DeleteNode_spec [OF inv])
  have td: "tree_delete ?pr ?t path = (st_code st, key_tree (sv_store srv1))" using d(4) by simp
  have nodes1: "ra_nodes (abs_of srv1) = ra_nodes (abs_of srv)" by (subst d(5)) simp
  note sd = spec_delete_def config_of_def td
  show ?thesis
  proof (cases "ok st")
    case False
    then have "key_tree (sv_store srv1) = ?t" using tree_delete_refused [OF td] by (simp add: ok_code)
    then have "abs_of srv1 = abs_of srv" using d(5) by simp
    with False show ?thesis
      using inv d(1-3) by (auto simp: implements_def onDelete_def rp get sd ok_code Let_def)
  next
    case True
    then have td': "tree_delete ?pr ?t path = (kOk, key_tree (sv_store srv1))" using td by (simp add: ok_code)
    note path = tree_delete_ok_path [OF td'] and present = tree_delete_present [OF td']
    have "\<not> under_proc (sv_store srv) path"
      using path(3) by (simp add: under_proc_prefix [OF store_goodD(5) [OF replica_okD(1) [OF inv]]])
    then have gok: "ok gst"
      using get present Store_Get_key_tree [OF replica_okD(1) [OF inv] path(1), of "server_proc env srv"] by auto
    define srv2 where "srv2 = sv_adjust (req_sid req) (RemoveNode path) srv1"
    note rm = remove_node_ok [OF d(2), of "req_sid req" path, folded srv2_def]
    have a2: "abs_of srv2 = snd (spec_delete (config_of (sv_store srv)) (req_sid req) path (abs_of srv))"
      unfolding rm(3) nodes1 by (subst d(5)) (use True in \<open>simp add: sd ok_code\<close>)
    have same: "srv2 = srv1" if "SM_Get (sv_sm srv1) (req_sid req) = None"
      using that by (simp add: srv2_def sv_adjust_def SM_adjust_def SM_Get_def om_adjust_absent)
    have "map_option snd (onDelete env req srv) = Some srv2"
    proof (cases "SM_Get (sv_sm srv1) (req_sid req)")
      case None
      show ?thesis
        unfolding same [OF None] using True gok d(1) None
        by (simp add: onDelete_def rp get Let_def getSession_def del: map_option_eq_Some)
    next
      case (Some s)
      with True gok d(1) show ?thesis
        by (simp add: onDelete_def rp get Let_def getSession_def srv2_def del: map_option_eq_Some)
    qed
    then show ?thesis by (rule implementsI [OF _ rm(1) same_config_trans [OF d(3) rm(2)] a2])
  qed
qed

text \<open>A write to a virtual node changes nothing that is replicated.\<close>

lemma om_put_entries: "(k', v') \<in> set (om_put k v m) \<Longrightarrow> k' = k \<and> v' = v \<or> (k', v') \<in> set m"
  by (induction k v m rule: om_put.induct) (auto split: if_splits)

lemma find_in_set: "find P xs = Some x \<Longrightarrow> x \<in> set xs"
  by (induction xs) (auto split: if_splits)

lemma server_proc_no_check:
  assumes "replica_ok srv" and "(k, cb) \<in> set (pd_writeMap (server_proc env srv))"
  shows "Check_failed \<notin> set (snd (cb args v))"
proof -
  obtain i where i: "Store_GetCommitIndex (sv_store srv) = Some (OK, Some i)"
    using GetCommitIndex_total [OF replica_okD(1) [OF assms(1)]] by blast
  let ?J = "PathJoin (toft (sv_lib srv)) (op_ProcRoot (sv_options srv))"
  have "pd_writeMap (server_proc env srv) =
      om_put (?J ''snapshot'') (onProcTakeSnapshot srv) (om_put (?J ''eventlog'') EventLog_OnProcWrite [])"
    by (simp add: server_proc_def Let_def RegisterReadNode_def RegisterWriteNode_def ProcDB_new_def
        del: om_put.simps)
  then have "cb = onProcTakeSnapshot srv \<or> cb = EventLog_OnProcWrite"
    using assms(2) om_put_entries [of k cb "?J ''snapshot''" "onProcTakeSnapshot srv"]
      om_put_entries [of k cb "?J ''eventlog''" EventLog_OnProcWrite "[]"]
    by (auto simp del: om_put.simps)
  then show ?thesis by (auto simp: onProcTakeSnapshot_def i EventLog_OnProcWrite_def)
qed

lemma ProcDB_Put_no_check:
  assumes "replica_ok srv"
  shows "Check_failed \<notin> set (snd (ProcDB_Put T (server_proc env srv) path data))"
proof (cases "proc_match T (c_str path) (pd_writeMap (server_proc env srv))")
  case (Some e)
  obtain k cb where e: "e = (k, cb)" by fastforce
  have "(k, cb) \<in> set (pd_writeMap (server_proc env srv))"
    using find_in_set [OF Some [unfolded proc_match_def e]] by simp
  from server_proc_no_check [OF assms this] show ?thesis
    using Some by (simp add: ProcDB_Put_def Let_def e split: prod.splits) (metis snd_conv)
qed (simp add: ProcDB_Put_def Let_def)

lemma Store_Write_ok_path:
  "Store_Write s proc path data = Some (st, s', es) \<Longrightarrow> ok st \<Longrightarrow> IsValidPath path"
  by (auto simp: Store_Write_def Store_Put_def Let_def split: option.splits Option.bind_splits if_splits)

lemma Store_Write_no_check:
  assumes "replica_ok srv" and "Store_Write (sv_store srv) (server_proc env srv) path data = Some (st, s', es)"
  shows "Check_failed \<notin> set es"
proof -
  obtain gst n where g: "Store_Get (sv_store srv) (server_proc env srv) path = Some (gst, n)"
    using Store_Get_total [OF server_proc_ok [OF assms(1)]] by fast
  have p: "Check_failed \<notin> set es" if "ProcDB_Put T (server_proc env srv) path d = (st, es)" for T d st es
    using ProcDB_Put_no_check [OF assms(1), of T env path d] that by simp
  show ?thesis
    using assms(2) g
    by (auto simp: Store_Write_def Store_Put_def Let_def split: if_splits prod.splits dest: p)
qed

lemma write_triger:
  assumes ok1: "replica_ok srv1" "same_config srv srv1" and path: "ok st \<Longrightarrow> IsValidPath path"
    and run: "onWrite env req srv = (if \<not> ok st then Some (st, srv1)
      else do { srv \<leftarrow> server_Triger env (mk_event path kModify) srv1; Some (st, srv) })"
  shows "implements srv (Some (abs_of srv1)) (map_option snd (onWrite env req srv))"
proof (cases "ok st")
  case False
  with run ok1 show ?thesis by (simp add: implements_def)
next
  case True
  then have "path \<noteq> []" "hd path = slash" using path by (simp_all add: IsValidPath_def)
  then obtain srv2 where "server_Triger env (mk_event path kModify) srv1 = Some srv2" "local_step srv1 srv2"
    by (rule Triger_local)
  with True show ?thesis using implements_local [OF ok1 _ refl] by (simp add: run)
qed

lemma onWrite_spec:
  assumes inv: "replica_ok srv" and req: "rq_write req = Some w"
  shows "implements srv (Some (snd (spec_write (config_of (sv_store srv)) w (abs_of srv))))
    (map_option snd (onWrite env req srv))"
proof -
  let ?s = "sv_store srv" and ?path = "wr_path w"
  have rw: "req_write req = w" using req by (simp add: req_write_def)
  have run: "onWrite env req srv = (if \<not> ok st then Some (st, emit es (srv\<lparr>sv_store := s'\<rparr>))
      else do { srv \<leftarrow> server_Triger env (mk_event ?path kModify) (emit es (srv\<lparr>sv_store := s'\<rparr>)); Some (st, srv) })"
    and path: "ok st \<Longrightarrow> IsValidPath ?path"
    if "Store_Write ?s (server_proc env srv) ?path (wr_data w) = Some (st, s', es)" for st s' es
    using that Store_Write_no_check [OF inv that] Store_Write_ok_path [OF that]
    by (simp_all add: onWrite_def rw Let_def)
  note up = under_proc_prefix [OF store_goodD(5) [OF replica_okD(1) [OF inv]]]
  show ?thesis
  proof (cases "under_proc ?s ?path")
    case True
    obtain st es where w: "Store_Write ?s (server_proc env srv) ?path (wr_data w) = Some (st, ?s, es)"
      using Store_Write_proc [OF server_proc_ok [OF inv] True] by blast
    have l: "local_step srv (emit es (srv\<lparr>sv_store := ?s\<rparr>))" by simp
    have "snd (spec_write (config_of ?s) w (abs_of srv)) = abs_of (emit es (srv\<lparr>sv_store := ?s\<rparr>))"
      using True up local_abs [OF l] by (simp add: spec_write_def config_of_def)
    then show ?thesis
      using write_triger [OF local_replica_ok [OF l inv] local_config [OF l] path [OF w] run [OF w]] by simp
  next
    case False
    obtain st s' where w: "Store_Write ?s (server_proc env srv) ?path (wr_data w) = Some (st, s', [])"
      "store_good s'" "same_env ?s s'"
      "(st_code st, key_tree s') = tree_write (max_bytes ?s) (node_ByteSize (pb (so_lib ?s))) (key_tree ?s) ?path (wr_data w)"
      "stored_session s' = stored_session ?s"
      by (rule Store_Write_abs [OF replica_okD(1) [OF inv] server_proc_ok [OF inv] False])
    have e: "emit [] (srv\<lparr>sv_store := s'\<rparr>) = srv\<lparr>sv_store := s'\<rparr>" by (simp add: emit_def)
    have "snd (spec_write (config_of ?s) w (abs_of srv)) = abs_of (srv\<lparr>sv_store := s'\<rparr>)"
      using False up w(4) [symmetric] w(5) by (simp add: spec_write_def config_of_def abs_of_def)
    then show ?thesis
      using write_triger [OF set_store_ok [OF inv w(2,3)] path [OF w(1)] run [OF w(1), unfolded e]] by simp
  qed
qed

lemma run_command_spec:
  assumes inv: "replica_ok srv" and req: "replicable req"
  shows "implements srv (spec_command (config_of (sv_store srv)) req (abs_of srv))
    (map_option (\<lambda>r. snd (snd r)) (run_command env req srv))"
proof -
  have strip: "map_option (\<lambda>r. snd (snd r)) (do { (st, srv) \<leftarrow> x; Some (st, rep, srv) }) = map_option snd x"
    for x :: "(Status \<times> 'a Server) option" and rep :: Response by (cases x) auto
  have stripr: "map_option (\<lambda>r. snd (snd r)) (do { (st, sid, srv) \<leftarrow> x; Some (st, f st sid, srv) })
      = map_option (\<lambda>r. snd (snd r)) x"
    for x :: "(Status \<times> sid_t \<times> 'a Server) option" and f :: "Status \<Rightarrow> sid_t \<Rightarrow> Response" by (cases x) auto
  consider (reg) t where "rq_register req = Some t"
    | (unreg) "rq_register req = None" "rq_unregister req"
    | (create) c where "rq_register req = None" "\<not> rq_unregister req" "rq_create req = Some c"
    | (delete) p where "rq_register req = None" "\<not> rq_unregister req" "rq_create req = None" "rq_delete req = Some p"
    | (rest) "rq_register req = None" "\<not> rq_unregister req" "rq_create req = None" "rq_delete req = None"
    by fastforce
  then show ?thesis
  proof cases
    case reg
    then show ?thesis using onRegister_spec [OF inv reg] by (simp add: run_command_def spec_command_def stripr)
  next
    case unreg
    then show ?thesis using onUnRegister_spec [OF inv] by (simp add: run_command_def spec_command_def strip)
  next
    case create
    then show ?thesis using onCreate_spec [OF inv create(3)] by (simp add: run_command_def spec_command_def strip)
  next
    case delete
    then show ?thesis using onDelete_spec [OF inv delete(4)] by (simp add: run_command_def spec_command_def strip)
  next
    case rest
    then show ?thesis
      using onWrite_spec [OF inv] req inv
      by (cases "rq_write req")
        (auto simp: run_command_def spec_command_def strip replicable_def implements_def)
  qed
qed

text \<open>A leader answers the request at the head of its queue.\<close>

lemma onCommand_spec:
  assumes inv: "replica_ok srv" and req: "replicable req" and q: "sv_state srv = kLeader \<Longrightarrow> sv_requests srv \<noteq> []"
  shows "case spec_command (config_of (sv_store srv)) req (abs_of srv) of
      None \<Rightarrow> onCommand env req srv = None
    | Some ra \<Rightarrow> \<exists>srv'. onCommand env req srv = Some srv' \<and> replica_ok srv' \<and> abs_of srv' = ra
        \<and> same_env (sv_store srv) (sv_store srv') \<and> sv_state srv' = sv_state srv
        \<and> sv_requests srv' = (if sv_state srv = kLeader then tl (sv_requests srv) else sv_requests srv)"
proof -
  define srv1 where "srv1 = (if sv_state srv = kLeader then srv\<lparr>sv_requests := tl (sv_requests srv)\<rparr> else srv)"
  have s1: "replica_ok srv1" "abs_of srv1 = abs_of srv" "sv_store srv1 = sv_store srv" "sv_state srv1 = sv_state srv"
    using inv by (auto simp: srv1_def replica_ok_def nodes_ok_def abs_of_def)
  have run: "onCommand env req srv = map_option (\<lambda>(st, rep, srv'). case if sv_state srv = kLeader then Some (hd (sv_requests srv)) else None of
      None \<Rightarrow> srv' | Some e \<Rightarrow> emit [Reply (e\<lparr>ev_Rep := if \<not> ok st then set_err st rep else rep\<rparr>)] srv')
      (run_command env req srv1)"
    using q by (cases "run_command env req srv1"; cases "sv_requests srv")
      (auto simp: onCommand_def srv1_def Let_def split: if_splits)
  note c = run_command_spec [OF s1(1) req, of env, unfolded s1(2,3)]
  show ?thesis
  proof (cases "spec_command (config_of (sv_store srv)) req (abs_of srv)")
    case None
    with c show ?thesis by (simp add: implements_def run)
  next
    case (Some ra)
    with c obtain st rep srv2 where r: "run_command env req srv1 = Some (st, rep, srv2)" "replica_ok srv2"
      "same_config srv1 srv2" "abs_of srv2 = ra" by (auto simp: implements_def)
    let ?srv3 = "case if sv_state srv = kLeader then Some (hd (sv_requests srv)) else None of
      None \<Rightarrow> srv2 | Some e \<Rightarrow> emit [Reply (e\<lparr>ev_Rep := if \<not> ok st then set_err st rep else rep\<rparr>)] srv2"
    have l: "local_step srv2 ?srv3" by simp
    have "same_env (sv_store srv) (sv_store ?srv3)" "sv_state ?srv3 = sv_state srv"
      "sv_requests ?srv3 = (if sv_state srv = kLeader then tl (sv_requests srv) else sv_requests srv)"
      using r(3) s1(3,4)
      by (simp_all add: emit_def same_config_def) (simp_all add: srv1_def)
    then show ?thesis
      using Some local_replica_ok [OF l r(2)] local_abs [OF l] r(4) by (simp add: run r(1))
  qed
qed

end
