(* ===== verification/Store_Examples.thy ===== *)
theory Store_Examples
  imports Store_Persist
begin

text \<open>
  The store over the reference libraries: an empty database, the tree its initialisation
  writes, and runs that show the hypotheses of the store's theorems hold there.
\<close>

definition ref_store0 :: "memdb Store" where
  "ref_store0 = \<lparr>so_persist = [], so_procRoot = ''/pyxis'', so_lib = ref_libs, so_max_node_size = 1024\<rparr>"

definition ref_proc :: "unit ProcDB" where
  "ref_proc = ProcDB_new ''/pyxis''"

definition ref_store :: "memdb Store" where
  "ref_store = the (Store_init ref_store0 ref_proc)"

lemma ref_store0_sel [simp]: "so_persist ref_store0 = []" "so_procRoot ref_store0 = ''/pyxis''"
  "so_lib ref_store0 = ref_libs" "max_bytes ref_store0 = 1048576"
  by (simp_all add: ref_store0_def max_bytes_def)

lemma ref_libs_sel [simp]: "ldb ref_libs = memdb_ops" "pb ref_libs = ref_proto" "toft ref_libs = ref_toft"
  by (simp_all add: ref_libs_def)

lemma ref_store0_empty: "store_view ref_store0 = Map.empty"
  by (simp add: store_view_def fun_eq_iff)

lemma ref_store0_ok: "store_ok ref_store0"
  by (rule empty_store_ok [where r = "''pyxis''"]) (simp_all add: ref_libs_ok ref_store0_empty)

lemma memdb_writes [simp]: "so_lib s = ref_libs \<Longrightarrow> \<not> write_refused s"
  by (simp add: write_refused_def memdb_ops_def ldb_ok_def)

lemma ref_proc_ok: "proc_ok ref_proc"
  by (simp add: proc_ok_def ref_proc_def ProcDB_new_def RegisterReadNode_def)

lemma ref_root_fits: "node_ByteSize ref_proto (root_node ''/pyxis'') \<le> 1048576"
  by code_simp

lemma ref_store_facts:
  "Store_init ref_store0 ref_proc = Some ref_store" "store_inv ref_store"
  "node_at ref_store = [''/'' \<mapsto> root_node ''/pyxis'']"
  "so_lib ref_store = ref_libs" "so_procRoot ref_store = ''/pyxis''" "max_bytes ref_store = 1048576"
proof -
  show i: "Store_init ref_store0 ref_proc = Some ref_store"
    using Store_init_empty [OF ref_store0_ok ref_store0_empty, of ref_proc] ref_root_fits
    by (auto simp: ref_store_def)
  then show "store_inv ref_store" "node_at ref_store = [''/'' \<mapsto> root_node ''/pyxis'']"
    using Store_init_empty [OF ref_store0_ok ref_store0_empty, of ref_proc] ref_root_fits by auto
  have "same_env ref_store0 ref_store"
    using i Store_init_empty [OF ref_store0_ok ref_store0_empty, of ref_proc] ref_root_fits by auto
  then show "so_lib ref_store = ref_libs" "so_procRoot ref_store = ''/pyxis''"
    "max_bytes ref_store = 1048576"
    by (auto simp: same_env_def max_bytes_def ref_store0_def)
qed

theorem store_runs_total_witness:
  "\<exists>s0 s'. Store_init ref_store0 ref_proc = Some s0
     \<and> store_run ref_proc [OpCreate ''/a'' ''x'' 0 7, OpWrite ''/a'' ''y'', OpDelete ''/a''] s0 = Some s'
     \<and> store_inv s'"
  by (rule store_runs_total)
    (use ref_store0_ok ref_store0_empty ref_proc_ok ref_root_fits in simp_all)

lemma char_checks: "IsValidPath ''/a''" "SplitPath ''/a'' = (OK, ''/'', ''a'')" "\<not> prefix ''/pyxis'' ''/a''"
  by code_simp+

theorem Store_Create_refines_witness:
  "store_inv ref_store \<and> (\<exists>st s'. Store_Create ref_store ref_proc ''/a'' ''x'' 0 7 = Some (st, s')
     \<and> store_inv s' \<and> st_code st = kOk \<and> node_at s' ''/a'' = Some (new_node ''x'' 0 7))"
proof -
  have small: "node_ByteSize ref_proto (add_child ''a'' (root_node ''/pyxis'')) \<le> 1048576" by code_simp
  show ?thesis
    using Store_Create_refines [OF ref_store_facts(2), of ref_proc "''/a''" "''x''" 0 7] small
      ref_store_facts(2-)
    by (auto simp: tree_create_def char_checks to_size_t_def root_node_def is_ephemeral_def ok_code not_less)
qed

theorem Store_Delete_refines_witness:
  "store_inv ref_store \<and> (\<exists>st s'. Store_Delete ref_store ref_proc ''/a'' = Some (st, s')
     \<and> store_inv s' \<and> st_code st = kNotFound \<and> node_at s' = node_at ref_store)"
  using Store_Delete_refines [OF ref_store_facts(2), of ref_proc "''/a''"] ref_store_facts(2-)
  by (auto simp: tree_delete_def char_checks ok_code)

theorem Store_Write_refines_witness:
  "store_inv ref_store \<and> \<not> under_proc ref_store ''/''
     \<and> (\<exists>st s'. Store_Write ref_store ref_proc ''/'' ''d'' = Some (st, s', []) \<and> store_inv s'
       \<and> st_code st = kOk \<and> map_option nd_version (node_at s' ''/'') = Some 1)"
proof -
  have small: "node_ByteSize ref_proto ((root_node ''/pyxis'')\<lparr>nd_data := ''d'', nd_version := 1\<rparr>) \<le> 1048576"
    by code_simp
  have np: "\<not> under_proc ref_store ''/''" by (rule root_not_under_proc [OF store_invD(1) [OF ref_store_facts(2)]])
  show ?thesis
    using Store_Write_refines [OF ref_store_facts(2) np, of ref_proc "''d''"] small np ref_store_facts(2-)
    by (auto simp: tree_write_def Let_def root_node_def)
qed

theorem commit_index_durable_witness:
  "\<exists>s1 s2. Store_SetCommitIndex ref_store 5 = (OK, s1)
     \<and> store_run ref_proc [OpCreate ''/a'' ''x'' 0 7] s1 = Some s2
     \<and> Store_GetCommitIndex s2 = Some (OK, Some 5)"
proof -
  obtain s1 where s1: "Store_SetCommitIndex ref_store 5 = (OK, s1)"
    using ref_store_facts(4) by (simp add: Store_SetCommitIndex_def Let_def memdb_ops_def ldb_ok_def)
  then show ?thesis
    using commit_index_durable [OF ref_store_facts(2) ref_proc_ok s1, of "[OpCreate ''/a'' ''x'' 0 7]"]
    by (auto simp: ok_code)
qed


definition ref_session :: StoredSession where
  "ref_session = \<lparr>sp_sid = 7, sp_watch = [], sp_node = [''/e''], sp_timeout = 5\<rparr>"

definition ref_store1 :: "memdb Store" where
  "ref_store1 = snd (Store_AddSession ref_store ref_session)"

lemma ref_store_outside: "\<not> key_path k \<Longrightarrow> store_view ref_store k = None"
proof -
  assume k: "\<not> key_path k"
  obtain n st es where "Store_Put ref_store0 ref_proc ''/'' n = (st, ref_store, es)"
    using ref_store_facts(1) by (auto simp: Store_init_def Let_def ldb_ok_def split: if_splits prod.splits)
  from Store_Put_frame [OF ref_store0_ok this k] show ?thesis by (simp add: ref_store0_empty)
qed

lemma ref_store1_facts:
  "store_inv ref_store1" "sessions_ok ref_store1" "so_lib ref_store1 = ref_libs"
  "stored_session ref_store1 sid = Some ss \<longleftrightarrow> sid = 7 \<and> ss = ref_session"
proof -
  show inv: "store_inv ref_store1"
    unfolding ref_store1_def by (rule session_ops_inv(1) [OF ref_store_facts(2)])
  have run: "Store_AddSession ref_store ref_session = (OK, ref_store1)"
    using ref_store_facts(4) by (simp add: ref_store1_def Store_AddSession_def Let_def memdb_ops_def ldb_ok_def)
  then have step: "store_step ref_proc (OpAddSession ref_session) ref_store = Some (OK, ref_store1)" by simp
  have "sessions_ok ref_store" by (simp add: sessions_ok_def ref_store_outside)
  from store_step_sessions [OF ref_store_facts(2) this step] show sok: "sessions_ok ref_store1" .
  show lib: "so_lib ref_store1 = ref_libs" using store_step_lib [OF step] ref_store_facts(4) by simp
  have "store_view ref_store1 (session_key sid) = (if sid = 7 then
      Some (snd (session_SerializeToString ref_proto ref_session)) else None)" for sid
    using session_ops_view(1) [OF ref_store_facts(2) run] ref_store_facts(4)
    by (auto simp: ok_code ref_session_def ref_store_outside session_key_def)
  then show "stored_session ref_store1 sid = Some ss \<longleftrightarrow> sid = 7 \<and> ss = ref_session"
    using session_roundtrip(1) [OF ref_proto_ok, of ref_session] lib by (auto simp: stored_session_def)
qed

theorem WalkSessions_visits_witness:
  "store_inv ref_store1 \<and> sessions_ok ref_store1
     \<and> Store_WalkSessions ref_store1 (\<lambda>ss w. Some (ss # w)) [] = Some (OK, [ref_session])"
proof -
  have it: "ldb_ok (snd (ldb_Iterate (ldb (so_lib ref_store1)) (so_persist ref_store1)))"
    by (simp add: ref_store1_facts(3) memdb_ops_def ldb_ok_def)
  note v = WalkSessions_visits [OF ref_store1_facts(1,2) it, of "\<lambda>ss w. Some (ss # w)" "[]"]
  have "set (walked_sessions ref_store1) = {ref_session}"
    using v by (simp add: ref_store1_facts(4))
  moreover have "distinct (walked_sessions ref_store1)" using v by (simp add: distinct_map)
  ultimately have "walked_sessions ref_store1 = [ref_session]"
    by (cases "walked_sessions ref_store1" rule: remdups_adj.cases) auto
  with v show ?thesis by (simp add: ref_store1_facts)
qed

theorem TakeSnapshot_copies_witness:
  "\<exists>db. Store_TakeSnapshot ref_store1 [] = Some db
     \<and> ldb_view (ldb (so_lib ref_store1)) db = ldb_view (ldb (so_lib ref_store1)) (so_persist ref_store1)"
  by (rule TakeSnapshot_copies)
    (simp_all add: ref_store1_facts store_invD memdb_ops_def ldb_ok_def ldb_view_def fun_eq_iff)

theorem proc_match_longest_witness:
  "proc_match ref_toft ''/pyxis/session/7'' (pd_readMap ref_proc) = Some (''/pyxis'', Bind_onProcRead)
     \<and> om_find (pd_readMap ref_proc) ''/pyxis/session'' = None"
proof -
  have m: "pd_readMap ref_proc = [(''/pyxis'', Bind_onProcRead)]"
    by (simp add: ref_proc_def ProcDB_new_def RegisterReadNode_def)
  have f: "proc_match ref_toft ''/pyxis/session/7'' (pd_readMap ref_proc) = Some (''/pyxis'', Bind_onProcRead)"
    unfolding m by (simp add: proc_match_def toft_laws [OF ref_toft_ok])
  have "om_invar (pd_readMap ref_proc)" by (simp add: m om_invar_def)
  from proc_match_longest [OF ref_toft_ok this, of "''/pyxis/session/7''"]
  have "prefix k' ''/pyxis/session/7'' \<and> om_find (pd_readMap ref_proc) k' \<noteq> None \<Longrightarrow> length k' \<le> length ''/pyxis''" for k'
    by (simp add: f)
  note longest = this [of "''/pyxis/session''"]
  have "prefix ''/pyxis/session'' ''/pyxis/session/7''" "\<not> length ''/pyxis/session'' \<le> length ''/pyxis''" by simp_all
  with longest f show ?thesis by blast
qed

end
