(* ===== verification/Replica_Log.thy ===== *)
theory Replica_Log
  imports Replica_Server Store_Examples
begin

text \<open>
  Logs of committed commands on whole replicas: what a log does is what the specification
  says, replicas that run the same log agree, a session's ephemeral nodes go with it, and the
  two logs that bring every replica down.
\<close>

subsection \<open>State machines\<close>

text \<open>
  A machine that runs commands and, step by step, does what a specification says of its
  abstraction. How far it may go, for example while it has a client waiting for every command, is
  counted in \<open>good\<close>. A log then does what the specification says, and what the specification keeps
  invariant is invariant of the machine.
\<close>

locale state_machine =
  fixes step :: "'e \<Rightarrow> 'c \<Rightarrow> 's \<Rightarrow> 's option" and run :: "(nat \<Rightarrow> 'e) \<Rightarrow> 'c list \<Rightarrow> 's \<Rightarrow> 's option"
    and spec :: "'c \<Rightarrow> 'a \<Rightarrow> 'a option" and abs :: "'s \<Rightarrow> 'a" and good :: "nat \<Rightarrow> 's \<Rightarrow> bool" and cmd :: "'c \<Rightarrow> bool"
  assumes run_Nil: "run envs [] s = Some s"
    and run_Cons: "run envs (c # cs) s = Option.bind (step (envs 0) c s) (run (\<lambda>i. envs (Suc i)) cs)"
    and step_spec: "good (Suc n) s \<Longrightarrow> cmd c \<Longrightarrow> case spec c (abs s) of
       None \<Rightarrow> step e c s = None
     | Some a \<Rightarrow> \<exists>s'. step e c s = Some s' \<and> good n s' \<and> abs s' = a"
begin

lemma run_spec:
  assumes "good (length cs + n) s" and "list_all cmd cs"
  shows "case fold_opt spec cs (abs s) of
      None \<Rightarrow> run envs cs s = None
    | Some a \<Rightarrow> \<exists>s'. run envs cs s = Some s' \<and> good n s' \<and> abs s' = a"
  using assms
proof (induction cs arbitrary: s envs)
  case (Cons c cs)
  from step_spec [of "length cs + n" s c "envs 0"] Cons.prems
  have st: "case spec c (abs s) of None \<Rightarrow> step (envs 0) c s = None
    | Some a \<Rightarrow> \<exists>s'. step (envs 0) c s = Some s' \<and> good (length cs + n) s' \<and> abs s' = a" by simp
  show ?case
  proof (cases "spec c (abs s)")
    case None
    with st show ?thesis by (simp add: run_Cons)
  next
    case (Some a)
    with st obtain s' where "step (envs 0) c s = Some s'" "good (length cs + n) s'" "abs s' = a" by auto
    with Cons.IH [of s' "\<lambda>i. envs (Suc i)"] Cons.prems(2) Some show ?thesis
      by (simp add: run_Cons cong: option.case_cong)
  qed
qed (simp add: run_Nil)

lemma run_keeps:
  assumes "good (length cs + n) s" and "list_all cmd cs" and "run envs cs s = Some s'" and "J (abs s)"
    and keeps: "\<And>n s c a. good (Suc n) s \<Longrightarrow> J (abs s) \<Longrightarrow> spec c (abs s) = Some a \<Longrightarrow> J a"
  shows "good n s' \<and> J (abs s')"
  using assms(1-4)
proof (induction cs arbitrary: s envs)
  case (Cons c cs)
  from Cons.prems(3) obtain s1 where s1: "step (envs 0) c s = Some s1" "run (\<lambda>i. envs (Suc i)) cs s1 = Some s'"
    by (auto simp: run_Cons elim: bind_eq_SomeE)
  from step_spec [of "length cs + n" s c "envs 0"] Cons.prems(1,2) s1(1) obtain a where
    a: "spec c (abs s) = Some a" "good (length cs + n) s1" "abs s1 = a" by (auto split: option.splits)
  have "J (abs s1)" using keeps [of "length cs + n" s c a] Cons.prems(1,4) a by simp
  with Cons.IH [OF a(2) _ s1(2)] Cons.prems(2) show ?case by simp
qed (simp add: run_Nil)

end

subsection \<open>Running a log\<close>

fun run_log :: "(nat \<Rightarrow> Env) \<Rightarrow> Request list \<Rightarrow> 'db Server \<Rightarrow> 'db Server option" where
  "run_log envs [] srv = Some srv"
| "run_log envs (req # reqs) srv = do {
     srv \<leftarrow> onCommand (envs 0) req srv;
     run_log (\<lambda>i. envs (Suc i)) reqs srv }"

definition spec_log :: "Config \<Rightarrow> Request list \<Rightarrow> Replica \<Rightarrow> Replica option" where
  "spec_log cfg reqs ra = fold_opt (spec_command cfg) reqs ra"

text \<open>A leader has a waiting request for every command.\<close>

definition queue_ok :: "'db Server \<Rightarrow> nat \<Rightarrow> bool" where
  "queue_ok srv n \<longleftrightarrow> (sv_state srv = kLeader \<longrightarrow> n \<le> length (sv_requests srv))"

definition ready :: "'db Store \<Rightarrow> nat \<Rightarrow> 'db Server \<Rightarrow> bool" where
  "ready s n srv \<longleftrightarrow> replica_ok srv \<and> queue_ok srv n \<and> same_env s (sv_store srv)"

interpretation sm: state_machine onCommand run_log "spec_command (config_of s)" abs_of "ready s" replicable
  for s :: "'db Store"
proof unfold_locales
  fix n and srv :: "'db Server" and req env
  assume r: "ready s (Suc n) srv" and req: "replicable req"
  then have ok: "replica_ok srv" "same_env s (sv_store srv)" "sv_state srv = kLeader \<Longrightarrow> sv_requests srv \<noteq> []"
    by (auto simp: ready_def queue_ok_def)
  have q: "queue_ok srv' n" if "sv_state srv' = sv_state srv"
    "sv_requests srv' = (if sv_state srv = kLeader then tl (sv_requests srv) else sv_requests srv)" for srv' :: "'db Server"
    using r that by (auto simp: ready_def queue_ok_def)
  have e: "same_env s (sv_store srv')" if "same_env (sv_store srv) (sv_store srv')" for srv' :: "'db Server"
    using that ok(2) by (simp add: same_env_def)
  show "case spec_command (config_of s) req (abs_of srv) of None \<Rightarrow> onCommand env req srv = None
    | Some ra \<Rightarrow> \<exists>srv'. onCommand env req srv = Some srv' \<and> ready s n srv' \<and> abs_of srv' = ra"
    using onCommand_spec [OF ok(1) req ok(3), of env] config_same [OF ok(2)] q e
    by (auto simp: ready_def split: option.splits)
qed simp_all

lemma run_log_spec:
  assumes "replica_ok srv" and "list_all replicable reqs" and "queue_ok srv (length reqs)"
  shows "case spec_log (config_of (sv_store srv)) reqs (abs_of srv) of
      None \<Rightarrow> run_log envs reqs srv = None
    | Some ra \<Rightarrow> \<exists>srv'. run_log envs reqs srv = Some srv' \<and> replica_ok srv' \<and> abs_of srv' = ra
        \<and> same_env (sv_store srv) (sv_store srv')"
  using sm.run_spec [of "sv_store srv" reqs 0 srv envs] assms
  by (auto simp: spec_log_def ready_def same_env_def split: option.splits)

subsection \<open>Ephemeral nodes\<close>

text \<open>Ephemeral nodes have no children and hang below persistent nodes.\<close>

definition leaf_tree :: "(string \<rightharpoonup> Node) \<Rightarrow> bool" where
  "leaf_tree t \<longleftrightarrow> (\<forall>q n. t q = Some n \<longrightarrow> is_ephemeral n \<longrightarrow> nd_children n = []
     \<and> (\<exists>p son pn. SplitPath q = (OK, p, son) \<and> t p = Some pn \<and> \<not> is_ephemeral pn))"

lemma tree_ok_leaf:
  assumes "tree_ok s"
  shows "leaf_tree (key_tree s)"
  unfolding leaf_tree_def
proof (intro allI impI)
  fix q n
  assume n: "key_tree s q = Some n" and eph: "is_ephemeral n"
  note ok = assms [unfolded tree_ok_def]
  have q: "key_path q" "node_at s q = Some n" using n by (auto simp: key_tree_def split: if_splits)
  have nr: "q \<noteq> ''/''" using ok q(2) eph by (auto simp: root_ok_def)
  have parent: "\<exists>p son pn. SplitPath c = (OK, p, son) \<and> node_at s p = Some pn \<and> \<not> is_ephemeral pn"
    if "key_path c" "c \<noteq> ''/''" "node_at s c \<noteq> None" for c
    using ok that unfolding parents_ok_def by blast
  obtain p son pn where p: "SplitPath q = (OK, p, son)" "node_at s p = Some pn" "\<not> is_ephemeral pn"
    using parent [OF q(1) nr] q(2) by auto
  have "son' \<notin> set (nd_children n)" for son'
  proof
    assume "son' \<in> set (nd_children n)"
    then have "0 < count_list (nd_children n) son'" using count_list_0_iff neq0_conv by metis
    then have "0 < stored_children (node_at s) q son'"
      using ok q nr by (auto simp: children_ok_def)
    then obtain c where c: "c \<in> set (child_paths q son')" "node_at s c \<noteq> None"
      by (auto simp: stored_children_def filter_empty_conv)
    then have sp: "SplitPath c = (OK, q, son')" using SplitPath_child_paths by blast
    have "key_path c" "c \<noteq> ''/''" using c(1) q(1) nr by (auto simp: child_paths_def key_path_def split: if_splits)
    from parent [OF this c(2)] show False using q(2) eph sp by auto
  qed
  then have "nd_children n = []" by (cases "nd_children n") auto
  moreover have "key_tree s p = Some pn" using p(1,2) SplitPath_key_path q(1) by (simp add: key_tree_def)
  ultimately show "nd_children n = [] \<and> (\<exists>p son pn. SplitPath q = (OK, p, son) \<and> key_tree s p = Some pn \<and> \<not> is_ephemeral pn)"
    using p(1,3) by blast
qed

definition bare :: "Node \<Rightarrow> Node" where
  "bare n = n\<lparr>nd_children := []\<rparr>"

definition owned :: "sid_t \<Rightarrow> Node option \<Rightarrow> bool" where
  "owned sid n = (case n of None \<Rightarrow> False | Some n \<Rightarrow> nd_sid n = sid)"

lemma bare_drop_child: "bare (drop_child son n) = bare n"
  by (simp add: bare_def drop_child_def RemoveChild_def Let_def split: option.splits)

lemma bare_eq: "bare n = bare m \<Longrightarrow> nd_sid n = nd_sid m \<and> is_ephemeral n = is_ephemeral m"
  by (cases n; cases m) (simp add: bare_def is_ephemeral_def)

text \<open>Removing one owned, ephemeral node.\<close>

lemma destroy_leaf:
  assumes leaf: "leaf_tree t" and path: "IsValidPath path" "\<not> prefix (cf_root cfg) path"
    and eph: "\<And>n. t path = Some n \<Longrightarrow> nd_sid n = sid \<Longrightarrow> is_ephemeral n"
  obtains t' where "spec_destroy_node cfg sid path t = Some t'" "leaf_tree t'"
    "\<And>q. map_option bare (t' q) = (if q = path \<and> owned sid (t path) then None else map_option bare (t q))"
proof (cases "owned sid (t path)")
  case False
  then have "spec_destroy_node cfg sid path t = Some t"
    by (auto simp: spec_destroy_node_def owned_def split: option.splits)
  with that leaf False show thesis by auto
next
  case True
  then obtain n where n: "t path = Some n" "nd_sid n = sid" by (auto simp: owned_def split: option.splits)
  note e = eph [OF n]
  obtain p son pn where p: "SplitPath path = (OK, p, son)" "t p = Some pn" "\<not> is_ephemeral pn"
    and nc: "nd_children n = []" using leaf n(1) e unfolding leaf_tree_def by blast
  have pp: "p \<noteq> path" using p(2,3) n(1) e by auto
  define t' where "t' = t(path := None, p \<mapsto> drop_child son pn)"
  have run: "spec_destroy_node cfg sid path t = Some t'"
    using n p path nc by (simp add: spec_destroy_node_def tree_delete_def t'_def)
  have "leaf_tree t'"
    unfolding leaf_tree_def
  proof (intro allI impI)
    fix q m
    assume m: "t' q = Some m" "is_ephemeral m"
    have qp: "q \<noteq> p" using m p(3) by (auto simp: t'_def drop_child_spec)
    then have tq: "t q = Some m" using m by (auto simp: t'_def split: if_splits)
    obtain p2 son2 pn2 where p2: "nd_children m = []" "SplitPath q = (OK, p2, son2)" "t p2 = Some pn2"
      "\<not> is_ephemeral pn2" using leaf tq m(2) unfolding leaf_tree_def by blast
    have "p2 \<noteq> path" using p2(3,4) n(1) e by auto
    then have "\<exists>pn. t' p2 = Some pn \<and> \<not> is_ephemeral pn"
      using p2(3,4) p(2,3) by (auto simp: t'_def drop_child_spec)
    then show "nd_children m = [] \<and> (\<exists>p son pn. SplitPath q = (OK, p, son) \<and> t' p = Some pn \<and> \<not> is_ephemeral pn)"
      using p2(1,2) by blast
  qed
  moreover have "map_option bare (t' q) = (if q = path \<and> owned sid (t path) then None else map_option bare (t q))" for q
    using True pp p(2) by (auto simp: t'_def bare_drop_child)
  ultimately show thesis using that run by blast
qed

lemma owned_bare: "map_option bare a = map_option bare b \<Longrightarrow> owned sid a = owned sid b"
  by (cases a; cases b) (auto simp: owned_def dest: bare_eq)

lemma destroy_leaves:
  assumes "leaf_tree t" and "\<forall>p \<in> set ns. IsValidPath p \<and> \<not> prefix (cf_root cfg) p"
    and "\<forall>p \<in> set ns. \<forall>n. t p = Some n \<longrightarrow> nd_sid n = sid \<longrightarrow> is_ephemeral n"
  shows "\<exists>t'. fold_opt (spec_destroy_node cfg sid) ns t = Some t'
    \<and> (\<forall>q. map_option bare (t' q) = (if q \<in> set ns \<and> owned sid (t q) then None else map_option bare (t q)))"
  using assms
proof (induction ns arbitrary: t)
  case (Cons p ns)
  obtain t1 where t1: "spec_destroy_node cfg sid p t = Some t1" "leaf_tree t1"
    "\<And>q. map_option bare (t1 q) = (if q = p \<and> owned sid (t p) then None else map_option bare (t q))"
    by (rule destroy_leaf [OF Cons.prems(1), of p cfg sid]) (use Cons.prems(2,3) in auto)
  have kept: "t1 q = None \<or> map_option bare (t1 q) = map_option bare (t q)" for q using t1(3) [of q] by auto
  have "is_ephemeral n" if n: "q \<in> set ns" "t1 q = Some n" "nd_sid n = sid" for q n
  proof -
    obtain m where m: "t q = Some m" "bare n = bare m" using kept [of q] n(2) by (cases "t q") auto
    then show ?thesis using bare_eq [OF m(2)] Cons.prems(3) n by auto
  qed
  then obtain t2 where t2: "fold_opt (spec_destroy_node cfg sid) ns t1 = Some t2"
    "\<forall>q. map_option bare (t2 q) = (if q \<in> set ns \<and> owned sid (t1 q) then None else map_option bare (t1 q))"
    using Cons.IH [OF t1(2)] Cons.prems(2) by auto
  have own1: "owned sid (t1 q) \<longleftrightarrow> owned sid (t q) \<and> q \<noteq> p" for q
    using t1(3) [of q] owned_bare [of "t1 q" "t q" sid] by (cases "q = p \<and> owned sid (t p)") (auto simp: owned_def)
  have "map_option bare (t2 q) = (if q \<in> set (p # ns) \<and> owned sid (t q) then None else map_option bare (t q))" for q
    using t2(2) t1(3) [of q] own1 [of q] by auto
  then show ?case using t1(1) t2(1) by auto
qed simp

lemma onUnRegister_removes:
  assumes inv: "replica_ok srv" and s: "SM_Get (sv_sm srv) (req_sid req) = Some s"
    and eph: "\<forall>p \<in> set (ss_nodeSet s). \<forall>n. key_tree (sv_store srv) p = Some n \<longrightarrow> nd_sid n = req_sid req \<longrightarrow> is_ephemeral n"
  shows "\<exists>srv'. onUnRegister env req srv = Some (OK, srv') \<and> replica_ok srv'
    \<and> SM_Get (sv_sm srv') (req_sid req) = None \<and> stored_session (sv_store srv') (req_sid req) = None
    \<and> (\<forall>q. map_option bare (key_tree (sv_store srv') q) =
         (if q \<in> set (ss_nodeSet s) \<and> owned (req_sid req) (key_tree (sv_store srv) q) then None
          else map_option bare (key_tree (sv_store srv) q)))"
proof -
  let ?cfg = "config_of (sv_store srv)" and ?sid = "req_sid req" and ?t = "key_tree (sv_store srv)"
  have sok: "store_ok (sv_store srv)" by (rule store_goodD(5) [OF replica_okD(1) [OF inv]])
  have "tree_ok (sv_store srv)" using store_goodD(1) [OF replica_okD(1) [OF inv]] by (simp add: store_inv_def)
  note leaf = tree_ok_leaf [OF this]
  have ns: "\<forall>p \<in> set (ss_nodeSet s). IsValidPath p \<and> \<not> prefix (cf_root ?cfg) p"
    using replica_okD(3) [OF inv] s by (auto simp: nodes_ok_def config_of_def under_proc_prefix [OF sok])
  obtain t' where t': "fold_opt (spec_destroy_node ?cfg ?sid) (ss_nodeSet s) ?t = Some t'"
    "\<forall>q. map_option bare (t' q) = (if q \<in> set (ss_nodeSet s) \<and> owned ?sid (?t q) then None else map_option bare (?t q))"
    using destroy_leaves [OF leaf ns eph] by blast
  have spec: "spec_unregister ?cfg ?sid (abs_of srv) = Some ((abs_of srv)\<lparr>ra_tree := t',
      ra_nodes := (ra_nodes (abs_of srv))(?sid := None), ra_sess := (ra_sess (abs_of srv))(?sid := None)\<rparr>)"
    (is "_ = Some ?ra")
    using s t'(1) by (simp add: spec_unregister_def)
  with onUnRegister_spec [OF inv, of req env] obtain st srv' where
    u: "onUnRegister env req srv = Some (st, srv')" "replica_ok srv'" "abs_of srv' = ?ra"
    by (auto simp: implements_def)
  have st: "st = OK" using u(1) s by (auto simp: onUnRegister_def Let_def elim!: bind_eq_SomeE)
  have "ra_tree (abs_of srv') = t'" "ra_nodes (abs_of srv') ?sid = None" "ra_sess (abs_of srv') ?sid = None"
    unfolding u(3) by simp_all
  then show ?thesis using u(1,2) t'(2) by (simp add: st)
qed

subsection \<open>Starting\<close>

lemma Server_new_ok:
  assumes s: "s = \<lparr>so_persist = db, so_procRoot = op_ProcRoot opts, so_lib = X, so_max_node_size = max_node_size\<rparr>"
    and empty: "store_view s = Map.empty" and ok_s: "store_ok s" and rel: "db_reliable (ldb X)" and len: "length (op_ProcRoot opts) \<le> length ''/pyxis''"
    and fits: "node_ByteSize (pb X) (root_node (op_ProcRoot opts)) \<le> max_bytes s"
  obtains srv where "Server_new env X max_node_size opts db = Some srv" "replica_ok srv"
    "abs_of srv = \<lparr>ra_tree = [''/'' \<mapsto> root_node (op_ProcRoot opts)], ra_nodes = Map.empty, ra_sess = Map.empty\<rparr>"
    "config_of (sv_store srv) = config_of s" "sv_state srv = kFollower" "sv_loop srv = At_main"
    "sv_requests srv = []" "sv_sm srv = SessionManager_new (en_now env) (op_SessionCheckInterval opts)"
    "so_lib (sv_store srv) = X"
proof -
  define srv0 where "srv0 = \<lparr>sv_options = opts, sv_state = kFollower, sv_requests = [], sv_eventch = [],
            sv_cmdch = [], sv_statech = [], sv_store = s,
            sv_sm = SessionManager_new (en_now env) (op_SessionCheckInterval opts),
            sv_wm = [], sv_logIndex = 0, sv_loop = At_main, sv_out = []\<rparr>"
  have wr: "\<not> write_refused s" using rel by (simp add: db_reliable_def write_refused_def s)
  from Store_init_empty [OF ok_s empty _ wr, of "server_proc env srv0"] fits obtain store where
    st: "Store_init s (server_proc env srv0) = Some store" "store_inv store"
    "node_at store = [''/'' \<mapsto> root_node (op_ProcRoot opts)]" "same_env s store"
    "\<forall>k. k \<noteq> ''/'' \<longrightarrow> store_view store k = None" by (auto simp: s)
  define srv where "srv = srv0\<lparr>sv_store := store\<rparr>"
  have run: "Server_new env X max_node_size opts db = Some srv"
    using st(1) by (simp add: Server_new_def Let_def srv_def srv0_def s)
  have keys: "SESSION_PREFIX @ r \<noteq> ''/''" "COMMIT_PREFIX \<noteq> ''/''" "session_key sid \<noteq> ''/''" for r sid
    by (simp_all add: SESSION_PREFIX_def COMMIT_PREFIX_def session_key_def)
  have good: "store_good store"
    using st(2,4,5) rel keys by (simp add: store_good_def sessions_ok_def commit_ok_def same_env_def s)
  have sm: "sm_inv (SessionManager_new now i)" and get: "SM_Get (SessionManager_new now i) sid = None" for now i sid
    by (simp_all add: sm_inv_def sessions_wf_def timers_wf_def timers_sound_def SessionManager_new_def SM_Get_def
        timer_set_def om_invar_def)
  have "replica_ok srv"
    using good sm get len by (simp add: replica_ok_def nodes_ok_def srv_def srv0_def)
  moreover have "abs_of srv = \<lparr>ra_tree = [''/'' \<mapsto> root_node (op_ProcRoot opts)], ra_nodes = Map.empty, ra_sess = Map.empty\<rparr>"
    using st(3,5) get keys by (auto simp: abs_of_def srv_def srv0_def key_tree_def stored_session_def fun_eq_iff)
  moreover have "config_of (sv_store srv) = config_of s" using config_same [OF st(4)] by (simp add: srv_def)
  moreover have "so_lib (sv_store srv) = X" using st(4) by (simp add: srv_def same_env_def s)
  ultimately show thesis using that run by (simp add: srv_def srv0_def)
qed

subsection \<open>What a log does\<close>

text \<open>
  C3. Running a log of committed commands is what the specification of the replicated state
  machine says: on a well-formed replica with a reliable database, in any role and at any time,
  the replica aborts exactly when the specification has no result, and otherwise its tree, its
  session records and its sessions' ephemeral nodes are those of the specification, and it is
  well-formed again.
\<close>

theorem run_log_refines:
  assumes "replica_ok srv" and "list_all replicable reqs" and "queue_ok srv (length reqs)"
  shows "case spec_log (config_of (sv_store srv)) reqs (abs_of srv) of
      None \<Rightarrow> run_log envs reqs srv = None
    | Some ra \<Rightarrow> \<exists>srv'. run_log envs reqs srv = Some srv' \<and> replica_ok srv' \<and> abs_of srv' = ra"
  using run_log_spec [OF assms, of envs] by (auto split: option.splits)

text \<open>
  Replicas agree: two well-formed replicas with the same tree, session records and
  ephemeral nodes and the same limits, each in its own role, with its own clock, database,
  watchers, timers and waiting requests, run the same log and end with the same tree, session
  records and ephemeral nodes, or both abort.
\<close>

theorem replicas_agree:
  fixes a :: "'a Server" and b :: "'b Server"
  assumes "replica_ok a" and "replica_ok b" and "abs_of a = abs_of b"
    and "config_of (sv_store a) = config_of (sv_store b)" and "list_all replicable reqs"
    and "queue_ok a (length reqs)" and "queue_ok b (length reqs)"
  shows "run_log envs reqs a = None \<and> run_log envs' reqs b = None
    \<or> (\<exists>a' b'. run_log envs reqs a = Some a' \<and> run_log envs' reqs b = Some b'
         \<and> replica_ok a' \<and> replica_ok b' \<and> abs_of a' = abs_of b')"
  using run_log_spec [OF assms(1,5,6), of envs] run_log_spec [OF assms(2,5,7), of envs'] assms(3,4)
  by (auto split: option.splits)

text \<open>
  C20. A session's ephemeral nodes go with it: unregistering a session, all of whose nodes that still exist under its id
  are ephemeral, returns \<open>OK\<close> and removes the session, its record in the database and exactly the
  nodes in its set that still carry its id; every other node stays, with its data, flags,
  version and owner.
\<close>

theorem unregister_removes_ephemerals:
  assumes "replica_ok srv" and "SM_Get (sv_sm srv) (req_sid req) = Some s"
    and "\<forall>p \<in> set (ss_nodeSet s). \<forall>n. key_tree (sv_store srv) p = Some n \<longrightarrow> nd_sid n = req_sid req \<longrightarrow> is_ephemeral n"
  shows "\<exists>srv'. onUnRegister env req srv = Some (OK, srv') \<and> replica_ok srv'
    \<and> SM_Get (sv_sm srv') (req_sid req) = None \<and> stored_session (sv_store srv') (req_sid req) = None
    \<and> (\<forall>q. map_option bare (key_tree (sv_store srv') q) =
         (if q \<in> set (ss_nodeSet s) \<and> owned (req_sid req) (key_tree (sv_store srv) q) then None
          else map_option bare (key_tree (sv_store srv) q)))"
  using onUnRegister_removes [OF assms, of env] .

text \<open>
  C29. A request that carries both a read and a write, and no watch, is broadcast, and its
  command brings down every replica that runs it: the chain of tests in \<^verbatim>\<open>onCommand\<close> looks at the
  read before the write, and \<^verbatim>\<open>onRead\<close> checks that there is a watch.
\<close>

theorem read_write_aborts:
  assumes "rq_read req \<noteq> None" and "rq_write req \<noteq> None" and "rq_watch req = None"
    and "rq_register req = None" and "\<not> rq_unregister req" and "rq_create req = None" and "rq_delete req = None"
  shows "needBoradcast req \<and> onCommand env req srv = None"
  using assms
  by (auto simp: needBoradcast_def onCommand_def run_command_def onRead_def split: list.splits)

end
