(* ===== verification/Server_Loops.thy ===== *)
theory Server_Loops
  imports Server_Commands
begin

text \<open>
  The rest of \<^verbatim>\<open>server/server.cc\<close>: the requests of the leader's clients, the callbacks of the
  raft library, recovery from the database, and the three loops of the main thread, one
  iteration at a time. The callbacks of the raft library run in its own thread; here they are
  steps between the iterations.
\<close>

subsection \<open>Requests\<close>

definition replicate_cmd :: "Request \<Rightarrow> 'db Server \<Rightarrow> 'db Server" where
  "replicate_cmd cmd srv = emit [Broadcast (request_SerializeAsString (pb (sv_lib srv)) cmd)] srv"

definition push_request :: "Event \<Rightarrow> 'db Server \<Rightarrow> 'db Server" where
  "push_request e srv = srv\<lparr>sv_requests := sv_requests srv @ [e]\<rparr>"

definition clamp_timeout :: "Options \<Rightarrow> int \<Rightarrow> int" where
  "clamp_timeout opts timeout =
     (let timeout = (if timeout < op_MinSessionTimeout opts then op_MinSessionTimeout opts else timeout)
      in if timeout > op_MaxSessionTimeout opts then op_MaxSessionTimeout opts else timeout)"

text \<open>An event that nothing refers to any more when the handler returns sends its response.\<close>

definition handleRegister :: "Event \<Rightarrow> 'db Server \<Rightarrow> 'db Server" where
  "handleRegister e srv =
     (let req = ev_Req e;
          timeout = clamp_timeout (sv_options srv) (sint (req_timeout req))
      in case rq_sid req of
           Some sid \<Rightarrow>
             if SM_Get (sv_sm srv) sid \<noteq> None then
               emit [Reply (e\<lparr>ev_Rep := (ev_Rep e)\<lparr>rp_sid := Some sid\<rparr>\<rparr>)]
                 (sv_adjust sid (SetTimeout timeout) srv)
             else
               emit [Reply (e\<lparr>ev_Rep := (ev_Rep e)\<lparr>rp_err :=
                  Some \<lparr>err_type = rpc_kSessionExpired, err_data = None\<rparr>\<rparr>\<rparr>)] srv
         | None \<Rightarrow>
             (case GenSid (sv_sm srv) of (sid, sm) \<Rightarrow>
                replicate_cmd (Request_default\<lparr>rq_sid := Some sid, rq_register := Some (word_of_int timeout)\<rparr>)
                  (push_request e (srv\<lparr>sv_sm := sm\<rparr>))))"

definition sv_Touch :: "Env \<Rightarrow> sid_t \<Rightarrow> 'db Server \<Rightarrow> 'db Server option" where
  "sv_Touch env sid srv =
     map_option (\<lambda>sm. srv\<lparr>sv_sm := sm\<rparr>) (Touch (sv_lib srv) (en_now env) sid (sv_sm srv))"

definition handlePing :: "Env \<Rightarrow> Event \<Rightarrow> 'db Server \<Rightarrow> (Status \<times> 'db Server) option" where
  "handlePing env e srv =
     (let sid = req_sid (ev_Req e); st = getSession sid srv in
      if \<not> ok st then Some (st, srv)
      else do {
        srv \<leftarrow> sv_Touch env sid srv;
        let srv = sv_session sid (HoldPing e) srv;
        Some (OK, (case SM_Get (sv_sm srv) sid of
            Some s \<Rightarrow> if HasPendingWatcher s then sv_session sid (PingBack (en_now env)) srv else srv
          | None \<Rightarrow> srv)) })"

definition handleRead :: "Env \<Rightarrow> Event \<Rightarrow> 'db Server \<Rightarrow> (Status \<times> Event \<times> 'db Server) option" where
  "handleRead env e srv =
     (let req = ev_Req e; st = getSession (req_sid req) srv in
      if \<not> ok st then Some (st, e, srv)
      else do {
        (st, data) \<leftarrow> Store_Read (sv_store srv) (server_proc env srv) (req_path (rq_read req));
        if \<not> ok st then Some (st, e, srv)
        else
          (let e = e\<lparr>ev_Rep := (ev_Rep e)\<lparr>rp_data := Some data\<rparr>\<rparr> in
           if rq_watch req \<noteq> None then (case onWatch req srv of (st, srv) \<Rightarrow> Some (st, e, srv))
           else Some (OK, e, srv)) })"

definition handleStat :: "Env \<Rightarrow> Event \<Rightarrow> 'db Server \<Rightarrow> (Status \<times> Event \<times> 'db Server) option" where
  "handleStat env e srv =
     (let req = ev_Req e; st = getSession (req_sid req) srv in
      if \<not> ok st then Some (st, e, srv)
      else do {
        (st, node) \<leftarrow> Store_Get (sv_store srv) (server_proc env srv) (req_path (rq_stat req));
        if \<not> ok st then
          (if \<not> (IsNotFound st \<and> rq_watch req \<noteq> None) then Some (st, e, srv)
           else (case onWatch req srv of (st1, srv) \<Rightarrow> Some (if \<not> ok st1 then st1 else st, e, srv)))
        else
          (let e = e\<lparr>ev_Rep := (ev_Rep e)\<lparr>rp_data :=
                 Some (snd (node_SerializeToString (pb (sv_lib srv)) node))\<rparr>\<rparr> in
           if rq_watch req \<noteq> None then (case onWatch req srv of (st, srv) \<Rightarrow> Some (st, e, srv))
           else Some (OK, e, srv)) })"

text \<open>The end of \<^verbatim>\<open>handleEvent\<close>: a failure is put into the response, and the caller's reference
  goes away.\<close>

definition finish_event :: "Status \<Rightarrow> Event \<Rightarrow> 'db Server \<Rightarrow> 'db Server" where
  "finish_event st e srv = emit (Event_destroy (if \<not> ok st then fail_event st e else e)) srv"

definition handleEvent :: "Env \<Rightarrow> Event \<Rightarrow> 'db Server \<Rightarrow> 'db Server option" where
  "handleEvent env e srv =
     (let req = ev_Req e; sid = req_sid req in
      if rq_register req \<noteq> None then Some (handleRegister e srv)
      else if SM_Get (sv_sm srv) sid = None then
        Some (finish_event (SessionExpired ''session expired'') e srv)
      else do {
        srv \<leftarrow> (if \<not> rq_ping req \<and> \<not> rq_unregister req then sv_Touch env sid srv else Some srv);
        if needBoradcast req then Some (push_request e (replicate_cmd req srv))
        else if rq_ping req then do {
          (st, srv) \<leftarrow> handlePing env e srv;
          Some (if \<not> ok st then finish_event st e srv else srv) }
        else if rq_read req \<noteq> None then do {
          (st, e, srv) \<leftarrow> handleRead env e srv; Some (finish_event st e srv) }
        else if rq_stat req \<noteq> None then do {
          (st, e, srv) \<leftarrow> handleStat env e srv; Some (finish_event st e srv) }
        else if rq_watch req \<noteq> None then
          (case onWatch req srv of (st, srv) \<Rightarrow> Some (finish_event st e srv))
        else Some (finish_event OK e srv) })"

subsection \<open>Expiry\<close>

text \<open>\<^verbatim>\<open>onSessionClosed\<close> makes an unregister request of its own; closure 0 is the empty callback.\<close>

definition close_event :: "sid_t \<Rightarrow> Event" where
  "close_event sid =
     \<lparr>ev_Req = Request_default\<lparr>rq_sid := Some sid, rq_unregister := True\<rparr>,
      ev_Rep = Response_default, ev_Addr = ''-'', ev_done = 0\<rparr>"

definition onSessionClosed :: "Env \<Rightarrow> sid_t \<Rightarrow> 'db Server \<Rightarrow> 'db Server option" where
  "onSessionClosed env sid srv = (case SM_Get (sv_sm srv) sid of
       None \<Rightarrow> None
     | Some s \<Rightarrow>
         if ss_active s then None
         else handleEvent env (close_event sid) (emit [Log_session sid ''expire''] srv))"

definition close_due :: "Env \<Rightarrow> sid_t \<Rightarrow> 'db Server \<Rightarrow> 'db Server option" where
  "close_due env sid srv = (case SM_Get (sv_sm srv) sid of
       None \<Rightarrow> None
     | Some s \<Rightarrow> if ss_active s then onSessionClosed env sid (sv_adjust sid Close srv) else Some srv)"

text \<open>\<^verbatim>\<open>SessionManager::Step\<close> with its callback, and the time of the next check.\<close>

definition server_Step :: "Env \<Rightarrow> 'db Server \<Rightarrow> (timestamp \<times> 'db Server) option" where
  "server_Step env srv = do {
     srv \<leftarrow> fold_opt (close_due env) (due_sessions (en_now env) (sv_sm srv)) srv;
     Some (next_check (sv_lib srv) (en_now2 env) (sv_sm srv), srv) }"

definition pingBack :: "Env \<Rightarrow> SessionSet \<Rightarrow> 'db Server \<Rightarrow> 'db Server" where
  "pingBack env sessions srv = fold (\<lambda>x srv. sv_session (snd x) (PingBack (en_now env)) srv) sessions srv"

subsection \<open>The callbacks of the raft library\<close>

definition onState :: "Env \<Rightarrow> int \<Rightarrow> 'db Server \<Rightarrow> 'db Server" where
  "onState env state srv =
     (let again = map (\<lambda>e. Reply (fail_event (Again ''net error, try again'') e)) (sv_requests srv)
      in case ResetPendingPing (en_now env) (sv_sm srv) of (sm, es) \<Rightarrow>
           emit (again @ es) (srv\<lparr>sv_requests := [], sv_sm := sm, sv_statech := sv_statech srv @ [state]\<rparr>))"

definition onSynced :: "u64 \<Rightarrow> string \<Rightarrow> 'db Server \<Rightarrow> 'db Server option" where
  "onSynced index data srv =
     (case Store_SetCommitIndex (sv_store srv) index of (st, store) \<Rightarrow>
        if \<not> ok st then None
        else (case request_ParseFromString (pb (sv_lib srv)) data of (r, cmd) \<Rightarrow>
          if \<not> r then None
          else Some (srv\<lparr>sv_logIndex := index, sv_store := store, sv_cmdch := sv_cmdch srv @ [cmd]\<rparr>)))"

definition DEFAULT_TIMEOUT :: int where "DEFAULT_TIMEOUT = 4 * 60 * 1000"

definition sv_Add :: "Env \<Rightarrow> Session \<Rightarrow> 'db Server \<Rightarrow> 'db Server option" where
  "sv_Add env s srv = do {
     (sm, store) \<leftarrow> SM_Add (en_now env) s (sv_sm srv) (sv_store srv);
     Some (srv\<lparr>sv_sm := sm, sv_store := store\<rparr>) }"

definition walkSessionFunc :: "Env \<Rightarrow> StoredSession \<Rightarrow> 'db Server \<Rightarrow> 'db Server option" where
  "walkSessionFunc env s srv = do {
     srv \<leftarrow> sv_Add env (Session_new (en_addr env) (en_now env) (sp_sid s) (sint (sp_timeout s))) srv;
     Some (emit [Log_session (sp_sid s) ''restore''] srv) }"

definition walkTreeFunc :: "Env \<Rightarrow> string \<Rightarrow> Node \<Rightarrow> 'db Server \<Rightarrow> 'db Server option" where
  "walkTreeFunc env p node srv =
     (if is_ephemeral node then do {
        srv \<leftarrow> (if SM_Get (sv_sm srv) (nd_sid node) = None then do {
            srv \<leftarrow> sv_Add env (Session_new (en_addr env) (en_now env) (nd_sid node) DEFAULT_TIMEOUT) srv;
            Some (emit [Log_session (nd_sid node) ''restoree''] srv) }
          else Some srv);
        Some (sv_adjust (nd_sid node) (BindNode p) srv) }
      else Some srv)"

definition onLoadSnapshot :: "Env \<Rightarrow> 'db Server \<Rightarrow> (u64 \<times> 'db Server) option" where
  "onLoadSnapshot env srv = do {
     (st, srv) \<leftarrow> Store_WalkSessions (sv_store srv) (walkSessionFunc env) srv;
     if \<not> ok st then None
     else do {
       (st, srv) \<leftarrow> Store_WalkTree (sv_store srv) (walkTreeFunc env) srv;
       if \<not> ok st then None
       else do {
         (st, idx) \<leftarrow> Store_GetCommitIndex (sv_store srv);
         (case idx of Some i \<Rightarrow> if ok st then Some (i, srv) else None | None \<Rightarrow> None) } } }"

definition ReceiveEvent :: "Event \<Rightarrow> 'db Server \<Rightarrow> 'db Server" where
  "ReceiveEvent e srv = srv\<lparr>sv_eventch := sv_eventch srv @ [e]\<rparr>"

definition Server_Stop :: "'db Server \<Rightarrow> 'db Server" where
  "Server_Stop srv = srv\<lparr>sv_statech := sv_statech srv @ [raft_STOP (sv_lib srv)]\<rparr>"

subsection \<open>The loops\<close>

text \<open>The channel that \<^verbatim>\<open>Selector::Wait\<close> chose. (\<^verbatim>\<open>taskch_\<close> is left out: nothing ever puts a
  task into it.) An empty channel is never chosen; the model then does nothing.\<close>

datatype choice = Choose_state | Choose_event | Choose_cmd | Choose_timer

definition leaderLoop_enter :: "Env \<Rightarrow> 'db Server \<Rightarrow> 'db Server option" where
  "leaderLoop_enter env srv = do {
     sm \<leftarrow> ResetTimer (sv_lib srv) (en_nows env) (sv_sm srv);
     let srv = srv\<lparr>sv_sm := ResetWatchers sm, sv_wm := WM_Reset (sv_wm srv)\<rparr>;
     (timeout, srv) \<leftarrow> server_Step env srv;
     Some (srv\<lparr>sv_loop := In_leader timeout\<rparr>) }"

definition leaderLoop :: "Env \<Rightarrow> choice \<Rightarrow> 'db Server \<Rightarrow> 'db Server option" where
  "leaderLoop env ch srv = (case ch of
       Choose_state \<Rightarrow>
         (case sv_statech srv of
            [] \<Rightarrow> Some srv
          | state # rest \<Rightarrow>
              Some (srv\<lparr>sv_statech := rest, sv_loop := At_main,
                sv_state := (if state = raft_STOP (sv_lib srv) then kStop else kFollower)\<rparr>))
     | Choose_event \<Rightarrow>
         (case sv_eventch srv of
            [] \<Rightarrow> Some srv
          | e # rest \<Rightarrow> handleEvent env e (srv\<lparr>sv_eventch := rest\<rparr>))
     | Choose_cmd \<Rightarrow>
         (case sv_cmdch srv of
            [] \<Rightarrow> Some srv
          | cmd # rest \<Rightarrow> onCommand env cmd (srv\<lparr>sv_cmdch := rest\<rparr>))
     | Choose_timer \<Rightarrow> do {
         (timeout, srv) \<leftarrow> server_Step env srv;
         let srv = srv\<lparr>sv_loop := In_leader timeout\<rparr>;
         Some (case GetSessions timeout (sv_sm srv) of None \<Rightarrow> srv | Some b \<Rightarrow> pingBack env b srv) })"

definition redirect_event :: "Env \<Rightarrow> Event \<Rightarrow> 'db Server \<Rightarrow> 'db Server" where
  "redirect_event env e srv =
     (if en_LeaderId env = 0 then emit (Event_destroy (fail_event (Again ''try again'') e)) srv
      else emit (Event_destroy (fail_event (NotLeader (leader_addr (sv_options srv) (en_LeaderId env))) e)) srv)"

definition followerLoop :: "Env \<Rightarrow> choice \<Rightarrow> 'db Server \<Rightarrow> 'db Server option" where
  "followerLoop env ch srv = (case ch of
       Choose_state \<Rightarrow>
         (case sv_statech srv of
            [] \<Rightarrow> Some srv
          | state # rest \<Rightarrow>
              (let srv = srv\<lparr>sv_statech := rest\<rparr> in
               Some (if state = raft_STOP (sv_lib srv) then srv\<lparr>sv_state := kStop, sv_loop := At_main\<rparr>
                     else if state = raft_LEADER (sv_lib srv) then
                       srv\<lparr>sv_state := kWaiter, sv_loop := At_main\<rparr>
                     else srv)))
     | Choose_cmd \<Rightarrow>
         (case sv_cmdch srv of
            [] \<Rightarrow> Some srv
          | cmd # rest \<Rightarrow> onCommand env cmd (srv\<lparr>sv_cmdch := rest\<rparr>))
     | Choose_event \<Rightarrow>
         (case sv_eventch srv of
            [] \<Rightarrow> Some srv
          | e # rest \<Rightarrow> Some (redirect_event env e (srv\<lparr>sv_eventch := rest\<rparr>)))
     | Choose_timer \<Rightarrow> Some srv)"

definition waitLoop_enter :: "Env \<Rightarrow> 'db Server \<Rightarrow> 'db Server" where
  "waitLoop_enter env srv =
     (let tag = (word_of_int (en_now env) :: u64) in
      replicate_cmd (Request_default\<lparr>rq_sid := Some tag, rq_ping := True\<rparr>) (srv\<lparr>sv_loop := In_wait tag\<rparr>))"

text \<open>\<^verbatim>\<open>CHECK(state != kLeader)\<close> compares raft's state with the first member of the server's own
  enumeration, which is 0.\<close>

definition waitLoop :: "Env \<Rightarrow> u64 \<Rightarrow> choice \<Rightarrow> 'db Server \<Rightarrow> 'db Server option" where
  "waitLoop env tag ch srv = (case ch of
       Choose_state \<Rightarrow>
         (case sv_statech srv of
            [] \<Rightarrow> Some srv
          | state # rest \<Rightarrow>
              (let srv = srv\<lparr>sv_statech := rest, sv_loop := At_main\<rparr> in
               if state = raft_STOP (sv_lib srv) then Some (srv\<lparr>sv_state := kStop\<rparr>)
               else if state = 0 then None
               else Some (srv\<lparr>sv_state := kFollower\<rparr>)))
     | Choose_cmd \<Rightarrow>
         (case sv_cmdch srv of
            [] \<Rightarrow> Some srv
          | cmd # rest \<Rightarrow>
              (let srv = srv\<lparr>sv_cmdch := rest\<rparr> in
               if rq_ping cmd \<and> req_sid cmd = tag then
                 Some (srv\<lparr>sv_state := kLeader, sv_loop := At_main\<rparr>)
               else onCommand env cmd srv))
     | _ \<Rightarrow> Some srv)"

text \<open>One iteration of whatever loop the main thread is in.\<close>

definition mainLoop :: "Env \<Rightarrow> choice \<Rightarrow> 'db Server \<Rightarrow> 'db Server option" where
  "mainLoop env ch srv = (case sv_loop srv of
       At_main \<Rightarrow>
         (case sv_state srv of
            kFollower \<Rightarrow> Some (srv\<lparr>sv_loop := In_follower\<rparr>)
          | kWaiter \<Rightarrow> Some (waitLoop_enter env srv)
          | kLeader \<Rightarrow> leaderLoop_enter env srv
          | kStop \<Rightarrow> Some (srv\<lparr>sv_loop := Returned\<rparr>))
     | In_leader _ \<Rightarrow> leaderLoop env ch srv
     | In_follower \<Rightarrow> followerLoop env ch srv
     | In_wait tag \<Rightarrow> waitLoop env tag ch srv
     | Returned \<Rightarrow> Some srv)"

text \<open>A step of the whole replica: an iteration of the main thread, a request from the network,
  or a call from the raft library.\<close>

datatype action =
    Act_loop choice
  | Act_event Event
  | Act_synced u64 string
  | Act_state int
  | Act_stop

definition server_act :: "Env \<Rightarrow> action \<Rightarrow> 'db Server \<Rightarrow> 'db Server option" where
  "server_act env act srv = (case act of
       Act_loop ch \<Rightarrow> mainLoop env ch srv
     | Act_event e \<Rightarrow> Some (ReceiveEvent e srv)
     | Act_synced index data \<Rightarrow> onSynced index data srv
     | Act_state state \<Rightarrow> Some (onState env state srv)
     | Act_stop \<Rightarrow> Some (Server_Stop srv))"

definition server_run :: "(Env \<times> action) list \<Rightarrow> 'db Server \<Rightarrow> 'db Server option" where
  "server_run acts srv = fold_opt (\<lambda>(env, act). server_act env act) acts srv"

end
