(* ===== verification/Recovery.thy ===== *)
theory Recovery
  imports Replica_Log Server_Loops
begin

text \<open>
  Starting again on an existing database: \<^verbatim>\<open>Server::onLoadSnapshot\<close> walks over the stored sessions
  and over the tree, and makes the sessions with their ephemeral nodes anew. On the replicated
  state this is a sequence of registrations and bindings, whose result is computed here.
\<close>

subsection \<open>The steps, on the replicated state\<close>

definition spec_restore :: "StoredSession \<Rightarrow> Replica \<Rightarrow> Replica" where
  "spec_restore ss ra = spec_register (sp_sid ss) (sp_timeout ss) ra"

definition spec_bind :: "string \<times> Node \<Rightarrow> Replica \<Rightarrow> Replica" where
  "spec_bind e ra = (case e of (p, n) \<Rightarrow>
     if is_ephemeral n then
       (let sid = nd_sid n;
            ra = (if ra_nodes ra sid = None then spec_register sid 240000 ra else ra)
        in ra\<lparr>ra_nodes := (ra_nodes ra)(sid := map_option (os_insert p) (ra_nodes ra sid))\<rparr>)
     else ra)"

text \<open>The ephemeral nodes of a session among some entries.\<close>

definition nodes_in :: "(string \<times> Node) list \<Rightarrow> sid_t \<Rightarrow> string set" where
  "nodes_in E sid = {p. \<exists>n. (p, n) \<in> set E \<and> is_ephemeral n \<and> nd_sid n = sid}"

lemma restore_all:
  "ra_tree (fold spec_restore L ra) = ra_tree ra
   \<and> ra_nodes (fold spec_restore L ra) sid =
       (if ra_nodes ra sid = None \<and> sid \<in> sp_sid ` set L then Some [] else ra_nodes ra sid)"
  by (induction L arbitrary: ra) (auto simp: spec_restore_def spec_register_def split: option.splits)

lemma bind_all:
  "ra_tree (fold spec_bind E ra) = ra_tree ra
   \<and> map_option set (ra_nodes (fold spec_bind E ra) sid) =
       (if nodes_in E sid = {} then map_option set (ra_nodes ra sid)
        else Some (nodes_in E sid \<union> (case ra_nodes ra sid of None \<Rightarrow> {} | Some ns \<Rightarrow> set ns)))"
proof (induction E arbitrary: ra)
  case Nil
  then show ?case by (simp add: nodes_in_def)
next
  case (Cons e E)
  obtain p n where e: "e = (p, n)" by (cases e)
  have nodes: "nodes_in (e # E) sid = (if is_ephemeral n \<and> nd_sid n = sid then {p} else {}) \<union> nodes_in E sid"
    by (auto simp: nodes_in_def e)
  have one: "ra_tree (spec_bind e ra) = ra_tree ra"
    "map_option set (ra_nodes (spec_bind e ra) sid) = (if is_ephemeral n \<and> nd_sid n = sid
       then Some (insert p (case ra_nodes ra sid of None \<Rightarrow> {} | Some ns \<Rightarrow> set ns)) else map_option set (ra_nodes ra sid))"
    by (auto simp: spec_bind_def e spec_register_def Let_def split: option.splits)
  define B where "B = (if is_ephemeral n \<and> nd_sid n = sid then {p} else {})"
  define S where "S ra = (case ra_nodes ra sid of None \<Rightarrow> {} | Some ns \<Rightarrow> set ns)" for ra :: Replica
  have S: "S r = (case map_option set (ra_nodes r sid) of None \<Rightarrow> {} | Some X \<Rightarrow> X)" for r
    by (cases "ra_nodes r sid") (simp_all add: S_def)
  have S1: "S (spec_bind e ra) = B \<union> S ra" unfolding S [of "spec_bind e ra"] one(2) B_def by (simp add: S_def split: option.splits)
  have m1: "map_option set (ra_nodes (spec_bind e ra) sid) = (if B = {} then map_option set (ra_nodes ra sid) else Some (B \<union> S ra))"
    unfolding one(2) B_def S_def by simp
  note IH = Cons.IH [of "spec_bind e ra", folded S_def, unfolded S1 m1 one(1)]
  show ?case unfolding nodes B_def [symmetric] S_def [symmetric] using IH
    by (cases "nodes_in E sid = {}"; cases "B = {}") (auto simp: Un_commute Un_left_commute)
qed

subsection \<open>The server takes these steps\<close>

text \<open>One part of the recovery done: the state is good, and tree and commit index are as they were.\<close>

definition recovers :: "'db Server \<Rightarrow> 'db Server \<Rightarrow> bool" where
  "recovers srv srv' \<longleftrightarrow> replica_ok srv' \<and> same_config srv srv'
     \<and> store_view (sv_store srv') COMMIT_PREFIX = store_view (sv_store srv) COMMIT_PREFIX"

lemma recovers_trans: "recovers a b \<Longrightarrow> recovers b c \<Longrightarrow> recovers a c"
  by (auto simp: recovers_def intro: same_config_trans)

lemma emit_same [simp]: "replica_ok (emit es srv) = replica_ok srv" "abs_of (emit es srv) = abs_of srv"
  "same_config srv0 (emit es srv) = same_config srv0 srv" "sv_store (emit es srv) = sv_store srv" "sv_sm (emit es srv) = sv_sm srv"
  by (simp_all add: emit_def replica_ok_def nodes_ok_def abs_of_def same_config_def)

lemma recovers_emit [simp]: "recovers a (emit es b) = recovers a b"
  by (simp add: recovers_def)

lemma sv_Add_recovers:
  assumes inv: "replica_ok srv"
  obtains srv' where "sv_Add env (Session_new (en_addr env) (en_now env) sid (sint (t :: u32))) srv = Some srv'"
    "recovers srv srv'" "abs_of srv' = spec_register sid t (abs_of srv)"
proof -
  let ?req = "Request_default\<lparr>rq_sid := Some sid, rq_register := Some t\<rparr>"
  let ?s = "Session_new (en_addr env) (en_now env) sid (sint t)"
  have rq: "req_sid ?req = sid" "req_timeout ?req = t" "rq_register ?req = Some t" by (simp_all add: req_sid_def req_timeout_def)
  from onRegister_spec [OF inv rq(3), of env] obtain srv1 where
    1: "map_option (\<lambda>r. snd (snd r)) (onRegister env ?req srv) = Some srv1" "replica_ok srv1" "same_config srv srv1"
      "abs_of srv1 = spec_register sid t (abs_of srv)" unfolding implements_def rq(1) by auto
  then obtain sm store where a: "SM_Add (en_now env) ?s (sv_sm srv) (sv_store srv) = Some (sm, store)"
    unfolding onRegister_def rq Let_def
    by (cases "SM_Add (en_now env) ?s (sv_sm srv) (sv_store srv)") auto
  define srv2 where "srv2 = srv\<lparr>sv_sm := sm, sv_store := store\<rparr>"
  have s1: "srv1 = emit [Log_session sid ''new''] srv2"
    using 1(1) a by (simp add: onRegister_def Let_def srv2_def req_sid_def req_timeout_def)
  obtain st where st: "Store_AddSession (sv_store srv) (toProtobuf ?s) = (st, store)"
    using a by (auto simp: SM_Add_def Let_def split: prod.splits if_splits elim!: bind_eq_SomeE)
  then have step: "store_step (ProcDB_new [] :: unit ProcDB) (OpAddSession (toProtobuf ?s)) (sv_store srv) = Some (st, store)" by simp
  have "store_view store COMMIT_PREFIX = store_view (sv_store srv) COMMIT_PREFIX"
    by (rule store_step_frame [OF store_goodD(1) [OF replica_okD(1) [OF inv]] step])
      (simp_all add: key_path_def COMMIT_PREFIX_def session_key_def SESSION_PREFIX_def)
  then have "recovers srv srv2" using 1(2,3) unfolding s1 by (simp add: recovers_def srv2_def)
  moreover have "abs_of srv2 = spec_register sid t (abs_of srv)" using 1(4) unfolding s1 by simp
  ultimately show thesis using that a by (simp add: sv_Add_def srv2_def)
qed

lemma walkSession_recovers:
  assumes "replica_ok srv"
  obtains srv' where "walkSessionFunc env ss srv = Some srv'" "recovers srv srv'" "abs_of srv' = spec_restore ss (abs_of srv)"
proof -
  obtain srv1 where "sv_Add env (Session_new (en_addr env) (en_now env) (sp_sid ss) (sint (sp_timeout ss))) srv = Some srv1"
    "recovers srv srv1" "abs_of srv1 = spec_register (sp_sid ss) (sp_timeout ss) (abs_of srv)"
    by (rule sv_Add_recovers [OF assms])
  then show thesis using that by (simp add: walkSessionFunc_def spec_restore_def)
qed

lemma walkTree_recovers:
  assumes inv: "replica_ok srv" and p: "is_ephemeral n \<Longrightarrow> IsValidPath p \<and> \<not> under_proc (sv_store srv) p"
  obtains srv' where "walkTreeFunc env p n srv = Some srv'" "recovers srv srv'" "abs_of srv' = spec_bind (p, n) (abs_of srv)"
proof (cases "is_ephemeral n")
  case False
  then show thesis using that inv by (simp add: walkTreeFunc_def spec_bind_def recovers_def)
next
  case True
  let ?sid = "nd_sid n"
  obtain srv1 where 1: "(if SM_Get (sv_sm srv) ?sid = None then do {
            srv \<leftarrow> sv_Add env (Session_new (en_addr env) (en_now env) ?sid DEFAULT_TIMEOUT) srv;
            Some (emit [Log_session ?sid ''restoree''] srv) } else Some srv) = Some srv1" "recovers srv srv1"
    "abs_of srv1 = (if ra_nodes (abs_of srv) ?sid = None then spec_register ?sid 240000 (abs_of srv) else abs_of srv)"
  proof (cases "SM_Get (sv_sm srv) ?sid = None")
    case True
    obtain srv1 where "sv_Add env (Session_new (en_addr env) (en_now env) ?sid (sint (240000 :: u32))) srv = Some srv1"
      "recovers srv srv1" "abs_of srv1 = spec_register ?sid 240000 (abs_of srv)"
      by (rule sv_Add_recovers [OF inv])
    moreover have "sint (240000 :: u32) = DEFAULT_TIMEOUT" by (simp add: DEFAULT_TIMEOUT_def)
    ultimately show thesis using True that by (simp add: abs_of_def [of srv])
  next
    case False
    then show thesis using that inv by (auto simp: recovers_def abs_of_def [of srv])
  qed
  have ok1: "replica_ok srv1" "same_config srv srv1" using 1(2) by (simp_all add: recovers_def)
  have np: "IsValidPath p" "\<not> under_proc (sv_store srv1) p"
    using p [OF True] under_proc_same [of "sv_store srv" "sv_store srv1" p] ok1(2) by (auto simp: same_config_def)
  define srv2 where "srv2 = sv_adjust ?sid (BindNode p) srv1"
  have b: "replica_ok srv2" "same_config srv1 srv2" "abs_of srv2 = (abs_of srv1)\<lparr>ra_nodes := (ra_nodes (abs_of srv1))
      (?sid := map_option (os_insert p) (ra_nodes (abs_of srv1) ?sid))\<rparr>"
    unfolding srv2_def by (rule bind_node_ok [OF ok1(1) np])+
  have "sv_store srv2 = sv_store srv1" by (simp add: srv2_def sv_adjust_def)
  then have "recovers srv1 srv2" using b by (simp add: recovers_def)
  then have "recovers srv srv2" using recovers_trans 1(2) by blast
  moreover have "walkTreeFunc env p n srv = Some srv2" using True 1(1) by (simp add: walkTreeFunc_def srv2_def)
  moreover have "abs_of srv2 = spec_bind (p, n) (abs_of srv)" using True b(3) 1(3) by (simp add: spec_bind_def Let_def)
  ultimately show thesis using that by blast
qed

lemma recovers_fold:
  assumes "replica_ok srv"
    and "\<And>x s. x \<in> set xs \<Longrightarrow> recovers srv s \<Longrightarrow> \<exists>s'. f x s = Some s' \<and> recovers s s' \<and> abs_of s' = g x (abs_of s)"
  shows "\<exists>srv'. fold_opt f xs srv = Some srv' \<and> recovers srv srv' \<and> abs_of srv' = fold g xs (abs_of srv)"
  using assms
proof (induction xs arbitrary: srv)
  case Nil
  then show ?case by (simp add: recovers_def)
next
  case (Cons x xs)
  have "recovers srv srv" using Cons.prems(1) by (simp add: recovers_def)
  with Cons.prems(2) obtain s1 where 1: "f x srv = Some s1" "recovers srv s1" "abs_of s1 = g x (abs_of srv)" by force
  have "\<exists>srv'. fold_opt f xs s1 = Some srv' \<and> recovers s1 srv' \<and> abs_of srv' = fold g xs (abs_of s1)"
  proof (rule Cons.IH)
    show "replica_ok s1" using 1(2) by (simp add: recovers_def)
    show "\<exists>s'. f y s = Some s' \<and> recovers s s' \<and> abs_of s' = g y (abs_of s)" if "y \<in> set xs" "recovers s1 s" for y s
      using Cons.prems(2) [of y s] recovers_trans [OF 1(2) that(2)] that(1) by simp
  qed
  then show ?case using 1 recovers_trans [OF 1(2)] by auto
qed

subsection \<open>The tree that is walked\<close>

definition tree_entries :: "'db Store \<Rightarrow> (string \<times> Node) list" where
  "tree_entries s = map (\<lambda>e. (fst e, snd (node_ParseFromString (pb (so_lib s)) (snd e))))
     (seek_range ''/'' (''/'' @ [CHR 0xFF]) (fst (ldb_Iterate (ldb (so_lib s)) (so_persist s))))"

lemma below_last: "IsValidPath (slash # r) \<Longrightarrow> r < [CHR 0xFF]"
proof (cases r)
  case (Cons c r')
  assume "IsValidPath (slash # r)"
  then have "c \<noteq> CHR 0xFF" by (auto simp: Cons IsValidPath_def invalidChar_def isalnum_def)
  then show ?thesis using char_max [of c] by (simp add: Cons order.order_iff_strict)
qed simp

lemma tree_entries_set:
  assumes good: "store_good s" and it: "ldb_ok (snd (ldb_Iterate (ldb (so_lib s)) (so_persist s)))"
  shows "(p, n) \<in> set (tree_entries s) \<longleftrightarrow> key_tree s p = Some n"
proof -
  let ?es = "fst (ldb_Iterate (ldb (so_lib s)) (so_persist s))"
  note i = ldb_Iterate_view [OF store_okD(1) [OF store_goodD(5) [OF good]] it]
  have tree: "tree_ok s" using store_goodD(1) [OF good] by (simp add: store_inv_def)
  have view: "(p, v) \<in> set (seek_range ''/'' (''/'' @ [CHR 0xFF]) ?es) \<longleftrightarrow> store_view s p = Some v \<and> (\<exists>r. p = slash # r \<and> r < [CHR 0xFF])" for v
    using om_find_iff [OF i(1), of p v] i(2) lex_between_prefix [of "''/''" p "[CHR 0xFF]"]
    by (auto simp: seek_range_filter [OF i(1)] store_view_def)
  have node: "node_at s p = map_option (\<lambda>v. snd (node_ParseFromString (pb (so_lib s)) v)) (store_view s p)" if "key_path p"
  proof (cases "store_view s p")
    case (Some v)
    then have "fst (node_ParseFromString (pb (so_lib s)) v)" using that store_goodD(5) [OF good] unfolding store_ok_def by blast
    then show ?thesis by (auto simp: Some node_at_def nodes_of_def split: prod.splits)
  qed (simp add: node_at_def nodes_of_def)
  have valid: "\<exists>r. p = slash # r \<and> r < [CHR 0xFF]" if "key_path p" "node_at s p \<noteq> None"
  proof (cases "p = ''/''")
    case False
    then have "IsValidPath p" using tree that unfolding tree_ok_def parents_ok_def by blast
    then show ?thesis using that(1) below_last by (auto simp: key_path_def)
  qed simp
  show ?thesis
  proof
    assume "(p, n) \<in> set (tree_entries s)"
    then obtain v where "(p, v) \<in> set (seek_range ''/'' (''/'' @ [CHR 0xFF]) ?es)" "n = snd (node_ParseFromString (pb (so_lib s)) v)"
      by (auto simp: tree_entries_def)
    then show "key_tree s p = Some n" using view node by (auto simp: key_tree_def key_path_def)
  next
    assume k: "key_tree s p = Some n"
    then have kp: "key_path p" "node_at s p = Some n" by (auto simp: key_tree_def split: if_splits)
    then obtain v where v: "store_view s p = Some v" "n = snd (node_ParseFromString (pb (so_lib s)) v)" using node by auto
    have "(p, v) \<in> set (seek_range ''/'' (''/'' @ [CHR 0xFF]) ?es)" unfolding view using v(1) valid [OF kp(1)] kp(2) by blast
    then show "(p, n) \<in> set (tree_entries s)" unfolding tree_entries_def set_map using v(2) by (intro image_eqI [of _ _ "(p, v)"]) simp_all
  qed
qed

lemma WalkTree_entries:
  assumes "ldb_ok (snd (ldb_Iterate (ldb (so_lib s)) (so_persist s)))"
  shows "Store_WalkTree s func w = map_option (Pair OK) (fold_opt (\<lambda>e. func (fst e) (snd e)) (tree_entries s) w)"
proof -
  let ?R = "seek_range ''/'' (''/'' @ [CHR 0xFF]) (fst (ldb_Iterate (ldb (so_lib s)) (so_persist s)))"
  have "fold_opt (\<lambda>(key, value). func key (snd (node_ParseFromString (pb (so_lib s)) value))) ?R w
      = fold_opt (\<lambda>e. func (fst e) (snd e)) (tree_entries s) w"
    unfolding tree_entries_def fold_opt_map by (rule fold_opt_cong) (auto split: prod.splits)
  then show ?thesis using assms
    by (cases "fold_opt (\<lambda>e. func (fst e) (snd e)) (tree_entries s) w") (auto simp: Store_WalkTree_def Let_def split: prod.splits)
qed

text \<open>The database can always be iterated to the end.\<close>

definition iterates :: "'db leveldb \<Rightarrow> bool" where
  "iterates L \<longleftrightarrow> (\<forall>db. ldb_ok (snd (ldb_Iterate L db)))"

text \<open>The ephemeral nodes of a session in a tree.\<close>

definition ephemerals :: "(string \<rightharpoonup> Node) \<Rightarrow> sid_t \<Rightarrow> string set" where
  "ephemerals t sid = {p. \<exists>n. t p = Some n \<and> is_ephemeral n \<and> nd_sid n = sid}"

lemma walkSessions_recovers:
  assumes inv: "replica_ok srv" and it: "iterates (ldb (so_lib (sv_store srv)))"
  obtains srv' where "Store_WalkSessions (sv_store srv) (walkSessionFunc env) srv = Some (OK, srv')" "recovers srv srv'"
    "abs_of srv' = fold spec_restore (walked_sessions (sv_store srv)) (abs_of srv)"
proof -
  note good = replica_okD(1) [OF inv]
  have i: "ldb_ok (snd (ldb_Iterate (ldb (so_lib (sv_store srv))) (so_persist (sv_store srv))))" using it by (simp add: iterates_def)
  have "\<exists>srv'. fold_opt (walkSessionFunc env) (walked_sessions (sv_store srv)) srv = Some srv' \<and> recovers srv srv'
      \<and> abs_of srv' = fold spec_restore (walked_sessions (sv_store srv)) (abs_of srv)"
    by (rule recovers_fold [OF inv]) (metis recovers_def walkSession_recovers)
  moreover have "Store_WalkSessions (sv_store srv) (walkSessionFunc env) srv =
      map_option (Pair OK) (fold_opt (walkSessionFunc env) (walked_sessions (sv_store srv)) srv)"
    by (rule conjunct1 [OF walk_sessions [OF store_goodD(1,2) [OF good] i]])
  ultimately show thesis using that by auto
qed

lemma walkTree_all_recovers:
  assumes inv: "replica_ok srv" and it: "iterates (ldb (so_lib (sv_store srv)))"
  obtains srv' where "Store_WalkTree (sv_store srv) (walkTreeFunc env) srv = Some (OK, srv')" "recovers srv srv'"
    "abs_of srv' = fold spec_bind (tree_entries (sv_store srv)) (abs_of srv)"
proof -
  let ?s = "sv_store srv"
  note good = replica_okD(1) [OF inv]
  have i: "ldb_ok (snd (ldb_Iterate (ldb (so_lib ?s)) (so_persist ?s)))" using it by (simp add: iterates_def)
  have tree: "tree_ok ?s" using store_goodD(1) [OF good] by (simp add: store_inv_def)
  have path: "IsValidPath p \<and> \<not> under_proc ?s p" if "(p, n) \<in> set (tree_entries ?s)" "is_ephemeral n" for p n
  proof -
    have k: "key_path p" "node_at ?s p = Some n"
      using that(1) unfolding tree_entries_set [OF good i] by (auto simp: key_tree_def split: if_splits)
    then have "p \<noteq> ''/''" using tree that(2) by (auto simp: tree_ok_def root_ok_def)
    then show ?thesis using tree k under_proc_prefix [OF store_goodD(5) [OF good]] unfolding tree_ok_def parents_ok_def by (metis option.distinct(1))
  qed
  have "\<exists>srv'. fold_opt (\<lambda>e. walkTreeFunc env (fst e) (snd e)) (tree_entries ?s) srv = Some srv' \<and> recovers srv srv'
      \<and> abs_of srv' = fold spec_bind (tree_entries ?s) (abs_of srv)"
  proof (rule recovers_fold [OF inv])
    fix e s
    assume e: "e \<in> set (tree_entries ?s)" and r: "recovers srv s"
    have "is_ephemeral (snd e) \<Longrightarrow> IsValidPath (fst e) \<and> \<not> under_proc (sv_store s) (fst e)"
      using path [of "fst e" "snd e"] e r under_proc_same [of ?s "sv_store s"] by (auto simp: recovers_def same_config_def)
    from walkTree_recovers [where srv = s and env = env, OF _ this] r
    show "\<exists>s'. walkTreeFunc env (fst e) (snd e) s = Some s' \<and> recovers s s' \<and> abs_of s' = spec_bind e (abs_of s)"
      by (metis prod.collapse recovers_def)
  qed
  then show thesis using that WalkTree_entries [OF i, of "walkTreeFunc env" srv] by auto
qed

lemma walked_iff:
  assumes good: "store_good s" and it: "iterates (ldb (so_lib s))"
  shows "sid \<in> sp_sid ` set (walked_sessions s) \<longleftrightarrow> stored_session s sid \<noteq> None \<and> sid \<noteq> - 1"
proof -
  have i: "ldb_ok (snd (ldb_Iterate (ldb (so_lib s)) (so_persist s)))" using it by (simp add: iterates_def)
  have w: "set (walked_sessions s) = {ss. \<exists>sid. sid \<noteq> - 1 \<and> stored_session s sid = Some ss}"
    by (rule conjunct2 [OF conjunct2 [OF walk_sessions [OF store_goodD(1,2) [OF good] i, of "\<lambda>_. Some" "()"]]])
  have sid: "sp_sid ss = sid" if "stored_session s sid = Some ss" for ss sid
    using that unfolding stored_session_iff [OF store_goodD(5,2) [OF good]] by simp
  show ?thesis
  proof
    assume "sid \<in> sp_sid ` set (walked_sessions s)"
    then obtain ss sid' where ss: "sid = sp_sid ss" "sid' \<noteq> - 1" "stored_session s sid' = Some ss" unfolding w by blast
    then have "sid' = sid" using sid [OF ss(3)] by simp
    then show "stored_session s sid \<noteq> None \<and> sid \<noteq> - 1" using ss by simp
  next
    assume "stored_session s sid \<noteq> None \<and> sid \<noteq> - 1"
    then obtain ss where ss: "stored_session s sid = Some ss" "sid \<noteq> - 1" by blast
    then have "ss \<in> set (walked_sessions s)" unfolding w by blast
    then show "sid \<in> sp_sid ` set (walked_sessions s)" using sid [OF ss(1)] by (intro image_eqI [of _ _ ss]) simp_all
  qed
qed

lemma commit_kept:
  assumes inv: "replica_ok srv" and r: "recovers srv srv'"
  obtains idx where "Store_GetCommitIndex (sv_store srv) = Some (OK, Some idx)" "Store_GetCommitIndex (sv_store srv') = Some (OK, Some idx)"
proof -
  have inv': "replica_ok srv'" and v: "store_view (sv_store srv') COMMIT_PREFIX = store_view (sv_store srv) COMMIT_PREFIX"
    using r by (simp_all add: recovers_def)
  have rd: "ldb_readable (ldb (so_lib s)) (so_persist s)" if "store_good s" for s :: "'a Store"
    using store_okD(4) [OF store_goodD(5) [OF that]] .
  have "store_view (sv_store srv) COMMIT_PREFIX = Some x \<Longrightarrow> length x = 8" for x
    using store_goodD(3) [OF replica_okD(1) [OF inv]] by (simp add: commit_ok_def)
  then show thesis using that GetCommitIndex_view [OF rd [OF replica_okD(1) [OF inv]]] GetCommitIndex_view [OF rd [OF replica_okD(1) [OF inv']]] v
    by (cases "store_view (sv_store srv) COMMIT_PREFIX") auto
qed

lemma onLoadSnapshot_rebuilds:
  assumes inv: "replica_ok srv" and new: "\<forall>sid. SM_Get (sv_sm srv) sid = None"
    and it: "iterates (ldb (so_lib (sv_store srv)))"
  shows "\<exists>idx srv'. onLoadSnapshot env srv = Some (idx, srv') \<and> replica_ok srv' \<and> same_config srv srv'
    \<and> Store_GetCommitIndex (sv_store srv) = Some (OK, Some idx)
    \<and> key_tree (sv_store srv') = key_tree (sv_store srv)
    \<and> (\<forall>sid. let E = ephemerals (key_tree (sv_store srv)) sid in
         case SM_Get (sv_sm srv') sid of
           None \<Rightarrow> (stored_session (sv_store srv) sid = None \<or> sid = - 1) \<and> E = {}
         | Some s \<Rightarrow> (stored_session (sv_store srv) sid \<noteq> None \<and> sid \<noteq> - 1 \<or> E \<noteq> {}) \<and> set (ss_nodeSet s) = E)"
proof -
  let ?s = "sv_store srv"
  obtain srv1 where 1: "Store_WalkSessions ?s (walkSessionFunc env) srv = Some (OK, srv1)" "recovers srv srv1"
    "abs_of srv1 = fold spec_restore (walked_sessions ?s) (abs_of srv)" by (rule walkSessions_recovers [OF inv it])
  have lib: "so_lib (sv_store srv1) = so_lib ?s" using 1(2) by (simp add: recovers_def same_config_def same_env_def)
  have inv1: "replica_ok srv1" using 1(2) by (simp add: recovers_def)
  obtain srv2 where 2: "Store_WalkTree (sv_store srv1) (walkTreeFunc env) srv1 = Some (OK, srv2)" "recovers srv1 srv2"
    "abs_of srv2 = fold spec_bind (tree_entries (sv_store srv1)) (abs_of srv1)"
    by (rule walkTree_all_recovers [OF inv1]) (use it lib in auto)
  note r2 = recovers_trans [OF 1(2) 2(2)]
  have t1: "key_tree (sv_store srv1) = key_tree ?s"
    using restore_all [of "walked_sessions ?s" "abs_of srv"] 1(3) by (metis Replica.select_convs(1) abs_of_def)
  have t2: "key_tree (sv_store srv2) = key_tree ?s"
    using bind_all [of "tree_entries (sv_store srv1)" "abs_of srv1"] 2(3) t1 by (metis Replica.select_convs(1) abs_of_def)
  have i1: "ldb_ok (snd (ldb_Iterate (ldb (so_lib (sv_store srv1))) (so_persist (sv_store srv1))))" using it lib by (simp add: iterates_def)
  have E: "nodes_in (tree_entries (sv_store srv1)) sid = ephemerals (key_tree ?s) sid" for sid
    unfolding nodes_in_def ephemerals_def tree_entries_set [OF replica_okD(1) [OF inv1] i1] t1 ..
  have walk: "sid \<in> sp_sid ` set (walked_sessions ?s) \<longleftrightarrow> stored_session ?s sid \<noteq> None \<and> sid \<noteq> - 1" for sid
    by (rule walked_iff [OF replica_okD(1) [OF inv] it])
  have nodes1: "ra_nodes (abs_of srv1) sid = (if stored_session ?s sid \<noteq> None \<and> sid \<noteq> - 1 then Some [] else None)" for sid
    using restore_all [of "walked_sessions ?s" "abs_of srv" sid] walk [of sid] new unfolding 1(3) by (simp add: abs_of_def)
  have "map_option (\<lambda>s. set (ss_nodeSet s)) (SM_Get (sv_sm srv2) sid) = map_option set (ra_nodes (abs_of srv2) sid)" for sid
    by (simp add: abs_of_def option.map_comp comp_def)
  then have n2: "map_option (\<lambda>s. set (ss_nodeSet s)) (SM_Get (sv_sm srv2) sid) =
      (if ephemerals (key_tree ?s) sid = {} then (if stored_session ?s sid \<noteq> None \<and> sid \<noteq> - 1 then Some {} else None)
       else Some (ephemerals (key_tree ?s) sid))" for sid
    using bind_all [of "tree_entries (sv_store srv1)" "abs_of srv1" sid] nodes1 [of sid] E [of sid] unfolding 2(3) by simp
  have sessions: "let E = ephemerals (key_tree ?s) sid in
         case SM_Get (sv_sm srv2) sid of
           None \<Rightarrow> (stored_session ?s sid = None \<or> sid = - 1) \<and> E = {}
         | Some s \<Rightarrow> (stored_session ?s sid \<noteq> None \<and> sid \<noteq> - 1 \<or> E \<noteq> {}) \<and> set (ss_nodeSet s) = E" for sid
    using n2 [of sid] unfolding Let_def by (cases "SM_Get (sv_sm srv2) sid") (simp_all split: if_splits)
  obtain idx where c: "Store_GetCommitIndex ?s = Some (OK, Some idx)" "Store_GetCommitIndex (sv_store srv2) = Some (OK, Some idx)"
    by (rule commit_kept [OF inv r2])
  have "onLoadSnapshot env srv = Some (idx, srv2)" using 1(1) 2(1) c(2) by (simp add: onLoadSnapshot_def)
  moreover have "replica_ok srv2" "same_config srv srv2" using r2 by (simp_all add: recovers_def)
  ultimately show ?thesis using c(1) t2 sessions by blast
qed

text \<open>
  Recovery rebuilds the sessions: a server that starts on an existing database, with no
  session yet, loads it without failing a \<^verbatim>\<open>CHECK\<close>; the tree and the commit index are those of the
  database; a session exists afterwards exactly when it was stored (but for the largest id) or owns an
  ephemeral node, and it has exactly the ephemeral nodes of the tree that carry its id.
\<close>

theorem recovery_rebuilds:
  assumes inv: "replica_ok srv" and new: "\<forall>sid. SM_Get (sv_sm srv) sid = None"
    and it: "iterates (ldb (so_lib (sv_store srv)))"
  shows "\<exists>idx srv'. onLoadSnapshot env srv = Some (idx, srv') \<and> replica_ok srv' \<and> same_config srv srv'
    \<and> Store_GetCommitIndex (sv_store srv) = Some (OK, Some idx)
    \<and> key_tree (sv_store srv') = key_tree (sv_store srv)
    \<and> (\<forall>sid. let E = ephemerals (key_tree (sv_store srv)) sid in
         case SM_Get (sv_sm srv') sid of
           None \<Rightarrow> (stored_session (sv_store srv) sid = None \<or> sid = - 1) \<and> E = {}
         | Some s \<Rightarrow> (stored_session (sv_store srv) sid \<noteq> None \<and> sid \<noteq> - 1 \<or> E \<noteq> {}) \<and> set (ss_nodeSet s) = E)"
  by (rule onLoadSnapshot_rebuilds [OF assms])

end
