(* ===== verification/Ephemerals.thy ===== *)
theory Ephemerals
  imports Recovery
begin

text \<open>
  The lifetime of ephemeral nodes over whole logs: every ephemeral node has a living session that
  holds it, a restart on the same database finds the same sessions with the same nodes, and what
  happens to a node whose path was used before.
\<close>

subsection \<open>Nodes and their sessions\<close>

text \<open>A tree with fewer nodes, each with the owner and the kind it had.\<close>

definition sub_tree :: "(string \<rightharpoonup> Node) \<Rightarrow> (string \<rightharpoonup> Node) \<Rightarrow> bool" where
  "sub_tree t t' \<longleftrightarrow> (\<forall>q n'. t' q = Some n' \<longrightarrow> (\<exists>n. t q = Some n \<and> nd_sid n = nd_sid n' \<and> is_ephemeral n = is_ephemeral n'))"

definition nodes_held :: "Replica \<Rightarrow> bool" where
  "nodes_held ra \<longleftrightarrow> (\<forall>p n. ra_tree ra p = Some n \<longrightarrow> is_ephemeral n \<longrightarrow> (\<exists>ns. ra_nodes ra (nd_sid n) = Some ns \<and> p \<in> set ns))
     \<and> (\<forall>sid. ra_nodes ra sid = None \<longleftrightarrow> ra_sess ra sid = None)"

lemma sub_tree_refl [simp]: "sub_tree t t"
  by (simp add: sub_tree_def)

lemma sub_tree_trans: "sub_tree t t' \<Longrightarrow> sub_tree t' t'' \<Longrightarrow> sub_tree t t''"
  unfolding sub_tree_def by metis

lemma kind_children [simp]: "nd_sid (drop_child son n) = nd_sid n" "is_ephemeral (drop_child son n) = is_ephemeral n"
  "nd_sid (add_child son n) = nd_sid n"
  by (simp_all add: drop_child_spec(1)) (simp_all add: drop_child_def RemoveChild_def add_child_def Let_def split: option.splits)

lemma parent_stored:
  assumes good: "store_good s" and n: "key_tree s q = Some n" and sp: "SplitPath q = (st, p, son)" and ok: "ok st"
  obtains pn where "key_tree s p = Some pn" "p \<noteq> q"
proof -
  have q: "key_path q" "node_at s q = Some n" using n by (auto simp: key_tree_def split: if_splits)
  have tree: "tree_ok s" using store_goodD(1) [OF good] by (simp add: store_inv_def)
  have sp': "SplitPath q = (OK, p, son)" using sp ok SplitPath_ok [of q] by auto
  have short: "p \<noteq> q" using SplitPath_shorter [OF sp'] key_path_hd [OF q(1)] by auto
  have "q \<noteq> ''/''" using sp' by (auto simp: SplitPath_def)
  then obtain pn where "node_at s p = Some pn"
    using tree q sp' unfolding tree_ok_def parents_ok_def by fastforce
  then show thesis using that short SplitPath_key_path [OF sp'] q(1) by (simp add: key_tree_def)
qed

lemma tree_delete_okE:
  assumes d: "tree_delete pr t path = (kOk, t')"
  obtains p son n where "SplitPath path = (OK, p, son)" "t path = Some n" "nd_children n = []"
    "t' = t(path := None, p \<mapsto> drop_child son (the (t p)))"
proof -
  obtain st p son where sp: "SplitPath path = (st, p, son)" by (cases "SplitPath path")
  show thesis
  proof (cases "t path")
    case None
    then show thesis using d by (simp add: tree_delete_def sp split: if_splits)
  next
    case (Some n)
    then have "ok st" "nd_children n = []" "t' = t(path := None, p \<mapsto> drop_child son (the (t p)))"
      using d by (simp_all add: tree_delete_def sp split: if_splits)
    then show thesis using that Some sp SplitPath_ok [of path] by simp
  qed
qed

lemma tree_delete_sub:
  assumes good: "store_good s" and d: "tree_delete pr (key_tree s) path = (c, t')"
  shows "sub_tree (key_tree s) t'" and "c = kOk \<Longrightarrow> t' path = None" and "c \<noteq> kOk \<Longrightarrow> t' = key_tree s"
proof -
  show 3: "c \<noteq> kOk \<Longrightarrow> t' = key_tree s" using d by (auto simp: tree_delete_def split: if_splits prod.splits option.splits)
  have *: "sub_tree (key_tree s) t' \<and> t' path = None" if c: "c = kOk"
  proof -
    obtain p son n where r: "SplitPath path = (OK, p, son)" "key_tree s path = Some n"
      "t' = (key_tree s)(path := None, p \<mapsto> drop_child son (the (key_tree s p)))"
      by (rule tree_delete_okE [of pr "key_tree s" path t']) (use d c in auto)
    obtain pn where pn: "key_tree s p = Some pn" "p \<noteq> path" by (rule parent_stored [OF good r(2,1)]) simp
    show ?thesis unfolding r(3) using pn by (auto simp: sub_tree_def)
  qed
  then show "c = kOk \<Longrightarrow> t' path = None" by blast
  show "sub_tree (key_tree s) t'" using * 3 by (cases "c = kOk") auto
qed

lemma destroy_nodes_sub:
  assumes "replica_ok srv" and "cfg = config_of (sv_store srv)"
    and "\<forall>p \<in> set ns. IsValidPath p \<and> \<not> under_proc (sv_store srv) p"
    and "fold_opt (spec_destroy_node cfg sid) ns (key_tree (sv_store srv)) = Some t"
  shows "sub_tree (key_tree (sv_store srv)) t \<and> (\<forall>p \<in> set ns. \<not> owned sid (t p))"
  using assms
proof (induction ns arbitrary: srv)
  case (Cons p ns)
  let ?t = "key_tree (sv_store srv)"
  obtain t1 where t1: "spec_destroy_node cfg sid p ?t = Some t1" "fold_opt (spec_destroy_node cfg sid) ns t1 = Some t"
    using Cons.prems(4) by (auto elim!: bind_eq_SomeE)
  have one: "sub_tree ?t t1 \<and> \<not> owned sid (t1 p)"
  proof (cases "owned sid (?t p)")
    case True
    then obtain n c where "?t p = Some n" "nd_sid n = sid" "tree_delete (cf_root cfg) ?t p = (c, t1)" "c = kOk \<or> c = kNotFound"
      using t1(1) by (auto simp: spec_destroy_node_def owned_def split: option.splits if_splits prod.splits)
    moreover from this have "c = kOk" by (auto simp: tree_delete_def split: if_splits prod.splits)
    ultimately show ?thesis
      using tree_delete_sub(1,2) [OF replica_okD(1) [OF Cons.prems(1)], of "cf_root cfg" p c t1] by (simp add: owned_def)
  next
    case False
    then show ?thesis using t1(1) by (auto simp: spec_destroy_node_def owned_def split: option.splits if_splits)
  qed
  obtain srv1 where s1: "replica_ok srv1" "same_config srv srv1" "abs_of srv1 = (abs_of srv)\<lparr>ra_tree := t1\<rparr>"
    using destroy_node_spec [OF Cons.prems(1) _ _ Cons.prems(2), where path = p and sid = sid] Cons.prems(3) t1(1) by auto
  have "ra_tree (abs_of srv1) = t1" unfolding s1(3) by simp
  then have k1: "key_tree (sv_store srv1) = t1" by simp
  have up: "under_proc (sv_store srv1) q = under_proc (sv_store srv) q" for q
    using s1(2) by (simp add: same_config_def under_proc_same)
  have rest: "sub_tree t1 t \<and> (\<forall>p \<in> set ns. \<not> owned sid (t p))"
    using Cons.IH [OF s1(1)] Cons.prems(2,3) t1(2) same_config_of [OF s1(2)] by (simp add: k1 up)
  have "\<not> owned sid (t p)" using rest one by (fastforce simp: sub_tree_def owned_def split: option.splits)
  with one rest show ?case using sub_tree_trans by auto
qed simp

subsection \<open>Every command keeps the nodes held\<close>

lemma held_sub:
  assumes "nodes_held ra" and "sub_tree (ra_tree ra) t"
  shows "nodes_held (ra\<lparr>ra_tree := t\<rparr>)"
  using assms by (fastforce simp: nodes_held_def sub_tree_def)

lemma held_register: "nodes_held ra \<Longrightarrow> nodes_held (spec_register sid timeout ra)"
  by (auto simp: nodes_held_def spec_register_def split: option.splits) (metis not_None_eq)+

lemma held_unregister:
  assumes inv: "replica_ok srv" and h: "nodes_held (abs_of srv)"
    and r: "spec_unregister (config_of (sv_store srv)) sid (abs_of srv) = Some ra"
  shows "nodes_held ra"
proof (cases "SM_Get (sv_sm srv) sid")
  case None
  then show ?thesis using r h by (simp add: spec_unregister_def)
next
  case (Some s)
  let ?t = "key_tree (sv_store srv)"
  from Some r obtain t where t: "fold_opt (spec_destroy_node (config_of (sv_store srv)) sid) (ss_nodeSet s) ?t = Some t"
    "ra = (abs_of srv)\<lparr>ra_tree := t, ra_nodes := (ra_nodes (abs_of srv))(sid := None), ra_sess := (ra_sess (abs_of srv))(sid := None)\<rparr>"
    by (auto simp: spec_unregister_def elim!: bind_eq_SomeE)
  have sub: "sub_tree ?t t" "\<forall>p \<in> set (ss_nodeSet s). \<not> owned sid (t p)"
    using destroy_nodes_sub [OF inv refl _ t(1)] replica_okD(3) [OF inv] Some by (auto simp: nodes_ok_def)
  have h1: "nodes_held ((abs_of srv)\<lparr>ra_tree := t\<rparr>)" using held_sub [OF h] sub(1) by simp
  have "nd_sid n \<noteq> sid" if "t p = Some n" "is_ephemeral n" for p n
  proof
    assume n: "nd_sid n = sid"
    then have "p \<in> set (ss_nodeSet s)" using h1 that Some by (fastforce simp: nodes_held_def)
    then show False using sub(2) that(1) n by (auto simp: owned_def)
  qed
  then show ?thesis using h1 unfolding t(2) by (auto simp: nodes_held_def)
qed

lemma tree_create_cases:
  obtains (refused) c where "tree_create pr mx sz t path data flags sid = (c, t)" "c \<noteq> kOk"
  | (made) p son pn where "t p = Some pn" "t path = None"
      "tree_create pr mx sz t path data flags sid = (kOk, t(path \<mapsto> new_node data flags sid, p \<mapsto> add_child son pn))"
proof (cases "snd (tree_create pr mx sz t path data flags sid) = t \<and> fst (tree_create pr mx sz t path data flags sid) \<noteq> kOk")
  case True
  then show thesis using refused by (metis prod.collapse)
next
  case False
  obtain st p son where sp: "SplitPath path = (st, p, son)" by (cases "SplitPath path")
  from False obtain pn where "t p = Some pn" by (cases "t p") (auto simp: tree_create_def sp split: if_splits)
  with False made show thesis by (auto simp: tree_create_def sp split: if_splits)
qed

lemma tree_write_sub: "sub_tree t (snd (tree_write mx sz t path data))"
  by (auto simp: tree_write_def sub_tree_def is_ephemeral_def Let_def split: option.splits)

lemma held_nodes:
  assumes h: "nodes_held ra" and f: "\<And>ns p. ra_nodes ra sid = Some ns \<Longrightarrow> p \<in> set ns \<Longrightarrow> ra_tree ra p \<noteq> None \<Longrightarrow> p \<in> set (f ns)"
  shows "nodes_held (ra\<lparr>ra_nodes := (ra_nodes ra)(sid := map_option f (ra_nodes ra sid))\<rparr>)"
proof -
  have "\<exists>ns. ra_nodes ra (nd_sid n) = Some ns \<and> p \<in> set ns \<and> (nd_sid n = sid \<longrightarrow> p \<in> set (f ns))"
    if "ra_tree ra p = Some n" "is_ephemeral n" for p n
    using h f that unfolding nodes_held_def by blast
  then show ?thesis using h by (auto simp: nodes_held_def) blast
qed

lemma held_add:
  assumes "nodes_held ra" and "is_ephemeral n \<Longrightarrow> \<exists>ns. ra_nodes ra (nd_sid n) = Some ns \<and> p \<in> set ns"
  shows "nodes_held (ra\<lparr>ra_tree := (ra_tree ra)(p \<mapsto> n)\<rparr>)"
  using assms by (auto simp: nodes_held_def)

lemma held_create:
  assumes h: "nodes_held ra"
  shows "nodes_held (snd (spec_create cfg sid c ra))"
proof (cases rule: tree_create_cases [where pr = "cf_root cfg" and mx = "cf_max cfg" and sz = "cf_size cfg" and t = "ra_tree ra"
      and path = "cr_path c" and data = "cr_data c" and flags = "cr_flags c" and sid = sid])
  case (refused code)
  then show ?thesis using h by (simp add: spec_create_def Let_def nodes_held_def)
next
  case (made p son pn)
  let ?n = "new_node (cr_data c) (cr_flags c) sid" and ?path = "cr_path c"
  have n: "is_ephemeral ?n \<longleftrightarrow> cr_flags c AND kEphemeral \<noteq> 0" "nd_sid ?n = sid" by (simp_all add: is_ephemeral_def new_node_def)
  define N where "N = (if is_ephemeral ?n then (ra_nodes ra)(sid := map_option (os_insert ?path) (ra_nodes ra sid)) else ra_nodes ra)"
  define ra1 where "ra1 = ra\<lparr>ra_nodes := N\<rparr>"
  have h1: "nodes_held ra1" using held_nodes [OF h, of sid "os_insert ?path"] h by (cases "is_ephemeral ?n") (simp_all add: ra1_def N_def)
  show ?thesis
  proof (cases "ra_nodes ra sid = None \<and> is_ephemeral ?n")
    case True
    then show ?thesis using h n by (simp add: spec_create_def Let_def)
  next
    case False
    then have "nodes_held (ra1\<lparr>ra_tree := (ra_tree ra1)(?path \<mapsto> ?n)\<rparr>)" (is "nodes_held ?ra2")
      by (intro held_add [OF h1]) (auto simp: ra1_def N_def n)
    then have "nodes_held (?ra2\<lparr>ra_tree := (ra_tree ?ra2)(p \<mapsto> add_child son pn)\<rparr>)"
    proof (rule held_add)
      show "\<exists>ns. ra_nodes ?ra2 (nd_sid (add_child son pn)) = Some ns \<and> p \<in> set ns" if "is_ephemeral (add_child son pn)"
        using h1 that made(1) by (simp add: nodes_held_def ra1_def)
    qed
    then show ?thesis using False made(3) n
      by (cases ra; cases "cr_flags c AND kEphemeral = 0") (auto simp: spec_create_def Let_def ra1_def N_def)
  qed
qed

lemma held_delete:
  assumes inv: "replica_ok srv" and h: "nodes_held (abs_of srv)"
  shows "nodes_held (snd (spec_delete (config_of (sv_store srv)) sid path (abs_of srv)))"
proof -
  let ?t = "key_tree (sv_store srv)"
  obtain c t where d: "tree_delete (cf_root (config_of (sv_store srv))) ?t path = (c, t)" by fastforce
  note sub = tree_delete_sub [OF replica_okD(1) [OF inv] d]
  note h1 = held_sub [OF h, of t]
  show ?thesis
  proof (cases "c = kOk")
    case False
    then show ?thesis using h d by (simp add: spec_delete_def)
  next
    case True
    have "nodes_held ((abs_of srv)\<lparr>ra_tree := t\<rparr>)" using h1 sub(1) by simp
    then have "nodes_held ((abs_of srv)\<lparr>ra_tree := t, ra_nodes := (ra_nodes (abs_of srv))(sid := map_option (os_erase path) (ra_nodes (abs_of srv) sid))\<rparr>)"
      using held_nodes [of "(abs_of srv)\<lparr>ra_tree := t\<rparr>" sid "os_erase path"] sub(2) [OF True] by (fastforce simp: os_erase_def)
    then show ?thesis using True d by (simp add: spec_delete_def)
  qed
qed

lemma held_write: "nodes_held ra \<Longrightarrow> nodes_held (snd (spec_write cfg w ra))"
  using held_sub [of ra] tree_write_sub [of "ra_tree ra"]
  by (auto simp: spec_write_def split: prod.splits) (metis snd_conv)

lemma held_command:
  assumes "replica_ok srv" and "nodes_held (abs_of srv)" and "spec_command (config_of (sv_store srv)) req (abs_of srv) = Some ra"
  shows "nodes_held ra"
  using assms held_register held_unregister [OF assms(1,2)] held_create held_delete [OF assms(1,2)] held_write
  by (auto simp: spec_command_def split: option.splits if_splits)

lemma held_log:
  assumes "replica_ok srv" and "list_all replicable reqs" and "queue_ok srv (length reqs)" and "nodes_held (abs_of srv)"
    and "run_log envs reqs srv = Some srv'"
  shows "replica_ok srv' \<and> same_env (sv_store srv) (sv_store srv') \<and> nodes_held (abs_of srv')"
proof -
  have r: "ready (sv_store srv) (length reqs + 0) srv" using assms by (simp add: ready_def same_env_def)
  have "ready (sv_store srv) 0 srv' \<and> nodes_held (abs_of srv')"
  proof (rule sm.run_keeps [where J = nodes_held, OF r assms(2,5,4)])
    show "nodes_held ra" if "ready (sv_store srv) (Suc n) a" "nodes_held (abs_of a)" "spec_command (config_of (sv_store srv)) req (abs_of a) = Some ra" for n a req ra
      using held_command [of a req ra] that config_same [of "sv_store srv" "sv_store a"] by (simp add: ready_def)
  qed
  then show ?thesis by (simp add: ready_def)
qed

subsection \<open>Logs from an empty database, and restarts\<close>

definition fresh :: "'db Server \<Rightarrow> bool" where
  "fresh srv \<longleftrightarrow> replica_ok srv \<and> abs_of srv =
     \<lparr>ra_tree = [''/'' \<mapsto> root_node (so_procRoot (sv_store srv))], ra_nodes = Map.empty, ra_sess = Map.empty\<rparr>"

lemma fresh_log:
  assumes "fresh srv" and "list_all replicable reqs" and "queue_ok srv (length reqs)" and "run_log envs reqs srv = Some srv'"
  shows "replica_ok srv'" and "same_env (sv_store srv) (sv_store srv')" and "nodes_held (abs_of srv')"
proof -
  have "\<not> is_ephemeral (root_node (so_procRoot (sv_store srv)))"
    by (simp add: root_node_def is_ephemeral_def kPersist_def)
  then have "nodes_held (abs_of srv)" using assms(1) by (simp add: nodes_held_def fresh_def)
  then show "replica_ok srv'" "same_env (sv_store srv) (sv_store srv')" "nodes_held (abs_of srv')"
    using held_log [OF _ assms(2,3) _ assms(4)] assms(1) by (simp_all add: fresh_def)
qed

lemma held_server:
  assumes "nodes_held (abs_of srv)"
  shows "key_tree (sv_store srv) p = Some n \<Longrightarrow> is_ephemeral n \<Longrightarrow>
      \<exists>s. SM_Get (sv_sm srv) (nd_sid n) = Some s \<and> p \<in> set (ss_nodeSet s)"
    and "SM_Get (sv_sm srv) sid = None \<longleftrightarrow> stored_session (sv_store srv) sid = None"
  using assms by (fastforce simp: nodes_held_def)+

text \<open>
  C10. No ephemeral node without its session: after any log of commands from an empty database, every
  ephemeral node of the tree belongs to a session that exists and has the node in its set, so that
  it goes when the session ends; and the sessions in memory are exactly the sessions in the database.
\<close>

theorem ephemerals_have_sessions:
  assumes "fresh srv" and "list_all replicable reqs" and "queue_ok srv (length reqs)" and "run_log envs reqs srv = Some srv'"
  shows "(\<forall>p n. key_tree (sv_store srv') p = Some n \<longrightarrow> is_ephemeral n \<longrightarrow>
      (\<exists>s. SM_Get (sv_sm srv') (nd_sid n) = Some s \<and> p \<in> set (ss_nodeSet s)))
    \<and> (\<forall>sid. SM_Get (sv_sm srv') sid = None \<longleftrightarrow> stored_session (sv_store srv') sid = None)"
  using held_server [OF fresh_log(3) [OF assms]] by blast

lemma restart_sessions:
  assumes h: "nodes_held (abs_of srv)" and inv: "replica_ok srv2" and st: "sv_store srv2 = sv_store srv"
    and new: "\<forall>sid. SM_Get (sv_sm srv2) sid = None" and it: "iterates (ldb (so_lib (sv_store srv)))"
  shows "\<exists>idx srv3. onLoadSnapshot env srv2 = Some (idx, srv3) \<and> replica_ok srv3 \<and> same_config srv2 srv3
    \<and> key_tree (sv_store srv3) = key_tree (sv_store srv)
    \<and> (\<forall>sid. sid \<noteq> - 1 \<longrightarrow> map_option (\<lambda>s. set (ss_nodeSet s)) (SM_Get (sv_sm srv3) sid) =
         map_option (\<lambda>s. set (ss_nodeSet s) \<inter> ephemerals (key_tree (sv_store srv)) sid) (SM_Get (sv_sm srv) sid))"
proof -
  let ?E = "ephemerals (key_tree (sv_store srv))"
  obtain idx srv3 where r: "onLoadSnapshot env srv2 = Some (idx, srv3)" "replica_ok srv3 \<and> same_config srv2 srv3" "key_tree (sv_store srv3) = key_tree (sv_store srv)"
    "\<forall>sid. let E = ?E sid in case SM_Get (sv_sm srv3) sid of
           None \<Rightarrow> (stored_session (sv_store srv) sid = None \<or> sid = - 1) \<and> E = {}
         | Some s \<Rightarrow> (stored_session (sv_store srv) sid \<noteq> None \<and> sid \<noteq> - 1 \<or> E \<noteq> {}) \<and> set (ss_nodeSet s) = E"
    using onLoadSnapshot_rebuilds [OF inv new, of env] it unfolding st by blast
  have sess: "SM_Get (sv_sm srv) sid = None \<longleftrightarrow> stored_session (sv_store srv) sid = None" for sid by (rule held_server(2) [OF h])
  have E: "\<exists>s. SM_Get (sv_sm srv) sid = Some s \<and> p \<in> set (ss_nodeSet s)" if "p \<in> ?E sid" for p sid
    using held_server(1) [OF h, of p] that by (auto simp: ephemerals_def)
  have "map_option (\<lambda>s. set (ss_nodeSet s)) (SM_Get (sv_sm srv3) sid) = map_option (\<lambda>s. set (ss_nodeSet s) \<inter> ?E sid) (SM_Get (sv_sm srv) sid)"
    if "sid \<noteq> - 1" for sid
    using r(4) [rule_format, of sid] sess [of sid] E [of _ sid] that
    by (cases "SM_Get (sv_sm srv3) sid"; cases "SM_Get (sv_sm srv) sid") (auto simp: Let_def)
  then show ?thesis using r(1-3) by blast
qed

text \<open>
  C11. A restart loses nothing: a replica that has run any log of commands from an empty database,
  and a server that starts on its database, with no session in memory. Loading succeeds, the tree is
  the same, the same sessions exist (but for the largest id), and each has of its nodes those that
  are ephemeral nodes of its own.
\<close>

theorem restart_recovers:
  assumes "fresh srv" and "list_all replicable reqs" and "queue_ok srv (length reqs)" and "run_log envs reqs srv = Some srv'"
    and "iterates (ldb (so_lib (sv_store srv)))"
    and "replica_ok srv2" and "sv_store srv2 = sv_store srv'" and "\<forall>sid. SM_Get (sv_sm srv2) sid = None"
  shows "\<exists>idx srv3. onLoadSnapshot env srv2 = Some (idx, srv3) \<and> replica_ok srv3 \<and> same_config srv2 srv3
    \<and> key_tree (sv_store srv3) = key_tree (sv_store srv')
    \<and> (\<forall>sid. sid \<noteq> - 1 \<longrightarrow> map_option (\<lambda>s. set (ss_nodeSet s)) (SM_Get (sv_sm srv3) sid) =
         map_option (\<lambda>s. set (ss_nodeSet s) \<inter> ephemerals (key_tree (sv_store srv')) sid) (SM_Get (sv_sm srv') sid))"
  using restart_sessions [OF fresh_log(3) [OF assms(1-4)] assms(6-8)] fresh_log(2) [OF assms(1-4)] assms(5)
  by (simp add: same_env_def)

end
