(* ===== verification/Server_Frame.thy ===== *)
theory Server_Frame
  imports Server_Loops Store_Persist
begin

text \<open>
  What a committed command cannot change, whatever it does. A relation between the server before
  and after that is kept by the elementary changes (a session is adjusted, a held ping is answered,
  the store or the watchers are replaced, a line is logged, a session comes or goes) is kept by every
  handler of a command. The locale states the elementary laws; the books of the requests and the
  control state of the main thread are its instances.
\<close>

text \<open>Effects that neither answer a client nor go to the raft library.\<close>

definition silent :: "effect \<Rightarrow> bool" where
  "silent e \<longleftrightarrow> (case e of Reply _ \<Rightarrow> False | Broadcast _ \<Rightarrow> False | _ \<Rightarrow> True)"

lemma silent_simps [simp]:
  "\<not> silent (Reply r)" "\<not> silent (Broadcast d)" "silent (Log_session sid t)" "silent (Log_watch sid w)"
  "silent Reload_log" "silent (Take_snapshot i)" "silent Check_failed"
  by (simp_all add: silent_def)

lemma keeps_ping [simp]:
  "ss_pingEvent (SetTimeout t s) = ss_pingEvent s" "ss_pingEvent (SetExpireTime u s) = ss_pingEvent s"
  "ss_pingEvent (Close s) = ss_pingEvent s" "ss_pingEvent (PendingWatcher p e s) = ss_pingEvent s"
  "ss_pingEvent (BindWatch w s) = ss_pingEvent s" "ss_pingEvent (RemoveWatch w s) = ss_pingEvent s"
  "ss_pingEvent (ResetWatch s) = ss_pingEvent s" "ss_pingEvent (BindNode p s) = ss_pingEvent s"
  "ss_pingEvent (RemoveNode p s) = ss_pingEvent s"
  by (simp_all add: SetTimeout_def SetExpireTime_def Close_def PendingWatcher_def BindWatch_def
      RemoveWatch_def ResetWatch_def BindNode_def RemoveNode_def)

text \<open>The effects of a write under the proc root.\<close>

lemma proc_write_silent:
  assumes "Store_Write (sv_store srv) (server_proc env srv) path data = Some (st, store, es)"
  shows "list_all silent es"
proof -
  have cb: "list_all silent es'" if "om_find (pd_writeMap (server_proc env srv)) k = Some cb"
    and "cb args v = (st', es')" for k cb args v st' es'
    using that by (auto simp: server_proc_def Let_def RegisterReadNode_def RegisterWriteNode_def ProcDB_new_def
        EventLog_OnProcWrite_def onProcTakeSnapshot_def split: if_splits option.splits)
  have put: "list_all silent es'" if "ProcDB_Put T (server_proc env srv) key data = (st', es')" for T key data st' es'
  proof (cases "proc_match T (c_str key) (pd_writeMap (server_proc env srv))")
    case (Some kc)
    obtain k cb' where kc: "kc = (k, cb')" by (cases kc)
    have inv: "om_invar (pd_writeMap (server_proc env srv))"
      by (simp add: server_proc_def Let_def RegisterReadNode_def RegisterWriteNode_def ProcDB_new_def
          del: om_put.simps)
    have "(k, cb') \<in> set (pd_writeMap (server_proc env srv))"
      using Some kc by (auto simp: proc_match_def find_Some_iff) (metis length_rev nth_mem set_rev)
    then have "om_find (pd_writeMap (server_proc env srv)) k = Some cb'" using om_find_iff [OF inv] by simp
    from cb [OF this] that Some kc show ?thesis by (auto simp: ProcDB_Put_def Let_def split: prod.splits)
  qed (use that in \<open>simp add: ProcDB_Put_def Let_def\<close>)
  show ?thesis
    using assms put by (auto simp: Store_Write_def Store_Put_def Let_def elim!: bind_eq_SomeE
        split: if_splits prod.splits)
qed

text \<open>Every store operation keeps the libraries and limits of the store.\<close>

lemma store_ops_env:
  "Store_Create s proc path data flags sid = Some (st, s') \<Longrightarrow> same_env s s'"
  "Store_Delete s proc path = Some (st, s') \<Longrightarrow> same_env s s'"
  "Store_Write s proc path data = Some (st, s', es) \<Longrightarrow> same_env s s'"
  using store_step_env [of proc "OpCreate path data flags sid" s st s'] store_step_env [of proc "OpDelete path" s st s']
    store_step_env [of proc "OpWrite path data" s st s'] by simp_all

locale server_frame =
  fixes R :: "'db Server \<Rightarrow> 'db Server \<Rightarrow> bool"
  assumes refl: "R srv srv"
    and trans: "R a b \<Longrightarrow> R b c \<Longrightarrow> R a c"
    and set_wm: "R srv (srv\<lparr>sv_wm := wm\<rparr>)"
    and set_store: "same_env (sv_store srv) st \<Longrightarrow> R srv (srv\<lparr>sv_store := st\<rparr>)"
    and adjust: "(\<And>s. ss_pingEvent (f s) = ss_pingEvent s) \<Longrightarrow> R srv (sv_adjust sid f srv)"
    and answer: "R srv (sv_session sid (PingBack now) srv)"
    and log: "list_all silent es \<Longrightarrow> R srv (emit es srv)"
    and add: "SM_Add now (Session_new addr now sid t) (sv_sm srv) (sv_store srv) = Some (sm, st) \<Longrightarrow>
      R srv (srv\<lparr>sv_sm := sm, sv_store := st\<rparr>)"
    and remove: "SM_Get (sv_sm srv) sid = Some s \<Longrightarrow> SM_Remove sid (sv_sm srv) (sv_store srv) = Some (sm, st) \<Longrightarrow>
      R (srv\<lparr>sv_sm := sm, sv_store := st\<rparr>) srv' \<Longrightarrow>
      R srv (emit (case ss_pingEvent s of None \<Rightarrow> [] | Some p \<Rightarrow> [Reply p]) srv')"
begin

lemma watchCallback: "R srv (watchCallback env e w srv)"
proof (cases "SM_Get (sv_sm srv) (w_sid w)")
  case (Some s)
  define srv1 where "srv1 = (if sv_state srv = kLeader then
      sv_session (w_sid w) (PingBack (en_now env)) (sv_adjust (w_sid w) (PendingWatcher (w_path w) e) srv)
    else srv)"
  have "R srv srv1" unfolding srv1_def by (auto intro: refl trans [OF adjust answer])
  then have "R srv (sv_adjust (w_sid w) (RemoveWatch w) srv1)" by (rule trans [OF _ adjust]) simp
  then show ?thesis using Some by (simp add: watchCallback_def Let_def srv1_def)
qed (simp add: watchCallback_def refl)

lemma fold: "(\<And>x srv. R srv (f x srv)) \<Longrightarrow> R srv (List.fold f xs srv)"
proof (induction xs arbitrary: srv)
  case (Cons x xs)
  then show ?case using trans [OF Cons.prems Cons.IH] by simp
qed (simp add: refl)

lemma fold_opt:
  "(\<And>x srv srv'. f x srv = Some srv' \<Longrightarrow> R srv srv') \<Longrightarrow> Prelude.fold_opt f xs srv = Some srv' \<Longrightarrow> R srv srv'"
proof (induction xs arbitrary: srv)
  case (Cons x xs)
  then obtain srv1 where "f x srv = Some srv1" "Prelude.fold_opt f xs srv1 = Some srv'"
    by (auto elim: bind_eq_SomeE)
  with Cons show ?case by (blast intro: trans)
qed (simp add: refl)

lemma Triger:
  assumes "server_Triger env e srv = Some srv'"
  shows "R srv srv'"
proof -
  obtain fired wm where "srv' = List.fold (watchCallback env e) fired (srv\<lparr>sv_wm := wm\<rparr>)"
    using assms by (auto simp: server_Triger_def elim!: bind_eq_SomeE)
  then show ?thesis using trans [OF set_wm fold [of "watchCallback env e", OF watchCallback]] by simp
qed

lemma DeleteNode:
  assumes "DeleteNode env path srv = Some (st, srv')"
  shows "R srv srv'"
proof -
  obtain st1 store where d: "Store_Delete (sv_store srv) (server_proc env srv) path = Some (st1, store)"
    using assms by (auto simp: DeleteNode_def elim!: bind_eq_SomeE)
  have "R srv (srv\<lparr>sv_store := store\<rparr>)" by (rule set_store [OF store_ops_env(2) [OF d]])
  then show ?thesis
    using assms d by (auto simp: DeleteNode_def Let_def elim!: bind_eq_SomeE split: if_splits)
      (blast intro: trans Triger)
qed

lemma onCreate:
  assumes "onCreate env req srv = Some (st, srv')"
  shows "R srv srv'"
proof (cases "\<not> ok (getSession (req_sid req) srv) \<and> cr_flags (req_create req) AND kEphemeral \<noteq> 0")
  case True
  with assms show ?thesis by (simp add: onCreate_def Let_def refl)
next
  case False
  with assms obtain st1 store where c: "Store_Create (sv_store srv) (server_proc env srv) (cr_path (req_create req))
      (cr_data (req_create req)) (cr_flags (req_create req)) (req_sid req) = Some (st1, store)"
    by (auto simp: onCreate_def Let_def elim!: bind_eq_SomeE)
  note s1 = set_store [OF store_ops_env(1) [OF c]]
  show ?thesis
  proof (cases "ok st1")
    case False
    with assms c \<open>\<not> (_ \<and> _)\<close> s1 show ?thesis by (auto simp: onCreate_def Let_def)
  next
    case True
    define srv1 where "srv1 = (if cr_flags (req_create req) AND kEphemeral \<noteq> 0
      then sv_adjust (req_sid req) (BindNode (cr_path (req_create req))) (srv\<lparr>sv_store := store\<rparr>)
      else srv\<lparr>sv_store := store\<rparr>)"
    have "R srv srv1" unfolding srv1_def by (auto intro: s1 trans [OF s1 adjust])
    moreover from assms c True \<open>\<not> (_ \<and> _)\<close> obtain e1 e2 srv2 where
      "server_Triger env e1 srv1 = Some srv2" "server_Triger env e2 srv2 = Some srv'"
      by (auto simp: onCreate_def Let_def srv1_def elim!: bind_eq_SomeE split: if_splits option.splits)
    ultimately show ?thesis by (blast intro: trans Triger)
  qed
qed

lemma onDelete:
  assumes "onDelete env req srv = Some (st, srv')"
  shows "R srv srv'"
proof -
  obtain st0 n where g: "Store_Get (sv_store srv) (server_proc env srv) (req_path (rq_delete req)) = Some (st0, n)"
    using assms by (auto simp: onDelete_def Let_def elim!: bind_eq_SomeE)
  show ?thesis
  proof (cases "ok st0")
    case True
    with assms g obtain st1 srv1 where d: "DeleteNode env (req_path (rq_delete req)) srv = Some (st1, srv1)"
      by (auto simp: onDelete_def Let_def elim!: bind_eq_SomeE)
    have "srv' = srv1 \<or> srv' = sv_adjust (req_sid req) (RemoveNode (req_path (rq_delete req))) srv1"
      using assms g True d by (auto simp: onDelete_def Let_def split: if_splits)
    then show ?thesis using DeleteNode [OF d] trans [OF DeleteNode [OF d] adjust] by auto
  qed (use assms g refl in \<open>simp add: onDelete_def Let_def\<close>)
qed

lemma onWrite:
  assumes "onWrite env req srv = Some (st, srv')"
  shows "R srv srv'"
proof -
  obtain st1 store es where w: "Store_Write (sv_store srv) (server_proc env srv) (wr_path (req_write req))
      (wr_data (req_write req)) = Some (st1, store, es)"
    using assms by (auto simp: onWrite_def Let_def elim!: bind_eq_SomeE)
  have "R srv (emit es (srv\<lparr>sv_store := store\<rparr>))"
    by (rule trans [OF set_store [OF store_ops_env(3) [OF w]] log [OF proc_write_silent [OF w]]])
  moreover have "srv' = emit es (srv\<lparr>sv_store := store\<rparr>) \<or> (\<exists>e. server_Triger env e (emit es (srv\<lparr>sv_store := store\<rparr>)) = Some srv')"
    using assms w by (auto simp: onWrite_def Let_def elim!: bind_eq_SomeE split: if_splits)
  ultimately show ?thesis by (blast intro: trans Triger)
qed

lemma onWatch:
  assumes "onWatch req srv = (st, srv')"
  shows "R srv srv'"
proof -
  have "R srv (sv_adjust sid (BindWatch w) (srv\<lparr>sv_wm := wm\<rparr>))" for sid w wm by (rule trans [OF set_wm adjust]) simp
  then show ?thesis using assms refl by (auto simp: onWatch_def Let_def split: option.splits if_splits)
qed

lemma onRegister:
  assumes "onRegister env req srv = Some (st, sid, srv')"
  shows "R srv srv'"
proof -
  obtain sm store where a: "SM_Add (en_now env) (Session_new (en_addr env) (en_now env) (req_sid req)
      (sint (req_timeout req))) (sv_sm srv) (sv_store srv) = Some (sm, store)"
    and s': "srv' = emit [Log_session (req_sid req) ''new''] (srv\<lparr>sv_sm := sm, sv_store := store\<rparr>)"
    using assms by (auto simp: onRegister_def Let_def elim!: bind_eq_SomeE)
  show ?thesis unfolding s' by (rule trans [OF add [OF a] log]) simp
qed

lemma destroy_node:
  assumes "destroy_node env sid path srv = Some srv'"
  shows "R srv srv'"
  using assms refl by (auto simp: destroy_node_def elim!: bind_eq_SomeE split: if_splits) (erule DeleteNode)+

lemma onUnRegister:
  assumes "onUnRegister env req srv = Some (st, srv')"
  shows "R srv srv'"
proof (cases "SM_Get (sv_sm srv) (req_sid req)")
  case None
  with assms show ?thesis by (simp add: onUnRegister_def refl)
next
  case (Some s)
  let ?sid = "req_sid req"
  define srv1 where "srv1 = sv_adjust ?sid Close (emit [Log_session ?sid ''close''] srv)"
  obtain sm store where r: "SM_Remove ?sid (sv_sm srv1) (sv_store srv1) = Some (sm, store)"
    and d: "Session_destroy env (Close s) (srv1\<lparr>sv_sm := sm, sv_store := store\<rparr>) = Some srv'"
    using assms Some by (auto simp: onUnRegister_def Let_def srv1_def elim!: bind_eq_SomeE)
  have g: "SM_Get (sv_sm srv1) ?sid = Some (Close s)"
    using Some by (simp add: srv1_def sv_adjust_def emit_def SM_adjust_def SM_Get_def)
  define srv2 where "srv2 = (srv1\<lparr>sv_sm := sm, sv_store := store\<rparr>)
      \<lparr>sv_wm := List.fold (\<lambda>e wm. WM_Remove (snd e) wm) (ss_watches (Close s)) (sv_wm srv1)\<rparr>"
  obtain srv3 where f: "Prelude.fold_opt (destroy_node env (ss_sid (Close s))) (ss_nodeSet (Close s)) srv2 = Some srv3"
    and s': "srv' = emit (case ss_pingEvent (Close s) of None \<Rightarrow> [] | Some p \<Rightarrow> [Reply p]) srv3"
    using d by (auto simp: Session_destroy_def Let_def srv2_def elim!: bind_eq_SomeE)
  have "R (srv1\<lparr>sv_sm := sm, sv_store := store\<rparr>) srv3"
    by (rule trans [OF _ fold_opt [OF destroy_node f]]) (simp add: srv2_def set_wm)
  from remove [OF g r this] have "R srv1 srv'" by (simp add: s')
  moreover have "R srv srv1" unfolding srv1_def by (rule trans [OF log adjust]) simp_all
  ultimately show ?thesis by (rule trans [rotated])
qed

lemma run_command:
  assumes "run_command env req srv = Some (st, rep, srv')"
  shows "R srv srv'"
proof -
  have read: "R srv srv'" if "onRead env req srv = Some (st, data, srv')" for st data srv'
    using that onWatch [of req srv] refl by (auto simp: onRead_def elim!: bind_eq_SomeE split: if_splits prod.splits)
  have stat: "R srv srv'" if "onStat env req srv = Some (st, data, srv')" for st data srv'
    using that onWatch [of req srv] refl by (auto simp: onStat_def elim!: bind_eq_SomeE split: if_splits prod.splits)
  show ?thesis
    using assms refl
    by (auto simp: run_command_def Let_def elim!: bind_eq_SomeE split: if_splits prod.splits
        intro: onRegister onUnRegister onCreate onDelete onWrite onWatch read stat)
qed

end

end
