(* ===== verification/Server_Ledger.thy ===== *)
theory Server_Ledger
  imports Server_Frame
begin

text \<open>
  No request is lost and none is answered twice: the requests a server has received are at any
  time exactly those it has answered, those in its channel, those waiting for their command to
  be committed, and the pings its sessions hold. The books are kept by the closures that send
  the responses; closure 0 is the empty one of the server's own requests.
\<close>

definition held :: "(sid_t, Session) omap \<Rightarrow> nat multiset" where
  "held ss = mset (List.map_filter (\<lambda>e. map_option ev_done (ss_pingEvent (snd e))) ss)"

definition pings :: "Session \<Rightarrow> nat multiset" where
  "pings s = (case ss_pingEvent s of None \<Rightarrow> {#} | Some p \<Rightarrow> {#ev_done p#})"

definition ledger :: "'db Server \<Rightarrow> nat multiset" where
  "ledger srv = image_mset ev_done (mset (sv_eventch srv)) + image_mset ev_done (mset (sv_requests srv))
     + held (sm_sessions (sv_sm srv)) + image_mset ev_done (mset (replies (sv_out srv)))"

definition books_ok :: "'db Server \<Rightarrow> bool" where
  "books_ok srv \<longleftrightarrow> om_invar (sm_sessions (sv_sm srv))"

text \<open>A step that takes in the requests \<open>d\<close> and otherwise only moves entries of the books.\<close>

definition balanced :: "'db Server \<Rightarrow> nat multiset \<Rightarrow> 'db Server \<Rightarrow> bool" where
  "balanced srv d srv' \<longleftrightarrow> (books_ok srv \<longrightarrow> books_ok srv' \<and> ledger srv' = ledger srv + d)"

lemma balanced_refl [simp]: "balanced srv {#} srv"
  by (simp add: balanced_def)

lemma balanced_trans: "balanced a d b \<Longrightarrow> balanced b d' c \<Longrightarrow> balanced a (d + d') c"
  by (auto simp: balanced_def)

lemma balanced_0_trans: "balanced a {#} b \<Longrightarrow> balanced b d c \<Longrightarrow> balanced a d c"
  by (auto simp: balanced_def)

lemma balanced_trans_0: "balanced a d b \<Longrightarrow> balanced b {#} c \<Longrightarrow> balanced a d c"
  by (auto simp: balanced_def)

lemma books_upd [simp]:
  "ledger (srv\<lparr>sv_wm := a\<rparr>) = ledger srv" "books_ok (srv\<lparr>sv_wm := a\<rparr>) = books_ok srv"
  "ledger (srv\<lparr>sv_store := b\<rparr>) = ledger srv" "books_ok (srv\<lparr>sv_store := b\<rparr>) = books_ok srv"
  "ledger (srv\<lparr>sv_loop := c\<rparr>) = ledger srv" "books_ok (srv\<lparr>sv_loop := c\<rparr>) = books_ok srv"
  "ledger (srv\<lparr>sv_state := d\<rparr>) = ledger srv" "books_ok (srv\<lparr>sv_state := d\<rparr>) = books_ok srv"
  "ledger (srv\<lparr>sv_cmdch := e\<rparr>) = ledger srv" "books_ok (srv\<lparr>sv_cmdch := e\<rparr>) = books_ok srv"
  "ledger (srv\<lparr>sv_statech := f\<rparr>) = ledger srv" "books_ok (srv\<lparr>sv_statech := f\<rparr>) = books_ok srv"
  "ledger (srv\<lparr>sv_logIndex := g\<rparr>) = ledger srv" "books_ok (srv\<lparr>sv_logIndex := g\<rparr>) = books_ok srv"
  by (simp_all add: ledger_def books_ok_def)

lemma balanced_upd [simp]:
  "balanced srv {#} (srv'\<lparr>sv_wm := a\<rparr>) = balanced srv {#} srv'"
  "balanced srv {#} (srv'\<lparr>sv_store := b\<rparr>) = balanced srv {#} srv'"
  "balanced srv d (srv'\<lparr>sv_loop := c\<rparr>) = balanced srv d srv'"
  "balanced srv d (srv'\<lparr>sv_state := e\<rparr>) = balanced srv d srv'"
  "balanced srv d (srv'\<lparr>sv_cmdch := f\<rparr>) = balanced srv d srv'"
  "balanced srv d (srv'\<lparr>sv_statech := g\<rparr>) = balanced srv d srv'"
  by (simp_all add: balanced_def)

subsection \<open>Sessions\<close>

lemma held_simps [simp]: "held [] = {#}"
  "held (e # ss) = (case ss_pingEvent (snd e) of None \<Rightarrow> {#} | Some p \<Rightarrow> {#ev_done p#}) + held ss"
  by (auto simp: held_def List.map_filter_def split: option.splits)

lemma held_adjust_absent: "k \<notin> fst ` set ss \<Longrightarrow> om_adjust k f ss = ss"
  by (induction ss) (auto simp: om_adjust_def)

lemma held_adjust:
  assumes "om_invar ss" and "om_find ss sid = Some s"
  shows "held (om_adjust sid f ss) + pings s = held ss + pings (f s)"
  using assms
proof (induction ss)
  case (Cons e ss)
  show ?case
  proof (cases "fst e = sid")
    case True
    then have "sid \<notin> fst ` set ss" using Cons.prems(1) by (auto simp: om_invar_def)
    then have "om_adjust sid f ss = ss" by (rule held_adjust_absent)
    with True Cons.prems(2) show ?thesis
      by (cases e) (auto simp: om_adjust_def pings_def split: option.splits)
  next
    case False
    then have "held (om_adjust sid f ss) + pings s = held ss + pings (f s)"
      using Cons.IH Cons.prems by (cases e) (auto simp: om_invar_def)
    with False show ?thesis by (cases e) (simp add: om_adjust_def ac_simps)
  qed
qed simp

lemma held_erase:
  assumes "om_invar ss" and "om_find ss sid = Some s"
  shows "held (om_erase sid ss) + pings s = held ss"
  using assms
proof (induction ss)
  case (Cons e ss)
  show ?case
  proof (cases "fst e = sid")
    case True
    then have "sid \<notin> fst ` set ss" using Cons.prems(1) by (auto simp: om_invar_def)
    then have "om_erase sid ss = ss" by (auto simp: om_erase_def filter_id_conv)
    with True Cons.prems(2) show ?thesis
      by (cases e) (auto simp: om_erase_def pings_def split: option.splits)
  next
    case False
    then have "held (om_erase sid ss) + pings s = held ss"
      using Cons.IH Cons.prems by (cases e) (auto simp: om_invar_def)
    with False show ?thesis by (cases e) (simp add: om_erase_def ac_simps)
  qed
qed simp

lemma held_put_absent: "om_find ss k = None \<Longrightarrow> held (om_put k s ss) = held ss + pings s"
  by (induction k s ss rule: om_put.induct)
    (auto simp: pings_def ac_simps split: if_splits option.splits)

lemma held_insert: "pings s = {#} \<Longrightarrow> held (om_insert k s ss) = held ss"
  by (auto simp: om_insert_def held_put_absent split: option.splits)

lemma om_find_None_adjust: "om_find ss k = None \<Longrightarrow> om_adjust k f ss = ss"
  by (rule held_adjust_absent) (simp add: om_find_def map_of_eq_None_iff)

text \<open>An operation on a session that keeps its ping.\<close>

lemma balanced_sv_adjust:
  assumes "\<And>s. ss_pingEvent (f s) = ss_pingEvent s"
  shows "balanced srv {#} (sv_adjust sid f srv)"
proof (cases "om_find (sm_sessions (sv_sm srv)) sid")
  case None
  then show ?thesis by (simp add: balanced_def ledger_def books_ok_def sv_adjust_def SM_adjust_def om_find_None_adjust)
next
  case (Some s)
  have "pings (f s) = pings s" using assms by (simp add: pings_def)
  with held_adjust [OF _ Some, of f] show ?thesis
    by (simp add: balanced_def ledger_def books_ok_def sv_adjust_def SM_adjust_def)
qed

lemma balanced_emit: "balanced srv (image_mset ev_done (mset (replies es))) (emit es srv)"
  by (simp add: balanced_def ledger_def books_ok_def emit_def)

lemma multiset_shift:
  fixes h :: "'a multiset"
  assumes "h + p = H + q" and "q + r = p + d"
  shows "h + r = H + d"
proof (rule multiset_eqI)
  fix x
  have "count h x + count p x = count H x + count q x" using assms(1) by (metis count_union)
  moreover have "count q x + count r x = count p x + count d x" using assms(2) by (metis count_union)
  ultimately show "count (h + r) x = count (H + d) x" by simp
qed

lemma balanced_sv_session:
  assumes "\<And>s. pings (fst (f s)) + image_mset ev_done (mset (replies (snd (f s)))) = pings s + d"
    and "SM_Get (sv_sm srv) sid \<noteq> None \<or> d = {#}"
  shows "balanced srv d (sv_session sid f srv)"
proof (cases "SM_Get (sv_sm srv) sid")
  case None
  with assms(2) show ?thesis by (simp add: sv_session_def)
next
  case (Some s)
  let ?ss = "sm_sessions (sv_sm srv)"
  have s: "om_find ?ss sid = Some s" using Some by (simp add: SM_Get_def)
  show ?thesis
  proof (unfold balanced_def, intro impI conjI)
    assume b: "books_ok srv"
    then show "books_ok (sv_session sid f srv)"
      by (simp add: sv_session_def Some emit_def sv_adjust_def SM_adjust_def books_ok_def)
    have "held (om_adjust sid (\<lambda>_. fst (f s)) ?ss) + pings s = held ?ss + pings (fst (f s))"
      using held_adjust [OF _ s, of "\<lambda>_. fst (f s)"] b by (simp add: books_ok_def)
    from multiset_shift [OF this assms(1)]
    have "held (om_adjust sid (\<lambda>_. fst (f s)) ?ss) + image_mset ev_done (mset (replies (snd (f s)))) = held ?ss + d"
      .
    then show "ledger (sv_session sid f srv) = ledger srv + d"
      by (simp add: sv_session_def Some emit_def sv_adjust_def SM_adjust_def ledger_def ac_simps)
  qed
qed

lemma pings_PingBack:
  "pings (fst (PingBack now s)) + image_mset ev_done (mset (replies (snd (PingBack now s)))) = pings s"
  by (auto simp: PingBack_def pings_def Let_def split: option.splits list.splits)

lemma pings_HoldPing:
  "pings (fst (HoldPing e s)) + image_mset ev_done (mset (replies (snd (HoldPing e s)))) = pings s + {#ev_done e#}"
  by (auto simp: HoldPing_def pings_def split: option.splits)

lemma balanced_PingBack: "balanced srv {#} (sv_session sid (PingBack now) srv)"
  by (rule balanced_sv_session) (simp_all add: pings_PingBack)

subsection \<open>Registering and unregistering\<close>

lemma removeFromTimers_sessions:
  "removeFromTimers sid sm = Some sm' \<Longrightarrow> sm_sessions sm' = sm_sessions sm"
  by (auto simp: removeFromTimers_def Let_def split: option.splits if_splits)

lemma timer_insert_sessions [simp]: "sm_sessions (timer_insert t x sm) = sm_sessions sm"
  by (simp add: timer_insert_def Let_def)

lemma Touch_books:
  assumes "Touch X now sid sm = Some sm'" and "om_invar (sm_sessions sm)"
  shows "om_invar (sm_sessions sm') \<and> held (sm_sessions sm') = held (sm_sessions sm)"
proof -
  obtain s where s: "SM_Get sm sid = Some s" using assms(1) by (auto simp: Touch_def split: option.splits)
  have "sm' = sm \<or> (\<exists>e. sm_sessions sm' = om_adjust sid (SetExpireTime e) (sm_sessions sm))"
    using assms(1) s by (auto simp: Touch_def Let_def SM_adjust_def removeFromTimers_sessions
        elim!: bind_eq_SomeE split: if_splits)
  moreover have "held (om_adjust sid (SetExpireTime e) (sm_sessions sm)) = held (sm_sessions sm)" for e
    using held_adjust [OF assms(2), of sid s "SetExpireTime e"] s
    by (simp add: SM_Get_def pings_def)
  ultimately show ?thesis using assms(2) by auto
qed

lemma SM_Add_books:
  assumes "SM_Add now s sm st = Some (sm', st')" and "om_invar (sm_sessions sm)" and "pings s = {#}"
  shows "om_invar (sm_sessions sm') \<and> held (sm_sessions sm') = held (sm_sessions sm)"
proof -
  obtain sm1 where "Touch (so_lib st') now (ss_sid s) sm1 = Some sm'"
    and sm1: "sm_sessions sm1 = om_insert (ss_sid s) s (sm_sessions sm)"
    using assms(1)
    by (auto simp: SM_Add_def Let_def elim!: bind_eq_SomeE split: prod.splits if_splits)
  then show ?thesis using Touch_books [of "so_lib st'" now "ss_sid s" sm1 sm'] assms(2,3) by (simp add: held_insert)
qed

lemma balanced_sv_Add:
  assumes "SM_Add now s (sv_sm srv) (sv_store srv) = Some (sm, st)" and "pings s = {#}"
  shows "balanced srv {#} (srv\<lparr>sv_sm := sm, sv_store := st\<rparr>)"
  using SM_Add_books [OF assms(1) _ assms(2)] by (auto simp: balanced_def ledger_def books_ok_def)

lemma pings_new [simp]: "pings (Session_new a n i t) = {#}"
  by (simp add: pings_def Session_new_def)

lemma SM_Remove_books:
  assumes "SM_Remove sid sm st = Some (sm', st')" and "om_invar (sm_sessions sm)"
  obtains s where "SM_Get sm sid = Some s" "om_invar (sm_sessions sm')"
    "held (sm_sessions sm') + pings s = held (sm_sessions sm)"
proof -
  obtain s where s: "SM_Get sm sid = Some s" using assms(1) by (auto simp: SM_Remove_def split: option.splits)
  have "sm_sessions sm' = om_erase sid (sm_sessions sm)"
    using assms(1) s by (auto simp: SM_Remove_def removeFromSessions_def removeFromTimers_sessions Let_def
        elim!: bind_eq_SomeE split: if_splits prod.splits)
  then show thesis using that [OF s] held_erase [OF assms(2), of sid s] s assms(2) by (simp add: SM_Get_def)
qed

lemma balanced_remove:
  assumes g: "SM_Get (sv_sm srv) sid = Some s" and r: "SM_Remove sid (sv_sm srv) (sv_store srv) = Some (sm, st)"
    and b: "balanced (srv\<lparr>sv_sm := sm, sv_store := st\<rparr>) {#} srv'"
  shows "balanced srv {#} (emit (case ss_pingEvent s of None \<Rightarrow> [] | Some p \<Rightarrow> [Reply p]) srv')"
proof (unfold balanced_def, intro impI)
  let ?es = "case ss_pingEvent s of None \<Rightarrow> [] | Some p \<Rightarrow> [Reply p]"
  assume "books_ok srv"
  then have "om_invar (sm_sessions sm)" "held (sm_sessions sm) + pings s = held (sm_sessions (sv_sm srv))"
    using SM_Remove_books [OF r] g by (auto simp: books_ok_def)
  then have "books_ok (srv\<lparr>sv_sm := sm, sv_store := st\<rparr>)" "ledger (srv\<lparr>sv_sm := sm, sv_store := st\<rparr>) + pings s = ledger srv"
    by (auto simp: books_ok_def ledger_def ac_simps)
  moreover have "balanced srv' (pings s) (emit ?es srv')"
    using balanced_emit [of srv' ?es] by (simp add: pings_def split: option.splits)
  ultimately show "books_ok (emit ?es srv') \<and> ledger (emit ?es srv') = ledger srv + {#}"
    using b by (simp add: balanced_def)
qed

lemma replies_silent: "list_all silent es \<Longrightarrow> replies es = []"
  by (induction es rule: replies.induct) auto

text \<open>The books are a frame of the commands.\<close>

interpretation bal: server_frame "\<lambda>a b. balanced a {#} b"
proof unfold_locales
  show "balanced srv {#} (emit es srv)" if "list_all silent es" for es and srv :: "'a Server"
    using balanced_emit [of srv es] replies_silent [OF that] by simp
  show "balanced srv {#} (sv_adjust sid f srv)" if "\<And>s. ss_pingEvent (f s) = ss_pingEvent s" for f sid and srv :: "'a Server"
    using that by (rule balanced_sv_adjust)
  show "balanced srv {#} (srv\<lparr>sv_sm := sm, sv_store := st\<rparr>)"
    if "SM_Add now (Session_new addr now sid t) (sv_sm srv) (sv_store srv) = Some (sm, st)" for now addr sid t sm st and srv :: "'a Server"
    using that by (rule balanced_sv_Add) simp
qed (auto intro: balanced_0_trans balanced_PingBack balanced_remove)

lemma balanced_onCommand:
  assumes "onCommand env req srv = Some srv'"
  shows "balanced srv {#} srv'"
proof -
  obtain e srv0 st rep srv1 where
    take: "(if sv_state srv = kLeader then (case sv_requests srv of [] \<Rightarrow> None
        | e # rest \<Rightarrow> Some (Some e, srv\<lparr>sv_requests := rest\<rparr>)) else Some (None, srv)) = Some (e, srv0)"
    and run: "run_command env req srv0 = Some (st, rep, srv1)"
    and s': "srv' = (case e of None \<Rightarrow> srv1
      | Some e \<Rightarrow> emit [Reply (e\<lparr>ev_Rep := if \<not> ok st then set_err st rep else rep\<rparr>)] srv1)"
    using assms by (auto simp: onCommand_def Let_def elim!: bind_eq_SomeE)
  note b = bal.run_command [OF run]
  show ?thesis
  proof (cases e)
    case None
    with take have "srv0 = srv" by (auto split: if_splits list.splits)
    with b s' None show ?thesis by simp
  next
    case (Some x)
    with take obtain rest where r: "sv_requests srv = x # rest" "srv0 = srv\<lparr>sv_requests := rest\<rparr>"
      by (auto split: if_splits list.splits)
    have "ledger srv0 + {#ev_done x#} = ledger srv" "books_ok srv0 = books_ok srv"
      by (simp_all add: r ledger_def books_ok_def)
    moreover have "balanced srv1 {#ev_done x#} srv'"
      using balanced_emit [of srv1 "[Reply (x\<lparr>ev_Rep := if \<not> ok st then set_err st rep else rep\<rparr>)]"]
      by (simp add: s' Some)
    ultimately show ?thesis using b by (auto simp: balanced_def)
  qed
qed


subsection \<open>Requests\<close>

lemma ev_done_fail [simp]: "ev_done (fail_event st e) = ev_done e"
  by (simp add: fail_event_def)

lemma balanced_push: "balanced srv {#ev_done e#} (push_request e srv)"
  by (simp add: balanced_def ledger_def books_ok_def push_request_def)

lemma balanced_replicate: "balanced srv {#} (replicate_cmd cmd srv)"
  unfolding replicate_cmd_def using balanced_emit [of srv "[Broadcast _]"] by simp

lemma balanced_finish: "balanced srv {#ev_done e#} (finish_event st e srv)"
  unfolding finish_event_def
  using balanced_emit [of srv "[Reply (if \<not> ok st then fail_event st e else e)]"]
  by (simp split: if_splits)

lemma balanced_reply: "ev_done e' = ev_done e \<Longrightarrow> balanced srv {#ev_done e#} (emit [Reply e'] srv)"
  using balanced_emit [of srv "[Reply e']"] by simp

lemma balanced_handleRegister: "balanced srv {#ev_done e#} (handleRegister e srv)"
proof (cases "rq_sid (ev_Req e)")
  case None
  obtain sid sm where g: "GenSid (sv_sm srv) = (sid, sm)" by fastforce
  have "balanced srv {#} (srv\<lparr>sv_sm := sm\<rparr>)"
    using g by (auto simp: GenSid_def Let_def balanced_def ledger_def books_ok_def)
  then show ?thesis
    using None g balanced_trans_0 [OF balanced_0_trans [OF _ balanced_push] balanced_replicate]
    by (simp add: handleRegister_def Let_def)
next
  case (Some sid)
  have "balanced srv {#ev_done e#} (emit [Reply (e\<lparr>ev_Rep := r\<rparr>)] srv0)" if "balanced srv {#} srv0" for r srv0
    by (rule balanced_0_trans [OF that balanced_reply]) simp
  moreover have "balanced srv {#} (sv_adjust sid (SetTimeout t) srv)" for t
    by (rule balanced_sv_adjust) simp
  ultimately show ?thesis using Some by (simp add: handleRegister_def Let_def)
qed

lemma balanced_Touch:
  assumes "sv_Touch env sid srv = Some srv'"
  shows "balanced srv {#} srv'"
proof -
  obtain sm where "Touch (sv_lib srv) (en_now env) sid (sv_sm srv) = Some sm" "srv' = srv\<lparr>sv_sm := sm\<rparr>"
    using assms by (auto simp: sv_Touch_def)
  with Touch_books show ?thesis by (fastforce simp: balanced_def ledger_def books_ok_def)
qed

lemma Touch_exists:
  assumes "Touch X now sid sm = Some sm'"
  shows "SM_Get sm' sid \<noteq> None"
  using assms by (auto simp: Touch_def Let_def SM_Get_def SM_adjust_def removeFromTimers_sessions
      elim!: bind_eq_SomeE split: option.splits if_splits)

lemma balanced_handlePing:
  assumes "handlePing env e srv = Some (st, srv')"
  shows "balanced srv (if ok st then {#ev_done e#} else {#}) srv'"
proof (cases "ok (getSession (req_sid (ev_Req e)) srv)")
  case False
  with assms show ?thesis by (auto simp: handlePing_def Let_def)
next
  case True
  let ?sid = "req_sid (ev_Req e)"
  obtain srv1 where t: "sv_Touch env ?sid srv = Some srv1"
    using assms True by (auto simp: handlePing_def Let_def elim!: bind_eq_SomeE)
  define srv2 where "srv2 = sv_session ?sid (HoldPing e) srv1"
  have st: "st = OK" and s': "srv' = srv2 \<or> srv' = sv_session ?sid (PingBack (en_now env)) srv2"
    using assms True t by (auto simp: handlePing_def Let_def srv2_def split: option.splits if_splits)
  have "SM_Get (sv_sm srv1) ?sid \<noteq> None" using t by (auto simp: sv_Touch_def dest!: Touch_exists)
  then have "balanced srv1 {#ev_done e#} srv2"
    unfolding srv2_def using pings_HoldPing [of e] by (intro balanced_sv_session) simp_all
  then have "balanced srv {#ev_done e#} srv2" using balanced_0_trans [OF balanced_Touch [OF t]] by blast
  then show ?thesis using s' balanced_trans_0 [OF _ balanced_PingBack] st by (auto simp: ok_def OK_def mk_status_def)
qed

lemma balanced_handleRead:
  assumes "handleRead env e srv = Some (st, e', srv')"
  shows "balanced srv {#} srv' \<and> ev_done e' = ev_done e"
  using assms bal.onWatch [of "ev_Req e" srv]
  by (auto simp: handleRead_def Let_def elim!: bind_eq_SomeE split: if_splits prod.splits)

lemma balanced_handleStat:
  assumes "handleStat env e srv = Some (st, e', srv')"
  shows "balanced srv {#} srv' \<and> ev_done e' = ev_done e"
  using assms bal.onWatch [of "ev_Req e" srv]
  by (auto simp: handleStat_def Let_def elim!: bind_eq_SomeE split: if_splits prod.splits)

lemma balanced_handleEvent:
  assumes "handleEvent env e srv = Some srv'"
  shows "balanced srv {#ev_done e#} srv'"
proof -
  let ?req = "ev_Req e" and ?sid = "req_sid (ev_Req e)"
  consider (reg) "rq_register ?req \<noteq> None" "srv' = handleRegister e srv"
    | (gone) "srv' = finish_event (SessionExpired ''session expired'') e srv"
    | (go) srv1 where
        "(if \<not> rq_ping ?req \<and> \<not> rq_unregister ?req then sv_Touch env ?sid srv else Some srv) = Some srv1"
        "(if needBoradcast ?req then Some (push_request e (replicate_cmd ?req srv1))
        else if rq_ping ?req then do {
          (st, srv) \<leftarrow> handlePing env e srv1;
          Some (if \<not> ok st then finish_event st e srv else srv) }
        else if rq_read ?req \<noteq> None then do {
          (st, e, srv) \<leftarrow> handleRead env e srv1; Some (finish_event st e srv) }
        else if rq_stat ?req \<noteq> None then do {
          (st, e, srv) \<leftarrow> handleStat env e srv1; Some (finish_event st e srv) }
        else if rq_watch ?req \<noteq> None then
          (case onWatch ?req srv1 of (st, srv) \<Rightarrow> Some (finish_event st e srv))
        else Some (finish_event OK e srv1)) = Some srv'"
    using assms by (auto simp: handleEvent_def Let_def elim!: bind_eq_SomeE split: if_splits)
  then show ?thesis
  proof cases
    case (go srv1)
    have b: "balanced srv {#} srv1" using go(1) balanced_Touch by (auto split: if_splits)
    have ping: "balanced srv1 {#ev_done e#} srv2"
      if "handlePing env e srv1 = Some (st, srv3)" "srv2 = (if \<not> ok st then finish_event st e srv3 else srv3)"
      for st srv3 srv2
      using balanced_handlePing [OF that(1)] that(2) balanced_0_trans [OF _ balanced_finish]
      by (auto split: if_splits)
    have fin: "balanced srv1 {#ev_done e#} (finish_event st e2 srv3)"
      if "balanced srv1 {#} srv3 \<and> ev_done e2 = ev_done e" for st e2 srv3
      using balanced_0_trans [OF _ balanced_finish] that by metis
    have "balanced srv1 {#ev_done e#} srv'"
      using go(2) balanced_0_trans [OF balanced_replicate [of srv1 ?req] balanced_push [of _ e]]
      by (auto split: if_splits prod.splits elim!: bind_eq_SomeE
          dest: balanced_handleRead balanced_handleStat bal.onWatch intro!: fin ping)
    then show ?thesis using b balanced_0_trans by blast
  qed (auto intro: balanced_handleRegister balanced_finish)
qed


subsection \<open>Expiry and the callbacks of the raft library\<close>

text \<open>Up to requests of the server itself.\<close>

definition moves :: "'db Server \<Rightarrow> nat multiset \<Rightarrow> 'db Server \<Rightarrow> bool" where
  "moves srv d srv' \<longleftrightarrow> (\<exists>n. balanced srv (d + replicate_mset n 0) srv')"

lemma balanced_moves: "balanced srv d srv' \<Longrightarrow> moves srv d srv'"
  unfolding moves_def by (metis add_0_right replicate_mset_0)

lemma moves_trans: "moves a {#} b \<Longrightarrow> moves b {#} c \<Longrightarrow> moves a {#} c"
proof -
  have add: "replicate_mset (n + m) x = replicate_mset n x + replicate_mset m x" for n m and x :: nat
    by (induction n) simp_all
  show "moves a {#} b \<Longrightarrow> moves b {#} c \<Longrightarrow> moves a {#} c"
    unfolding moves_def using balanced_trans by (metis add_0 add)
qed

lemma balanced_moves_trans: "balanced a {#} b \<Longrightarrow> moves b {#} c \<Longrightarrow> moves a {#} c"
  by (rule moves_trans [OF balanced_moves])

lemma moves_onSessionClosed:
  assumes "onSessionClosed env sid srv = Some srv'"
  shows "moves srv {#} srv'"
proof -
  let ?srv1 = "emit [Log_session sid ''expire''] srv"
  have "handleEvent env (close_event sid) ?srv1 = Some srv'"
    using assms by (auto simp: onSessionClosed_def split: option.splits if_splits)
  then have "balanced ?srv1 {#0#} srv'" using balanced_handleEvent by (fastforce simp: close_event_def)
  moreover have "balanced srv {#} ?srv1" using balanced_emit [of srv "[Log_session sid ''expire'']"] by simp
  ultimately have "balanced srv ({#} + replicate_mset 1 0) srv'" by (simp add: balanced_0_trans)
  then show ?thesis unfolding moves_def by blast
qed

lemma moves_close_due:
  assumes "close_due env sid srv = Some srv'"
  shows "moves srv {#} srv'"
proof -
  have "srv' = srv \<or> onSessionClosed env sid (sv_adjust sid Close srv) = Some srv'"
    using assms by (auto simp: close_due_def split: option.splits if_splits)
  then show ?thesis
  proof
    assume 2: "onSessionClosed env sid (sv_adjust sid Close srv) = Some srv'"
    have "balanced srv {#} (sv_adjust sid Close srv)" by (rule balanced_sv_adjust) simp
    from balanced_moves_trans [OF this moves_onSessionClosed [OF 2]] show ?thesis .
  qed (simp add: balanced_moves)
qed

lemma moves_fold_opt:
  "(\<And>x srv srv'. f x srv = Some srv' \<Longrightarrow> moves srv {#} srv') \<Longrightarrow>
     fold_opt f xs srv = Some srv' \<Longrightarrow> moves srv {#} srv'"
proof (induction xs arbitrary: srv)
  case (Cons x xs)
  then obtain srv1 where "f x srv = Some srv1" "fold_opt f xs srv1 = Some srv'"
    by (auto elim: bind_eq_SomeE)
  with Cons show ?case by (blast intro: moves_trans)
qed (simp add: balanced_moves)

lemma moves_Step:
  assumes "server_Step env srv = Some (t, srv')"
  shows "moves srv {#} srv'"
proof -
  have "fold_opt (close_due env) (due_sessions (en_now env) (sv_sm srv)) srv = Some srv'"
    using assms by (auto simp: server_Step_def elim!: bind_eq_SomeE)
  moreover have "moves a {#} b" if "close_due env x a = Some b" for x and a b :: "'a Server"
    using that by (rule moves_close_due)
  ultimately show ?thesis by (rule moves_fold_opt [rotated])
qed

lemma held_PingBack_all:
  "held (map (\<lambda>(sid, s). (sid, fst (PingBack now s))) ss)
     + image_mset ev_done (mset (replies (concat (map (\<lambda>(sid, s). snd (PingBack now s)) ss)))) = held ss"
proof (induction ss)
  case (Cons e ss)
  have "pings (fst (PingBack now (snd e))) + image_mset ev_done (mset (replies (snd (PingBack now (snd e)))))
      = pings (snd e)" using pings_PingBack [of now "snd e"] by simp
  moreover have "held (map (\<lambda>(sid, s). (sid, fst (PingBack now s))) (e # ss))
      + image_mset ev_done (mset (replies (concat (map (\<lambda>(sid, s). snd (PingBack now s)) (e # ss)))))
    = (pings (fst (PingBack now (snd e))) + image_mset ev_done (mset (replies (snd (PingBack now (snd e))))))
      + (held (map (\<lambda>(sid, s). (sid, fst (PingBack now s))) ss)
      + image_mset ev_done (mset (replies (concat (map (\<lambda>(sid, s). snd (PingBack now s)) ss)))))"
    by (cases e) (simp add: pings_def ac_simps)
  ultimately show ?case using Cons by (simp add: pings_def)
qed simp

lemma balanced_onState: "balanced srv {#} (onState env state srv)"
proof -
  have again: "replies (map (\<lambda>e. Reply (fail_event st e)) es) = map (fail_event st) es" for st es
    by (induction es) simp_all
  have keys: "map fst (map (\<lambda>(sid, s). (sid, g s)) m) = map fst m" for g :: "Session \<Rightarrow> Session" and m :: "(sid_t \<times> Session) list"
    by (induction m) auto
  show ?thesis
    using held_PingBack_all [of "en_now env" "sm_sessions (sv_sm srv)"]
    by (simp add: onState_def ResetPendingPing_def Let_def balanced_def ledger_def books_ok_def emit_def again
        om_invar_def keys image_mset.compositionality comp_def ac_simps del: map_map)
qed

lemma balanced_onSynced: "onSynced index data srv = Some srv' \<Longrightarrow> balanced srv {#} srv'"
  by (auto simp: onSynced_def balanced_def split: prod.splits if_splits)

subsection \<open>The loops\<close>

lemma fold_SetExpire_books:
  "om_invar (sm_sessions sm) \<Longrightarrow>
     om_invar (sm_sessions (fold (\<lambda>y sm. SM_adjust (snd y) (SetExpireTime e) sm) ys sm))
     \<and> held (sm_sessions (fold (\<lambda>y sm. SM_adjust (snd y) (SetExpireTime e) sm) ys sm)) = held (sm_sessions sm)"
proof (induction ys arbitrary: sm)
  case (Cons y ys)
  have "held (om_adjust (snd y) (SetExpireTime e) (sm_sessions sm)) = held (sm_sessions sm)"
  proof (cases "om_find (sm_sessions sm) (snd y)")
    case (Some s)
    from held_adjust [OF Cons.prems this, of "SetExpireTime e"] show ?thesis by (simp add: pings_def)
  qed (simp add: om_find_None_adjust)
  then show ?case using Cons.IH [of "SM_adjust (snd y) (SetExpireTime e) sm"] Cons.prems
    by (simp add: SM_adjust_def)
qed simp

lemma reset_timers_books:
  "reset_timers X nows i ts new sm = Some sm' \<Longrightarrow> om_invar (sm_sessions sm) \<Longrightarrow>
     om_invar (sm_sessions sm') \<and> held (sm_sessions sm') = held (sm_sessions sm)"
proof (induction X nows i ts new sm rule: reset_timers.induct)
  case (2 X nows i t b rest new sm)
  obtain x r s where b: "b = x # r" "SM_Get sm (snd x) = Some s"
    using 2(2) by (auto split: list.splits option.splits)
  from 2(1) [OF b(1) b(2) refl refl] 2(2,3) b
    fold_SetExpire_books [of sm "expiry X (nows i) (ss_timeout s)" b]
  show ?case by (auto simp: Let_def)
qed auto

lemma balanced_ResetWatchers:
  "held (sm_sessions (ResetWatchers sm)) = held (sm_sessions sm)"
  "om_invar (sm_sessions (ResetWatchers sm)) = om_invar (sm_sessions sm)"
proof -
  have "held (map (\<lambda>(sid, s). (sid, ResetWatch s)) ss) = held ss" for ss by (induction ss) auto
  then show "held (sm_sessions (ResetWatchers sm)) = held (sm_sessions sm)" by (simp add: ResetWatchers_def)
  have "map fst (sm_sessions (ResetWatchers sm)) = map fst (sm_sessions sm)" by (auto simp: ResetWatchers_def)
  then show "om_invar (sm_sessions (ResetWatchers sm)) = om_invar (sm_sessions sm)" by (simp add: om_invar_def)
qed

lemma moves_upd:
  "moves (srv\<lparr>sv_wm := a\<rparr>) d srv' = moves srv d srv'" "moves srv d (srv'\<lparr>sv_loop := c\<rparr>) = moves srv d srv'"
  by (simp_all add: moves_def balanced_def)

lemma moves_leader_enter:
  assumes "leaderLoop_enter env srv = Some srv'"
  shows "moves srv {#} srv'"
proof -
  obtain sm t srv2 where r: "ResetTimer (sv_lib srv) (en_nows env) (sv_sm srv) = Some sm"
    and st: "server_Step env (srv\<lparr>sv_sm := ResetWatchers sm, sv_wm := WM_Reset (sv_wm srv)\<rparr>) = Some (t, srv2)"
    and s': "srv' = srv2\<lparr>sv_loop := In_leader t\<rparr>"
    using assms by (auto simp: leaderLoop_enter_def Let_def elim!: bind_eq_SomeE)
  have "balanced srv {#} (srv\<lparr>sv_sm := ResetWatchers sm\<rparr>)"
    using reset_timers_books [OF r [unfolded ResetTimer_def]]
    by (simp add: balanced_def ledger_def books_ok_def balanced_ResetWatchers)
  moreover have "moves (srv\<lparr>sv_sm := ResetWatchers sm\<rparr>) {#} srv2"
    using moves_Step [OF st] by (simp add: moves_upd)
  ultimately show ?thesis unfolding s' moves_upd by (rule balanced_moves_trans)
qed

lemma take_event:
  "sv_eventch srv = e # rest \<Longrightarrow> balanced (srv\<lparr>sv_eventch := rest\<rparr>) {#ev_done e#} srv' \<Longrightarrow> balanced srv {#} srv'"
  by (simp add: balanced_def ledger_def books_ok_def)

lemma balanced_cmdch [simp]: "balanced (srv\<lparr>sv_cmdch := c\<rparr>) d srv' = balanced srv d srv'"
  "balanced (srv\<lparr>sv_statech := u\<rparr>) d srv' = balanced srv d srv'"
  by (simp_all add: balanced_def)

lemma balanced_take_cmd:
  "onCommand env cmd (srv\<lparr>sv_cmdch := rest\<rparr>) = Some srv' \<Longrightarrow> balanced srv {#} srv'"
  using balanced_onCommand [of env cmd "srv\<lparr>sv_cmdch := rest\<rparr>" srv'] by simp

lemma moves_leaderLoop:
  assumes "leaderLoop env ch srv = Some srv'"
  shows "moves srv {#} srv'"
proof (cases ch)
  case Choose_state
  then show ?thesis using assms
    by (auto simp: leaderLoop_def balanced_def split: list.splits intro!: balanced_moves)
next
  case Choose_event
  show ?thesis
  proof (cases "sv_eventch srv")
    case (Cons e rest)
    then have "handleEvent env e (srv\<lparr>sv_eventch := rest\<rparr>) = Some srv'"
      using assms Choose_event by (simp add: leaderLoop_def)
    from take_event [OF Cons balanced_handleEvent [OF this]] show ?thesis by (rule balanced_moves)
  qed (use assms Choose_event in \<open>simp add: leaderLoop_def balanced_moves\<close>)
next
  case Choose_cmd
  with assms show ?thesis
    by (cases "sv_cmdch srv") (auto simp: leaderLoop_def intro: balanced_moves balanced_take_cmd)
next
  case Choose_timer
  then obtain t srv1 where st: "server_Step env srv = Some (t, srv1)"
    and s': "srv' = srv1\<lparr>sv_loop := In_leader t\<rparr> \<or> (\<exists>b. srv' = pingBack env b (srv1\<lparr>sv_loop := In_leader t\<rparr>))"
    using assms by (simp add: leaderLoop_def Let_def) (fastforce elim!: bind_eq_SomeE split: option.splits)
  have "moves srv {#} (srv1\<lparr>sv_loop := In_leader t\<rparr>)" using moves_Step [OF st] by (simp add: moves_upd)
  moreover have "moves srv2 {#} (pingBack env b srv2)" for b and srv2 :: "'a Server"
    unfolding pingBack_def by (intro balanced_moves bal.fold balanced_PingBack)
  ultimately show ?thesis using s' moves_trans by blast
qed

lemma balanced_redirect: "balanced srv {#ev_done e#} (redirect_event env e srv)"
  by (auto simp: redirect_event_def intro!: balanced_reply)

lemma moves_followerLoop:
  assumes "followerLoop env ch srv = Some srv'"
  shows "moves srv {#} srv'"
proof (cases ch)
  case Choose_state
  then show ?thesis using assms
    by (auto simp: followerLoop_def Let_def balanced_def split: list.splits intro!: balanced_moves)
next
  case Choose_event
  with assms show ?thesis
    by (cases "sv_eventch srv")
      (auto simp: followerLoop_def intro: balanced_moves take_event [OF _ balanced_redirect])
next
  case Choose_cmd
  with assms show ?thesis
    by (cases "sv_cmdch srv") (auto simp: followerLoop_def intro: balanced_moves balanced_take_cmd)
next
  case Choose_timer
  then show ?thesis using assms by (simp add: followerLoop_def balanced_moves)
qed

lemma moves_waitLoop:
  assumes "waitLoop env tag ch srv = Some srv'"
  shows "moves srv {#} srv'"
proof (cases ch)
  case Choose_state
  then show ?thesis using assms
    by (auto simp: waitLoop_def Let_def balanced_def split: list.splits if_splits intro!: balanced_moves)
next
  case Choose_cmd
  with assms show ?thesis
    by (cases "sv_cmdch srv")
      (auto simp: waitLoop_def Let_def intro: balanced_moves balanced_take_cmd split: if_splits)
qed (use assms in \<open>auto simp: waitLoop_def intro: balanced_moves\<close>)


definition received :: "action \<Rightarrow> nat multiset" where
  "received act = (case act of Act_event e \<Rightarrow> {#ev_done e#} | _ \<Rightarrow> {#})"

lemma moves_mainLoop:
  assumes "mainLoop env ch srv = Some srv'"
  shows "moves srv {#} srv'"
proof (cases "sv_loop srv")
  case At_main
  have w: "balanced srv {#} (waitLoop_enter env srv)"
    using balanced_replicate [of "srv\<lparr>sv_loop := In_wait _\<rparr>"] unfolding waitLoop_enter_def Let_def balanced_def
    by simp
  from At_main show ?thesis
    using assms by (cases "sv_state srv")
      (auto simp: mainLoop_def intro: moves_leader_enter balanced_moves [OF w] balanced_moves)
qed (use assms in \<open>auto simp: mainLoop_def intro: moves_leaderLoop moves_followerLoop moves_waitLoop balanced_moves\<close>)

lemma moves_server_act:
  assumes "server_act env act srv = Some srv'"
  shows "moves srv (received act) srv'"
proof (cases act)
  case (Act_loop ch)
  then show ?thesis using assms moves_mainLoop by (simp add: server_act_def received_def)
next
  case (Act_event e)
  have "balanced srv {#ev_done e#} (ReceiveEvent e srv)"
    by (simp add: ReceiveEvent_def balanced_def ledger_def books_ok_def)
  then show ?thesis using assms Act_event by (auto simp: server_act_def received_def intro: balanced_moves)
next
  case (Act_synced index data)
  then show ?thesis using assms balanced_onSynced
    by (fastforce simp: server_act_def received_def intro: balanced_moves)
next
  case (Act_state state)
  then show ?thesis using assms balanced_onState
    by (fastforce simp: server_act_def received_def intro: balanced_moves)
next
  case Act_stop
  then show ?thesis using assms
    by (auto simp: server_act_def received_def Server_Stop_def intro: balanced_moves)
qed

text \<open>What the clients' closures have been run for, and what is still owed to them.\<close>

definition answered :: "'db Server \<Rightarrow> nat multiset" where
  "answered srv = image_mset ev_done (mset (replies (sv_out srv)))"

definition outstanding :: "'db Server \<Rightarrow> nat multiset" where
  "outstanding srv = image_mset ev_done (mset (sv_eventch srv)) + image_mset ev_done (mset (sv_requests srv))
     + held (sm_sessions (sv_sm srv))"

lemma ledger_split: "ledger srv = answered srv + outstanding srv"
  by (simp add: ledger_def answered_def outstanding_def ac_simps)

definition clients :: "nat multiset \<Rightarrow> nat multiset" where
  "clients M = filter_mset (\<lambda>i. i \<noteq> 0) M"

lemma clients_plus [simp]: "clients (A + B) = clients A + clients B"
  by (simp add: clients_def)

lemma clients_own [simp]: "clients (replicate_mset n 0) = {#}"
  unfolding clients_def by (rule multiset_eqI) (simp add: count_replicate_mset)

lemma moves_clients: "moves srv d srv' \<Longrightarrow> books_ok srv \<Longrightarrow> books_ok srv' \<and> clients (ledger srv') = clients (ledger srv) + clients d"
  by (auto simp: moves_def balanced_def)

lemma server_run_ledger:
  assumes "server_run acts srv = Some srv'" and "books_ok srv"
  shows "books_ok srv' \<and> clients (ledger srv') =
    clients (ledger srv) + clients (\<Sum>\<^sub># (mset (map (received \<circ> snd) acts)))"
  using assms
proof (induction acts arbitrary: srv)
  case (Cons a acts)
  obtain env act where a: "a = (env, act)" by (cases a)
  with Cons.prems(1) obtain srv1 where s1: "server_act env act srv = Some srv1" "server_run acts srv1 = Some srv'"
    by (auto simp: server_run_def elim!: bind_eq_SomeE)
  note m = moves_clients [OF moves_server_act [OF s1(1)] Cons.prems(2)]
  with Cons.IH [OF s1(2)] show ?case by (simp add: a)
qed (simp add: server_run_def clients_def)

lemma Server_new_ledger:
  "Server_new env X mx opts db = Some srv \<Longrightarrow> books_ok srv \<and> ledger srv = {#}"
  by (auto simp: Server_new_def Let_def books_ok_def ledger_def SessionManager_new_def elim!: bind_eq_SomeE)

text \<open>
  C9. Every request is accounted for, exactly once: whatever requests, commits, role changes,
  timer checks and loop iterations a server goes through, in any order, the clients' requests
  it has received are exactly those it has answered, plus those still in its channel, waiting
  for the commit of their command, or held as the ping of a session. So no request is dropped
  without an answer, and none is answered twice.
\<close>

theorem requests_accounted:
  assumes "Server_new env X mx opts db = Some srv0" and "server_run acts srv0 = Some srv"
  shows "clients (answered srv) + clients (outstanding srv) =
    clients (\<Sum>\<^sub># (mset (map (received \<circ> snd) acts)))"
  using server_run_ledger [OF assms(2)] Server_new_ledger [OF assms(1)]
  by (simp add: ledger_split clients_def)

end
