(* ===== verification/Server_Examples.thy ===== *)
theory Server_Examples
  imports Ephemerals Server_Ledger
begin

text \<open>
  Servers over the reference libraries, and runs that show the hypotheses of the server's
  theorems hold there.
\<close>

definition ref_env :: "timestamp \<Rightarrow> nat \<Rightarrow> Env" where
  "ref_env now addr = \<lparr>en_now = now, en_now2 = now, en_nows = (\<lambda>_. now), en_addr = addr, en_LeaderId = 0\<rparr>"

definition ref_server :: "timestamp \<Rightarrow> memdb Server" where
  "ref_server now = the (Server_new (ref_env now 1) ref_libs 1024 Options_default [])"

definition ref_config :: Config where
  "ref_config = \<lparr>cf_root = ''/pyxis'', cf_max = 1048576, cf_size = node_ByteSize ref_proto\<rparr>"

definition ref_replica :: Replica where
  "ref_replica = \<lparr>ra_tree = [''/'' \<mapsto> root_node ''/pyxis''], ra_nodes = Map.empty, ra_sess = Map.empty\<rparr>"

lemma ref_server_facts:
  "Server_new (ref_env now 1) ref_libs 1024 Options_default [] = Some (ref_server now)"
  "replica_ok (ref_server now)" "abs_of (ref_server now) = ref_replica"
  "config_of (sv_store (ref_server now)) = ref_config" "sv_state (ref_server now) = kFollower"
  "sv_loop (ref_server now) = At_main" "sv_requests (ref_server now) = []"
  "sv_sm (ref_server now) = SessionManager_new now 1000"
  "so_lib (sv_store (ref_server now)) = ref_libs"
proof -
  have rel: "db_reliable (ldb ref_libs)" by (simp add: db_reliable_def memdb_ops_def ldb_ok_def)
  have pr: "op_ProcRoot Options_default = ''/pyxis''" by (simp add: Options_default_def)
  obtain srv where srv: "Server_new (ref_env now 1) ref_libs 1024 Options_default [] = Some srv" "replica_ok srv"
    "abs_of srv = \<lparr>ra_tree = [''/'' \<mapsto> root_node (op_ProcRoot Options_default)], ra_nodes = Map.empty, ra_sess = Map.empty\<rparr>"
    "config_of (sv_store srv) = config_of ref_store0" "sv_state srv = kFollower" "sv_loop srv = At_main"
    "sv_requests srv = []" "sv_sm srv = SessionManager_new (en_now (ref_env now 1)) (op_SessionCheckInterval Options_default)"
    "so_lib (sv_store srv) = ref_libs"
    by (rule Server_new_ok [of ref_store0 "[]" Options_default ref_libs 1024])
      (use ref_store0_empty ref_store0_ok rel ref_root_fits in \<open>simp_all add: ref_store0_def pr max_bytes_def\<close>)
  then have [simp]: "ref_server now = srv" by (simp add: ref_server_def)
  have cfg: "config_of ref_store0 = ref_config" by (simp add: config_of_def ref_config_def)
  show "Server_new (ref_env now 1) ref_libs 1024 Options_default [] = Some (ref_server now)"
    "replica_ok (ref_server now)" "abs_of (ref_server now) = ref_replica"
    "config_of (sv_store (ref_server now)) = ref_config" "sv_state (ref_server now) = kFollower"
    "sv_loop (ref_server now) = At_main" "sv_requests (ref_server now) = []"
    "sv_sm (ref_server now) = SessionManager_new now 1000"
    "so_lib (sv_store (ref_server now)) = ref_libs"
    using srv cfg by (simp_all add: pr ref_replica_def ref_env_def Options_default_def)
qed

subsection \<open>Logs\<close>

definition cmd_register :: "sid_t \<Rightarrow> Request" where
  "cmd_register sid = Request_default\<lparr>rq_sid := Some sid, rq_register := Some 5000\<rparr>"

definition cmd_unregister :: "sid_t \<Rightarrow> Request" where
  "cmd_unregister sid = Request_default\<lparr>rq_sid := Some sid, rq_unregister := True\<rparr>"

definition cmd_create :: "sid_t \<Rightarrow> string \<Rightarrow> u32 \<Rightarrow> Request" where
  "cmd_create sid path flags = Request_default\<lparr>rq_sid := Some sid,
     rq_create := Some \<lparr>cr_path = path, cr_flags = flags, cr_data = []\<rparr>\<rparr>"

definition cmd_delete :: "sid_t \<Rightarrow> string \<Rightarrow> Request" where
  "cmd_delete sid path = Request_default\<lparr>rq_sid := Some sid, rq_delete := Some path\<rparr>"

definition cmd_write :: "sid_t \<Rightarrow> string \<Rightarrow> string \<Rightarrow> Request" where
  "cmd_write sid path data = Request_default\<lparr>rq_sid := Some sid, rq_write := Some \<lparr>wr_path = path, wr_data = data\<rparr>\<rparr>"

lemmas cmd_defs = cmd_register_def cmd_unregister_def cmd_create_def cmd_delete_def cmd_write_def Request_default_def

lemma spec_cmds:
  "spec_command cfg (cmd_register sid) ra = Some (spec_register sid 5000 ra)"
  "spec_command cfg (cmd_unregister sid) ra = spec_unregister cfg sid ra"
  "spec_command cfg (cmd_create sid path flags) ra =
     Some (snd (spec_create cfg sid \<lparr>cr_path = path, cr_flags = flags, cr_data = []\<rparr> ra))"
  "spec_command cfg (cmd_delete sid path) ra = Some (snd (spec_delete cfg sid path ra))"
  "spec_command cfg (cmd_write sid path data) ra = Some (snd (spec_write cfg \<lparr>wr_path = path, wr_data = data\<rparr> ra))"
  by (simp_all add: spec_command_def cmd_defs req_sid_def)

lemma replicable_cmds [simp]: "replicable (cmd_register sid)" "replicable (cmd_unregister sid)"
  "replicable (cmd_create sid path flags)" "replicable (cmd_delete sid path)" "replicable (cmd_write sid path data)"
  by (simp_all add: replicable_def cmd_defs)

lemma ref_queue [simp]: "queue_ok (ref_server now) n"
  by (simp add: queue_ok_def ref_server_facts)

text \<open>A session registers and makes an ephemeral node.\<close>

definition log1 :: "Request list" where
  "log1 = [cmd_register 7, cmd_create 7 ''/a'' kEphemeral]"

lemma ref_sizes: "node_ByteSize ref_proto (add_child ''a'' (root_node ''/pyxis'')) \<le> 1048576"
  by code_simp

lemma spec_log1:
  "\<exists>ra. spec_log ref_config log1 ref_replica = Some ra \<and> ra_nodes ra 7 = Some [''/a'']
     \<and> ra_tree ra ''/a'' = Some (new_node [] kEphemeral 7)"
  using ref_sizes
  by (simp add: spec_log_def log1_def spec_cmds ref_config_def ref_replica_def spec_register_def spec_create_def
      Let_def tree_create_def char_checks kEphemeral_def root_node_def is_ephemeral_def kPersist_def not_less
      os_insert_def insort_insert_key_def)

theorem run_log_refines_witness:
  "\<exists>srv'. run_log (\<lambda>i. ref_env 5 i) log1 (ref_server 0) = Some srv' \<and> replica_ok srv'
     \<and> ra_nodes (abs_of srv') 7 = Some [''/a'']"
proof -
  have "list_all replicable log1" by (simp add: log1_def)
  from run_log_refines [OF ref_server_facts(2) [of 0] this ref_queue, where envs = "\<lambda>i. ref_env 5 i"] show ?thesis
    using spec_log1 by (auto simp: ref_server_facts split: option.splits)
qed

theorem replicas_agree_witness:
  "\<exists>a b. run_log (\<lambda>i. ref_env 5 i) log1 (ref_server 0) = Some a
     \<and> run_log (\<lambda>i. ref_env 777 (i + 3)) log1 (ref_server 99) = Some b \<and> abs_of a = abs_of b"
proof -
  have l: "list_all replicable log1" by (simp add: log1_def)
  have "run_log (\<lambda>i. ref_env 5 i) log1 (ref_server 0) \<noteq> None"
    using run_log_spec [OF ref_server_facts(2) [of 0] l ref_queue, where envs = "\<lambda>i. ref_env 5 i"] spec_log1
    by (auto simp: ref_server_facts)
  then show ?thesis
    using replicas_agree [OF ref_server_facts(2) [of 0] ref_server_facts(2) [of 99] _ _ l ref_queue ref_queue,
        where envs = "\<lambda>i. ref_env 5 i" and envs' = "\<lambda>i. ref_env 777 (i + 3)"]
    by (auto simp: ref_server_facts)
qed

theorem requests_accounted_witness:
  "\<exists>srv. server_run [(ref_env 1 1, Act_loop Choose_event),
        (ref_env 2 1, Act_event \<lparr>ev_Req = Request_default, ev_Rep = Response_default, ev_Addr = [], ev_done = 5\<rparr>),
        (ref_env 3 1, Act_loop Choose_event)] (ref_server 0) = Some srv
     \<and> clients (answered srv) + clients (outstanding srv) = {#5#}"
proof -
  let ?e = "\<lparr>ev_Req = Request_default, ev_Rep = Response_default, ev_Addr = [], ev_done = 5\<rparr>"
  let ?acts = "[(ref_env 1 1, Act_loop Choose_event), (ref_env 2 1, Act_event ?e), (ref_env 3 1, Act_loop Choose_event)]"
  have "\<exists>srv. server_run ?acts (ref_server 0) = Some srv"
    by (auto simp: server_run_def server_act_def mainLoop_def ref_server_facts(5,6) followerLoop_def ReceiveEvent_def
        split: list.splits)
  then obtain srv where srv: "server_run ?acts (ref_server 0) = Some srv" by blast
  have "clients (\<Sum>\<^sub># (mset (map (received \<circ> snd) ?acts))) = {#5#}"
    by (simp add: received_def clients_def)
  with requests_accounted [OF ref_server_facts(1) srv] srv show ?thesis by metis
qed

theorem unregister_removes_ephemerals_witness:
  "\<exists>srv srv'. run_log (\<lambda>i. ref_env 5 i) log1 (ref_server 0) = Some srv
     \<and> key_tree (sv_store srv) ''/a'' \<noteq> None
     \<and> onUnRegister (ref_env 9 1) (cmd_unregister 7) srv = Some (OK, srv')
     \<and> SM_Get (sv_sm srv') 7 = None \<and> key_tree (sv_store srv') ''/a'' = None"
proof -
  have l: "list_all replicable log1" by (simp add: log1_def)
  obtain srv where srv: "run_log (\<lambda>i. ref_env 5 i) log1 (ref_server 0) = Some srv" "replica_ok srv"
    "ra_nodes (abs_of srv) 7 = Some [''/a'']" "ra_tree (abs_of srv) ''/a'' = Some (new_node [] kEphemeral 7)"
    using run_log_spec [OF ref_server_facts(2) [of 0] l ref_queue, where envs = "\<lambda>i. ref_env 5 i"] spec_log1
    by (auto simp: ref_server_facts)
  have sid: "req_sid (cmd_unregister 7) = 7" by (simp add: cmd_defs req_sid_def)
  from srv(3) obtain s where s: "SM_Get (sv_sm srv) 7 = Some s" "ss_nodeSet s = [''/a'']" by auto
  have k: "key_tree (sv_store srv) ''/a'' = Some (new_node [] kEphemeral 7)" using srv(4) by simp
  have e: "is_ephemeral (new_node [] kEphemeral 7)" "nd_sid (new_node [] kEphemeral 7) = 7"
    by (simp_all add: is_ephemeral_def new_node_def kEphemeral_def)
  note u = unregister_removes_ephemerals [OF srv(2), of "cmd_unregister 7" s "ref_env 9 1", unfolded sid]
  have h: "\<forall>p \<in> set (ss_nodeSet s). \<forall>n. key_tree (sv_store srv) p = Some n \<longrightarrow> nd_sid n = 7 \<longrightarrow> is_ephemeral n"
    using s(2) k e by simp
  from u [OF s(1) h] obtain srv' where u': "onUnRegister (ref_env 9 1) (cmd_unregister 7) srv = Some (OK, srv')"
    "SM_Get (sv_sm srv') 7 = None"
    "map_option bare (key_tree (sv_store srv') ''/a'') =
       (if ''/a'' \<in> set (ss_nodeSet s) \<and> owned 7 (key_tree (sv_store srv) ''/a'') then None
        else map_option bare (key_tree (sv_store srv) ''/a''))" by blast
  moreover have "key_tree (sv_store srv') ''/a'' = None" using u'(3) s(2) k e by (simp add: owned_def)
  ultimately show ?thesis using srv(1) k by blast
qed

theorem read_write_aborts_witness:
  "\<exists>req. rq_read req = Some ''/a'' \<and> needBoradcast req \<and> onCommand (ref_env 1 1) req (ref_server 0) = None"
proof -
  let ?req = "Request_default\<lparr>rq_sid := Some 7, rq_read := Some ''/a'', rq_write := Some \<lparr>wr_path = ''/a'', wr_data = ''x''\<rparr>\<rparr>"
  have "needBoradcast ?req \<and> onCommand (ref_env 1 1) ?req (ref_server 0) = None"
    by (rule read_write_aborts) (simp_all add: Request_default_def)
  then show ?thesis by (intro exI [of _ ?req]) (simp add: Request_default_def)
qed

subsection \<open>Using a path again\<close>

definition reuse_log :: "Request list" where
  "reuse_log = [cmd_register 7, cmd_register 8, cmd_create 7 ''/a'' kEphemeral, cmd_delete 8 ''/a'', cmd_create 7 ''/a'' kPersist]"

lemma ref_nodes: "drop_child ''a'' (add_child ''a'' (root_node ''/pyxis'')) = root_node ''/pyxis''"
  "node_ByteSize ref_proto (add_child ''b'' (new_node [] kPersist 7)) \<le> 1048576"
  by code_simp+

lemma add_child_listed: "nd_children (add_child son n) \<noteq> []"
  by (simp add: add_child_def)

lemma ref_paths: "IsValidPath ''/a/b''" "SplitPath ''/a/b'' = (OK, ''/a'', ''b'')" "\<not> prefix ''/pyxis'' ''/a/b''"
  by code_simp+

lemmas eval_log = ref_paths add_child_listed spec_log_def spec_cmds ref_config_def ref_replica_def spec_register_def spec_create_def spec_delete_def
  spec_unregister_def spec_destroy_node_def
  Let_def tree_create_def tree_delete_def char_checks kEphemeral_def kPersist_def root_node_def is_ephemeral_def not_less
      os_insert_def os_erase_def insort_insert_key_def

lemma reuse_spec:
  "\<exists>ra ra'. spec_log ref_config reuse_log ref_replica = Some ra \<and> ra_nodes ra 7 = Some [''/a'']
     \<and> ra_tree ra ''/a'' = Some (new_node [] kPersist 7)
     \<and> spec_log ref_config [cmd_unregister 7] ra = Some ra' \<and> ra_tree ra' ''/a'' = None"
  using ref_sizes ref_nodes by (simp add: eval_log reuse_log_def new_node_def)

lemma reuse_child_spec:
  "spec_log ref_config (reuse_log @ [cmd_create 8 ''/a/b'' kPersist]) ref_replica \<noteq> None"
  "spec_log ref_config (reuse_log @ [cmd_create 8 ''/a/b'' kPersist, cmd_unregister 7]) ref_replica = None"
  using ref_sizes ref_nodes by (simp_all add: eval_log reuse_log_def new_node_def)

lemma ref_ready [simp]: "ready (sv_store (ref_server now)) n (ref_server now)"
  by (simp add: ready_def ref_server_facts same_env_def)

lemma ref_log:
  assumes "list_all replicable cs"
  shows "case spec_log ref_config cs ref_replica of
      None \<Rightarrow> run_log envs cs (ref_server now) = None
    | Some ra \<Rightarrow> \<exists>srv. run_log envs cs (ref_server now) = Some srv \<and> ready (sv_store (ref_server now)) n srv \<and> abs_of srv = ra"
  using sm.run_spec [OF ref_ready assms, where n = n and envs = envs] by (simp add: ref_server_facts spec_log_def)

lemma reuse_replicable [simp]: "list_all replicable reuse_log"
  by (simp add: reuse_log_def)

text \<open>
  C27. A client can bring down every replica: a session makes an ephemeral node, another session deletes it,
  the first makes a persistent node at the same path, and a child is made below it. The path is
  still in the session's set of nodes and the node carries its id, so when the session ends its
  destructor tries to delete the node, is refused because of the child, and fails its
  \<^verbatim>\<open>CHECK\<close>, on every replica that runs the command.
\<close>

theorem reused_path_aborts:
  "run_log envs (reuse_log @ [cmd_create 8 ''/a/b'' kPersist]) (ref_server now) \<noteq> None
   \<and> run_log envs (reuse_log @ [cmd_create 8 ''/a/b'' kPersist, cmd_unregister 7]) (ref_server now) = None"
  using ref_log [of "reuse_log @ [cmd_create 8 ''/a/b'' kPersist]" envs now 0]
    ref_log [of "reuse_log @ [cmd_create 8 ''/a/b'' kPersist, cmd_unregister 7]" envs now 0] reuse_child_spec
  by (auto split: option.splits)

lemma ref_fresh: "fresh (ref_server now)"
  using ref_server_facts(2-4) [of now] by (simp add: fresh_def ref_replica_def config_of_def ref_config_def)

lemma ref_iterates: "iterates (ldb ref_libs)"
  by (simp add: iterates_def memdb_ops_def ldb_ok_def)

definition restarted :: "'db Server \<Rightarrow> 'db Server" where
  "restarted srv = srv\<lparr>sv_sm := SessionManager_new 0 1000\<rparr>"

lemma restarted_ok:
  assumes "replica_ok srv"
  shows "replica_ok (restarted srv)" "sv_store (restarted srv) = sv_store srv" "SM_Get (sv_sm (restarted srv)) sid = None"
    "sv_state (restarted srv) = sv_state srv"
proof -
  have "sm_inv (SessionManager_new 0 1000)" "SM_Get (SessionManager_new 0 1000) sid = None" for sid
    by (simp_all add: sm_inv_def sessions_wf_def timers_wf_def timers_sound_def SessionManager_new_def SM_Get_def
        timer_set_def om_invar_def)
  then show "replica_ok (restarted srv)" "sv_store (restarted srv) = sv_store srv" "SM_Get (sv_sm (restarted srv)) sid = None"
    "sv_state (restarted srv) = sv_state srv"
    using assms by (simp_all add: restarted_def replica_ok_def nodes_ok_def)
qed

text \<open>
  C28. Replicas that were restarted can differ from the others: with the same log, after which a replica is restarted, the end of the session
  removes the persistent node on a replica that kept running and leaves it on the one that was
  restarted, where the session is no longer bound to the path.
\<close>

theorem restart_diverges:
  "\<exists>a b idx a' b'. run_log (\<lambda>i. ref_env 5 i) reuse_log (ref_server 0) = Some a
     \<and> onLoadSnapshot (ref_env 6 1) (restarted a) = Some (idx, b)
     \<and> run_log (\<lambda>i. ref_env 7 i) [cmd_unregister 7] a = Some a'
     \<and> run_log (\<lambda>i. ref_env 7 i) [cmd_unregister 7] b = Some b'
     \<and> key_tree (sv_store a') ''/a'' = None \<and> key_tree (sv_store b') ''/a'' = Some (new_node [] kPersist 7)"
proof -
  let ?s = "sv_store (ref_server 0)"
  obtain ra ra' where ra: "spec_log ref_config reuse_log ref_replica = Some ra" "ra_nodes ra 7 = Some [''/a'']"
    "ra_tree ra ''/a'' = Some (new_node [] kPersist 7)" "spec_log ref_config [cmd_unregister 7] ra = Some ra'" "ra_tree ra' ''/a'' = None"
    using reuse_spec by blast
  from ref_log [OF reuse_replicable, of "\<lambda>i. ref_env 5 i" 0 1] ra(1) obtain a where
    a: "run_log (\<lambda>i. ref_env 5 i) reuse_log (ref_server 0) = Some a" "ready ?s 1 a" "abs_of a = ra" by auto
  have cfg: "config_of ?s = ref_config" by (simp add: ref_server_facts)
  have u: "list_all replicable [cmd_unregister 7]" by simp
  from sm.run_spec [of ?s "[cmd_unregister 7]" 0 a "\<lambda>i. ref_env 7 i"] a(2,3) ra(4) obtain a' where
    a': "run_log (\<lambda>i. ref_env 7 i) [cmd_unregister 7] a = Some a'" "abs_of a' = ra'"
    by (auto simp: cfg spec_log_def)
  have ok: "replica_ok a" "same_env ?s (sv_store a)" using a(2) by (simp_all add: ready_def)
  have h: "nodes_held (abs_of a)" by (rule fresh_log(3) [OF ref_fresh reuse_replicable ref_queue a(1)])
  obtain idx b where b: "onLoadSnapshot (ref_env 6 1) (restarted a) = Some (idx, b)" "replica_ok b" "same_config (restarted a) b"
    "key_tree (sv_store b) = key_tree (sv_store a)"
    "map_option (\<lambda>s. set (ss_nodeSet s)) (SM_Get (sv_sm b) 7) =
         map_option (\<lambda>s. set (ss_nodeSet s) \<inter> ephemerals (key_tree (sv_store a)) 7) (SM_Get (sv_sm a) 7)"
    using restart_sessions [OF h, of "restarted a" "ref_env 6 1"] restarted_ok [OF ok(1)] ok(2) ref_iterates
    by (auto simp: same_env_def ref_server_facts)
  have t: "key_tree (sv_store a) ''/a'' = Some (new_node [] kPersist 7)" using a(3) ra(3) by auto
  then have "''/a'' \<notin> ephemerals (key_tree (sv_store a)) 7"
    by (simp add: ephemerals_def is_ephemeral_def new_node_def kPersist_def)
  then have n: "ra_nodes (abs_of b) 7 = Some []" using b(5) a(3) ra(2) by auto
  have "ready ?s 1 b" using a(2) b(2,3) ok(2)
    by (auto simp: ready_def queue_ok_def same_config_def restarted_def same_env_def)
  from sm.run_spec [of ?s "[cmd_unregister 7]" 0 b "\<lambda>i. ref_env 7 i"] this n obtain b' where
    b': "run_log (\<lambda>i. ref_env 7 i) [cmd_unregister 7] b = Some b'"
      "abs_of b' = (abs_of b)\<lparr>ra_nodes := (ra_nodes (abs_of b))(7 := None), ra_sess := (ra_sess (abs_of b))(7 := None)\<rparr>"
    by (fastforce simp: cfg spec_cmds spec_unregister_def)
  have "key_tree (sv_store a') ''/a'' = None" using a'(2) ra(5) by auto
  moreover have "key_tree (sv_store b') ''/a'' = Some (new_node [] kPersist 7)" using arg_cong [OF b'(2), of ra_tree] b(4) t by simp
  ultimately show ?thesis using a(1) b(1) a'(1) b'(1) by blast
qed
subsection \<open>Restarts\<close>

lemma log1_run:
  obtains srv where "run_log (\<lambda>i. ref_env 5 i) log1 (ref_server 0) = Some srv" "replica_ok srv"
    "so_lib (sv_store srv) = ref_libs" "key_tree (sv_store srv) ''/a'' = Some (new_node [] kEphemeral 7)"
    "map_option ss_nodeSet (SM_Get (sv_sm srv) 7) = Some [''/a'']"
proof -
  have l: "list_all replicable log1" by (simp add: log1_def)
  obtain srv where "run_log (\<lambda>i. ref_env 5 i) log1 (ref_server 0) = Some srv" "ready (sv_store (ref_server 0)) 0 srv"
    "ra_nodes (abs_of srv) 7 = Some [''/a'']" "ra_tree (abs_of srv) ''/a'' = Some (new_node [] kEphemeral 7)"
    using ref_log [OF l, of "\<lambda>i. ref_env 5 i" 0 0] spec_log1 by (auto split: option.splits)
  then show thesis using that by (simp add: ready_def same_env_def ref_server_facts)
qed

lemma log1_replicable: "list_all replicable log1"
  by (simp add: log1_def)

lemma ephemeral7: "is_ephemeral (new_node [] kEphemeral 7)" "nd_sid (new_node [] kEphemeral 7) = 7"
  by (simp_all add: is_ephemeral_def new_node_def kEphemeral_def)

theorem ephemerals_have_sessions_witness:
  "\<exists>srv s. run_log (\<lambda>i. ref_env 5 i) log1 (ref_server 0) = Some srv
     \<and> key_tree (sv_store srv) ''/a'' = Some (new_node [] kEphemeral 7)
     \<and> SM_Get (sv_sm srv) 7 = Some s \<and> ''/a'' \<in> set (ss_nodeSet s)"
proof -
  obtain srv where srv: "run_log (\<lambda>i. ref_env 5 i) log1 (ref_server 0) = Some srv"
    "key_tree (sv_store srv) ''/a'' = Some (new_node [] kEphemeral 7)" by (rule log1_run) blast
  from ephemerals_have_sessions [OF ref_fresh log1_replicable ref_queue srv(1)] srv ephemeral7 show ?thesis by fastforce
qed

theorem restart_recovers_witness:
  "\<exists>a idx b s. run_log (\<lambda>i. ref_env 5 i) log1 (ref_server 0) = Some a
     \<and> onLoadSnapshot (ref_env 6 1) (restarted a) = Some (idx, b)
     \<and> SM_Get (sv_sm b) 7 = Some s \<and> set (ss_nodeSet s) = {''/a''}"
proof -
  obtain a where a: "run_log (\<lambda>i. ref_env 5 i) log1 (ref_server 0) = Some a" "replica_ok a"
    "key_tree (sv_store a) ''/a'' = Some (new_node [] kEphemeral 7)"
    "map_option ss_nodeSet (SM_Get (sv_sm a) 7) = Some [''/a'']" by (rule log1_run) blast
  have it: "iterates (ldb (so_lib (sv_store (ref_server 0))))" using ref_iterates by (simp add: ref_server_facts)
  obtain idx b where b: "onLoadSnapshot (ref_env 6 1) (restarted a) = Some (idx, b)"
    "map_option (\<lambda>s. set (ss_nodeSet s)) (SM_Get (sv_sm b) 7) =
       map_option (\<lambda>s. set (ss_nodeSet s) \<inter> ephemerals (key_tree (sv_store a)) 7) (SM_Get (sv_sm a) 7)"
    using restart_recovers [OF ref_fresh log1_replicable ref_queue a(1) it, of "restarted a" "ref_env 6 1"] restarted_ok [OF a(2)] by auto
  have "''/a'' \<in> ephemerals (key_tree (sv_store a)) 7" using a(3) ephemeral7 by (simp add: ephemerals_def)
  then have "map_option (\<lambda>s. set (ss_nodeSet s)) (SM_Get (sv_sm b) 7) = Some {''/a''}" unfolding b(2) using a(4) by auto
  then obtain s where "SM_Get (sv_sm b) 7 = Some s" "set (ss_nodeSet s) = {''/a''}" by (auto simp: map_option_eq_Some)
  then show ?thesis using a(1) b(1) by blast
qed

theorem recovery_rebuilds_witness:
  "\<exists>a idx b s. run_log (\<lambda>i. ref_env 5 i) log1 (ref_server 0) = Some a
     \<and> onLoadSnapshot (ref_env 6 1) (restarted a) = Some (idx, b) \<and> replica_ok b
     \<and> SM_Get (sv_sm b) 7 = Some s \<and> ''/a'' \<in> set (ss_nodeSet s)"
proof -
  obtain a where a: "run_log (\<lambda>i. ref_env 5 i) log1 (ref_server 0) = Some a" "replica_ok a" "so_lib (sv_store a) = ref_libs"
    "key_tree (sv_store a) ''/a'' = Some (new_node [] kEphemeral 7)" by (rule log1_run) blast
  have it: "iterates (ldb (so_lib (sv_store (restarted a))))" using ref_iterates a(3) restarted_ok(2) [OF a(2)] by simp
  have e: "''/a'' \<in> ephemerals (key_tree (sv_store (restarted a))) 7" using a(4) ephemeral7 restarted_ok(2) [OF a(2)] by (simp add: ephemerals_def)
  have "\<forall>sid. SM_Get (sv_sm (restarted a)) sid = None" using restarted_ok(3) [OF a(2)] by blast
  from recovery_rebuilds [OF restarted_ok(1) [OF a(2)] this it, of "ref_env 6 1"] show ?thesis
  proof (elim exE conjE)
    fix idx b
    assume b: "onLoadSnapshot (ref_env 6 1) (restarted a) = Some (idx, b)" "replica_ok b" and
      all: "\<forall>sid. let E = ephemerals (key_tree (sv_store (restarted a))) sid in
         case SM_Get (sv_sm b) sid of
           None \<Rightarrow> (stored_session (sv_store (restarted a)) sid = None \<or> sid = - 1) \<and> E = {}
         | Some s \<Rightarrow> (stored_session (sv_store (restarted a)) sid \<noteq> None \<and> sid \<noteq> - 1 \<or> E \<noteq> {}) \<and> set (ss_nodeSet s) = E"
    have "\<exists>s. SM_Get (sv_sm b) 7 = Some s \<and> ''/a'' \<in> set (ss_nodeSet s)"
      using spec [OF all, of 7] e by (auto simp: Let_def split: option.splits)
    then show ?thesis using a(1) b by blast
  qed
qed

end
