(* ===== verification/Server_Quiet.thy ===== *)
theory Server_Quiet
  imports Replica_Log Server_Frame
begin

text \<open>
  The steps of a server that run no command leave the replicated state alone, in every role:
  requests of clients, pings, reads and watches, expiry checks, changes of the role, and what the
  raft library puts into the channels.
\<close>

subsection \<open>Quiet steps\<close>

definition quiet :: "'db Server \<Rightarrow> 'db Server \<Rightarrow> bool" where
  "quiet srv srv' \<longleftrightarrow> sv_cmdch srv' = sv_cmdch srv
     \<and> (replica_ok srv \<longrightarrow> replica_ok srv' \<and> abs_of srv' = abs_of srv \<and> same_env (sv_store srv) (sv_store srv'))"

lemma quiet_refl [simp]: "quiet srv srv"
  by (simp add: quiet_def same_env_def)

lemma quiet_trans: "quiet a b \<Longrightarrow> quiet b c \<Longrightarrow> quiet a c"
  by (auto simp: quiet_def same_env_def)

lemma quiet_upd [simp]:
  "quiet srv (emit es srv') = quiet srv srv'" "quiet srv (srv'\<lparr>sv_wm := w\<rparr>) = quiet srv srv'"
  "quiet srv (srv'\<lparr>sv_loop := l\<rparr>) = quiet srv srv'" "quiet srv (srv'\<lparr>sv_state := s\<rparr>) = quiet srv srv'"
  "quiet srv (srv'\<lparr>sv_requests := r\<rparr>) = quiet srv srv'" "quiet srv (srv'\<lparr>sv_statech := t\<rparr>) = quiet srv srv'"
  "quiet srv (srv'\<lparr>sv_eventch := u\<rparr>) = quiet srv srv'"
  by (simp_all add: quiet_def emit_def replica_ok_def nodes_ok_def abs_of_def)

lemma quiet_from [simp]:
  "quiet (emit es srv) srv' = quiet srv srv'" "quiet (srv\<lparr>sv_wm := w\<rparr>) srv' = quiet srv srv'"
  "quiet (srv\<lparr>sv_loop := l\<rparr>) srv' = quiet srv srv'" "quiet (srv\<lparr>sv_state := s\<rparr>) srv' = quiet srv srv'"
  "quiet (srv\<lparr>sv_requests := r\<rparr>) srv' = quiet srv srv'" "quiet (srv\<lparr>sv_statech := t\<rparr>) srv' = quiet srv srv'"
  "quiet (srv\<lparr>sv_eventch := u\<rparr>) srv' = quiet srv srv'"
  by (simp_all add: quiet_def emit_def replica_ok_def nodes_ok_def abs_of_def)

text \<open>Changes of the session manager that keep the sessions and their nodes.\<close>

definition sm_quiet :: "SessionManager \<Rightarrow> SessionManager \<Rightarrow> bool" where
  "sm_quiet sm sm' \<longleftrightarrow> (sm_inv sm \<longrightarrow> sm_inv sm' \<and>
     (\<forall>sid. map_option ss_nodeSet (SM_Get sm' sid) = map_option ss_nodeSet (SM_Get sm sid)))"

lemma quiet_sm:
  assumes "sm_quiet (sv_sm srv) sm"
  shows "quiet srv (srv\<lparr>sv_sm := sm\<rparr>)"
proof -
  have "replica_ok (srv\<lparr>sv_sm := sm\<rparr>) \<and> abs_of (srv\<lparr>sv_sm := sm\<rparr>) = abs_of srv" if inv: "replica_ok srv"
  proof -
    have sm: "sm_inv sm" and n: "\<And>sid. map_option ss_nodeSet (SM_Get sm sid) = map_option ss_nodeSet (SM_Get (sv_sm srv) sid)"
      using assms replica_okD(2) [OF inv] by (simp_all add: sm_quiet_def)
    have "IsValidPath p \<and> \<not> under_proc (sv_store srv) p" if "SM_Get sm sid = Some s" "p \<in> set (ss_nodeSet s)" for sid s p
      using n [of sid] that replica_okD(3) [OF inv] by (cases "SM_Get (sv_sm srv) sid") (auto simp: nodes_ok_def)
    then show ?thesis using inv sm n by (simp add: replica_ok_def nodes_ok_def abs_of_def)
  qed
  then show ?thesis by (simp add: quiet_def same_env_def)
qed

lemma quiet_local: "local_step srv srv' \<Longrightarrow> sv_cmdch srv' = sv_cmdch srv \<Longrightarrow> quiet srv srv'"
  using local_replica_ok local_abs [of srv srv'] by (auto simp: quiet_def local_step_def same_env_def)

lemma quiet_adjust: "(\<And>s. core (f s) = core s) \<Longrightarrow> quiet srv (sv_adjust sid f srv)"
  by (rule quiet_local [OF local_adjust]) (simp_all add: sv_adjust_def)

lemma quiet_session: "(\<And>s. core (fst (f s)) = core s) \<Longrightarrow> quiet srv (sv_session sid f srv)"
  by (rule quiet_local [OF local_session]) (simp_all add: sv_session_def sv_adjust_def emit_def split: option.splits)

lemma quiet_fold: "(\<And>x srv. quiet srv (f x srv)) \<Longrightarrow> quiet srv (fold f xs srv)"
proof (induction xs arbitrary: srv)
  case (Cons x xs)
  then show ?case using quiet_trans [OF Cons.prems Cons.IH] by simp
qed simp

lemma quiet_fold_opt:
  "(\<And>x srv srv'. f x srv = Some srv' \<Longrightarrow> quiet srv srv') \<Longrightarrow> fold_opt f xs srv = Some srv' \<Longrightarrow> quiet srv srv'"
proof (induction xs arbitrary: srv)
  case (Cons x xs)
  then obtain srv1 where "f x srv = Some srv1" "fold_opt f xs srv1 = Some srv'" by (auto elim: bind_eq_SomeE)
  with Cons show ?case by (blast intro: quiet_trans)
qed simp

subsection \<open>The session manager\<close>

lemma sm_quiet_Touch:
  assumes "Touch X now sid sm = Some sm'"
  shows "sm_quiet sm sm'"
proof -
  obtain s where s: "SM_Get sm sid = Some s" using assms by (auto simp: Touch_def split: option.splits)
  show ?thesis
  proof (cases "ss_active s")
    case True
    show ?thesis unfolding sm_quiet_def
    proof (intro impI)
      assume inv: "sm_inv sm"
      obtain sm1 where "Touch X now sid sm = Some sm1" "sm_inv sm1" "SM_Get sm1 = (SM_Get sm)(sid \<mapsto> s\<lparr>ss_expire := touched X now sm s\<rparr>)"
        by (rule Touch_spec [OF inv s True])
      then show "sm_inv sm' \<and> (\<forall>sid. map_option ss_nodeSet (SM_Get sm' sid) = map_option ss_nodeSet (SM_Get sm sid))"
        using assms s by auto
    qed
  next
    case False
    then have "sm' = sm" using assms Touch_closed [OF s, of X now] by simp
    then show ?thesis by (simp add: sm_quiet_def)
  qed
qed

lemma sm_quiet_GenSid:
  assumes "sm_sid sm \<noteq> - 1"
  shows "sm_quiet sm (snd (GenSid sm))"
proof -
  have "sm_sid sm \<le> sm_sid sm + 1"
    using sid_less [OF assms] by (rule less_imp_le)
  then have "sm\<lparr>sm_sid := max (sm_sid sm) (sm_sid sm + 1)\<rparr> = snd (GenSid sm)" by (simp add: GenSid_def Let_def max_def)
  then show ?thesis using sm_inv_raise [of sm "sm_sid sm + 1"] by (simp add: sm_quiet_def) (simp add: GenSid_def Let_def)
qed

lemma map_sessions_get:
  "SM_Get (sm\<lparr>sm_sessions := map (\<lambda>(sid, s). (sid, f s)) (sm_sessions sm)\<rparr>) sid = map_option f (SM_Get sm sid)"
  by (simp add: SM_Get_def om_find_def map_of_map)

lemma sm_quiet_map:
  assumes "\<And>s. core (f s) = core s"
  shows "sm_quiet sm (sm\<lparr>sm_sessions := map (\<lambda>(sid, s). (sid, f s)) (sm_sessions sm)\<rparr>)"
proof -
  have f: "ss_sid (f s) = ss_sid s" "ss_addr (f s) = ss_addr s" "ss_expire (f s) = ss_expire s" "ss_nodeSet (f s) = ss_nodeSet s" for s
    using assms [of s] by (simp_all add: core_eq)
  have keys: "map (fst \<circ> (\<lambda>(sid, s). (sid, f s))) ss = map fst ss" for ss by (induction ss) auto
  show ?thesis
    unfolding sm_quiet_def
  proof (intro impI conjI allI)
    let ?sm = "sm\<lparr>sm_sessions := map (\<lambda>(sid, s). (sid, f s)) (sm_sessions sm)\<rparr>"
    assume inv: "sm_inv sm"
    have "sessions_wf ?sm" using sm_invD(1) [OF inv] unfolding sessions_wf_def map_sessions_get
      by (auto simp: f om_invar_def keys)
    moreover have "timers_sound ?sm" unfolding timers_sound_def map_sessions_get
    proof (intro allI ballI)
      fix t x
      assume "x \<in> timer_set (sm_timers ?sm) t"
      then obtain s where "SM_Get sm (snd x) = Some s" "ss_addr s = fst x" "ss_expire s = t"
        using sm_invD(3) [OF inv] by (auto simp: timers_sound_def)
      then show "\<exists>s. map_option f (SM_Get sm (snd x)) = Some s \<and> ss_addr s = fst x \<and> ss_expire s = t" by (simp add: f)
    qed
    ultimately show "sm_inv ?sm" using sm_invD(2) [OF inv] by (simp add: sm_inv_def)
    show "map_option ss_nodeSet (SM_Get ?sm sid) = map_option ss_nodeSet (SM_Get sm sid)" for sid
      unfolding map_sessions_get by (simp add: option.map_comp comp_def f)
  qed
qed

text \<open>The timer reset: the sets that are still to come hold sessions of their own.\<close>

definition timer_sids :: "SessionSet \<Rightarrow> sid_t set" where
  "timer_sids b = snd ` set b"

definition reset_ok :: "(timestamp \<times> SessionSet) list \<Rightarrow> (timestamp, SessionSet) omap \<Rightarrow> SessionManager \<Rightarrow> bool" where
  "reset_ok rest newT sm \<longleftrightarrow> sm_inv (sm\<lparr>sm_timers := newT\<rparr>)
     \<and> sorted_wrt (\<lambda>e e'. timer_sids (snd e) \<inter> timer_sids (snd e') = {}) rest
     \<and> (\<forall>e \<in> set rest. sorted (snd e) \<and> distinct (snd e)
          \<and> (\<forall>x \<in> set (snd e). \<exists>s. SM_Get sm (snd x) = Some s \<and> ss_addr s = fst x)
          \<and> (\<forall>t. timer_sids (snd e) \<inter> snd ` timer_set newT t = {}))"

lemma fold_expire_sel:
  "sm_sid (fold (\<lambda>y sm. SM_adjust (snd y) (SetExpireTime e) sm) ys sm) = sm_sid sm"
  "om_invar (sm_sessions (fold (\<lambda>y sm. SM_adjust (snd y) (SetExpireTime e) sm) ys sm)) = om_invar (sm_sessions sm)"
  by (induction ys arbitrary: sm) simp_all

lemma reset_step:
  fixes e :: timestamp
  assumes ok: "reset_ok ((t0, b) # rest) newT sm" and b: "b \<noteq> []"
  defines "sm' \<equiv> fold (\<lambda>y sm. SM_adjust (snd y) (SetExpireTime e) sm) b sm"
  shows "reset_ok rest (om_put e b newT) sm'"
proof -
  note D = ok [unfolded reset_ok_def]
  have inv: "sm_inv (sm\<lparr>sm_timers := newT\<rparr>)" using D by blast
  have get: "SM_Get sm' sid = map_option (\<lambda>s. if sid \<in> timer_sids b then SetExpireTime e s else s) (SM_Get sm sid)" for sid
    unfolding sm'_def timer_sids_def by (rule fold_expire_get)
  have sel: "sm_sid sm' = sm_sid sm" "om_invar (sm_sessions sm') = om_invar (sm_sessions sm)"
    unfolding sm'_def by (rule fold_expire_sel)+
  have set: "timer_set (om_put e b newT) t = (if t = e then set b else timer_set newT t)" for t
    by (simp add: timer_set_def)
  have "sessions_wf (sm'\<lparr>sm_timers := om_put e b newT\<rparr>)"
    using sm_invD(1) [OF inv] by (auto simp: sessions_wf_def get sel SetExpireTime_def)
  moreover have "timers_wf (om_put e b newT)" using sm_invD(2) [OF inv] D b by (auto simp: timers_wf_def)
  moreover have "timers_sound (sm'\<lparr>sm_timers := om_put e b newT\<rparr>)" unfolding timers_sound_def
  proof (intro allI ballI)
    fix t x
    assume x: "x \<in> timer_set (sm_timers (sm'\<lparr>sm_timers := om_put e b newT\<rparr>)) t"
    show "\<exists>s. SM_Get (sm'\<lparr>sm_timers := om_put e b newT\<rparr>) (snd x) = Some s \<and> ss_addr s = fst x \<and> ss_expire s = t"
    proof (cases "t = e")
      case True
      then have "x \<in> set b" using x by (simp add: set)
      then show ?thesis using D True by (auto simp: get timer_sids_def SetExpireTime_def)
    next
      case False
      then have xt: "x \<in> timer_set newT t" using x by (simp add: set)
      then obtain s where s: "SM_Get sm (snd x) = Some s" "ss_addr s = fst x" "ss_expire s = t"
        using sm_invD(3) [OF inv] by (auto simp: timers_sound_def)
      moreover have "snd x \<notin> timer_sids b" using D xt by fastforce
      ultimately show ?thesis by (simp add: get)
    qed
  qed
  ultimately have "sm_inv (sm'\<lparr>sm_timers := om_put e b newT\<rparr>)" by (simp add: sm_inv_def)
  moreover have "sorted_wrt (\<lambda>e e'. timer_sids (snd e) \<inter> timer_sids (snd e') = {}) rest" using D by simp
  moreover have "\<forall>e' \<in> set rest. \<forall>t. timer_sids (snd e') \<inter> snd ` timer_set (om_put e b newT) t = {}"
  proof (intro ballI allI)
    fix e' t
    assume e': "e' \<in> set rest"
    then have "timer_sids b \<inter> timer_sids (snd e') = {}" "timer_sids (snd e') \<inter> snd ` timer_set newT t = {}" using D by simp_all
    then show "timer_sids (snd e') \<inter> snd ` timer_set (om_put e b newT) t = {}" by (auto simp: set timer_sids_def)
  qed
  moreover have "\<exists>s. SM_Get sm' (snd x) = Some s \<and> ss_addr s = fst x" if "e' \<in> set rest" "x \<in> set (snd e')" for e' x
  proof -
    have "\<exists>s. SM_Get sm (snd x) = Some s \<and> ss_addr s = fst x" using D that by simp
    then show ?thesis by (cases "snd x \<in> timer_sids b") (auto simp: get SetExpireTime_def)
  qed
  ultimately show ?thesis using D by (simp add: reset_ok_def)
qed

lemma reset_timers_quiet:
  "reset_timers X nows i rest newT sm = Some sm' \<Longrightarrow> reset_ok rest newT sm \<Longrightarrow>
     sm_inv sm' \<and> (\<forall>sid. map_option ss_nodeSet (SM_Get sm' sid) = map_option ss_nodeSet (SM_Get sm sid))"
proof (induction X nows i rest newT sm rule: reset_timers.induct)
  case (1 X nows i newT sm)
  then show ?case by (auto simp: reset_ok_def)
next
  case (2 X nows i t0 b rest newT sm)
  from "2.prems"(1) obtain x b' s where b: "b = x # b'" "SM_Get sm (snd x) = Some s" by (auto split: list.splits option.splits)
  define e where "e = expiry X (nows i) (ss_timeout s)"
  define sm1 where "sm1 = fold (\<lambda>y sm. SM_adjust (snd y) (SetExpireTime e) sm) b sm"
  have r: "reset_timers X nows (i + 1) rest (om_put e b newT) sm1 = Some sm'"
    using "2.prems"(1) b by (simp add: e_def sm1_def Let_def)
  have "map_option ss_nodeSet (SM_Get sm1 sid) = map_option ss_nodeSet (SM_Get sm sid)" for sid
    unfolding sm1_def fold_expire_get by (auto simp: option.map_comp comp_def SetExpireTime_def intro: option.map_cong)
  then show ?case using "2.IH" [OF b(1,2) e_def sm1_def r] reset_step [OF "2.prems"(2), of e] b(1) by (simp add: sm1_def)
qed

lemma sm_quiet_ResetTimer:
  assumes "ResetTimer X nows sm = Some sm'"
  shows "sm_quiet sm sm'"
  unfolding sm_quiet_def
proof (intro impI)
  assume inv: "sm_inv sm"
  have om: "om_invar (sm_timers sm)" using sm_invD(2) [OF inv] by (simp add: timers_wf_def)
  have in_set: "x \<in> timer_set (sm_timers sm) t" if "(t, b) \<in> set (sm_timers sm)" "x \<in> set b" for t b x
    using om_find_iff [OF om, of t b] that by (simp add: timer_set_def)
  have sound: "\<exists>s. SM_Get sm (snd x) = Some s \<and> ss_addr s = fst x \<and> ss_expire s = t" if "(t, b) \<in> set (sm_timers sm)" "x \<in> set b" for t b x
    using in_set [OF that] sm_invD(3) [OF inv] by (auto simp: timers_sound_def)
  have "sorted_wrt (\<lambda>e e'. fst e < fst e') (sm_timers sm)" using om by (simp add: om_invar_def sorted_wrt_map)
  then have "sorted_wrt (\<lambda>e e'. timer_sids (snd e) \<inter> timer_sids (snd e') = {}) (sm_timers sm)"
  proof (rule sorted_wrt_mono_rel [rotated])
    fix e e'
    assume e: "e \<in> set (sm_timers sm)" "e' \<in> set (sm_timers sm)" "fst e < fst e'"
    show "timer_sids (snd e) \<inter> timer_sids (snd e') = {}"
    proof (rule ccontr)
      assume "timer_sids (snd e) \<inter> timer_sids (snd e') \<noteq> {}"
      then obtain x y where xy: "x \<in> set (snd e)" "y \<in> set (snd e')" "snd x = snd y" by (auto simp: timer_sids_def)
      then show False using sound [of "fst e" "snd e" x] sound [of "fst e'" "snd e'" y] e by auto
    qed
  qed
  moreover have "sm_inv (sm\<lparr>sm_timers := []\<rparr>)" using inv by (simp add: sm_inv_def sessions_wf_def timers_wf_def timers_sound_def timer_set_def)
  moreover have "\<forall>e \<in> set (sm_timers sm). sorted (snd e) \<and> distinct (snd e)"
    using sm_invD(2) [OF inv] om_find_iff [OF om] by (fastforce simp: timers_wf_def)
  moreover have "\<forall>e \<in> set (sm_timers sm). \<forall>x \<in> set (snd e). \<exists>s. SM_Get sm (snd x) = Some s \<and> ss_addr s = fst x"
    using sound by fastforce
  ultimately have "reset_ok (sm_timers sm) [] sm" by (simp add: reset_ok_def timer_set_def)
  with reset_timers_quiet [OF assms [unfolded ResetTimer_def]]
  show "sm_inv sm' \<and> (\<forall>sid. map_option ss_nodeSet (SM_Get sm' sid) = map_option ss_nodeSet (SM_Get sm sid))" by blast
qed

subsection \<open>Requests of clients\<close>

text \<open>The counter of session ids is not at its end.\<close>

definition sids_left :: "'db Server \<Rightarrow> bool" where
  "sids_left srv \<longleftrightarrow> sm_sid (sv_sm srv) \<noteq> - 1"

lemma quiet_replicate [simp]: "quiet srv (replicate_cmd cmd srv') = quiet srv srv'"
  by (simp add: replicate_cmd_def)

lemma quiet_push [simp]: "quiet srv (push_request e srv') = quiet srv srv'"
  by (simp add: push_request_def)

lemma quiet_finish [simp]: "quiet srv (finish_event st e srv') = quiet srv srv'"
  by (simp add: finish_event_def)

lemma quiet_Touch: "sv_Touch env sid srv = Some srv' \<Longrightarrow> quiet srv srv'"
  by (auto simp: sv_Touch_def intro: quiet_sm sm_quiet_Touch)

lemma quiet_onWatch: "onWatch req srv = (st, srv') \<Longrightarrow> quiet srv srv'"
proof -
  have "quiet srv (sv_adjust sid (BindWatch w) (srv\<lparr>sv_wm := wm\<rparr>))" for sid w wm
    using quiet_adjust [of "BindWatch w" "srv\<lparr>sv_wm := wm\<rparr>" sid] by simp
  then show "onWatch req srv = (st, srv') \<Longrightarrow> quiet srv srv'"
    by (auto simp: onWatch_def Let_def split: option.splits if_splits)
qed

lemma quiet_handleRegister: "sids_left srv \<Longrightarrow> quiet srv (handleRegister e srv)"
  using quiet_sm [OF sm_quiet_GenSid, of srv]
  by (auto simp: handleRegister_def Let_def sids_left_def split: option.splits prod.splits intro: quiet_adjust)

lemma quiet_handlePing:
  assumes "handlePing env e srv = Some (st, srv')"
  shows "quiet srv srv'"
proof (cases "ok (getSession (req_sid (ev_Req e)) srv)")
  case True
  let ?sid = "req_sid (ev_Req e)"
  obtain srv1 where t: "sv_Touch env ?sid srv = Some srv1"
    using assms True by (auto simp: handlePing_def Let_def elim!: bind_eq_SomeE)
  define srv2 where "srv2 = sv_session ?sid (HoldPing e) srv1"
  have 2: "quiet srv srv2"
    unfolding srv2_def by (rule quiet_trans [OF quiet_Touch [OF t] quiet_session]) simp
  have "srv' = srv2 \<or> srv' = sv_session ?sid (PingBack (en_now env)) srv2"
    using assms True t by (auto simp: handlePing_def Let_def srv2_def split: option.splits if_splits)
  then show ?thesis using 2 quiet_trans [OF 2 quiet_session [of "PingBack (en_now env)"]] by auto
qed (use assms in \<open>simp add: handlePing_def Let_def\<close>)

lemma quiet_handleRead: "handleRead env e srv = Some (st, e', srv') \<Longrightarrow> quiet srv srv'"
  by (auto simp: handleRead_def Let_def elim!: bind_eq_SomeE split: if_splits prod.splits intro: quiet_onWatch)

lemma quiet_handleStat: "handleStat env e srv = Some (st, e', srv') \<Longrightarrow> quiet srv srv'"
  by (auto simp: handleStat_def Let_def elim!: bind_eq_SomeE split: if_splits prod.splits intro: quiet_onWatch)

lemma quiet_handleEvent:
  assumes "handleEvent env e srv = Some srv'" and "rq_register (ev_Req e) \<noteq> None \<Longrightarrow> sids_left srv"
  shows "quiet srv srv'"
proof (cases "rq_register (ev_Req e) = None \<and> SM_Get (sv_sm srv) (req_sid (ev_Req e)) \<noteq> None")
  case False
  then show ?thesis using assms quiet_handleRegister [of srv e] by (auto simp: handleEvent_def Let_def split: if_splits)
next
  case True
  let ?req = "ev_Req e"
  obtain srv1 where t: "(if \<not> rq_ping ?req \<and> \<not> rq_unregister ?req then sv_Touch env (req_sid ?req) srv else Some srv) = Some srv1"
    using assms(1) True by (auto simp: handleEvent_def Let_def elim!: bind_eq_SomeE)
  then have 1: "quiet srv srv1" by (auto split: if_splits intro: quiet_Touch)
  have "quiet srv1 srv'"
    using assms(1) True t
    by (auto simp: handleEvent_def Let_def elim!: bind_eq_SomeE split: if_splits prod.splits
        dest: quiet_handlePing quiet_handleRead quiet_handleStat quiet_onWatch)
  then show ?thesis by (rule quiet_trans [OF 1])
qed

subsection \<open>Expiry, roles, and the raft library\<close>

lemma quiet_close_due:
  assumes "close_due env sid srv = Some srv'"
  shows "quiet srv srv'"
proof -
  obtain s where s: "SM_Get (sv_sm srv) sid = Some s" using assms by (auto simp: close_due_def split: option.splits)
  show ?thesis
  proof (cases "ss_active s")
    case True
    then have "handleEvent env (close_event sid) (emit [Log_session sid ''expire''] (sv_adjust sid Close srv)) = Some srv'"
      using assms s by (auto simp: close_due_def onSessionClosed_def split: option.splits if_splits)
    from quiet_handleEvent [OF this] have "quiet (sv_adjust sid Close srv) srv'" by (simp add: close_event_def Request_default_def)
    then show ?thesis by (rule quiet_trans [OF quiet_adjust, rotated]) simp
  qed (use assms s in \<open>simp add: close_due_def\<close>)
qed

lemma quiet_Step: "server_Step env srv = Some (t, srv') \<Longrightarrow> quiet srv srv'"
  by (auto simp: server_Step_def elim!: bind_eq_SomeE intro: quiet_fold_opt [OF quiet_close_due])

lemma quiet_pingBack: "quiet srv (pingBack env b srv)"
  unfolding pingBack_def by (intro quiet_fold quiet_session) simp

lemma quiet_onState: "quiet srv (onState env state srv)"
proof -
  have "quiet (srv\<lparr>sv_requests := []\<rparr>) (srv\<lparr>sv_requests := [], sv_sm := fst (ResetPendingPing (en_now env) (sv_sm srv))\<rparr>)"
    unfolding ResetPendingPing_def fst_conv using quiet_sm [OF sm_quiet_map, of "\<lambda>s. fst (PingBack (en_now env) s)" "srv\<lparr>sv_requests := []\<rparr>"] by simp
  then show ?thesis by (simp add: onState_def Let_def case_prod_unfold)
qed

lemma quiet_leader_enter:
  assumes "leaderLoop_enter env srv = Some srv'"
  shows "quiet srv srv'"
proof -
  obtain sm t srv1 where r: "ResetTimer (sv_lib srv) (en_nows env) (sv_sm srv) = Some sm"
    "server_Step env (srv\<lparr>sv_sm := ResetWatchers sm, sv_wm := WM_Reset (sv_wm srv)\<rparr>) = Some (t, srv1)" "srv' = srv1\<lparr>sv_loop := In_leader t\<rparr>"
    using assms by (auto simp: leaderLoop_enter_def elim!: bind_eq_SomeE)
  have "sm_quiet sm (ResetWatchers sm)" unfolding ResetWatchers_def by (rule sm_quiet_map) simp
  then have "quiet srv (srv\<lparr>sv_sm := ResetWatchers sm\<rparr>)"
    using quiet_trans [OF quiet_sm [OF sm_quiet_ResetTimer [OF r(1)]] quiet_sm [of "srv\<lparr>sv_sm := sm\<rparr>"]] by simp
  moreover have "quiet (srv\<lparr>sv_sm := ResetWatchers sm\<rparr>) srv1" using quiet_Step [OF r(2)] by simp
  ultimately show ?thesis unfolding r(3) by (simp add: quiet_trans)
qed

lemma quiet_redirect: "quiet srv (redirect_event env e srv)"
  by (simp add: redirect_event_def)

lemma quiet_wait_enter: "quiet srv (waitLoop_enter env srv)"
  by (simp add: waitLoop_enter_def Let_def)

end
