(* ===== verification/Server_Control.thy ===== *)
theory Server_Control
  imports Server_Frame
begin

text \<open>
  The control state of the main thread: its role and loop, its three channels, the requests that wait
  for a commit, and what it has handed to the raft library. A command changes none of it except for
  the request it answers.
\<close>

fun broadcasts :: "effect list \<Rightarrow> string list" where
  "broadcasts [] = []"
| "broadcasts (Broadcast d # es) = d # broadcasts es"
| "broadcasts (_ # es) = broadcasts es"

lemma broadcasts_append [simp]: "broadcasts (a @ b) = broadcasts a @ broadcasts b"
  by (induction a rule: broadcasts.induct) simp_all

lemma broadcasts_silent: "list_all silent es \<Longrightarrow> broadcasts es = []"
  by (induction es rule: broadcasts.induct) simp_all

lemma broadcasts_session [simp]:
  "broadcasts (snd (PingBack now s)) = []" "broadcasts (snd (HoldPing e s)) = []"
  "broadcasts (case p of None \<Rightarrow> [] | Some x \<Rightarrow> [Reply x]) = []"
  by (simp_all add: PingBack_def HoldPing_def Let_def split: option.splits list.splits)

lemma broadcasts_replies [simp]: "broadcasts (map (\<lambda>e. Reply (f e)) es) = []"
  by (induction es) simp_all

definition kept :: "'db Server \<Rightarrow> 'db Server \<Rightarrow> bool" where
  "kept srv srv' \<longleftrightarrow> sv_state srv' = sv_state srv \<and> sv_loop srv' = sv_loop srv \<and> sv_requests srv' = sv_requests srv
     \<and> sv_eventch srv' = sv_eventch srv \<and> sv_cmdch srv' = sv_cmdch srv \<and> sv_statech srv' = sv_statech srv
     \<and> broadcasts (sv_out srv') = broadcasts (sv_out srv)
     \<and> so_lib (sv_store srv') = so_lib (sv_store srv) \<and> sv_options srv' = sv_options srv"

lemma kept_refl [simp]: "kept srv srv"
  by (simp add: kept_def)

lemma kept_trans: "kept a b \<Longrightarrow> kept b c \<Longrightarrow> kept a c"
  by (simp add: kept_def)

lemma kept_wm [simp]: "kept srv (srv'\<lparr>sv_wm := w\<rparr>) = kept srv srv'" "kept srv (srv'\<lparr>sv_sm := sm\<rparr>) = kept srv srv'"
  by (simp_all add: kept_def)

lemma kept_emit: "broadcasts es = [] \<Longrightarrow> kept srv (emit es srv') = kept srv srv'"
  by (simp add: kept_def emit_def)

lemma kept_adjust [simp]: "kept srv (sv_adjust sid f srv') = kept srv srv'"
  by (simp add: sv_adjust_def)

lemma kept_session: "(\<And>s. broadcasts (snd (f s)) = []) \<Longrightarrow> kept srv (sv_session sid f srv') = kept srv srv'"
  by (simp add: sv_session_def kept_emit split: option.splits)

lemma session_store_env:
  "Store_AddSession s ss = (st, s') \<Longrightarrow> same_env s s'" "Store_RemoveSession s sid = (st, s') \<Longrightarrow> same_env s s'"
  "Store_SetCommitIndex s idx = (st, s') \<Longrightarrow> same_env s s'"
  using store_step_env [of "ProcDB_new [] :: unit ProcDB" "OpAddSession ss" s st s']
    store_step_env [of "ProcDB_new [] :: unit ProcDB" "OpRemoveSession sid" s st s']
    store_step_env [of "ProcDB_new [] :: unit ProcDB" "OpSetCommitIndex idx" s st s'] by simp_all

lemma SM_store_env:
  "SM_Add now s sm st = Some (sm', st') \<Longrightarrow> same_env st st'" "SM_Remove sid sm st = Some (sm', st') \<Longrightarrow> same_env st st'"
  by (auto simp: SM_Add_def SM_Remove_def Let_def elim!: bind_eq_SomeE split: prod.splits if_splits option.splits
      intro: session_store_env)

interpretation ctl: server_frame kept
proof unfold_locales
  show "kept srv (srv\<lparr>sv_store := st\<rparr>)" if "same_env (sv_store srv) st" for srv :: "'a Server" and st
    using that by (simp add: kept_def same_env_def)
  show "kept srv (srv\<lparr>sv_sm := sm, sv_store := st\<rparr>)"
    if "SM_Add now (Session_new addr now sid t) (sv_sm srv) (sv_store srv) = Some (sm, st)" for srv :: "'a Server" and now addr sid t sm st
    using SM_store_env(1) [OF that] by (simp add: kept_def same_env_def)
  show "kept srv (emit (case ss_pingEvent s of None \<Rightarrow> [] | Some p \<Rightarrow> [Reply p]) srv')"
    if "SM_Remove sid (sv_sm srv) (sv_store srv) = Some (sm, st)" "kept (srv\<lparr>sv_sm := sm, sv_store := st\<rparr>) srv'"
    for srv srv' :: "'a Server" and sid s sm st
    using that SM_store_env(2) [OF that(1)] by (simp add: kept_emit) (simp add: kept_def same_env_def)
qed (auto simp: kept_emit broadcasts_silent kept_session elim: kept_trans)

text \<open>A command takes the first waiting request of a leader and answers it.\<close>

lemma onCommand_leader:
  "sv_state srv = kLeader \<Longrightarrow> sv_requests srv = e # rest \<Longrightarrow> onCommand env req srv =
     map_option (\<lambda>(st, rep, srv'). emit [Reply (e\<lparr>ev_Rep := if \<not> ok st then set_err st rep else rep\<rparr>)] srv')
       (run_command env req (srv\<lparr>sv_requests := rest\<rparr>))"
  "sv_state srv = kLeader \<Longrightarrow> sv_requests srv = [] \<Longrightarrow> onCommand env req srv = None"
  "sv_state srv \<noteq> kLeader \<Longrightarrow> onCommand env req srv = map_option (\<lambda>(st, rep, srv'). srv') (run_command env req srv)"
  by (auto simp: onCommand_def Let_def split: bind_splits option.splits)

lemma onCommand_control:
  assumes "onCommand env req srv = Some srv'"
  shows "kept (if sv_state srv = kLeader then srv\<lparr>sv_requests := tl (sv_requests srv)\<rparr> else srv) srv'"
    and "sv_state srv = kLeader \<Longrightarrow> sv_requests srv \<noteq> []"
proof -
  show q: "sv_state srv = kLeader \<Longrightarrow> sv_requests srv \<noteq> []" using assms by (auto simp: onCommand_leader)
  show "kept (if sv_state srv = kLeader then srv\<lparr>sv_requests := tl (sv_requests srv)\<rparr> else srv) srv'"
  proof (cases "sv_state srv = kLeader")
    case True
    then obtain e rest where "sv_requests srv = e # rest" using q by (cases "sv_requests srv") auto
    then show ?thesis using assms True by (auto simp: onCommand_leader kept_emit dest: ctl.run_command)
  next
    case False
    then show ?thesis using assms by (auto simp: onCommand_leader dest: ctl.run_command)
  qed
qed

end
