(* ===== verification/Server_Trace.thy ===== *)
theory Server_Trace
  imports Server_Quiet Server_Control Recovery
begin

text \<open>
  Whole runs of a server, with everything that can happen to it interleaved: requests of clients,
  changes of its role, expiry checks, and committed commands. The replicated state is at any time the
  one that the commands taken from the raft library so far give, whatever else happened; so the
  servers of a cluster are in states along one log.
\<close>

subsection \<open>Commands on their way\<close>

text \<open>The commands that the raft library delivers, and those that a step has taken.\<close>

definition synced :: "'db thirdparty \<Rightarrow> action \<Rightarrow> Request list" where
  "synced X act = (case act of Act_synced index data \<Rightarrow> [snd (request_ParseFromString (pb X) data)] | _ \<Rightarrow> [])"

definition delivered_log :: "'db thirdparty \<Rightarrow> (Env \<times> action) list \<Rightarrow> Request list" where
  "delivered_log X acts = concat (map (synced X \<circ> snd) acts)"

text \<open>The ping that a waiting server sends to itself carries nothing else.\<close>

definition loggable :: "Request \<Rightarrow> bool" where
  "loggable req \<longleftrightarrow> replicable req \<and> (rq_ping req \<longrightarrow> rq_register req = None \<and> \<not> rq_unregister req
     \<and> rq_create req = None \<and> rq_delete req = None \<and> rq_write req = None)"

lemma spec_ping: "loggable req \<Longrightarrow> rq_ping req \<Longrightarrow> spec_command cfg req ra = Some ra"
  by (simp add: loggable_def spec_command_def)

definition follows :: "'db Server \<Rightarrow> Request list \<Rightarrow> 'db Server \<Rightarrow> bool" where
  "follows srv new srv' \<longleftrightarrow> replica_ok srv' \<and> same_env (sv_store srv) (sv_store srv')
     \<and> (\<exists>done. sv_cmdch srv @ new = done @ sv_cmdch srv'
          \<and> spec_log (config_of (sv_store srv)) done (abs_of srv) = Some (abs_of srv'))"

lemma follows_quiet: "quiet srv srv' \<Longrightarrow> replica_ok srv \<Longrightarrow> follows srv [] srv'"
  by (auto simp: quiet_def follows_def spec_log_def intro: exI [of _ "[]"])

lemma follows_trans:
  assumes 1: "follows a xs b" and 2: "follows b ys c"
  shows "follows a (xs @ ys) c"
proof -
  obtain d1 d2 where "sv_cmdch a @ xs = d1 @ sv_cmdch b" "spec_log (config_of (sv_store a)) d1 (abs_of a) = Some (abs_of b)"
    "sv_cmdch b @ ys = d2 @ sv_cmdch c" "spec_log (config_of (sv_store b)) d2 (abs_of b) = Some (abs_of c)"
    using 1 2 by (auto simp: follows_def)
  moreover have "config_of (sv_store b) = config_of (sv_store a)" using 1 config_same by (auto simp: follows_def)
  ultimately have "sv_cmdch a @ xs @ ys = (d1 @ d2) @ sv_cmdch c"
    "spec_log (config_of (sv_store a)) (d1 @ d2) (abs_of a) = Some (abs_of c)"
    by (simp_all add: spec_log_def fold_opt_append) (metis append.assoc)
  then show ?thesis using 1 2 unfolding follows_def same_env_def by metis
qed

lemma follows_command:
  assumes ok: "replica_ok srv" and ch: "sv_cmdch srv = cmd # rest" and l: "replicable cmd"
    and run: "onCommand env cmd (srv\<lparr>sv_cmdch := rest\<rparr>) = Some srv'"
  shows "follows srv [] srv'"
proof -
  let ?srv = "srv\<lparr>sv_cmdch := rest\<rparr>"
  have ok': "replica_ok ?srv" and a: "abs_of ?srv = abs_of srv" using ok by (simp_all add: replica_ok_def nodes_ok_def abs_of_def)
  note c = onCommand_control [OF run]
  have "case spec_command (config_of (sv_store ?srv)) cmd (abs_of ?srv) of
      None \<Rightarrow> onCommand env cmd ?srv = None
    | Some ra \<Rightarrow> \<exists>srv'. onCommand env cmd ?srv = Some srv' \<and> replica_ok srv' \<and> abs_of srv' = ra
        \<and> same_env (sv_store ?srv) (sv_store srv') \<and> sv_state srv' = sv_state ?srv
        \<and> sv_requests srv' = (if sv_state ?srv = kLeader then tl (sv_requests ?srv) else sv_requests ?srv)"
    by (rule onCommand_spec [OF ok' l]) (use c(2) in auto)
  then have "replica_ok srv'" "same_env (sv_store srv) (sv_store srv')"
    "spec_command (config_of (sv_store srv)) cmd (abs_of srv) = Some (abs_of srv')"
    using run a by (auto split: option.splits)
  moreover have "sv_cmdch srv' = rest" using c(1) by (simp add: kept_def split: if_splits)
  ultimately show ?thesis using ch by (auto simp: follows_def spec_log_def intro: exI [of _ "[cmd]"])
qed

lemma follows_tag:
  assumes ok: "replica_ok srv" and ch: "sv_cmdch srv = cmd # rest" and l: "loggable cmd" "rq_ping cmd"
  shows "follows srv [] (srv\<lparr>sv_cmdch := rest, sv_state := kLeader, sv_loop := At_main\<rparr>)"
proof -
  have "replica_ok (srv\<lparr>sv_cmdch := rest, sv_state := kLeader, sv_loop := At_main\<rparr>)"
    "abs_of (srv\<lparr>sv_cmdch := rest, sv_state := kLeader, sv_loop := At_main\<rparr>) = abs_of srv"
    using ok by (simp_all add: replica_ok_def nodes_ok_def abs_of_def)
  then show ?thesis using ch spec_ping [OF l] by (auto simp: follows_def spec_log_def same_env_def intro: exI [of _ "[cmd]"])
qed

text \<open>The raft library's callback stores the index and queues the command; the tree and the sessions stay.\<close>

lemma onSynced_frame:
  assumes ok: "replica_ok srv" and run: "onSynced index data srv = Some srv'"
  shows "replica_ok srv'" and "same_env (sv_store srv) (sv_store srv')" and "abs_of srv' = abs_of srv"
    and "sv_cmdch srv' = sv_cmdch srv @ [snd (request_ParseFromString (pb (sv_lib srv)) data)]"
    and "store_view (sv_store srv') COMMIT_PREFIX = Some (u64_bytes index)"
proof -
  obtain st store where s: "Store_SetCommitIndex (sv_store srv) index = (st, store)" by fastforce
  define cmd where "cmd = snd (request_ParseFromString (pb (sv_lib srv)) data)"
  have srv': "srv' = srv\<lparr>sv_logIndex := index, sv_store := store, sv_cmdch := sv_cmdch srv @ [cmd]\<rparr>" and st: "ok st"
    using run s by (auto simp: onSynced_def cmd_def split: prod.splits if_splits)
  note good = replica_okD(1) [OF ok]
  have step: "store_step (ProcDB_new [] :: unit ProcDB) (OpSetCommitIndex index) (sv_store srv) = Some (st, store)" using s by simp
  have pok: "proc_ok (ProcDB_new [] :: unit ProcDB)" by (simp add: proc_ok_def ProcDB_new_def RegisterReadNode_def)
  note env = store_step_env [OF step]
  note view = session_ops_view(3) [OF store_goodD(1) [OF good] s]
  have tree: "key_tree store = key_tree (sv_store srv)"
  proof (rule key_tree_outside [OF store_goodD(1) [OF good] _ env])
    fix p :: string
    assume "key_path p"
    then have "p \<noteq> COMMIT_PREFIX" by (auto simp: key_path_def COMMIT_PREFIX_def)
    then show "store_view store p = store_view (sv_store srv) p" using view by simp
  qed
  have sess: "stored_session store = stored_session (sv_store srv)"
    by (rule stored_session_frame [OF store_goodD(1) [OF good] step]) simp
  show "replica_ok srv'"
    using ok store_step_good [OF good step pok] under_proc_same [OF env]
    by (simp add: srv' replica_ok_def nodes_ok_def)
  show "abs_of srv' = abs_of srv" using tree sess by (simp add: srv' abs_of_def)
  show "same_env (sv_store srv) (sv_store srv')" using env by (simp add: srv')
  show "sv_cmdch srv' = sv_cmdch srv @ [snd (request_ParseFromString (pb (sv_lib srv)) data)]" by (simp add: srv' cmd_def)
  show "store_view (sv_store srv') COMMIT_PREFIX = Some (u64_bytes index)" using view st by (simp add: srv')
qed

text \<open>
  C26. A committed command can be lost: when \<^verbatim>\<open>onSynced\<close> returns, the database already holds the index of
  the command, but the command is only in the channel of the main thread. A server that stops
  there and starts again on its database reports that index as applied, with the tree from
  before the command.
\<close>

theorem commit_index_ahead:
  assumes "replica_ok srv" and "onSynced index data srv = Some srv'"
    and "replica_ok srv2" and "sv_store srv2 = sv_store srv'" and "\<forall>sid. SM_Get (sv_sm srv2) sid = None"
    and "iterates (ldb (sv_lib srv))"
  shows "\<exists>srv3. onLoadSnapshot env srv2 = Some (index, srv3) \<and> key_tree (sv_store srv3) = key_tree (sv_store srv)
    \<and> stored_session (sv_store srv2) = stored_session (sv_store srv)"
proof -
  note f = onSynced_frame [OF assms(1,2)]
  have lib: "sv_lib srv2 = sv_lib srv" using f(2) assms(4) by (simp add: same_env_def)
  have "ldb_readable (ldb (sv_lib srv')) (so_persist (sv_store srv'))"
    using f(1) replica_okD(1) store_goodD(1) store_invD(1) store_okD(4) by blast
  then have "Store_GetCommitIndex (sv_store srv2) = Some (OK, Some index)" using f(5) assms(4) by (simp add: GetCommitIndex_view)
  moreover have "key_tree (sv_store srv2) = key_tree (sv_store srv)" "stored_session (sv_store srv2) = stored_session (sv_store srv)"
    using f(3) assms(4) by (simp_all add: abs_of_def)
  ultimately show ?thesis using onLoadSnapshot_rebuilds [OF assms(3,5), of env] assms(6) lib by auto
qed

lemma follows_synced:
  assumes "replica_ok srv" and "onSynced index data srv = Some srv'"
  shows "follows srv (synced (sv_lib srv) (Act_synced index data)) srv'"
  using onSynced_frame [OF assms] by (simp add: follows_def synced_def spec_log_def)

subsection \<open>One step\<close>

lemma follows_leaderLoop:
  assumes ok: "replica_ok srv" and left: "sids_left srv" and l: "list_all loggable (sv_cmdch srv)"
    and run: "leaderLoop env ch srv = Some srv'"
  shows "follows srv [] srv'"
proof (cases ch)
  case Choose_state
  then have "quiet srv srv'" using run by (auto simp: leaderLoop_def split: list.splits)
  then show ?thesis using ok by (rule follows_quiet)
next
  case Choose_event
  then have "quiet srv srv'"
    using run left quiet_handleEvent [of env _ "srv\<lparr>sv_eventch := _\<rparr>" srv']
    by (auto simp: leaderLoop_def sids_left_def split: list.splits)
  then show ?thesis using ok by (rule follows_quiet)
next
  case Choose_cmd
  show ?thesis
  proof (cases "sv_cmdch srv")
    case Nil
    then have "quiet srv srv'" using run Choose_cmd by (simp add: leaderLoop_def)
    then show ?thesis using ok by (rule follows_quiet)
  next
    case (Cons cmd rest)
    then show ?thesis using run Choose_cmd l by (intro follows_command [OF ok Cons]) (auto simp: leaderLoop_def loggable_def)
  qed
next
  case Choose_timer
  obtain t srv1 where t: "server_Step env srv = Some (t, srv1)"
    "srv' = srv1\<lparr>sv_loop := In_leader t\<rparr> \<or> (\<exists>b. srv' = pingBack env b (srv1\<lparr>sv_loop := In_leader t\<rparr>))"
    using run Choose_timer by (auto simp: leaderLoop_def Let_def elim!: bind_eq_SomeE split: option.splits) blast
  have "quiet srv srv'"
    using quiet_Step [OF t(1)] t(2) quiet_trans [OF _ quiet_pingBack, of srv "srv1\<lparr>sv_loop := In_leader t\<rparr>"] by auto
  then show ?thesis using ok by (rule follows_quiet)
qed

lemma follows_followerLoop:
  assumes ok: "replica_ok srv" and l: "list_all loggable (sv_cmdch srv)" and run: "followerLoop env ch srv = Some srv'"
  shows "follows srv [] srv'"
proof (cases "ch = Choose_cmd \<and> sv_cmdch srv \<noteq> []")
  case True
  then obtain cmd rest where c: "sv_cmdch srv = cmd # rest" by (cases "sv_cmdch srv") auto
  then show ?thesis using run True l by (intro follows_command [OF ok c]) (auto simp: followerLoop_def loggable_def)
next
  case False
  then have "quiet srv srv'"
    using run quiet_redirect [of "srv\<lparr>sv_eventch := _\<rparr>"]
    by (auto simp: followerLoop_def Let_def split: choice.splits list.splits if_splits)
  then show ?thesis using ok by (rule follows_quiet)
qed

lemma follows_waitLoop:
  assumes ok: "replica_ok srv" and l: "list_all loggable (sv_cmdch srv)" and run: "waitLoop env tag ch srv = Some srv'"
  shows "follows srv [] srv'"
proof (cases "ch = Choose_cmd \<and> sv_cmdch srv \<noteq> []")
  case True
  then obtain cmd rest where c: "sv_cmdch srv = cmd # rest" by (cases "sv_cmdch srv") auto
  have lc: "loggable cmd" using l c by simp
  show ?thesis
  proof (cases "rq_ping cmd \<and> req_sid cmd = tag")
    case tag: True
    then show ?thesis using run True c follows_tag [OF ok c lc] by (simp add: waitLoop_def)
  next
    case False
    then show ?thesis using run True c lc by (intro follows_command [OF ok c]) (auto simp: waitLoop_def loggable_def)
  qed
next
  case False
  then have "quiet srv srv'"
    using run by (auto simp: waitLoop_def Let_def split: choice.splits list.splits if_splits)
  then show ?thesis using ok by (rule follows_quiet)
qed

lemma follows_act:
  assumes ok: "replica_ok srv" and left: "sids_left srv" and l: "list_all loggable (sv_cmdch srv)"
    and run: "server_act env act srv = Some srv'"
  shows "follows srv (synced (sv_lib srv) act) srv'"
proof (cases act)
  case (Act_loop ch)
  have "follows srv [] srv'"
  proof (cases "sv_loop srv")
    case At_main
    then have "quiet srv srv'"
      using run Act_loop quiet_leader_enter [of env srv srv'] quiet_wait_enter [of srv env]
      by (auto simp: server_act_def mainLoop_def split: State.splits)
    then show ?thesis using ok by (rule follows_quiet)
  qed (use run Act_loop ok in \<open>auto simp: server_act_def mainLoop_def follows_quiet
      intro: follows_leaderLoop [OF ok left l] follows_followerLoop [OF ok l] follows_waitLoop [OF ok l]\<close>)
  then show ?thesis by (simp add: Act_loop synced_def)
next
  case (Act_synced index data)
  then show ?thesis using run follows_synced [OF ok] by (simp add: server_act_def)
next
  case (Act_state state)
  then show ?thesis using run follows_quiet [OF quiet_onState ok] by (auto simp: server_act_def synced_def)
qed (use run ok in \<open>auto simp: server_act_def synced_def ReceiveEvent_def Server_Stop_def intro: follows_quiet\<close>)

subsection \<open>Runs\<close>

text \<open>The counter of session ids does not come to its end in the run.\<close>

fun sids_last :: "(Env \<times> action) list \<Rightarrow> 'db Server \<Rightarrow> bool" where
  "sids_last [] srv = True"
| "sids_last ((env, act) # acts) srv =
     (sids_left srv \<and> (case server_act env act srv of None \<Rightarrow> True | Some srv' \<Rightarrow> sids_last acts srv'))"

lemma follows_run:
  assumes "replica_ok srv" and "sids_last acts srv" and "server_run acts srv = Some srv'"
    and "list_all loggable (sv_cmdch srv @ delivered_log (sv_lib srv) acts)"
  shows "follows srv (delivered_log (sv_lib srv) acts) srv'"
  using assms
proof (induction acts arbitrary: srv)
  case Nil
  then show ?case using follows_quiet [of srv srv] by (simp add: server_run_def delivered_log_def)
next
  case (Cons a acts)
  obtain env act where a: "a = (env, act)" by (cases a)
  obtain srv1 where s1: "server_act env act srv = Some srv1" "server_run acts srv1 = Some srv'"
    using Cons.prems(3) by (auto simp: server_run_def a elim: bind_eq_SomeE)
  have left: "sids_left srv" "sids_last acts srv1" using Cons.prems(2) s1(1) by (simp_all add: a)
  have log: "delivered_log (sv_lib srv) (a # acts) = synced (sv_lib srv) act @ delivered_log (sv_lib srv) acts"
    by (simp add: delivered_log_def a)
  have f: "follows srv (synced (sv_lib srv) act) srv1"
    using Cons.prems(4) by (intro follows_act [OF Cons.prems(1) left(1) _ s1(1)]) simp
  have lib: "sv_lib srv1 = sv_lib srv" using f by (simp add: follows_def same_env_def)
  obtain d where "sv_cmdch srv @ synced (sv_lib srv) act = d @ sv_cmdch srv1" using f by (auto simp: follows_def)
  then have "list_all loggable (sv_cmdch srv1)" using Cons.prems(4) unfolding log by (metis append.assoc list_all_append)
  then have "follows srv1 (delivered_log (sv_lib srv) acts) srv'"
    using Cons.IH [OF _ left(2) s1(2)] f Cons.prems(4) unfolding log lib by (simp add: follows_def)
  then show ?case unfolding log by (rule follows_trans [OF f])
qed

text \<open>
  C1. A server is its log: in every run of a server, in which it receives requests, changes its role,
  checks its sessions and is given committed commands in any order, the commands it has taken are a
  prefix of those it was given (the rest is still in its channel), and its tree, session records and
  ephemeral nodes are those the specification gives for them.
\<close>

theorem server_is_its_log:
  assumes "replica_ok srv" and "sv_cmdch srv = []" and "sids_last acts srv" and "server_run acts srv = Some srv'"
    and "list_all loggable (delivered_log (sv_lib srv) acts)"
  shows "\<exists>done. delivered_log (sv_lib srv) acts = done @ sv_cmdch srv' \<and> replica_ok srv'
    \<and> spec_log (config_of (sv_store srv)) done (abs_of srv) = Some (abs_of srv')"
  using follows_run [OF assms(1,3,4)] assms(2,5) by (auto simp: follows_def)

lemma applied_prefix:
  assumes "replica_ok srv" and "sv_cmdch srv = []" and "sids_last acts srv" and "server_run acts srv = Some srv'"
    and "list_all loggable entries" and "delivered_log (sv_lib srv) acts = take n entries"
  shows "spec_log (config_of (sv_store srv)) (take (length (take n entries) - length (sv_cmdch srv')) entries) (abs_of srv) = Some (abs_of srv')"
proof -
  have "list_all loggable (take n entries)" using assms(5) by (auto simp: list_all_iff dest: in_set_takeD)
  then obtain d where d: "take n entries = d @ sv_cmdch srv'" "spec_log (config_of (sv_store srv)) d (abs_of srv) = Some (abs_of srv')"
    using follows_run [OF assms(1,3,4)] assms(2,6) by (auto simp: follows_def)
  have "take (length d) entries = d"
    using d(1) by (metis append_eq_conv_conj append_take_drop_id take_take min.absorb2 length_take length_append linorder_le_cases take_all_iff append.assoc)
  then show ?thesis using d by simp
qed

lemma spec_log_split:
  "i \<le> j \<Longrightarrow> spec_log cfg (take j entries) ra = Option.bind (spec_log cfg (take i entries) ra) (spec_log cfg (drop i (take j entries)))"
  unfolding spec_log_def fold_opt_append [symmetric] by (metis append_take_drop_id min.absorb1 take_take)

text \<open>
  C2. The servers of a cluster agree: two servers that start in the same replicated state, and that the
  raft library has given longer or shorter pieces of one log, run in any way they like, each with its own
  clients, role changes, clock and database. The server that has taken fewer commands is in a state
  from which the commands in between lead to the state of the other; if they have taken equally
  many, they agree.
\<close>

theorem cluster_agrees:
  fixes a a' :: "'a Server" and b b' :: "'b Server"
  assumes "replica_ok a" and "sv_cmdch a = []" and "sids_last acts a" and "server_run acts a = Some a'"
    and "replica_ok b" and "sv_cmdch b = []" and "sids_last acts' b" and "server_run acts' b = Some b'"
    and "abs_of a = abs_of b" and "config_of (sv_store a) = config_of (sv_store b)"
    and "list_all loggable entries"
    and "delivered_log (sv_lib a) acts = take m entries" and "delivered_log (sv_lib b) acts' = take n entries"
  shows "let i = length (take m entries) - length (sv_cmdch a'); j = length (take n entries) - length (sv_cmdch b') in
      (i = j \<longrightarrow> abs_of a' = abs_of b')
    \<and> (i \<le> j \<longrightarrow> spec_log (config_of (sv_store a)) (drop i (take j entries)) (abs_of a') = Some (abs_of b'))
    \<and> (j \<le> i \<longrightarrow> spec_log (config_of (sv_store a)) (drop j (take i entries)) (abs_of b') = Some (abs_of a'))"
proof -
  define i where "i = length (take m entries) - length (sv_cmdch a')"
  define j where "j = length (take n entries) - length (sv_cmdch b')"
  have a: "spec_log (config_of (sv_store a)) (take i entries) (abs_of a) = Some (abs_of a')"
    unfolding i_def by (rule applied_prefix [OF assms(1-4) assms(11,12)])
  have b: "spec_log (config_of (sv_store a)) (take j entries) (abs_of a) = Some (abs_of b')"
    unfolding j_def using applied_prefix [OF assms(5-8) assms(11,13)] assms(9,10) by simp
  show ?thesis unfolding i_def [symmetric] j_def [symmetric] Let_def
    using a b spec_log_split [of i j _ entries "abs_of a"] spec_log_split [of j i _ entries "abs_of a"] by auto
qed

end
