(* ===== verification/Leader.thy ===== *)
theory Leader
  imports Server_Control
begin

text \<open>
  A server that takes over as leader. The raft library is a queue here: what the leader broadcasts is
  committed in the order in which it was broadcast, after the entries that were already in the log, as
  long as it stays the leader. The waiting loop, the queue of waiting requests and the channel of
  committed commands then fit together: every command a leader runs belongs to the first request that
  waits.
\<close>

subsection \<open>The leader and its log\<close>

datatype lead_action = Lead_loop choice | Lead_event Event | Lead_commit u64

definition lead_act :: "Env \<Rightarrow> lead_action \<Rightarrow> 'db Server \<times> string list \<Rightarrow> ('db Server \<times> string list) option" where
  "lead_act env act x = (case x of (srv, q) \<Rightarrow> (case act of
       Lead_loop ch \<Rightarrow>
         map_option (\<lambda>srv'. (srv', q @ drop (length (broadcasts (sv_out srv))) (broadcasts (sv_out srv')))) (mainLoop env ch srv)
     | Lead_event e \<Rightarrow> Some (ReceiveEvent e srv, q)
     | Lead_commit index \<Rightarrow>
         (case q of [] \<Rightarrow> Some (srv, q) | d # q' \<Rightarrow> map_option (\<lambda>srv'. (srv', q')) (onSynced index d srv))))"

definition lead_run :: "(Env \<times> lead_action) list \<Rightarrow> 'db Server \<times> string list \<Rightarrow> ('db Server \<times> string list) option" where
  "lead_run acts x = fold_opt (\<lambda>(env, act). lead_act env act) acts x"

text \<open>The command that stands for a request: the request itself, or the registration of a new session.\<close>

definition command_of :: "Event \<Rightarrow> Request \<Rightarrow> bool" where
  "command_of e cmd \<longleftrightarrow>
     (if rq_register (ev_Req e) = None then cmd = ev_Req e \<and> needBoradcast cmd
      else rq_sid (ev_Req e) = None
        \<and> (\<exists>sid t. cmd = Request_default\<lparr>rq_sid := Some sid, rq_register := Some t\<rparr>))"

text \<open>A step of the leader that adds requests to the queue and their commands to the log.\<close>

definition leading :: "Loop \<Rightarrow> bool" where
  "leading l = (case l of In_leader _ \<Rightarrow> True | _ \<Rightarrow> False)"

lemma leading_iff: "leading l \<longleftrightarrow> (\<exists>t. l = In_leader t)"
  by (simp add: leading_def split: Loop.splits)

definition grows :: "'db Server \<Rightarrow> 'db Server \<Rightarrow> bool" where
  "grows srv srv' \<longleftrightarrow> (leading (sv_loop srv) \<longrightarrow> leading (sv_loop srv')) \<and> sv_state srv' = sv_state srv \<and> sv_cmdch srv' = sv_cmdch srv \<and> sv_statech srv' = sv_statech srv
     \<and> so_lib (sv_store srv') = so_lib (sv_store srv)
     \<and> (\<exists>es cmds. sv_requests srv' = sv_requests srv @ es \<and> list_all2 command_of es cmds
          \<and> broadcasts (sv_out srv') = broadcasts (sv_out srv) @ map (request_SerializeAsString (pb (sv_lib srv))) cmds)"

lemma kept_grows: "kept srv srv' \<Longrightarrow> grows srv srv'"
  by (auto simp: kept_def grows_def intro: exI [of _ "[]"])

lemma grows_trans:
  assumes "grows a b" and "grows b c"
  shows "grows a c"
proof -
  obtain e1 c1 where 1: "sv_requests b = sv_requests a @ e1" "list_all2 command_of e1 c1"
    "broadcasts (sv_out b) = broadcasts (sv_out a) @ map (request_SerializeAsString (pb (sv_lib a))) c1"
    using assms(1) by (auto simp: grows_def)
  obtain e2 c2 where 2: "sv_requests c = sv_requests b @ e2" "list_all2 command_of e2 c2"
    "broadcasts (sv_out c) = broadcasts (sv_out b) @ map (request_SerializeAsString (pb (sv_lib b))) c2"
    using assms(2) by (auto simp: grows_def)
  have lib: "sv_lib b = sv_lib a" using assms(1) by (simp add: grows_def)
  have "list_all2 command_of (e1 @ e2) (c1 @ c2)" using 1(2) 2(2) by (rule list_all2_appendI)
  then show ?thesis
    using assms 1 2 lib by (auto simp: grows_def intro!: exI [of _ "e1 @ e2"] exI [of _ "c1 @ c2"])
qed

lemma grows_upd [simp]:
  "grows (srv\<lparr>sv_eventch := u\<rparr>) srv' = grows srv srv'" "grows srv (srv'\<lparr>sv_eventch := u\<rparr>) = grows srv srv'"
  by (simp_all add: grows_def)

lemma grows_timer: "grows srv srv' \<Longrightarrow> grows srv (srv'\<lparr>sv_loop := In_leader t\<rparr>)"
  by (simp add: grows_def leading_def)

lemma grows_fold: "(\<And>x srv. grows srv (f x srv)) \<Longrightarrow> grows srv (fold f xs srv)"
proof (induction xs arbitrary: srv)
  case (Cons x xs)
  then show ?case using grows_trans [OF Cons.prems Cons.IH] by simp
qed (simp add: kept_grows)

lemma grows_fold_opt:
  "(\<And>x srv srv'. f x srv = Some srv' \<Longrightarrow> grows srv srv') \<Longrightarrow> fold_opt f xs srv = Some srv' \<Longrightarrow> grows srv srv'"
proof (induction xs arbitrary: srv)
  case (Cons x xs)
  then obtain srv1 where "f x srv = Some srv1" "fold_opt f xs srv1 = Some srv'" by (auto elim: bind_eq_SomeE)
  with Cons show ?case by (blast intro: grows_trans)
qed (simp add: kept_grows)

lemma grows_broadcast:
  assumes "command_of e cmd"
  shows "grows srv (push_request e (replicate_cmd cmd srv))" "grows srv (replicate_cmd cmd (push_request e srv))"
  using assms by (auto simp: grows_def push_request_def replicate_cmd_def emit_def intro!: exI [of _ "[e]"] exI [of _ "[cmd]"])

lemma kept_finish [simp]: "kept srv (finish_event st e srv') = kept srv srv'"
  by (simp add: finish_event_def kept_emit)

lemma kept_Touch: "sv_Touch env sid srv = Some srv' \<Longrightarrow> kept srv srv'"
  by (auto simp: sv_Touch_def)

lemma grows_handleRegister: "rq_register (ev_Req e) \<noteq> None \<Longrightarrow> grows srv (handleRegister e srv)"
proof -
  assume r: "rq_register (ev_Req e) \<noteq> None"
  show ?thesis
  proof (cases "rq_sid (ev_Req e)")
    case None
    obtain sid sm where g: "GenSid (sv_sm srv) = (sid, sm)" by fastforce
    have "grows (srv\<lparr>sv_sm := sm\<rparr>) (handleRegister e srv)"
      using None g r by (auto simp: handleRegister_def Let_def intro!: grows_broadcast(2) simp: command_of_def) blast
    then show ?thesis by (rule grows_trans [OF kept_grows, rotated]) simp
  next
    case (Some sid)
    then have "kept srv (handleRegister e srv)" by (auto simp: handleRegister_def Let_def kept_emit)
    then show ?thesis by (rule kept_grows)
  qed
qed

lemma kept_handlePing: "handlePing env e srv = Some (st, srv') \<Longrightarrow> kept srv srv'"
  by (auto simp: handlePing_def Let_def kept_session dest!: kept_Touch elim!: bind_eq_SomeE split: if_splits option.splits)

lemma kept_handleRead: "handleRead env e srv = Some (st, e', srv') \<Longrightarrow> kept srv srv'"
  by (auto simp: handleRead_def Let_def elim!: bind_eq_SomeE split: if_splits prod.splits intro: ctl.onWatch)

lemma kept_handleStat: "handleStat env e srv = Some (st, e', srv') \<Longrightarrow> kept srv srv'"
  by (auto simp: handleStat_def Let_def elim!: bind_eq_SomeE split: if_splits prod.splits intro: ctl.onWatch)

lemma grows_handleEvent:
  assumes "handleEvent env e srv = Some srv'"
  shows "grows srv srv'"
proof (cases "rq_register (ev_Req e) = None \<and> SM_Get (sv_sm srv) (req_sid (ev_Req e)) \<noteq> None")
  case False
  then show ?thesis
    using assms grows_handleRegister [of e srv] by (auto simp: handleEvent_def Let_def kept_grows split: if_splits)
next
  case True
  let ?req = "ev_Req e"
  obtain srv1 where t: "(if \<not> rq_ping ?req \<and> \<not> rq_unregister ?req then sv_Touch env (req_sid ?req) srv else Some srv) = Some srv1"
    using assms(1) True by (auto simp: handleEvent_def Let_def elim!: bind_eq_SomeE)
  then have 1: "kept srv srv1" by (auto split: if_splits intro: kept_Touch)
  have "grows srv1 srv'"
  proof (cases "needBoradcast ?req")
    case b: True
    then have "srv' = push_request e (replicate_cmd ?req srv1)" using assms True t by (simp add: handleEvent_def Let_def)
    then show ?thesis using True b by (simp add: grows_broadcast(1) command_of_def)
  next
    case False
    then have "kept srv1 srv'"
      using assms True t
      by (auto simp: handleEvent_def Let_def elim!: bind_eq_SomeE split: if_splits prod.splits
          dest: kept_handlePing kept_handleRead kept_handleStat ctl.onWatch)
    then show ?thesis by (rule kept_grows)
  qed
  then show ?thesis by (rule grows_trans [OF kept_grows [OF 1]])
qed

lemma grows_close_due:
  assumes "close_due env sid srv = Some srv'"
  shows "grows srv srv'"
proof -
  obtain s where s: "SM_Get (sv_sm srv) sid = Some s" using assms by (auto simp: close_due_def split: option.splits)
  show ?thesis
  proof (cases "ss_active s")
    case True
    then have "handleEvent env (close_event sid) (emit [Log_session sid ''expire''] (sv_adjust sid Close srv)) = Some srv'"
      using assms s by (auto simp: close_due_def onSessionClosed_def split: option.splits if_splits)
    from grows_handleEvent [OF this] show ?thesis by (rule grows_trans [OF kept_grows, rotated]) (simp add: kept_emit)
  qed (use assms s in \<open>simp add: close_due_def kept_grows\<close>)
qed

lemma grows_Step: "server_Step env srv = Some (t, srv') \<Longrightarrow> grows srv srv'"
  by (auto simp: server_Step_def elim!: bind_eq_SomeE intro: grows_fold_opt [OF grows_close_due])

lemma grows_pingBack: "grows srv (pingBack env b srv)"
  unfolding pingBack_def by (intro grows_fold kept_grows) (simp add: kept_session)

lemma grows_leader_enter: "leaderLoop_enter env srv = Some srv' \<Longrightarrow> grows srv srv'"
  by (auto simp: leaderLoop_enter_def elim!: bind_eq_SomeE dest!: grows_Step
      intro!: grows_timer intro: grows_trans [OF kept_grows, rotated])

subsection \<open>Taking over\<close>

definition own_ping :: "u64 \<Rightarrow> Request" where
  "own_ping tag = Request_default\<lparr>rq_sid := Some tag, rq_ping := True\<rparr>"

text \<open>An entry of an earlier leader: not a ping with one of the tags of this run.\<close>

definition earlier :: "u64 set \<Rightarrow> Request \<Rightarrow> bool" where
  "earlier T cmd \<longleftrightarrow> \<not> (rq_ping cmd \<and> req_sid cmd \<in> T)"

text \<open>The committed commands that are not yet run, and those still in the log.\<close>

definition pending :: "'db Server \<Rightarrow> string list \<Rightarrow> Request list" where
  "pending srv q = sv_cmdch srv @ map (\<lambda>d. snd (request_ParseFromString (pb (sv_lib srv)) d)) q"

definition lead_inv :: "u64 set \<Rightarrow> 'db Server \<times> string list \<Rightarrow> bool" where
  "lead_inv T x = (case x of (srv, q) \<Rightarrow> proto_ok (pb (sv_lib srv)) \<and> sv_statech srv = []
     \<and> (case sv_state srv of
          kWaiter \<Rightarrow> sv_requests srv = [] \<and> (case sv_loop srv of
              At_main \<Rightarrow> list_all (earlier T) (pending srv q)
            | In_wait tag \<Rightarrow> tag \<in> T \<and> (\<exists>old. pending srv q = old @ [own_ping tag] \<and> list_all (earlier T) old)
            | _ \<Rightarrow> False)
        | kLeader \<Rightarrow> list_all2 command_of (sv_requests srv) (pending srv q)
            \<and> (case sv_loop srv of At_main \<Rightarrow> True | In_leader t \<Rightarrow> True | _ \<Rightarrow> False)
        | _ \<Rightarrow> False))"

lemma grows_pending:
  assumes "grows srv srv'" and P: "proto_ok (pb (sv_lib srv))" and m: "list_all2 command_of (sv_requests srv) (pending srv q)"
  shows "list_all2 command_of (sv_requests srv')
      (pending srv' (q @ drop (length (broadcasts (sv_out srv))) (broadcasts (sv_out srv'))))"
proof -
  let ?X = "pb (sv_lib srv)"
  obtain es cmds where g: "sv_requests srv' = sv_requests srv @ es" "list_all2 command_of es cmds"
    "broadcasts (sv_out srv') = broadcasts (sv_out srv) @ map (request_SerializeAsString ?X) cmds"
    using assms(1) by (auto simp: grows_def)
  have "map (\<lambda>d. snd (request_ParseFromString ?X d)) (map (request_SerializeAsString ?X) cmds) = cmds"
    using P by (simp add: comp_def proto_ok_def)
  then have "pending srv' (q @ drop (length (broadcasts (sv_out srv))) (broadcasts (sv_out srv'))) = pending srv q @ cmds"
    using assms(1) g(3) by (simp add: pending_def grows_def)
  then show ?thesis using list_all2_appendI [OF m g(2)] g(1) by simp
qed

lemma lead_inv_leader:
  assumes "grows srv srv'" and "lead_inv T (srv, q)" and "sv_state srv = kLeader" and "leading (sv_loop srv')"
  shows "lead_inv T (srv', q @ drop (length (broadcasts (sv_out srv))) (broadcasts (sv_out srv')))"
  using grows_pending [OF assms(1), of q] assms by (auto simp: lead_inv_def grows_def leading_iff)

lemma lead_inv_kept:
  assumes k: "kept srv0 srv'" and q: "broadcasts (sv_out srv0) = broadcasts (sv_out srv)"
    and p: "pending srv0 q = pending srv' q"
    and "lead_inv T (srv0, q)"
  shows "lead_inv T (srv', q @ drop (length (broadcasts (sv_out srv))) (broadcasts (sv_out srv')))"
  using assms by (auto simp: lead_inv_def kept_def split: State.splits Loop.splits)

lemma lead_inv_cong:
  assumes "sv_state srv' = sv_state srv" and "sv_loop srv' = sv_loop srv" and "sv_requests srv' = sv_requests srv"
    and "sv_statech srv' = sv_statech srv" and "sv_lib srv' = sv_lib srv" and "pending srv' q' = pending srv q"
  shows "lead_inv T (srv', q') = lead_inv T (srv, q)"
  using assms by (simp add: lead_inv_def split: State.splits Loop.splits)

lemma lead_inv_wait_enter:
  assumes "lead_inv T (srv, q)" and "sv_state srv = kWaiter" and "sv_loop srv = At_main" and "word_of_int (en_now env) \<in> T"
  shows "lead_inv T (waitLoop_enter env srv,
      q @ drop (length (broadcasts (sv_out srv))) (broadcasts (sv_out (waitLoop_enter env srv))))"
proof -
  have "request_ParseFromString (pb (sv_lib srv)) (request_SerializeAsString (pb (sv_lib srv)) r) = (True, r)" for r
    using assms(1) by (simp add: lead_inv_def proto_ok_def)
  then show ?thesis
    using assms by (simp add: lead_inv_def waitLoop_enter_def Let_def replicate_cmd_def emit_def pending_def own_ping_def)
qed

lemma lead_inv_wait:
  assumes inv: "lead_inv T (srv, q)" and w: "sv_state srv = kWaiter" "sv_loop srv = In_wait tag"
    and run: "waitLoop env tag ch srv = Some srv'"
  shows "lead_inv T (srv', q @ drop (length (broadcasts (sv_out srv))) (broadcasts (sv_out srv')))"
proof (cases "ch = Choose_cmd \<and> sv_cmdch srv \<noteq> []")
  case False
  then have "srv' = srv"
    using run inv by (auto simp: waitLoop_def lead_inv_def split: choice.splits list.splits)
  then show ?thesis using inv by simp
next
  case True
  then obtain cmd rest where c: "sv_cmdch srv = cmd # rest" by (cases "sv_cmdch srv") auto
  let ?srv = "srv\<lparr>sv_cmdch := rest\<rparr>"
  obtain old where old: "tag \<in> T" "pending srv q = old @ [own_ping tag]" "list_all (earlier T) old"
    and rest: "sv_requests srv = []" "sv_statech srv = []" "proto_ok (pb (sv_lib srv))"
    using inv w by (auto simp: lead_inv_def)
  have p: "cmd # pending ?srv q = old @ [own_ping tag]" using old(2) c by (simp add: pending_def)
  show ?thesis
  proof (cases old)
    case Nil
    then have "srv' = ?srv\<lparr>sv_state := kLeader, sv_loop := At_main\<rparr>" "pending ?srv q = []"
      using run True c p by (simp_all add: waitLoop_def own_ping_def req_sid_def)
    then show ?thesis using rest by (simp add: lead_inv_def pending_def)
  next
    case (Cons x old')
    then have "x = cmd" "pending ?srv q = old' @ [own_ping tag]" "earlier T cmd" "list_all (earlier T) old'"
      using p old(3) by simp_all
    then have "\<not> (rq_ping cmd \<and> req_sid cmd = tag)" and i: "lead_inv T (?srv, q)"
      using old(1) w rest by (auto simp: earlier_def lead_inv_def)
    then have "onCommand env cmd ?srv = Some srv'" using run True c by (simp add: waitLoop_def Let_def split: if_splits)
    from onCommand_control(1) [OF this] w(1) have "kept ?srv srv'" by simp
    then show ?thesis by (rule lead_inv_kept) (use i \<open>kept ?srv srv'\<close> in \<open>simp_all add: kept_def pending_def\<close>)
  qed
qed

text \<open>A leader that takes a command has the request it belongs to first in its queue.\<close>

lemma lead_inv_head:
  assumes "lead_inv T (srv, q)" and "sv_state srv = kLeader" and "sv_cmdch srv = cmd # rest"
  obtains e es where "sv_requests srv = e # es" "command_of e cmd"
    "list_all2 command_of es (pending (srv\<lparr>sv_cmdch := rest\<rparr>) q)"
  using assms by (auto simp: lead_inv_def pending_def list_all2_Cons2)

lemma lead_inv_leader_cmd:
  assumes inv: "lead_inv T (srv, q)" and l: "sv_state srv = kLeader" "sv_loop srv = In_leader t" and c: "sv_cmdch srv = cmd # rest"
    and run: "onCommand env cmd (srv\<lparr>sv_cmdch := rest\<rparr>) = Some srv'"
  shows "lead_inv T (srv', q @ drop (length (broadcasts (sv_out srv))) (broadcasts (sv_out srv')))"
proof -
  obtain e es where h: "sv_requests srv = e # es" "list_all2 command_of es (pending (srv\<lparr>sv_cmdch := rest\<rparr>) q)"
    using lead_inv_head [OF inv l(1) c] .
  let ?srv = "srv\<lparr>sv_cmdch := rest, sv_requests := es\<rparr>"
  have k: "kept ?srv srv'" using onCommand_control(1) [OF run] l(1) h(1) by simp
  have "lead_inv T (?srv, q)" using inv l h by (simp add: lead_inv_def pending_def)
  then show ?thesis by (rule lead_inv_kept [OF k, rotated -1]) (use k in \<open>simp_all add: kept_def pending_def\<close>)
qed

lemma lead_inv_leaderLoop:
  assumes inv: "lead_inv T (srv, q)" and l: "sv_state srv = kLeader" "sv_loop srv = In_leader t"
    and run: "leaderLoop env ch srv = Some srv'"
  shows "lead_inv T (srv', q @ drop (length (broadcasts (sv_out srv))) (broadcasts (sv_out srv')))"
proof (cases ch)
  case Choose_state
  then have "srv' = srv" using run inv by (simp add: leaderLoop_def lead_inv_def)
  then show ?thesis using inv by simp
next
  case Choose_event
  show ?thesis
  proof (cases "sv_eventch srv")
    case Nil
    then have "srv' = srv" using run Choose_event by (simp add: leaderLoop_def)
    then show ?thesis using inv by simp
  next
    case (Cons e rest)
    then have h: "handleEvent env e (srv\<lparr>sv_eventch := rest\<rparr>) = Some srv'" using run Choose_event by (simp add: leaderLoop_def)
    then have "grows srv srv'" by (auto dest: grows_handleEvent)
    then show ?thesis using inv l by (intro lead_inv_leader) (auto simp: grows_def leading_def)
  qed
next
  case Choose_cmd
  show ?thesis
  proof (cases "sv_cmdch srv")
    case Nil
    then have "srv' = srv" using run Choose_cmd by (simp add: leaderLoop_def)
    then show ?thesis using inv by simp
  next
    case (Cons cmd rest)
    then show ?thesis using run Choose_cmd by (intro lead_inv_leader_cmd [OF inv l Cons]) (simp add: leaderLoop_def)
  qed
next
  case Choose_timer
  obtain t' srv1 where s: "server_Step env srv = Some (t', srv1)"
    "srv' = srv1\<lparr>sv_loop := In_leader t'\<rparr> \<or> (\<exists>b. srv' = pingBack env b (srv1\<lparr>sv_loop := In_leader t'\<rparr>))"
    using run Choose_timer by (auto simp: leaderLoop_def Let_def elim!: bind_eq_SomeE split: option.splits) blast
  have "grows srv srv'"
    using s(2) grows_timer [OF grows_Step [OF s(1)], of t'] grows_trans [OF _ grows_pingBack, of srv "srv1\<lparr>sv_loop := In_leader t'\<rparr>"]
    by auto
  then show ?thesis using inv l by (intro lead_inv_leader) (auto simp: grows_def leading_def)
qed

subsection \<open>Runs\<close>

lemma lead_act_inv:
  assumes inv: "lead_inv T x" and run: "lead_act env act x = Some y" and T: "word_of_int (en_now env) \<in> T"
  shows "lead_inv T y"
proof -
  obtain srv q where x: "x = (srv, q)" by (cases x)
  show ?thesis
  proof (cases act)
    case (Lead_loop ch)
    then obtain srv' where m: "mainLoop env ch srv = Some srv'"
      and y: "y = (srv', q @ drop (length (broadcasts (sv_out srv))) (broadcasts (sv_out srv')))"
      using run x by (auto simp: lead_act_def)
    show ?thesis
    proof (cases "sv_loop srv")
      case At_main
      with inv x consider "sv_state srv = kWaiter" | "sv_state srv = kLeader" by (auto simp: lead_inv_def split: State.splits)
      then show ?thesis
      proof cases
        case 1
        then show ?thesis using m At_main lead_inv_wait_enter [OF _ 1 At_main T] inv by (simp add: y x mainLoop_def)
      next
        case 2
        then have e: "leaderLoop_enter env srv = Some srv'" using m At_main by (simp add: mainLoop_def)
        then have "leading (sv_loop srv')" by (auto simp: leaderLoop_enter_def leading_def elim!: bind_eq_SomeE)
        then show ?thesis unfolding y using inv 2 x by (intro lead_inv_leader [OF grows_leader_enter [OF e]]) simp_all
      qed
    next
      case (In_leader t)
      then have "sv_state srv = kLeader" using inv x by (auto simp: lead_inv_def split: State.splits)
      then show ?thesis using m In_leader inv unfolding y x by (intro lead_inv_leaderLoop) (simp_all add: mainLoop_def)
    next
      case (In_wait tag)
      then have "sv_state srv = kWaiter" using inv x by (auto simp: lead_inv_def split: State.splits)
      then show ?thesis using m In_wait inv unfolding y x by (intro lead_inv_wait) (simp_all add: mainLoop_def)
    qed (use inv x in \<open>auto simp: lead_inv_def split: State.splits\<close>)
  next
    case (Lead_event e)
    then have y: "y = (ReceiveEvent e srv, q)" using run by (simp add: lead_act_def x)
    have "lead_inv T (ReceiveEvent e srv, q) = lead_inv T (srv, q)" by (rule lead_inv_cong) (simp_all add: ReceiveEvent_def pending_def)
    then show ?thesis using inv by (simp add: y x)
  next
    case (Lead_commit index)
    show ?thesis
    proof (cases q)
      case Nil
      then show ?thesis using run inv Lead_commit by (simp add: lead_act_def x)
    next
      case (Cons d q')
      obtain st store where c: "Store_SetCommitIndex (sv_store srv) index = (st, store)" by fastforce
      define srv' where "srv' = srv\<lparr>sv_logIndex := index, sv_store := store,
          sv_cmdch := sv_cmdch srv @ [snd (request_ParseFromString (pb (sv_lib srv)) d)]\<rparr>"
      have lib: "so_lib store = so_lib (sv_store srv)" using session_store_env(3) [OF c] by (simp add: same_env_def)
      have "y = (srv', q')" using run Lead_commit Cons c by (auto simp: lead_act_def x onSynced_def srv'_def split: if_splits prod.splits)
      moreover have "lead_inv T (srv', q') = lead_inv T (srv, q)"
        by (rule lead_inv_cong) (simp_all add: srv'_def pending_def lib Cons)
      ultimately show ?thesis using inv by (simp add: x)
    qed
  qed
qed

lemma lead_run_inv:
  assumes "lead_inv T x" and "lead_run acts x = Some y" and "(\<lambda>a. word_of_int (en_now (fst a))) ` set acts \<subseteq> T"
  shows "lead_inv T y"
  using assms
proof (induction acts arbitrary: x)
  case (Cons a acts)
  obtain env act where a: "a = (env, act)" by (cases a)
  obtain x1 where "lead_act env act x = Some x1" "lead_run acts x1 = Some y"
    using Cons.prems(2) by (auto simp: lead_run_def a elim: bind_eq_SomeE)
  then show ?case using Cons.IH [of x1] lead_act_inv [OF Cons.prems(1), of env act x1] Cons.prems(3) by (simp add: a)
qed (simp add: lead_run_def)

lemma lead_inv_answers:
  assumes inv: "lead_inv T (srv, q)" and t: "sv_loop srv = In_leader t" and c: "sv_cmdch srv = cmd # rest"
  shows "\<exists>e es. sv_requests srv = e # es \<and> command_of e cmd
    \<and> mainLoop env Choose_cmd srv =
        map_option (\<lambda>(st, rep, srv'). emit [Reply (e\<lparr>ev_Rep := if \<not> ok st then set_err st rep else rep\<rparr>)] srv')
          (run_command env cmd (srv\<lparr>sv_cmdch := rest, sv_requests := es\<rparr>))"
proof -
  have l: "sv_state srv = kLeader" using inv t by (auto simp: lead_inv_def split: State.splits)
  obtain e es where h: "sv_requests srv = e # es" "command_of e cmd" using lead_inv_head [OF inv l c] .
  have "mainLoop env Choose_cmd srv = onCommand env cmd (srv\<lparr>sv_cmdch := rest\<rparr>)"
    using t c by (simp add: mainLoop_def leaderLoop_def)
  then show ?thesis using h l onCommand_leader(1) [of "srv\<lparr>sv_cmdch := rest\<rparr>" e es] by auto
qed

text \<open>
  C4. A leader answers each request with the outcome of its own command. A server that was elected waits
  with nothing but commands of earlier leaders before it; from then on its loops, requests from
  clients and commits in the order of the broadcasts may come in any order. Whenever it then
  takes a command as leader, a request is waiting (the \<^verbatim>\<open>CHECK\<close> of an empty queue does not
  fail), the command is the one that was broadcast for that request, and the response it gives is
  the result of running it. The pings of earlier leaders must not carry one of the
  times of this run, which the server takes for its own.
\<close>

theorem leader_answers_own:
  assumes "proto_ok (pb (sv_lib srv))" and "sv_state srv = kWaiter" and "sv_loop srv = At_main"
    and "sv_requests srv = []" and "sv_statech srv = []"
    and "list_all (earlier ((\<lambda>a. word_of_int (en_now (fst a))) ` set acts)) (pending srv q)"
    and "lead_run acts (srv, q) = Some (srv', q')" and "sv_loop srv' = In_leader t" and "sv_cmdch srv' = cmd # rest"
  shows "\<exists>e es. sv_requests srv' = e # es \<and> command_of e cmd
    \<and> mainLoop env Choose_cmd srv' =
        map_option (\<lambda>(st, rep, srv''). emit [Reply (e\<lparr>ev_Rep := if \<not> ok st then set_err st rep else rep\<rparr>)] srv'')
          (run_command env cmd (srv'\<lparr>sv_cmdch := rest, sv_requests := es\<rparr>))"
proof -
  let ?T = "(\<lambda>a. word_of_int (en_now (fst a))) ` set acts"
  have "lead_inv ?T (srv, q)" using assms(1-6) by (simp add: lead_inv_def)
  then have "lead_inv ?T (srv', q')" using assms(7) by (rule lead_run_inv) simp
  then show ?thesis by (rule lead_inv_answers [OF _ assms(8,9)])
qed

end
