(* ===== verification/Fake_Raft.thy ===== *)
theory Fake_Raft
  imports Leader
begin

text \<open>
  \<^verbatim>\<open>server/fake_raft.h\<close>: a stand-in for the raft library with one replica, which commits what is broadcast
  at once and in order, and makes its server leader when it starts. It is an instance of the queue that
  the theory of the leader assumes of the raft library.
\<close>

record FakeRaft =
  fr_logid :: u64

definition FakeRaft_new :: FakeRaft where
  "FakeRaft_new = \<lparr>fr_logid = 0\<rparr>"

definition fake_LeaderId :: "FakeRaft \<Rightarrow> int" where
  "fake_LeaderId r = 0"

text \<open>The callbacks that the server has set are its own handlers.\<close>

definition fake_Broadcast :: "string \<Rightarrow> 'db Server \<times> FakeRaft \<Rightarrow> ('db Server \<times> FakeRaft) option" where
  "fake_Broadcast data x = (case x of (srv, r) \<Rightarrow> do {
     srv \<leftarrow> onSynced (fr_logid r) data srv;
     Some (srv, r\<lparr>fr_logid := fr_logid r + 1\<rparr>) })"

definition fake_Start :: "Env \<Rightarrow> 'db Server \<times> FakeRaft \<Rightarrow> ('db Server \<times> FakeRaft) option" where
  "fake_Start env x = (case x of (srv, r) \<Rightarrow> do {
     (idx, srv) \<leftarrow> onLoadSnapshot env srv;
     Some (onState env (raft_LEADER (sv_lib srv)) srv, r) })"

text \<open>The main thread with this library: what an iteration broadcasts is committed within it. The callback only
  stores the index and fills the channel of commands, which no handler that broadcasts looks at, so
  it may run at the end of the iteration.\<close>

datatype fake_action = Fake_loop choice | Fake_event Event

definition fake_act :: "Env \<Rightarrow> fake_action \<Rightarrow> 'db Server \<times> FakeRaft \<Rightarrow> ('db Server \<times> FakeRaft) option" where
  "fake_act env act x = (case x of (srv, r) \<Rightarrow> (case act of
       Fake_loop ch \<Rightarrow> do {
         srv' \<leftarrow> mainLoop env ch srv;
         fold_opt fake_Broadcast (drop (length (broadcasts (sv_out srv))) (broadcasts (sv_out srv'))) (srv', r) }
     | Fake_event e \<Rightarrow> Some (ReceiveEvent e srv, r)))"

definition fake_run :: "(Env \<times> fake_action) list \<Rightarrow> 'db Server \<times> FakeRaft \<Rightarrow> ('db Server \<times> FakeRaft) option" where
  "fake_run acts x = fold_opt (\<lambda>(env, act). fake_act env act) acts x"

subsection \<open>The queue of the leader\<close>

lemma fake_Broadcast_pair:
  "fake_Broadcast data (srv, r) = map_option (\<lambda>srv'. (srv', r\<lparr>fr_logid := fr_logid r + 1\<rparr>)) (onSynced (fr_logid r) data srv)"
  by (cases "onSynced (fr_logid r) data srv") (simp_all add: fake_Broadcast_def)

lemma fake_commits:
  fixes env :: Env
  assumes "lead_inv T (srv, q)" and "fold_opt fake_Broadcast q (srv, r) = Some (srv', r')" and "word_of_int (en_now env) \<in> T"
  shows "lead_inv T (srv', [])"
  using assms(1,2)
proof (induction q arbitrary: srv r)
  case (Cons d q)
  obtain srv1 where s: "onSynced (fr_logid r) d srv = Some srv1"
    and f: "fold_opt fake_Broadcast q (srv1, r\<lparr>fr_logid := fr_logid r + 1\<rparr>) = Some (srv', r')"
    using Cons.prems(2) by (auto simp: fake_Broadcast_pair elim!: bind_eq_SomeE)
  have "lead_act env (Lead_commit (fr_logid r)) (srv, d # q) = Some (srv1, q)" using s by (simp add: lead_act_def)
  from lead_act_inv [OF Cons.prems(1) this assms(3)] show ?case by (rule Cons.IH [OF _ f])
qed simp

text \<open>Before the notice of the election is taken nothing has been broadcast.\<close>

definition fake_inv :: "u64 set \<Rightarrow> 'db Server \<Rightarrow> bool" where
  "fake_inv T srv \<longleftrightarrow> lead_inv T (srv, []) \<or>
     (sv_state srv = kFollower \<and> (sv_loop srv = At_main \<or> sv_loop srv = In_follower) \<and> sv_requests srv = [] \<and> sv_cmdch srv = []
      \<and> sv_statech srv = [raft_LEADER (sv_lib srv)] \<and> raft_LEADER (sv_lib srv) \<noteq> raft_STOP (sv_lib srv) \<and> proto_ok (pb (sv_lib srv)))"

lemma fake_inv_follower:
  assumes f: "sv_state srv = kFollower" "sv_loop srv = At_main \<or> sv_loop srv = In_follower" "sv_requests srv = []" "sv_cmdch srv = []"
      "sv_statech srv = [raft_LEADER (sv_lib srv)]" "raft_LEADER (sv_lib srv) \<noteq> raft_STOP (sv_lib srv)" "proto_ok (pb (sv_lib srv))"
    and run: "mainLoop env ch srv = Some srv'"
  shows "fake_inv T srv' \<and> broadcasts (sv_out srv') = broadcasts (sv_out srv)"
proof (cases "ch = Choose_event \<and> sv_loop srv = In_follower \<and> sv_eventch srv \<noteq> []")
  case True
  then obtain e es where e: "sv_eventch srv = e # es" by (cases "sv_eventch srv") auto
  then have "srv' = redirect_event env e (srv\<lparr>sv_eventch := es\<rparr>)" using run True by (simp add: mainLoop_def followerLoop_def)
  then have "kept (srv\<lparr>sv_eventch := es\<rparr>) srv'" by (simp add: redirect_event_def kept_emit)
  then show ?thesis using f by (auto simp: kept_def fake_inv_def)
next
  case False
  then show ?thesis using f run
    by (auto simp: fake_inv_def mainLoop_def followerLoop_def lead_inv_def pending_def Let_def split: choice.splits list.splits)
qed

lemma fake_act_inv:
  assumes inv: "fake_inv T srv" and run: "fake_act env act (srv, r) = Some (srv', r')" and T: "word_of_int (en_now env) \<in> T"
  shows "fake_inv T srv'"
proof (cases act)
  case (Fake_event e)
  then have "srv' = ReceiveEvent e srv" using run by (simp add: fake_act_def)
  moreover have "lead_inv T (ReceiveEvent e srv, []) = lead_inv T (srv, [])"
    by (rule lead_inv_cong) (simp_all add: ReceiveEvent_def pending_def)
  ultimately show ?thesis using inv by (auto simp: fake_inv_def ReceiveEvent_def)
next
  case (Fake_loop ch)
  let ?q = "\<lambda>srv1. drop (length (broadcasts (sv_out srv))) (broadcasts (sv_out srv1))"
  obtain srv1 where m: "mainLoop env ch srv = Some srv1" and f: "fold_opt fake_Broadcast (?q srv1) (srv1, r) = Some (srv', r')"
    using run Fake_loop by (auto simp: fake_act_def elim!: bind_eq_SomeE)
  show ?thesis
  proof (cases "lead_inv T (srv, [])")
    case True
    have "lead_act env (Lead_loop ch) (srv, []) = Some (srv1, ?q srv1)" using m by (simp add: lead_act_def)
    from lead_act_inv [OF True this T] show ?thesis using fake_commits [OF _ f T] by (simp add: fake_inv_def)
  next
    case False
    then have "fake_inv T srv1 \<and> broadcasts (sv_out srv1) = broadcasts (sv_out srv)"
      using inv m by (intro fake_inv_follower) (auto simp: fake_inv_def)
    then show ?thesis using f by simp
  qed
qed

lemma fake_run_inv:
  assumes "fake_inv T srv" and "fake_run acts (srv, r) = Some (srv', r')" and "(\<lambda>a. word_of_int (en_now (fst a))) ` set acts \<subseteq> T"
  shows "fake_inv T srv'"
  using assms
proof (induction acts arbitrary: srv r)
  case (Cons a acts)
  obtain env act where a: "a = (env, act)" by (cases a)
  obtain srv1 r1 where "fake_act env act (srv, r) = Some (srv1, r1)" "fake_run acts (srv1, r1) = Some (srv', r')"
    using Cons.prems(2) by (auto simp: fake_run_def a elim!: bind_eq_SomeE)
  then show ?case using Cons.IH [of srv1 r1] fake_act_inv [OF Cons.prems(1)] Cons.prems(3) by (simp add: a)
qed (simp add: fake_run_def)

subsection \<open>Starting\<close>

lemma kept_Add: "sv_Add env (Session_new addr now sid t) srv = Some srv' \<Longrightarrow> en_now env = now \<Longrightarrow> kept srv srv'"
  by (auto simp: sv_Add_def elim!: bind_eq_SomeE dest!: ctl.add)

lemma kept_walkSession: "walkSessionFunc env s srv = Some srv' \<Longrightarrow> kept srv srv'"
  by (auto simp: walkSessionFunc_def kept_emit elim!: bind_eq_SomeE intro: kept_Add)

lemma kept_walkTree: "walkTreeFunc env p n srv = Some srv' \<Longrightarrow> kept srv srv'"
  by (auto simp: walkTreeFunc_def kept_emit elim!: bind_eq_SomeE split: if_splits intro: kept_Add)

lemma kept_onLoadSnapshot:
  assumes "onLoadSnapshot env srv = Some (idx, srv')"
  shows "kept srv srv'"
proof -
  obtain st srv1 st2 where s: "Store_WalkSessions (sv_store srv) (walkSessionFunc env) srv = Some (st, srv1)"
    "Store_WalkTree (sv_store srv1) (walkTreeFunc env) srv1 = Some (st2, srv')"
    using assms by (auto simp: onLoadSnapshot_def elim!: bind_eq_SomeE split: if_splits option.splits)
  have 1: "kept a b" if "walk_session_entry P (walkSessionFunc env) x a = Some b" for P x a b
    using that by (auto simp: walk_session_entry_def Let_def split: prod.splits if_splits intro: kept_walkSession)
  have 2: "kept a b" if "(\<lambda>(key, value) w. walkTreeFunc env key (snd (node_ParseFromString P value)) w) x a = Some b" for P x a b
    using that by (auto split: prod.splits intro: kept_walkTree)
  obtain es where "fold_opt (walk_session_entry (pb (sv_lib srv)) (walkSessionFunc env)) es srv = Some srv1"
    using s(1) by (auto simp: Store_WalkSessions_def Let_def elim!: bind_eq_SomeE split: prod.splits)
  from ctl.fold_opt [OF 1 this] have "kept srv srv1" .
  moreover obtain es' where
    "fold_opt (\<lambda>(key, value) w. walkTreeFunc env key (snd (node_ParseFromString (pb (sv_lib srv1)) value)) w) es' srv1 = Some srv'"
    using s(2) by (auto simp: Store_WalkTree_def Let_def elim!: bind_eq_SomeE split: prod.splits)
  from ctl.fold_opt [OF 2 this] have "kept srv1 srv'" .
  ultimately show ?thesis by (rule kept_trans)
qed

text \<open>
  A server with the stand-in for raft answers each request with the outcome of its own command: from its
  start on, whatever it does and receives, a command that it takes as leader is the one it broadcast
  for the first waiting request, which gets the result of running it.
\<close>

theorem fake_raft_answers_own:
  assumes "proto_ok (pb (sv_lib srv))" and "raft_LEADER (sv_lib srv) \<noteq> raft_STOP (sv_lib srv)"
    and "sv_state srv = kFollower" and "sv_loop srv = At_main" and "sv_requests srv = []" and "sv_cmdch srv = []" and "sv_statech srv = []"
    and "fake_Start env0 (srv, r) = Some (srv0, r0)" and "fake_run acts (srv0, r0) = Some (srv', r')"
    and "sv_loop srv' = In_leader t" and "sv_cmdch srv' = cmd # rest"
  shows "\<exists>e es. sv_requests srv' = e # es \<and> command_of e cmd
    \<and> mainLoop env Choose_cmd srv' =
        map_option (\<lambda>(st, rep, srv''). emit [Reply (e\<lparr>ev_Rep := if \<not> ok st then set_err st rep else rep\<rparr>)] srv'')
          (run_command env cmd (srv'\<lparr>sv_cmdch := rest, sv_requests := es\<rparr>))"
proof -
  let ?T = "(\<lambda>a. word_of_int (en_now (fst a))) ` set acts"
  obtain idx srv1 where l: "onLoadSnapshot env0 srv = Some (idx, srv1)" "srv0 = onState env0 (raft_LEADER (sv_lib srv1)) srv1"
    using assms(8) by (auto simp: fake_Start_def elim!: bind_eq_SomeE)
  have "fake_inv ?T srv0"
    using kept_onLoadSnapshot [OF l(1)] assms(1-7) by (simp add: l(2) fake_inv_def onState_def Let_def emit_def kept_def split: prod.splits)
  then have "fake_inv ?T srv'" using assms(9) by (rule fake_run_inv) simp
  then have inv: "lead_inv ?T (srv', [])" using assms(10) by (auto simp: fake_inv_def)
  show ?thesis by (rule lead_inv_answers [OF inv assms(10,11)])
qed

end
