(* ===== verification/Leader_Examples.thy ===== *)
theory Leader_Examples
  imports Server_Examples Server_Trace Fake_Raft
begin

text \<open>
  Runs of a server over the reference libraries that is elected and steps down: the hypotheses of the
  theorems on runs hold there, and two orders of the callbacks go wrong.
\<close>

lemma ref_server_channels:
  "sv_cmdch (ref_server now) = []" "sv_eventch (ref_server now) = []" "sv_statech (ref_server now) = []" "sv_out (ref_server now) = []"
  "sv_options (ref_server now) = Options_default" "sv_wm (ref_server now) = []"
proof -
  obtain store where "ref_server now = \<lparr>sv_options = Options_default, sv_state = kFollower, sv_requests = [], sv_eventch = [],
      sv_cmdch = [], sv_statech = [], sv_store = store, sv_sm = SessionManager_new now 1000,
      sv_wm = [], sv_logIndex = 0, sv_loop = At_main, sv_out = []\<rparr>"
    using ref_server_facts(1,8) [of now] by (auto simp: Server_new_def Let_def ref_env_def elim!: bind_eq_SomeE dest!: sym [of _ "ref_server now"])
  then show "sv_cmdch (ref_server now) = []" "sv_eventch (ref_server now) = []" "sv_statech (ref_server now) = []"
    "sv_out (ref_server now) = []" "sv_options (ref_server now) = Options_default" "sv_wm (ref_server now) = []"
    by simp_all
qed

definition ser :: "Request \<Rightarrow> string" where
  "ser cmd = request_SerializeAsString ref_proto cmd"

definition client_event :: "nat \<Rightarrow> Request \<Rightarrow> Event" where
  "client_event k req = \<lparr>ev_Req = req, ev_Rep = Response_default, ev_Addr = [], ev_done = k\<rparr>"

lemma ref_pb: "pb ref_libs = ref_proto" "request_ParseFromString ref_proto (ser cmd) = (True, cmd)" "raft_LEADER ref_libs = 3" "raft_STOP ref_libs = 0"
  using ref_proto_ok by (simp_all add: ref_libs_def ser_def proto_ok_def)

lemma ref_synced:
  assumes "so_lib (sv_store srv) = ref_libs"
  shows "onSynced index (ser cmd) srv = Some (srv\<lparr>sv_logIndex := index,
      sv_store := snd (Store_SetCommitIndex (sv_store srv) index), sv_cmdch := sv_cmdch srv @ [cmd]\<rparr>)"
  using assms by (simp add: onSynced_def Store_SetCommitIndex_def Let_def ref_pb ref_libs_def ldb_ok_def)

lemma ref_commit_lib [simp]: "so_lib (snd (Store_SetCommitIndex s index)) = so_lib s"
  by (simp add: Store_SetCommitIndex_def Let_def split: prod.splits)

lemma server_run_Cons: "server_run ((env, act) # acts) srv = Option.bind (server_act env act srv) (server_run acts)"
  by (cases "server_act env act srv") (simp_all add: server_run_def)

lemma server_run_Nil: "server_run [] srv = Some srv"
  by (simp add: server_run_def)

lemma server_run_append: "server_run (xs @ ys) srv = Option.bind (server_run xs srv) (server_run ys)"
  by (cases "server_run xs srv") (simp_all add: server_run_def fold_opt_append)

lemma server_run_snoc: "server_run xs srv = Some srv' \<Longrightarrow> server_run (xs @ [(env, act)]) srv = server_act env act srv'"
  by (cases "server_act env act srv'") (simp_all add: server_run_append server_run_Cons server_run_Nil)

subsection \<open>Taking a part of the log\<close>

definition make_a :: Request where
  "make_a = cmd_create 9 ''/a'' kPersist"

definition make_b :: Request where
  "make_b = cmd_create 9 ''/b'' kPersist"

definition follow_acts :: "(Env \<times> action) list" where
  "follow_acts = [(ref_env 1 1, Act_loop Choose_state), (ref_env 2 1, Act_synced 1 (ser make_a)),
     (ref_env 3 1, Act_event (client_event 5 make_b)), (ref_env 4 1, Act_synced 2 (ser make_b)), (ref_env 5 1, Act_loop Choose_cmd)]"

lemma make_a_spec: "\<exists>ra. spec_command ref_config make_a ref_replica = Some ra \<and> ra_tree ra ''/a'' = Some (new_node [] kPersist 9)"
  using ref_sizes
  by (simp add: make_a_def spec_cmds ref_config_def ref_replica_def spec_create_def Let_def tree_create_def char_checks
      kEphemeral_def root_node_def is_ephemeral_def kPersist_def not_less)

lemma loggable_make [simp]: "loggable make_a" "loggable make_b"
  by (simp_all add: loggable_def make_a_def make_b_def) (simp_all add: cmd_defs)

lemmas run_simps = server_run_Cons server_run_Nil server_act_def mainLoop_def ref_server_facts ref_server_channels
  ReceiveEvent_def ref_synced

lemma follow_prefix:
  obtains srv where "server_run (take 4 follow_acts) (ref_server now) = Some srv" "sv_cmdch srv = [make_a, make_b]"
    "sv_loop srv = In_follower" "sv_state srv = kFollower" "sv_sm srv = SessionManager_new now 1000"
proof -
  obtain srv where "server_run (take 4 follow_acts) (ref_server now) = Some srv"  by (simp add: follow_acts_def run_simps)
  then show thesis by (intro that) (auto simp: follow_acts_def run_simps)
qed

lemma follow_sids: "initSid now \<noteq> - 1 \<Longrightarrow> sids_last follow_acts (ref_server now)"
  by (simp add: follow_acts_def run_simps sids_left_def SessionManager_new_def split: option.splits)

lemma follow_log: "delivered_log ref_libs follow_acts = [make_a, make_b]" "delivered_log ref_libs (take 4 follow_acts) = [make_a, make_b]"
  by (simp_all add: delivered_log_def follow_acts_def synced_def ref_pb)

lemma ref_lib: "sv_lib (ref_server now) = ref_libs"
  by (simp add: ref_server_facts)

lemma follow_run:
  assumes "initSid now \<noteq> - 1"
  shows "\<exists>srv. server_run follow_acts (ref_server now) = Some srv \<and> sv_cmdch srv = [make_b]"
proof -
  obtain srv where srv: "server_run (take 4 follow_acts) (ref_server now) = Some srv" "sv_cmdch srv = [make_a, make_b]"
    "sv_loop srv = In_follower" "sv_state srv = kFollower" by (rule follow_prefix)
  have "sids_last (take 4 follow_acts) (ref_server now)"
    using assms by (simp add: follow_acts_def run_simps sids_left_def SessionManager_new_def)
  from follows_run [OF ref_server_facts(2) this srv(1)]
  have f: "follows (ref_server now) [make_a, make_b] srv" by (simp add: ref_lib follow_log ref_server_channels)
  let ?srv = "srv\<lparr>sv_cmdch := [make_b]\<rparr>"
  have "abs_of srv = ref_replica" using f srv(2) by (auto simp: follows_def ref_server_facts spec_log_def ref_server_channels)
  moreover have "config_of (sv_store srv) = ref_config"
    using f config_same [of "sv_store (ref_server now)" "sv_store srv"] by (simp add: follows_def ref_server_facts)
  moreover have "replica_ok ?srv" "abs_of ?srv = abs_of srv" using f by (simp_all add: follows_def replica_ok_def nodes_ok_def abs_of_def)
  ultimately have ok: "replica_ok ?srv" "abs_of ?srv = abs_of srv" "config_of (sv_store ?srv) = ref_config" "abs_of srv = ref_replica"
    by simp_all
  have r: "replicable make_a" by (simp add: make_a_def)
  obtain ra where "spec_command ref_config make_a ref_replica = Some ra" using make_a_spec by blast
  then obtain srv' where srv': "onCommand (ref_env 5 1) make_a ?srv = Some srv'"
    using onCommand_spec [OF ok(1) r, of "ref_env 5 1"] srv(4) ok(2-4) by auto
  have "sv_cmdch srv' = [make_b]" using onCommand_control(1) [OF srv'] srv(4) by (simp add: kept_def)
  moreover have "take 4 follow_acts @ [(ref_env 5 1, Act_loop Choose_cmd)] = follow_acts" by (simp add: follow_acts_def)
  then have "server_run follow_acts (ref_server now) = server_act (ref_env 5 1) (Act_loop Choose_cmd) srv"
    using server_run_snoc [OF srv(1)] by metis
  ultimately show ?thesis using srv' srv(2,3) by (simp add: server_act_def mainLoop_def followerLoop_def)
qed

lemma follow_start: "initSid 0 \<noteq> - 1" "initSid 99 \<noteq> - 1"
  by (simp_all add: initSid_def)

theorem server_is_its_log_witness:
  "\<exists>srv. server_run follow_acts (ref_server 0) = Some srv \<and> sv_cmdch srv = [make_b]
     \<and> spec_log ref_config [make_a] ref_replica = Some (abs_of srv)"
proof -
  obtain srv where srv: "server_run follow_acts (ref_server 0) = Some srv" "sv_cmdch srv = [make_b]"
    using follow_run [OF follow_start(1)] by blast
  have l: "list_all loggable (delivered_log (sv_lib (ref_server 0)) follow_acts)" by (simp add: ref_lib follow_log)
  from server_is_its_log [OF ref_server_facts(2) ref_server_channels(1) follow_sids [OF follow_start(1)] srv(1) l]
  show ?thesis using srv by (auto simp: ref_lib follow_log ref_server_facts)
qed

theorem cluster_agrees_witness:
  "\<exists>a b. server_run follow_acts (ref_server 0) = Some a \<and> server_run follow_acts (ref_server 99) = Some b \<and> abs_of a = abs_of b"
proof -
  obtain a where a: "server_run follow_acts (ref_server 0) = Some a" "sv_cmdch a = [make_b]"
    using follow_run [OF follow_start(1)] by blast
  obtain b where b: "server_run follow_acts (ref_server 99) = Some b" "sv_cmdch b = [make_b]"
    using follow_run [OF follow_start(2)] by blast
  have "abs_of a = abs_of b"
    using cluster_agrees [OF ref_server_facts(2) ref_server_channels(1) follow_sids [OF follow_start(1)] a(1)
        ref_server_facts(2) ref_server_channels(1) follow_sids [OF follow_start(2)] b(1),
        of "[make_a, make_b]" 2 2] a b
    by (simp add: ref_server_facts follow_log)
  then show ?thesis using a b by blast
qed

theorem commit_index_ahead_witness:
  "\<exists>srv srv3. onSynced 5 (ser make_a) (ref_server 0) = Some srv \<and> onLoadSnapshot (ref_env 6 1) (restarted srv) = Some (5, srv3)
     \<and> key_tree (sv_store srv3) ''/a'' = None"
proof -
  obtain srv where srv: "onSynced 5 (ser make_a) (ref_server 0) = Some srv" using ref_synced [OF ref_lib] by blast
  have "replica_ok srv" by (rule onSynced_frame(1) [OF ref_server_facts(2) srv])
  note r = restarted_ok [OF this]
  have "\<exists>srv3. onLoadSnapshot (ref_env 6 1) (restarted srv) = Some (5, srv3)
      \<and> key_tree (sv_store srv3) = key_tree (sv_store (ref_server 0)) \<and> stored_session (sv_store (restarted srv)) = stored_session (sv_store (ref_server 0))"
    by (rule commit_index_ahead [OF ref_server_facts(2) srv r(1,2)]) (use r(3) ref_iterates in \<open>simp_all add: ref_lib\<close>)
  moreover have "ra_tree (abs_of (ref_server 0)) ''/a'' = None" by (simp add: ref_server_facts(3) ref_replica_def)
  then have "key_tree (sv_store (ref_server 0)) ''/a'' = None" by (simp add: abs_of_def)
  ultimately show ?thesis using srv by auto
qed

subsection \<open>An election\<close>

definition reg_event :: "nat \<Rightarrow> Event" where
  "reg_event k = client_event k (Request_default\<lparr>rq_register := Some 5000\<rparr>)"

text \<open>A server becomes leader: the election, its own ping, and the reset of its sessions.\<close>

definition elect_acts :: "(Env \<times> action) list" where
  "elect_acts = [(ref_env 1 1, Act_loop Choose_state), (ref_env 2 1, Act_state 3), (ref_env 3 1, Act_loop Choose_state),
     (ref_env 4 1, Act_loop Choose_state), (ref_env 5 1, Act_synced 1 (ser (own_ping 4))), (ref_env 6 1, Act_loop Choose_cmd),
     (ref_env 7 1, Act_loop Choose_cmd)]"

definition leading_server :: "sid_t \<Rightarrow> memdb Server \<Rightarrow> bool" where
  "leading_server sid srv \<longleftrightarrow> sv_state srv = kLeader \<and> leading (sv_loop srv) \<and> sv_statech srv = [] \<and> sv_eventch srv = []
     \<and> sv_cmdch srv = [] \<and> sv_requests srv = [] \<and> sv_lib srv = ref_libs \<and> sm_sessions (sv_sm srv) = [] \<and> sm_timers (sv_sm srv) = []
     \<and> sm_sid (sv_sm srv) = sid"

lemma initSid_0 [simp]: "initSid 0 = 0"
  by (simp add: initSid_def)

lemmas loop_simps = onState_def ResetPendingPing_def SessionManager_new_def emit_def followerLoop_def leaderLoop_def
  waitLoop_enter_def Let_def replicate_cmd_def waitLoop_def own_ping_def req_sid_def leaderLoop_enter_def ResetTimer_def
  ResetWatchers_def server_Step_def due_sessions_def WM_Reset_def ref_env_def ref_pb

lemma elected: "\<exists>srv. server_run elect_acts (ref_server 0) = Some srv \<and> leading_server 0 srv"
  by (simp add: elect_acts_def run_simps loop_simps leading_server_def leading_def)

definition reg_cmd :: "sid_t \<Rightarrow> Request" where
  "reg_cmd sid = Request_default\<lparr>rq_sid := Some sid, rq_register := Some (word_of_int (clamp_timeout Options_default 5000))\<rparr>"

lemma leading_reg:
  assumes "leading_server sid srv"
  shows "\<exists>srv'. server_run [(e1, Act_event (reg_event k)), (e2, Act_loop Choose_event), (e3, Act_synced i (ser (reg_cmd (sid + 1))))] srv = Some srv'
    \<and> sv_state srv' = kLeader \<and> leading (sv_loop srv') \<and> sv_requests srv' = [reg_event k] \<and> sv_cmdch srv' = [reg_cmd (sid + 1)]"
  using assms
  by (auto simp: leading_server_def leading_iff run_simps loop_simps handleEvent_def reg_event_def client_event_def
      handleRegister_def GenSid_def push_request_def Request_default_def)

definition step_down_acts :: "(Env \<times> action) list" where
  "step_down_acts = [(ref_env 8 1, Act_event (reg_event 5)), (ref_env 9 1, Act_loop Choose_event),
     (ref_env 10 1, Act_synced 2 (ser (reg_cmd 1))), (ref_env 11 1, Act_state 2)]"

text \<open>
  C25. A leader that steps down can abort: a client registers, its command is committed and in the channel of
  the main thread, and then the raft library reports that the server is a follower. The callback
  answers and drops the waiting request; the main thread, still in the leader's loop, may
  take the command before the notice of the new role, and fails its \<^verbatim>\<open>CHECK\<close> that a request
  is waiting.
\<close>

theorem step_down_aborts:
  "server_run (elect_acts @ step_down_acts) (ref_server 0) \<noteq> None
   \<and> server_run (elect_acts @ step_down_acts @ [(ref_env 12 1, Act_loop Choose_cmd)]) (ref_server 0) = None"
proof -
  obtain srv where srv: "server_run elect_acts (ref_server 0) = Some srv" "leading_server 0 srv" using elected by blast
  obtain srv1 where srv1: "server_run (take 3 step_down_acts) srv = Some srv1" "sv_state srv1 = kLeader" "leading (sv_loop srv1)"
    "sv_cmdch srv1 = [reg_cmd 1]"
    using leading_reg [OF srv(2), of "ref_env 8 1" 5 "ref_env 9 1" "ref_env 10 1" 2] by (auto simp: step_down_acts_def)
  let ?srv2 = "onState (ref_env 11 1) 2 srv1"
  have "take 3 step_down_acts @ [(ref_env 11 1, Act_state 2)] = step_down_acts" by (simp add: step_down_acts_def)
  then have s2: "server_run step_down_acts srv = Some ?srv2"
    using server_run_snoc [OF srv1(1), of "ref_env 11 1" "Act_state 2"] by (simp add: server_act_def)
  have "sv_state ?srv2 = kLeader" "leading (sv_loop ?srv2)" "sv_cmdch ?srv2 = [reg_cmd 1]" "sv_requests ?srv2 = []"
    using srv1 by (simp_all add: onState_def Let_def emit_def ResetPendingPing_def)
  then have "mainLoop (ref_env 12 1) Choose_cmd ?srv2 = None"
    by (auto simp: leading_iff mainLoop_def leaderLoop_def onCommand_leader)
  then have "server_run (step_down_acts @ [(ref_env 12 1, Act_loop Choose_cmd)]) srv = None"
    using server_run_snoc [OF s2] by (simp add: server_act_def)
  then show ?thesis using srv(1) s2 by (simp add: server_run_append)
qed

lemma reg_answered:
  assumes "sv_state srv = kLeader" and "leading (sv_loop srv)" and "sv_requests srv = e # es" and "sv_cmdch srv = reg_cmd sid # cs"
    and "sv_lib srv = ref_libs" and "sm_sessions (sv_sm srv) = []" and "sm_timers (sv_sm srv) = []"
  shows "\<exists>srv'. mainLoop env Choose_cmd srv = Some srv' \<and> sv_requests srv' = es
    \<and> Reply (e\<lparr>ev_Rep := Response_default\<lparr>rp_sid := Some sid\<rparr>\<rparr>) \<in> set (sv_out srv')"
proof -
  have r: "rq_register (reg_cmd sid) \<noteq> None" "req_sid (reg_cmd sid) = sid" by (simp_all add: reg_cmd_def Request_default_def req_sid_def)
  have "\<exists>sm st. SM_Add now s sm0 st0 = Some (sm, st)" if "so_lib st0 = ref_libs" "sm_sessions sm0 = []" "sm_timers sm0 = []"
    for now s sm0 and st0 :: "memdb Store"
    using that by (auto simp: SM_Add_def Store_AddSession_def Touch_def Let_def SM_Get_def ref_libs_def ldb_ok_def
        om_insert_def removeFromTimers_def)
  then obtain sm st where a: "SM_Add (en_now env) (Session_new (en_addr env) (en_now env) sid (sint (req_timeout (reg_cmd sid))))
      (sv_sm srv) (sv_store srv) = Some (sm, st)" using assms(5-7) by blast
  obtain t where "sv_loop srv = In_leader t" using assms(2) by (auto simp: leading_iff)
  then show ?thesis using assms(1,3,4) r a
    by (simp add: mainLoop_def leaderLoop_def onCommand_leader run_command_def onRegister_def Let_def emit_def)
qed

definition stale_acts :: "(Env \<times> action) list" where
  "stale_acts = [(ref_env 8 1, Act_state 2), (ref_env 9 1, Act_state 3), (ref_env 10 1, Act_event (reg_event 5)),
     (ref_env 11 1, Act_loop Choose_event), (ref_env 12 1, Act_loop Choose_state), (ref_env 13 1, Act_loop Choose_state),
     (ref_env 14 1, Act_loop Choose_state), (ref_env 15 1, Act_loop Choose_cmd), (ref_env 16 1, Act_synced 2 (ser (own_ping 15))),
     (ref_env 17 1, Act_loop Choose_cmd), (ref_env 18 1, Act_loop Choose_cmd), (ref_env 19 1, Act_event (reg_event 6)),
     (ref_env 20 1, Act_loop Choose_event), (ref_env 21 1, Act_synced 3 (ser (reg_cmd 2)))]"

lemma stale_queue:
  assumes "leading_server 0 srv"
  shows "\<exists>srv'. server_run stale_acts srv = Some srv' \<and> sv_state srv' = kLeader \<and> leading (sv_loop srv')
    \<and> sv_requests srv' = [reg_event 5, reg_event 6] \<and> sv_cmdch srv' = [reg_cmd 2] \<and> sv_lib srv' = ref_libs
    \<and> sm_sessions (sv_sm srv') = [] \<and> sm_timers (sv_sm srv') = []"
  using assms
  by (auto simp: stale_acts_def leading_server_def leading_iff run_simps loop_simps handleEvent_def reg_event_def client_event_def
      handleRegister_def GenSid_def push_request_def Request_default_def)

text \<open>
  C24. A request can get the answer of another: the raft library reports that the leader lost its role and
  got it back before the main thread has taken either notice. A registration that is handled in
  between is put into the queue of a leader whose broadcast is not committed, and nothing
  removes it when the server waits and leads again. The next client's registration is
  committed, and its session id is sent to the first client; the second client waits on.
\<close>

theorem stale_request_misanswered:
  "\<exists>srv. server_run (elect_acts @ stale_acts @ [(ref_env 22 1, Act_loop Choose_cmd)]) (ref_server 0) = Some srv
     \<and> Reply ((reg_event 5)\<lparr>ev_Rep := Response_default\<lparr>rp_sid := Some 2\<rparr>\<rparr>) \<in> set (sv_out srv)
     \<and> sv_requests srv = [reg_event 6]"
proof -
  obtain srv where srv: "server_run elect_acts (ref_server 0) = Some srv" "leading_server 0 srv" using elected by blast
  obtain srv1 where srv1: "server_run stale_acts srv = Some srv1" "sv_state srv1 = kLeader" "leading (sv_loop srv1)"
    "sv_requests srv1 = [reg_event 5, reg_event 6]" "sv_cmdch srv1 = [reg_cmd 2]" "sv_lib srv1 = ref_libs"
    "sm_sessions (sv_sm srv1) = []" "sm_timers (sv_sm srv1) = []"
    using stale_queue [OF srv(2)] by blast
  show ?thesis
    using srv(1) srv1(1) reg_answered [OF srv1(2-8), of "ref_env 22 1"]
    by (auto simp: server_run_append server_run_Cons server_run_Nil server_act_def)
qed

text \<open>A new leader and its first request.\<close>

definition lead_start :: "memdb Server" where
  "lead_start = (ref_server 0)\<lparr>sv_state := kWaiter\<rparr>"

definition lead_acts :: "(Env \<times> lead_action) list" where
  "lead_acts = [(ref_env 4 1, Lead_loop Choose_state), (ref_env 5 1, Lead_commit 1), (ref_env 6 1, Lead_loop Choose_cmd),
     (ref_env 7 1, Lead_loop Choose_cmd), (ref_env 8 1, Lead_event (reg_event 5)), (ref_env 9 1, Lead_loop Choose_event),
     (ref_env 10 1, Lead_commit 2)]"

lemma lead_run_Cons: "lead_run ((env, act) # acts) x = Option.bind (lead_act env act x) (lead_run acts)"
  by (cases "lead_act env act x") (simp_all add: lead_run_def)

lemma lead_run_Nil: "lead_run [] x = Some x"
  by (simp add: lead_run_def)

lemma lead_example:
  "\<exists>srv t. lead_run lead_acts (lead_start, []) = Some (srv, []) \<and> sv_loop srv = In_leader t \<and> sv_cmdch srv = [reg_cmd 1]
     \<and> sv_requests srv = [reg_event 5]"
  by (auto simp: lead_acts_def lead_start_def lead_run_Cons lead_run_Nil lead_act_def run_simps loop_simps ref_synced [unfolded ser_def]
      handleEvent_def reg_event_def client_event_def handleRegister_def GenSid_def push_request_def Request_default_def
      reg_cmd_def req_timeout_def)

theorem leader_answers_own_witness:
  "\<exists>srv t. lead_run lead_acts (lead_start, []) = Some (srv, []) \<and> sv_loop srv = In_leader t \<and> sv_cmdch srv = [reg_cmd 1]
     \<and> command_of (reg_event 5) (reg_cmd 1)
     \<and> mainLoop (ref_env 11 1) Choose_cmd srv =
        map_option (\<lambda>(st, rep, srv'). emit [Reply ((reg_event 5)\<lparr>ev_Rep := if \<not> ok st then set_err st rep else rep\<rparr>)] srv')
          (run_command (ref_env 11 1) (reg_cmd 1) (srv\<lparr>sv_cmdch := [], sv_requests := []\<rparr>))"
proof -
  obtain srv t where r: "lead_run lead_acts (lead_start, []) = Some (srv, [])" "sv_loop srv = In_leader t" "sv_cmdch srv = [reg_cmd 1]"
    "sv_requests srv = [reg_event 5]"
    using lead_example by blast
  have s: "proto_ok (pb (sv_lib lead_start))" "sv_state lead_start = kWaiter" "sv_loop lead_start = At_main" "sv_requests lead_start = []"
    "sv_statech lead_start = []" "list_all (earlier ((\<lambda>a. word_of_int (en_now (fst a))) ` set lead_acts)) (pending lead_start [])"
    by (simp_all add: lead_start_def ref_server_facts ref_server_channels ref_pb ref_proto_ok pending_def)
  from leader_answers_own [OF s r(1-3), of "ref_env 11 1"] r show ?thesis by auto
qed

subsection \<open>The stand-in for raft\<close>

definition fake_server :: "memdb Server" where
  "fake_server = (ref_server 0)\<lparr>sv_store := (sv_store (ref_server 0))\<lparr>so_persist := []\<rparr>\<rparr>"

definition fake_acts :: "(Env \<times> fake_action) list" where
  "fake_acts = [(ref_env 4 1, Fake_loop Choose_state), (ref_env 5 1, Fake_loop Choose_state), (ref_env 6 1, Fake_loop Choose_state),
     (ref_env 7 1, Fake_loop Choose_cmd), (ref_env 8 1, Fake_loop Choose_cmd), (ref_env 9 1, Fake_event (reg_event 5)),
     (ref_env 10 1, Fake_loop Choose_event)]"

lemma fake_run_Cons: "fake_run ((env, act) # acts) x = Option.bind (fake_act env act x) (fake_run acts)"
  by (cases "fake_act env act x") (simp_all add: fake_run_def)

lemma fake_run_Nil: "fake_run [] x = Some x"
  by (simp add: fake_run_def)

lemma fake_started:
  "\<exists>srv. fake_Start (ref_env 3 1) (fake_server, FakeRaft_new) = Some (srv, FakeRaft_new) \<and> sv_state srv = kFollower
     \<and> sv_loop srv = At_main \<and> sv_requests srv = [] \<and> sv_cmdch srv = [] \<and> sv_eventch srv = [] \<and> sv_statech srv = [3] \<and> sv_out srv = []
     \<and> sv_lib srv = ref_libs \<and> sv_sm srv = SessionManager_new 0 1000 \<and> sv_options srv = Options_default"
  by (simp add: fake_Start_def fake_server_def onLoadSnapshot_def Store_WalkSessions_def Store_WalkTree_def Store_GetCommitIndex_def
      run_simps loop_simps ref_libs_def mem_entries_def seek_range_def ldb_ok_def ldb_IsNotFound_def)

lemma fake_example:
  assumes "sv_state srv = kFollower" "sv_loop srv = At_main" "sv_requests srv = []" "sv_cmdch srv = []" "sv_eventch srv = []"
    "sv_statech srv = [3]" "sv_out srv = []" "sv_lib srv = ref_libs" "sv_sm srv = SessionManager_new 0 1000" "sv_options srv = Options_default"
  shows "\<exists>srv' r' t. fake_run fake_acts (srv, FakeRaft_new) = Some (srv', r') \<and> sv_loop srv' = In_leader t \<and> sv_cmdch srv' = [reg_cmd 1]
     \<and> sv_requests srv' = [reg_event 5]"
  using assms
  by (simp add: fake_acts_def fake_run_Cons fake_run_Nil fake_act_def fake_Broadcast_pair run_simps loop_simps ref_synced [unfolded ser_def]
      handleEvent_def reg_event_def client_event_def handleRegister_def GenSid_def push_request_def Request_default_def
      reg_cmd_def req_timeout_def)

theorem fake_raft_answers_own_witness:
  "\<exists>srv r. Option.bind (fake_Start (ref_env 3 1) (fake_server, FakeRaft_new)) (fake_run fake_acts) = Some (srv, r)
     \<and> sv_cmdch srv = [reg_cmd 1] \<and> sv_requests srv = [reg_event 5] \<and> command_of (reg_event 5) (reg_cmd 1)"
proof -
  obtain srv0 where s: "fake_Start (ref_env 3 1) (fake_server, FakeRaft_new) = Some (srv0, FakeRaft_new)" and i:
      "sv_state srv0 = kFollower" "sv_loop srv0 = At_main" "sv_requests srv0 = []" "sv_cmdch srv0 = []" "sv_eventch srv0 = []"
    "sv_statech srv0 = [3]" "sv_out srv0 = []" "sv_lib srv0 = ref_libs" "sv_sm srv0 = SessionManager_new 0 1000" "sv_options srv0 = Options_default"
    using fake_started by blast
  from fake_example [OF i] obtain srv r t where f: "fake_run fake_acts (srv0, FakeRaft_new) = Some (srv, r)" "sv_loop srv = In_leader t"
    "sv_cmdch srv = [reg_cmd 1]" "sv_requests srv = [reg_event 5]" by blast
  have h: "proto_ok (pb (sv_lib fake_server))" "raft_LEADER (sv_lib fake_server) \<noteq> raft_STOP (sv_lib fake_server)"
    "sv_state fake_server = kFollower" "sv_loop fake_server = At_main" "sv_requests fake_server = []" "sv_cmdch fake_server = []"
    "sv_statech fake_server = []"
    by (simp_all add: fake_server_def ref_server_facts ref_server_channels ref_pb ref_proto_ok)
  from fake_raft_answers_own [OF h s f(1-3), of "ref_env 11 1"] show ?thesis using s f by auto
qed

end
