(* ===== verification/Text_Utils.thy ===== *)
theory Text_Utils
  imports Status
begin

text \<open>
  \<^verbatim>\<open>common/strreader.h\<close>, a cursor over a byte string, and \<^verbatim>\<open>common/address.cc\<close>, which reads an
  address written as text.
\<close>

subsection \<open>\<^verbatim>\<open>StrReader\<close>\<close>

record StrReader =
  sr_s :: string
  sr_i :: int

text \<open>Conversions between \<^verbatim>\<open>int\<close> and \<^verbatim>\<open>size_t\<close>.\<close>

definition to_int32 :: "int \<Rightarrow> int" where
  "to_int32 n = sint (word_of_int n :: 32 word)"

definition npos :: nat where "npos = 2 ^ 64 - 1"

text \<open>\<^verbatim>\<open>s.find(c, pos)\<close>.\<close>

definition find_from :: "char \<Rightarrow> nat \<Rightarrow> string \<Rightarrow> nat" where
  "find_from c pos s =
     (if c \<in> set (drop pos s) then pos + length (takeWhile (\<lambda>x. x \<noteq> c) (drop pos s)) else npos)"

text \<open>\<^verbatim>\<open>int\<close> addition, undefined on overflow.\<close>

definition int_add :: "int \<Rightarrow> int \<Rightarrow> int option" where
  "int_add a b = (if - (2 ^ 31) \<le> a + b \<and> a + b < 2 ^ 31 then Some (a + b) else None)"

text \<open>What was copied is part of the result; None is a \<^verbatim>\<open>CHECK\<close> that fails, an exception or undefined
  behaviour (a negative position or count that passes the test).\<close>

definition ReadN :: "int \<Rightarrow> StrReader \<Rightarrow> (Status \<times> string \<times> StrReader) option" where
  "ReadN n r = do {
     j \<leftarrow> int_add (sr_i r) n;
     if to_size_t j > length (sr_s r) then Some (InvalidArgument ''length not enougth'', [], r)
     else if sr_i r < 0 \<or> n < 0 then None
     else Some (OK, take (nat n) (drop (nat (sr_i r)) (sr_s r)), r\<lparr>sr_i := j\<rparr>) }"

definition ReadInt64 :: "StrReader \<Rightarrow> (64 word \<times> StrReader) option" where
  "ReadInt64 r = do { (st, b, r) \<leftarrow> ReadN 8 r; if ok st then Some (word_of_nat (le_value b), r) else None }"

definition ReadInt16 :: "StrReader \<Rightarrow> (16 word \<times> StrReader) option" where
  "ReadInt16 r = do { (st, b, r) \<leftarrow> ReadN 2 r; if ok st then Some (word_of_nat (le_value b), r) else None }"

definition ReadByte :: "StrReader \<Rightarrow> (8 word \<times> StrReader) option" where
  "ReadByte r = do { (st, b, r) \<leftarrow> ReadN 1 r; if ok st then Some (word_of_nat (le_value b), r) else None }"

definition Skip :: "int \<Rightarrow> StrReader \<Rightarrow> (Status \<times> StrReader) option" where
  "Skip n r = do {
     j \<leftarrow> int_add (sr_i r) n;
     if to_size_t j > length (sr_s r) then Some (InvalidArgument ''bad length'', r)
     else Some (OK, r\<lparr>sr_i := j\<rparr>) }"

text \<open>\<^verbatim>\<open>ReadString\<close>: the position found is stored in an \<^verbatim>\<open>int\<close> before it is compared with \<^verbatim>\<open>npos\<close>;
  \<^verbatim>\<open>substr\<close> throws when it starts outside the string.\<close>

definition ReadString :: "char \<Rightarrow> StrReader \<Rightarrow> (string \<times> StrReader) option" where
  "ReadString delim r =
     (let i = to_size_t (sr_i r);
          pos = to_int32 (int (find_from delim i (sr_s r)))
      in if i > length (sr_s r) then None
         else if to_size_t pos = npos then Some (drop i (sr_s r), r\<lparr>sr_i := to_int32 (int (length (sr_s r)))\<rparr>)
         else do {
           j \<leftarrow> int_add pos 1;
           Some (take (to_size_t (pos - sr_i r)) (drop i (sr_s r)), r\<lparr>sr_i := j\<rparr>) })"

fun ReadStrings :: "nat \<Rightarrow> char \<Rightarrow> StrReader \<Rightarrow> (string list \<times> StrReader) option" where
  "ReadStrings 0 delim r = Some ([], r)"
| "ReadStrings (Suc n) delim r = do {
     (s, r) \<leftarrow> ReadString delim r;
     (ss, r) \<leftarrow> ReadStrings n delim r;
     Some (s # ss, r) }"

subsection \<open>Reading back what was written\<close>

lemma to_int32_small: "0 \<le> n \<Longrightarrow> n < 2 ^ 31 \<Longrightarrow> to_int32 n = n"
  by (simp add: to_int32_def int_word_sint)

lemma to_size_t_nat: "0 \<le> n \<Longrightarrow> n < 2 ^ 64 \<Longrightarrow> to_size_t n = nat n"
  by (simp add: to_size_t_def)

lemma npos_int: "to_size_t (to_int32 (int npos)) = npos"
  by (simp add: npos_def to_int32_def to_size_t_def)

definition at_end_of :: "string \<Rightarrow> string \<Rightarrow> StrReader" where
  "at_end_of a b = \<lparr>sr_s = a @ b, sr_i = int (length a)\<rparr>"

lemma ReadN_append:
  assumes "length (a @ b @ c) < 2 ^ 31"
  shows "ReadN (int (length b)) (at_end_of a (b @ c)) = Some (OK, b, at_end_of (a @ b) c)"
proof -
  have "to_size_t (int (length a) + int (length b)) = length a + length b"
    using assms to_size_t_nat [of "int (length a) + int (length b)"] by simp
  then show ?thesis using assms by (simp add: ReadN_def at_end_of_def int_add_def)
qed

lemma ReadString_delim:
  assumes "length (a @ s @ d # c) < 2 ^ 31" and "d \<notin> set s"
  shows "ReadString d (at_end_of a (s @ d # c)) = Some (s, at_end_of (a @ s @ [d]) c)"
proof -
  have tw: "takeWhile (\<lambda>x. x \<noteq> d) (s @ d # c) = s" using assms(2) by (auto simp: takeWhile_append)
  have f: "find_from d (length a) (a @ s @ d # c) = length a + length s"
    by (simp add: find_from_def tw)
  have i: "to_int32 (int (length a + length s)) = int (length a + length s)"
    using assms(1) by (intro to_int32_small) simp_all
  have "to_size_t (int (length a + length s)) = length a + length s"
    using assms(1) to_size_t_nat [of "int (length a + length s)"] by simp
  then have n: "to_size_t (int (length a + length s)) \<noteq> npos" using assms(1) by (simp add: npos_def)
  have "to_size_t (int (length a)) = length a" "to_size_t (int (length s)) = length s"
    using assms(1) to_size_t_nat by simp_all
  then show ?thesis using i n assms(1) by (simp add: ReadString_def at_end_of_def f Let_def int_add_def)
qed

lemma ReadString_last:
  assumes "length (a @ s) < 2 ^ 31" and "d \<notin> set s"
  shows "ReadString d (at_end_of a s) = Some (s, at_end_of (a @ s) [])"
  using assms to_int32_small [of "int (length (a @ s))"] to_size_t_nat [of "int (length a)"]
  by (simp add: ReadString_def at_end_of_def find_from_def Let_def npos_int)

text \<open>Fields with a separator between them.\<close>

fun join_fields :: "char \<Rightarrow> string list \<Rightarrow> string" where
  "join_fields d [] = []"
| "join_fields d [f] = f"
| "join_fields d (f # fs) = f @ d # join_fields d fs"

lemma ReadStrings_fields:
  assumes "fs \<noteq> []" and "\<forall>f \<in> set fs. d \<notin> set f" and "length (a @ join_fields d fs) < 2 ^ 31"
  shows "ReadStrings (length fs) d (at_end_of a (join_fields d fs)) = Some (fs, at_end_of (a @ join_fields d fs) [])"
  using assms
proof (induction d fs arbitrary: a rule: join_fields.induct)
  case (2 d f)
  then show ?case using ReadString_last [of a f d] by simp
next
  case (3 d f g gs)
  have r: "ReadString d (at_end_of a (f @ d # join_fields d (g # gs))) = Some (f, at_end_of (a @ f @ [d]) (join_fields d (g # gs)))"
    using 3 by (intro ReadString_delim) simp_all
  have ih: "ReadStrings (length (g # gs)) d (at_end_of (a @ f @ [d]) (join_fields d (g # gs))) =
      Some (g # gs, at_end_of ((a @ f @ [d]) @ join_fields d (g # gs)) [])"
    using 3 by (intro 3(1)) simp_all
  have "ReadStrings (Suc (length (g # gs))) d (at_end_of a (f @ d # join_fields d (g # gs))) =
      Some (f # g # gs, at_end_of ((a @ f @ [d]) @ join_fields d (g # gs)) [])"
    by (subst ReadStrings.simps) (simp only: r ih bind.bind_lunit case_prod_conv)
  then show ?case by simp
qed simp

lemma le_bytes_word:
  fixes w :: "'a::len word"
  assumes "LENGTH('a) = 8 * k"
  shows "word_of_nat (le_value (le_bytes k (unat w))) = w"
proof -
  have "unat w < 2 ^ LENGTH('a)" by (rule unsigned_less)
  also have "\<dots> = 256 ^ k" unfolding assms by (simp add: power_mult)
  finally show ?thesis by (simp add: le_value_le_bytes)
qed

text \<open>
  Reading back what was written: from the bytes of a 64-bit, a 16-bit and an 8-bit number
  followed by fields with a separator between them, \<^verbatim>\<open>StrReader\<close> reads exactly these numbers and
  fields and ends at the end of the string, for data of less than two gigabytes.
\<close>

theorem StrReader_roundtrip:
  fixes x :: "64 word" and y :: "16 word" and z :: "8 word"
  assumes "fs \<noteq> []" and "\<forall>f \<in> set fs. d \<notin> set f" and "length (join_fields d fs) < 2 ^ 30"
  shows "do { (x', r) \<leftarrow> ReadInt64 \<lparr>sr_s = le_bytes 8 (unat x) @ le_bytes 2 (unat y) @ le_bytes 1 (unat z)
                  @ join_fields d fs, sr_i = 0\<rparr>;
              (y', r) \<leftarrow> ReadInt16 r;
              (z', r) \<leftarrow> ReadByte r;
              (fs', r) \<leftarrow> ReadStrings (length fs) d r;
              Some (x', y', z', fs', sr_i r = int (length (sr_s r))) } = Some (x, y, z, fs, True)"
proof -
  let ?x = "le_bytes 8 (unat x)" and ?y = "le_bytes 2 (unat y)" and ?z = "le_bytes 1 (unat z)" and ?f = "join_fields d fs"
  have start: "\<lparr>sr_s = ?x @ ?y @ ?z @ ?f, sr_i = 0\<rparr> = at_end_of [] (?x @ ?y @ ?z @ ?f)"
    by (simp only: at_end_of_def append_Nil list.size int_ops)
  have 1: "ReadN 8 (at_end_of [] (?x @ ?y @ ?z @ ?f)) = Some (OK, ?x, at_end_of ?x (?y @ ?z @ ?f))"
    using ReadN_append [of "[]" ?x "?y @ ?z @ ?f"] assms(3) by (simp del: le_bytes.simps)
  have 2: "ReadN 2 (at_end_of ?x (?y @ ?z @ ?f)) = Some (OK, ?y, at_end_of (?x @ ?y) (?z @ ?f))"
    using ReadN_append [of ?x ?y "?z @ ?f"] assms(3) by (simp del: le_bytes.simps)
  have 3: "ReadN 1 (at_end_of (?x @ ?y) (?z @ ?f)) = Some (OK, ?z, at_end_of ((?x @ ?y) @ ?z) ?f)"
    using ReadN_append [of "?x @ ?y" ?z ?f] assms(3) by (simp del: le_bytes.simps append_assoc)
  have 4: "ReadStrings (length fs) d (at_end_of ((?x @ ?y) @ ?z) ?f) = Some (fs, at_end_of (((?x @ ?y) @ ?z) @ ?f) [])"
    using assms by (intro ReadStrings_fields) (simp_all del: le_bytes.simps)
  have w: "word_of_nat (le_value ?x) = x" "word_of_nat (le_value ?y) = y" "word_of_nat (le_value ?z) = z"
    by (rule le_bytes_word, simp)+
  have e: "sr_i (at_end_of a []) = int (length (sr_s (at_end_of a [])))" for a by (simp add: at_end_of_def)
  show ?thesis
    unfolding start ReadInt64_def ReadInt16_def ReadByte_def
    by (simp only: 1 2 3 4 w e bind.bind_lunit case_prod_conv simp_thms ok_simps if_True)
qed

subsection \<open>Addresses\<close>

text \<open>The two constructors of \<^verbatim>\<open>muduo::net::InetAddress\<close> that are used.\<close>

datatype InetAddress = Inet_port "16 word" | Inet_ip string "16 word"

definition is_digit :: "char \<Rightarrow> bool" where
  "is_digit c \<longleftrightarrow> (48 :: nat) \<le> of_char c \<and> of_char c \<le> (57 :: nat)"

definition is_space :: "char \<Rightarrow> bool" where
  "is_space c \<longleftrightarrow> c \<in> {CHR '' '', CHR 0x09, CHR 0x0A, CHR 0x0B, CHR 0x0C, CHR 0x0D}"

definition digits_value :: "string \<Rightarrow> nat" where
  "digits_value s = foldl (\<lambda>n c. n * 10 + (of_char c - 48)) 0 s"

text \<open>\<^verbatim>\<open>sscanf(s, "%hu", &port)\<close>: white space, a sign, digits; the number is read as an
  \<^verbatim>\<open>unsigned long\<close>, at most its largest value, and cut to sixteen bits.\<close>

definition scan_hu :: "string \<Rightarrow> 16 word option" where
  "scan_hu s =
     (let s = dropWhile is_space (c_str s);
          neg = (s \<noteq> [] \<and> hd s = CHR ''-'');
          s = (if s \<noteq> [] \<and> (hd s = CHR ''-'' \<or> hd s = CHR ''+'') then tl s else s);
          ds = takeWhile is_digit s;
          v = digits_value ds
      in if ds = [] then None
         else Some (if v \<ge> 2 ^ 64 then - 1 else if neg then - word_of_nat v else word_of_nat v))"

definition ToMuduoAddr :: "string \<Rightarrow> InetAddress" where
  "ToMuduoAddr from' =
     (if CHR '':'' \<notin> set from' then Inet_port 0
      else
        (let ip = takeWhile (\<lambda>c. c \<noteq> CHR '':'') from';
             ip = (if ip = [] then ''0.0.0.0'' else ip);
             portstr = tl (dropWhile (\<lambda>c. c \<noteq> CHR '':'') from')
         in case scan_hu portstr of None \<Rightarrow> Inet_port 0 | Some port \<Rightarrow> Inet_ip ip port))"

text \<open>A number in decimal.\<close>

fun dec :: "nat \<Rightarrow> string" where
  "dec n = (if n < 10 then [char_of (48 + n)] else dec (n div 10) @ [char_of (48 + n mod 10)])"

declare dec.simps [simp del]

lemma of_char_digit: "n < 10 \<Longrightarrow> of_char (char_of (48 + n) :: char) = (48 + n :: nat)"
  by simp

lemma dec_digits: "dec n \<noteq> [] \<and> (\<forall>c \<in> set (dec n). is_digit c)"
proof (induction n rule: dec.induct)
  case (1 n)
  then show ?case by (subst (1 2) dec.simps) (auto simp: is_digit_def)
qed

lemma digits_value_dec: "digits_value (dec n) = n"
proof (induction n rule: dec.induct)
  case (1 n)
  then show ?case by (subst dec.simps) (auto simp: digits_value_def)
qed

lemma dec_length: "n < 10 ^ k \<Longrightarrow> 0 < k \<Longrightarrow> length (dec n) \<le> k"
proof (induction n arbitrary: k rule: dec.induct)
  case (1 n)
  show ?case
  proof (cases "n < 10")
    case False
    then obtain k' where k: "k = Suc k'" using 1 by (cases k) auto
    then have "n div 10 < 10 ^ k'" "0 < k'" using 1 False by (cases k'; auto simp: less_mult_imp_div_less)+
    then show ?thesis using 1 False k by (subst dec.simps) simp
  qed (use 1 in \<open>simp add: dec.simps\<close>)
qed

lemma is_digit_not: "is_digit c \<Longrightarrow> \<not> is_space c \<and> c \<noteq> CHR ''-'' \<and> c \<noteq> CHR ''+'' \<and> c \<noteq> CHR 0x00"
  by (auto simp: is_digit_def is_space_def)

lemma scan_hu_dec:
  assumes "n < 2 ^ 16"
  shows "scan_hu (dec n) = Some (word_of_nat n)"
proof -
  note d = dec_digits [of n]
  have c: "c_str (dec n) = dec n" using d is_digit_not by (auto simp: c_str_def takeWhile_eq_all_conv)
  have "is_digit (hd (dec n))" using d by simp
  note h = is_digit_not [OF this]
  have "dropWhile is_space (dec n) = dec n" using h d by (cases "dec n") auto
  moreover have tw: "takeWhile is_digit (dec n) = dec n" unfolding takeWhile_eq_all_conv using d by blast
  ultimately show ?thesis using d h assms by (simp add: tw scan_hu_def c digits_value_dec Let_def)
qed

text \<open>
  An address is read as it is written: a host and a port with a colon between them give
  that host and that port (an empty host is every interface), and a text without a colon, or
  without a number after it, gives the unspecified address with port 0.
\<close>

theorem ToMuduoAddr_roundtrip:
  assumes "CHR '':'' \<notin> set ip" and "n < 2 ^ 16"
  shows "ToMuduoAddr (ip @ '':'' @ dec n) = Inet_ip (if ip = [] then ''0.0.0.0'' else ip) (word_of_nat n)
    \<and> ToMuduoAddr ip = Inet_port 0 \<and> ToMuduoAddr (ip @ '':'') = Inet_port 0"
proof -
  have t: "takeWhile (\<lambda>c. c \<noteq> CHR '':'') (ip @ CHR '':'' # r) = ip" "dropWhile (\<lambda>c. c \<noteq> CHR '':'') (ip @ CHR '':'' # r) = CHR '':'' # r"
    for r using assms(1) by (auto simp: takeWhile_append dropWhile_append)
  have e: "scan_hu [] = None" by (simp add: scan_hu_def c_str_def Let_def)
  show ?thesis using assms by (simp add: ToMuduoAddr_def t scan_hu_dec e Let_def)
qed

theorem StrReader_roundtrip_witness:
  "do { (x', r) \<leftarrow> ReadInt64 \<lparr>sr_s = le_bytes 8 (unat (7 :: 64 word)) @ le_bytes 2 (unat (3 :: 16 word))
              @ le_bytes 1 (unat (1 :: 8 word)) @ join_fields (CHR '','') [''ab'', ''c''], sr_i = 0\<rparr>;
        (y', r) \<leftarrow> ReadInt16 r;
        (z', r) \<leftarrow> ReadByte r;
        (fs', r) \<leftarrow> ReadStrings (length [''ab'', ''c'']) (CHR '','') r;
        Some (x', y', z', fs', sr_i r = int (length (sr_s r))) } = Some (7, 3, 1, [''ab'', ''c''], True)"
  by (rule StrReader_roundtrip) simp_all

theorem ToMuduoAddr_roundtrip_witness:
  "ToMuduoAddr (''127.0.0.1'' @ '':'' @ dec 7000) = Inet_ip ''127.0.0.1'' 7000"
  using ToMuduoAddr_roundtrip [of "''127.0.0.1''" 7000] by simp

end
