(* ===== verification/Event_Log.thy ===== *)
theory Event_Log
  imports Session Text_Utils
begin

text \<open>
  \<^verbatim>\<open>common/event_log.cc\<close>: one line of text for every request that is answered, every watch event
  that is delivered and every turn of a session's life. The stream is what the program has
  written to it and asked to be flushed, \<open>el_out\<close>, and what it has only written, \<open>el_buf\<close>;
  both by file. \<open>None\<close> is a failing \<^verbatim>\<open>PCHECK\<close>.
\<close>

record EventLog =
  el_logFilePath :: string
  el_fp :: "string option"
  el_flushInterval :: int
  el_lastflush :: int
  el_out :: "(string \<times> string) list"
  el_buf :: "(string \<times> string) list"

text \<open>What the calls of the system answer: whether a file opens for appending, the clock as
  seconds and as text, whether \<^verbatim>\<open>fprintf\<close> succeeds, and the text of a \<^verbatim>\<open>double\<close>.\<close>

record LogEnv =
  le_opens :: "string \<Rightarrow> bool"
  le_timestamp :: string
  le_time :: int
  le_printed :: bool
  le_double :: "rat \<Rightarrow> string"

definition SetLogFile :: "string \<Rightarrow> EventLog \<Rightarrow> EventLog" where
  "SetLogFile p l = l\<lparr>el_logFilePath := p\<rparr>"

text \<open>\<^verbatim>\<open>fclose\<close> flushes the stream.\<close>

definition flush_log :: "EventLog \<Rightarrow> EventLog" where
  "flush_log l = l\<lparr>el_out := el_out l @ el_buf l, el_buf := []\<rparr>"

definition Reload :: "LogEnv \<Rightarrow> EventLog \<Rightarrow> EventLog option" where
  "Reload V l =
     (let l = (if el_fp l \<noteq> None then flush_log l else l)
      in if le_opens V (el_logFilePath l) then Some (l\<lparr>el_fp := Some (el_logFilePath l)\<rparr>) else None)"

definition EventLog_new :: "LogEnv \<Rightarrow> int \<Rightarrow> EventLog option" where
  "EventLog_new V flushInterval =
     Reload V \<lparr>el_logFilePath = ''log/event.log'', el_fp = None, el_flushInterval = flushInterval,
       el_lastflush = le_time V, el_out = [], el_buf = []\<rparr>"

text \<open>\<^verbatim>\<open>%020\<close> and \<^verbatim>\<open>%05\<close> of an unsigned number, \<^verbatim>\<open>%-6s\<close> of a text.\<close>

definition zero_pad :: "nat \<Rightarrow> string \<Rightarrow> string" where
  "zero_pad w s = replicate (w - length s) (CHR ''0'') @ s"

definition right_pad :: "nat \<Rightarrow> string \<Rightarrow> string" where
  "right_pad w s = s @ replicate (w - length s) (CHR '' '')"

abbreviation quote :: string where "quote \<equiv> [CHR 0x22]"

definition log_line ::
  "LogEnv \<Rightarrow> string \<Rightarrow> string \<Rightarrow> sid_t \<Rightarrow> u64 \<Rightarrow> string \<Rightarrow> string \<Rightarrow> rat \<Rightarrow> string" where
  "log_line V addr event sid xid param err used =
     c_str (le_timestamp V) @ '' '' @ c_str addr @ '' '' @ zero_pad 20 (dec (unat sid)) @ '' ''
     @ zero_pad 5 (dec (unat xid)) @ '' '' @ right_pad 6 (c_str event) @ '' '' @ quote @ c_str param @ quote
     @ '' '' @ quote @ c_str err @ quote @ '' '' @ le_double V used @ [CHR 0x0A]"

definition Log ::
  "LogEnv \<Rightarrow> string \<Rightarrow> string \<Rightarrow> sid_t \<Rightarrow> u64 \<Rightarrow> string \<Rightarrow> string \<Rightarrow> rat \<Rightarrow> EventLog \<Rightarrow> EventLog option" where
  "Log V addr event sid xid param err used l = (case el_fp l of
       None \<Rightarrow> None
     | Some f \<Rightarrow>
         if \<not> le_printed V then None
         else
           (let l = l\<lparr>el_buf := el_buf l @ [(f, log_line V addr event sid xid param err used)]\<rparr>;
                now = le_time V;
                l = (if now - el_lastflush l > el_flushInterval l then flush_log l else l)
            in Some (l\<lparr>el_lastflush := now\<rparr>)))"

definition getActionAndNode :: "Request \<Rightarrow> string \<times> string" where
  "getActionAndNode req =
     (let (action, node) =
        (if rq_ping req then (''ping'', ''-'')
         else if rq_register req \<noteq> None then (''reg'', ''-'')
         else if rq_unregister req then (''unreg'', ''-'')
         else case rq_stat req of Some p \<Rightarrow> (''stat'', p) | None \<Rightarrow>
              case rq_read req of Some p \<Rightarrow> (''read'', p) | None \<Rightarrow>
              case rq_write req of Some w \<Rightarrow> (''write'', wr_path w) | None \<Rightarrow>
              case rq_create req of Some c \<Rightarrow> (''create'', cr_path c) | None \<Rightarrow>
              case rq_delete req of Some p \<Rightarrow> (''delete'', p) | None \<Rightarrow>
              case rq_watch req of Some w \<Rightarrow> (''watch'', wq_path w) | None \<Rightarrow> (''???'', ''???''))
      in (if rq_watch req \<noteq> None then action @ ''w'' else action, node))"

definition LogWatch :: "LogEnv \<Rightarrow> sid_t \<Rightarrow> WEvent \<Rightarrow> EventLog \<Rightarrow> EventLog option" where
  "LogWatch V sid e l = Log V ''-'' ''wevent'' sid 0 (event_String e) '''' 0 l"

text \<open>\<^verbatim>\<open>rep->err()\<close> of a response without an error is the default error, of type \<^verbatim>\<open>kNone\<close>.\<close>

definition rep_err :: "Response \<Rightarrow> RpcError" where
  "rep_err rep = (case rp_err rep of None \<Rightarrow> \<lparr>err_type = rpc_kNone, err_data = None\<rparr> | Some e \<Rightarrow> e)"

definition LogRpc :: "LogEnv \<Rightarrow> string \<Rightarrow> Request \<Rightarrow> Response \<Rightarrow> rat \<Rightarrow> EventLog \<Rightarrow> EventLog option" where
  "LogRpc V addr req rep used l =
     (case getActionAndNode req of (event, param) \<Rightarrow>
        Log V addr event (req_sid req) (rq_xid req) param (ToString (FromRpcError (rep_err rep))) used l)"

definition LogSession :: "LogEnv \<Rightarrow> sid_t \<Rightarrow> string \<Rightarrow> EventLog \<Rightarrow> EventLog option" where
  "LogSession V sid what l = Log V ''-'' ''sess'' sid 0 what '''' 0 l"

text \<open>The effects of the server that reach the log.\<close>

definition log_effect :: "LogEnv \<Rightarrow> effect \<Rightarrow> EventLog \<Rightarrow> EventLog option" where
  "log_effect V x l = (case x of
       Log_session sid what \<Rightarrow> LogSession V sid what l
     | Log_watch sid e \<Rightarrow> LogWatch V sid e l
     | Reload_log \<Rightarrow> Reload V l
     | _ \<Rightarrow> Some l)"

subsection \<open>What is flushed when\<close>

definition written :: "EventLog \<Rightarrow> (string \<times> string) list" where
  "written l = el_out l @ el_buf l"

lemma flush_log_sel [simp]:
  "el_buf (flush_log l) = []" "el_out (flush_log l) = written l" "written (flush_log l) = written l"
  "el_lastflush (flush_log l) = el_lastflush l" "el_flushInterval (flush_log l) = el_flushInterval l"
  "el_fp (flush_log l) = el_fp l" "el_logFilePath (flush_log l) = el_logFilePath l"
  by (simp_all add: flush_log_def written_def)

lemma Log_spec:
  assumes "el_fp l = Some f" "le_printed V"
  obtains l' where "Log V addr event sid xid param err used l = Some l'"
    "written l' = written l @ [(f, log_line V addr event sid xid param err used)]"
    "el_lastflush l' = le_time V" "el_flushInterval l' = el_flushInterval l" "el_fp l' = Some f"
    "el_out l' = (if le_time V - el_lastflush l > el_flushInterval l then written l' else el_out l)"
proof -
  define m where "m = l\<lparr>el_buf := el_buf l @ [(f, log_line V addr event sid xid param err used)]\<rparr>"
  define late where "late \<longleftrightarrow> le_time V - el_lastflush l > el_flushInterval l"
  define l' where "l' = (if late then flush_log m else m)\<lparr>el_lastflush := le_time V\<rparr>"
  have m: "written m = written l @ [(f, log_line V addr event sid xid param err used)]" "el_out m = el_out l"
    "el_lastflush m = el_lastflush l" "el_flushInterval m = el_flushInterval l" "el_fp m = el_fp l"
    by (simp_all add: m_def written_def)
  have w: "written l' = written m" by (cases late) (simp_all add: l'_def written_def)
  have "Log V addr event sid xid param err used l = Some l'"
    using assms by (simp add: Log_def Let_def l'_def late_def m(3,4) flip: m_def)
  moreover have "el_out l' = (if late then written l' else el_out l)" using m(2) by (simp add: w) (simp add: l'_def)
  ultimately show thesis using that m w assms(1) unfolding late_def by (auto simp: l'_def)
qed

text \<open>Lines of a session, each with what the clock says when it is logged.\<close>

fun log_lines :: "LogEnv \<Rightarrow> (int \<times> sid_t \<times> string) list \<Rightarrow> EventLog \<Rightarrow> EventLog option" where
  "log_lines V [] l = Some l"
| "log_lines V ((now, sid, what) # xs) l = do {
     l \<leftarrow> LogSession (V\<lparr>le_time := now\<rparr>) sid what l;
     log_lines V xs l }"

text \<open>No two of the times follow each other by more than the interval.\<close>

fun close_times :: "int \<Rightarrow> int \<Rightarrow> int list \<Rightarrow> bool" where
  "close_times d t [] = True"
| "close_times d t (u # us) = (u - t \<le> d \<and> close_times d u us)"

lemma log_lines_spec:
  assumes "el_fp l = Some f" "le_printed V"
  shows "\<exists>l'. log_lines V xs l = Some l' \<and> el_fp l' = Some f \<and> length (written l') = length (written l) + length xs
    \<and> prefix (written l) (written l')
    \<and> (close_times (el_flushInterval l) (el_lastflush l) (map fst xs) \<longrightarrow> el_out l' = el_out l)"
  using assms(1)
proof (induction xs arbitrary: l)
  case (Cons x xs)
  obtain now sid what where x: "x = (now, sid, what)" by (cases x)
  let ?V = "V\<lparr>le_time := now\<rparr>"
  have p: "le_printed ?V" using assms(2) by simp
  obtain m where m: "LogSession ?V sid what l = Some m" "written m = written l @ [(f, log_line ?V ''-'' ''sess'' sid 0 what '''' 0)]"
    "el_lastflush m = now" "el_flushInterval m = el_flushInterval l" "el_fp m = Some f"
    "el_out m = (if now - el_lastflush l > el_flushInterval l then written m else el_out l)"
    using Log_spec [OF Cons.prems p, of "''-''" "''sess''" sid 0 what "''''" 0] unfolding LogSession_def by auto
  from Cons.IH [OF m(5)] m show ?case by (auto simp: x dest: append_prefixD)
qed simp

text \<open>
  C38. Flushing the event log: no line is lost and none is reordered; a line that comes after
  a pause longer than the interval flushes everything written so far; but while the lines come
  at least once per interval, however many and for however long, none of them is flushed.
\<close>

theorem event_log_flushing:
  assumes "el_fp l = Some f" and "le_printed V"
  shows "\<exists>l'. log_lines V xs l = Some l' \<and> prefix (written l) (written l')
    \<and> length (written l') = length (written l) + length xs
    \<and> (close_times (el_flushInterval l) (el_lastflush l) (map fst xs) \<longrightarrow> el_out l' = el_out l)
    \<and> (\<forall>now sid what. now - el_lastflush l' > el_flushInterval l' \<longrightarrow>
         (\<exists>l''. LogSession (V\<lparr>le_time := now\<rparr>) sid what l' = Some l'' \<and> el_buf l'' = [] \<and> prefix (written l') (el_out l'')))"
proof -
  obtain l' where l': "log_lines V xs l = Some l'" "el_fp l' = Some f" "length (written l') = length (written l) + length xs"
    "prefix (written l) (written l')"
    "close_times (el_flushInterval l) (el_lastflush l) (map fst xs) \<longrightarrow> el_out l' = el_out l"
    using log_lines_spec [OF assms] by blast
  have "\<exists>l''. LogSession (V\<lparr>le_time := now\<rparr>) sid what l' = Some l'' \<and> el_buf l'' = [] \<and> prefix (written l') (el_out l'')"
    if "now - el_lastflush l' > el_flushInterval l'" for now sid what
    using that assms(2) l'(2) by (simp add: LogSession_def Log_def Let_def written_def)
  with l' show ?thesis by blast
qed

theorem event_log_flushing_witness:
  "\<exists>l l'. EventLog_new \<lparr>le_opens = (\<lambda>_. True), le_timestamp = ''t'', le_time = 0, le_printed = True, le_double = (\<lambda>_. ''0'')\<rparr> 3 = Some l
    \<and> log_lines \<lparr>le_opens = (\<lambda>_. True), le_timestamp = ''t'', le_time = 0, le_printed = True, le_double = (\<lambda>_. ''0'')\<rparr>
         (map (\<lambda>t. (int t, 7, ''new'')) [0..<100]) l = Some l'
    \<and> el_out l' = [] \<and> length (el_buf l') = 100"
proof -
  define V where "V = \<lparr>le_opens = (\<lambda>_. True), le_timestamp = ''t'', le_time = 0, le_printed = True, le_double = (\<lambda>_. ''0'')\<rparr>"
  obtain l where l: "EventLog_new V 3 = Some l" "el_fp l = Some ''log/event.log''" "el_out l = []" "el_buf l = []"
    "el_flushInterval l = 3" "el_lastflush l = 0"
    by (simp add: EventLog_new_def Reload_def V_def Let_def)
  let ?xs = "map (\<lambda>t. (int t, 7 :: sid_t, ''new'')) [0..<100]"
  have c: "close_times 3 u (map fst (map (\<lambda>t. (int t, 7 :: sid_t, ''new'')) [m..<n]))" if "int m - u \<le> 3" for u m n
    using that
  proof (induction "n - m" arbitrary: m u)
    case (Suc k)
    then show ?case by (simp add: upt_conv_Cons)
  qed simp
  obtain l' where "log_lines V ?xs l = Some l'" "length (written l') = length (written l) + length ?xs"
    "close_times (el_flushInterval l) (el_lastflush l) (map fst ?xs) \<longrightarrow> el_out l' = el_out l"
    using event_log_flushing [OF l(2), of V ?xs] by (auto simp: V_def)
  then show ?thesis using l c [of 0 0 100] unfolding V_def by (intro exI [of _ l] exI [of _ l']) (simp add: written_def)
qed

end
