(* ===== verification/Rpc_Client.thy ===== *)
theory Rpc_Client
  imports Event_Log Containers
begin

text \<open>
  \<^verbatim>\<open>rpc/client.h\<close> and \<^verbatim>\<open>rpc/client.cc\<close>: calls over one connection, in the thread of an event
  loop. A call is named by the callback it completes, of any type; \<^verbatim>\<open>*st\<close>, \<^verbatim>\<open>*rep\<close> and the
  running of the callback are one effect, \<open>Done\<close>. The loop keeps the calls that were queued
  for it, in order, and the timers that are armed; a timer is named by its \<^verbatim>\<open>TimerId\<close>. What the
  loop and the connection do when is an input: any of them may come at any time.
\<close>

record 'c RpcCall =
  rc_Req :: Request
  rc_Done :: 'c
  rc_Tid :: nat

record 'c RpcClient =
  cl_addr :: string
  cl_closing :: bool
  cl_connected :: bool
  cl_xid :: u64
  cl_pendingCalls :: "(u64, 'c RpcCall) omap"
  cl_callTimeout :: int
  cl_tasks :: "('c \<times> Request) list"
  cl_timers :: "(nat \<times> u64) list"
  cl_nextTimer :: nat

datatype 'c rpc_effect =
    Send 'c Request
  | Done 'c Status "Response option"
  | Connection bool

definition RpcClient_new :: "string \<Rightarrow> 'c RpcClient" where
  "RpcClient_new addr =
     \<lparr>cl_addr = addr, cl_closing = False, cl_connected = False, cl_xid = 0, cl_pendingCalls = [],
      cl_callTimeout = 10000, cl_tasks = [], cl_timers = [], cl_nextTimer = 0\<rparr>"

definition SetCallTimeout :: "int \<Rightarrow> 'c RpcClient \<Rightarrow> 'c RpcClient" where
  "SetCallTimeout t cl = cl\<lparr>cl_callTimeout := t\<rparr>"

definition rpc_Call :: "'c \<Rightarrow> Request \<Rightarrow> 'c RpcClient \<Rightarrow> 'c RpcClient" where
  "rpc_Call done req cl = cl\<lparr>cl_tasks := cl_tasks cl @ [(done, req)]\<rparr>"

definition rpc_callInLoop :: "'c \<Rightarrow> Request \<Rightarrow> 'c RpcClient \<Rightarrow> 'c rpc_effect list \<times> 'c RpcClient" where
  "rpc_callInLoop done req cl =
     (if \<not> cl_connected cl then ([Done done (Disconnect ''not connected'') None], cl)
      else
        (let xid = cl_xid cl;
             req = req\<lparr>rq_xid := xid\<rparr>;
             tid = cl_nextTimer cl;
             call = \<lparr>rc_Req = req, rc_Done = done, rc_Tid = tid\<rparr>
         in ([Send done req],
             cl\<lparr>cl_timers := cl_timers cl @ [(tid, xid)], cl_nextTimer := tid + 1,
                cl_pendingCalls := om_insert xid call (cl_pendingCalls cl), cl_xid := xid + 1\<rparr>)))"

definition cancel_timer :: "nat \<Rightarrow> 'c RpcClient \<Rightarrow> 'c RpcClient" where
  "cancel_timer tid cl = cl\<lparr>cl_timers := filter (\<lambda>t. fst t \<noteq> tid) (cl_timers cl)\<rparr>"

text \<open>\<^verbatim>\<open>CHECK(connected_ == false)\<close>, then every pending call ends, in the order of the numbers.\<close>

definition clearCalls :: "'c RpcClient \<Rightarrow> ('c rpc_effect list \<times> 'c RpcClient) option" where
  "clearCalls cl =
     (if cl_connected cl then None
      else
        (let calls = map snd (cl_pendingCalls cl);
             cl = cl\<lparr>cl_pendingCalls := []\<rparr>
         in Some (map (\<lambda>call. Done (rc_Done call) (Disconnect ''rpc call reset'') None) calls,
                  fold (\<lambda>call. cancel_timer (rc_Tid call)) calls cl)))"

definition rpc_Close :: "'c RpcClient \<Rightarrow> ('c rpc_effect list \<times> 'c RpcClient) option" where
  "rpc_Close cl = clearCalls (cl\<lparr>cl_closing := True, cl_connected := False\<rparr>)"

definition RpcClient_destroy :: "'c RpcClient \<Rightarrow> ('c rpc_effect list \<times> 'c RpcClient) option" where
  "RpcClient_destroy cl = (if \<not> cl_closing cl then rpc_Close cl else Some ([], cl))"

definition rpc_onConnection :: "bool \<Rightarrow> 'c RpcClient \<Rightarrow> ('c rpc_effect list \<times> 'c RpcClient) option" where
  "rpc_onConnection up cl =
     (if \<not> up then clearCalls (cl\<lparr>cl_connected := False\<rparr>)
      else Some ([Connection True], cl\<lparr>cl_connected := True\<rparr>))"

text \<open>\<^verbatim>\<open>message->xid()\<close>: zero when it is not set.\<close>

definition rep_xid :: "Response \<Rightarrow> u64" where
  "rep_xid rep = (case rp_xid rep of None \<Rightarrow> 0 | Some x \<Rightarrow> x)"

definition rpc_onRpcMessage :: "Response \<Rightarrow> 'c RpcClient \<Rightarrow> 'c rpc_effect list \<times> 'c RpcClient" where
  "rpc_onRpcMessage message cl = (case om_find (cl_pendingCalls cl) (rep_xid message) of
       None \<Rightarrow> ([], cl)
     | Some call \<Rightarrow>
         ([Done (rc_Done call) OK (Some message)],
          cancel_timer (rc_Tid call) (cl\<lparr>cl_pendingCalls := om_erase (rep_xid message) (cl_pendingCalls cl)\<rparr>)))"

definition onCallTimeout :: "u64 \<Rightarrow> 'c RpcClient \<Rightarrow> 'c rpc_effect list \<times> 'c RpcClient" where
  "onCallTimeout xid cl = (case om_find (cl_pendingCalls cl) xid of
       None \<Rightarrow> ([], cl)
     | Some call \<Rightarrow>
         ([Done (rc_Done call) (Timeout ''rpc call timeout'') None],
          cl\<lparr>cl_pendingCalls := om_erase xid (cl_pendingCalls cl)\<rparr>))"

subsection \<open>Runs\<close>

datatype 'c rpc_input =
    In_call 'c Request
  | In_task
  | In_connection bool
  | In_message Response
  | In_timer nat
  | In_close
  | In_destroy

definition rpc_step :: "'c rpc_input \<Rightarrow> 'c RpcClient \<Rightarrow> ('c rpc_effect list \<times> 'c RpcClient) option" where
  "rpc_step x cl = (case x of
       In_call done req \<Rightarrow> Some ([], rpc_Call done req cl)
     | In_task \<Rightarrow> (case cl_tasks cl of
           [] \<Rightarrow> Some ([], cl)
         | (done, req) # rest \<Rightarrow> Some (rpc_callInLoop done req (cl\<lparr>cl_tasks := rest\<rparr>)))
     | In_connection b \<Rightarrow> rpc_onConnection b cl
     | In_message rep \<Rightarrow> Some (rpc_onRpcMessage rep cl)
     | In_timer tid \<Rightarrow> (case map_of (cl_timers cl) tid of
           None \<Rightarrow> Some ([], cl)
         | Some xid \<Rightarrow> Some (onCallTimeout xid (cancel_timer tid cl)))
     | In_close \<Rightarrow> rpc_Close cl
     | In_destroy \<Rightarrow> RpcClient_destroy cl)"

fun rpc_run :: "'c rpc_input list \<Rightarrow> 'c RpcClient \<Rightarrow> ('c rpc_effect list \<times> 'c RpcClient) option" where
  "rpc_run [] cl = Some ([], cl)"
| "rpc_run (x # xs) cl = do {
     (es, cl) \<leftarrow> rpc_step x cl;
     (fs, cl) \<leftarrow> rpc_run xs cl;
     Some (es @ fs, cl) }"

text \<open>The calls made, the calls ended, and the calls still on their way.\<close>

fun called :: "'c rpc_input list \<Rightarrow> 'c list" where
  "called [] = []"
| "called (In_call c req # xs) = c # called xs"
| "called (_ # xs) = called xs"

fun ended :: "'c rpc_effect list \<Rightarrow> 'c list" where
  "ended [] = []"
| "ended (Done c st rep # es) = c # ended es"
| "ended (_ # es) = ended es"

definition open_calls :: "'c RpcClient \<Rightarrow> 'c multiset" where
  "open_calls cl = mset (map fst (cl_tasks cl)) + mset (map (\<lambda>e. rc_Done (snd e)) (cl_pendingCalls cl))"

subsection \<open>The invariant\<close>

text \<open>Every pending call has its timer, and only they; numbers are given out in increasing order.\<close>

definition rpc_inv :: "'c RpcClient \<Rightarrow> bool" where
  "rpc_inv cl \<longleftrightarrow> om_invar (cl_pendingCalls cl)
     \<and> cl_timers cl = map (\<lambda>e. (rc_Tid (snd e), fst e)) (cl_pendingCalls cl)
     \<and> distinct (map (\<lambda>e. rc_Tid (snd e)) (cl_pendingCalls cl))
     \<and> (\<forall>e \<in> set (cl_pendingCalls cl). rc_Tid (snd e) < cl_nextTimer cl)
     \<and> (\<forall>e \<in> set (cl_pendingCalls cl). fst e < cl_xid cl)"

lemma rpc_inv_new [simp]: "rpc_inv (RpcClient_new addr)"
  by (simp add: rpc_inv_def RpcClient_new_def)

text \<open>What has happened, \<open>past\<close>: the numbers sent are all different and below the next one; a pending
  call has been sent with its number; an answer was given to the call that was sent with the
  number of the response.\<close>

fun sent :: "'c rpc_effect list \<Rightarrow> Request list" where
  "sent [] = []"
| "sent (Send c req # es) = req # sent es"
| "sent (_ # es) = sent es"

definition matched :: "'c rpc_effect list \<Rightarrow> bool" where
  "matched = preceded (\<lambda>past e. case e of
       Done c st (Some rep) \<Rightarrow> \<exists>req. Send c req \<in> set past \<and> rq_xid req = rep_xid rep
     | _ \<Rightarrow> True)"

definition rpc_hist :: "'c rpc_effect list \<Rightarrow> 'c RpcClient \<Rightarrow> bool" where
  "rpc_hist past cl \<longleftrightarrow> rpc_inv cl
     \<and> (\<forall>e \<in> set (cl_pendingCalls cl). Send (rc_Done (snd e)) (rc_Req (snd e)) \<in> set past \<and> rq_xid (rc_Req (snd e)) = fst e)
     \<and> (\<forall>req \<in> set (sent past). rq_xid req < cl_xid cl)
     \<and> distinct (map rq_xid (sent past)) \<and> matched past"

lemma sent_append [simp]: "sent (a @ b) = sent a @ sent b"
  by (induction a rule: sent.induct) auto

lemma ended_append [simp]: "ended (a @ b) = ended a @ ended b"
  by (induction a rule: ended.induct) auto

lemma matched_append:
  assumes "matched past"
    and "\<And>c st rep. Done c st (Some rep) \<in> set es \<Longrightarrow> \<exists>req. Send c req \<in> set past \<and> rq_xid req = rep_xid rep"
  shows "matched (past @ es)"
  using assms unfolding matched_def
  by (intro preceded_append) (auto split: rpc_effect.split option.split dest!: assms(2))

lemma rpc_histD:
  assumes "rpc_hist past cl"
  shows "rpc_inv cl" "matched past"
    and "(x, call) \<in> set (cl_pendingCalls cl) \<Longrightarrow> Send (rc_Done call) (rc_Req call) \<in> set past \<and> rq_xid (rc_Req call) = x"
  using assms by (auto simp: rpc_hist_def)

subsection \<open>The operations keep it\<close>

definition accounts :: "'c list \<Rightarrow> 'c RpcClient \<Rightarrow> 'c rpc_effect list \<Rightarrow> 'c RpcClient \<Rightarrow> bool" where
  "accounts new cl es cl' \<longleftrightarrow> mset new + open_calls cl = mset (ended es) + open_calls cl'"

lemma rpc_callInLoop_hist:
  assumes h: "rpc_hist past cl" and x: "unat (cl_xid cl) < 2 ^ 64 - 1" and r: "rpc_callInLoop done req cl = (es, cl')"
  shows "rpc_hist (past @ es) cl' \<and> unat (cl_xid cl') \<le> unat (cl_xid cl) + 1 \<and> accounts [done] cl es cl'"
proof (cases "cl_connected cl")
  case False
  with h r show ?thesis by (auto simp: rpc_callInLoop_def rpc_hist_def accounts_def intro: matched_append)
next
  case True
  let ?x = "cl_xid cl" and ?t = "cl_nextTimer cl"
  define req' where "req' = req\<lparr>rq_xid := ?x\<rparr>"
  define call where "call = \<lparr>rc_Req = req', rc_Done = done, rc_Tid = ?t\<rparr>"
  have inv: "rpc_inv cl" using rpc_histD [OF h] by simp
  then have below: "fst e < ?x" if "e \<in> set (cl_pendingCalls cl)" for e using that by (simp add: rpc_inv_def)
  then have "om_find (cl_pendingCalls cl) ?x = None"
    by (metis om_find_set fst_conv not_None_eq order_less_irrefl)
  then have ins: "om_insert ?x call (cl_pendingCalls cl) = cl_pendingCalls cl @ [(?x, call)]"
    using om_put_greatest [of "cl_pendingCalls cl" ?x call] below by (simp add: om_insert_def)
  have es: "es = [Send done req']" and cl': "cl' = cl\<lparr>cl_timers := cl_timers cl @ [(?t, ?x)], cl_nextTimer := ?t + 1,
      cl_pendingCalls := cl_pendingCalls cl @ [(?x, call)], cl_xid := ?x + 1\<rparr>"
    using r True by (simp_all add: rpc_callInLoop_def Let_def ins flip: req'_def call_def)
  have u: "unat (?x + 1) = unat ?x + 1" using x by (simp add: unat_word_ariths)
  then have gt: "?x < ?x + 1" by (simp add: word_less_nat_alt)
  have lt: "k < ?x + 1" if "k < ?x" for k using that gt by (rule order_less_trans)
  have "om_invar (cl_pendingCalls cl @ [(?x, call)])" using om_invar_insert [of _ ?x call] inv ins
    by (metis rpc_inv_def)
  moreover have "rc_Tid b \<noteq> ?t \<and> rc_Tid b < Suc ?t" if "(a, b) \<in> set (cl_pendingCalls cl)" for a b
    using inv that by (fastforce simp: rpc_inv_def)
  ultimately have "rpc_inv cl'" using inv below gt lt unfolding cl' rpc_inv_def by (fastforce simp: call_def)
  moreover have "rq_xid req' = ?x" by (simp add: req'_def)
  moreover have "matched (past @ es)" using h es by (intro matched_append) (auto simp: rpc_hist_def)
  ultimately have "rpc_hist (past @ es) cl'"
    using h gt lt by (fastforce simp: rpc_hist_def cl' es call_def)
  moreover have "accounts [done] cl es cl'" by (simp add: accounts_def es cl' open_calls_def call_def)
  ultimately show ?thesis using u by (simp add: cl')
qed

lemma fold_cancel_timer:
  "fold (\<lambda>call. cancel_timer (rc_Tid call)) calls cl =
     cl\<lparr>cl_timers := filter (\<lambda>t. fst t \<notin> rc_Tid ` set calls) (cl_timers cl)\<rparr>"
  by (induction calls arbitrary: cl) (auto simp: cancel_timer_def intro!: filter_cong arg_cong [where f = "\<lambda>t. cl_timers_update (\<lambda>_. t) cl" for cl])

lemma clearCalls_hist:
  assumes h: "rpc_hist past cl" and d: "\<not> cl_connected cl"
  shows "\<exists>es cl'. clearCalls cl = Some (es, cl') \<and> rpc_hist (past @ es) cl' \<and> cl_xid cl' = cl_xid cl \<and> accounts [] cl es cl'
    \<and> cl_pendingCalls cl' = [] \<and> cl_tasks cl' = cl_tasks cl \<and> \<not> cl_connected cl'"
proof -
  let ?es = "map (\<lambda>call. Done (rc_Done call) (Disconnect ''rpc call reset'') None) (map snd (cl_pendingCalls cl))"
  let ?cl = "cl\<lparr>cl_pendingCalls := [], cl_timers := []\<rparr>"
  have "cl_timers cl = map (\<lambda>e. (rc_Tid (snd e), fst e)) (cl_pendingCalls cl)" using h by (simp add: rpc_hist_def rpc_inv_def)
  then have "filter (\<lambda>t. fst t \<notin> rc_Tid ` set (map snd (cl_pendingCalls cl))) (cl_timers cl) = []"
    by (auto simp: filter_empty_conv)
  then have r: "clearCalls cl = Some (?es, ?cl)" using d by (simp add: clearCalls_def Let_def fold_cancel_timer)
  have s: "sent (map (\<lambda>c. Done (rc_Done c) st None) (cs :: 'a RpcCall list)) = []" for cs st by (induction cs) auto
  have e: "ended (map (\<lambda>c. Done (rc_Done c) st None) cs) = map rc_Done (cs :: 'a RpcCall list)" for cs st by (induction cs) auto
  have "matched (past @ ?es)" using h by (intro matched_append) (auto simp: rpc_hist_def)
  then have "rpc_hist (past @ ?es) ?cl" using h s [of _ "map snd (cl_pendingCalls cl)"] by (simp add: rpc_hist_def rpc_inv_def)
  moreover have "accounts [] cl ?es ?cl"
    using e [of _ "map snd (cl_pendingCalls cl)"] by (simp add: accounts_def open_calls_def comp_def)
  ultimately show ?thesis using r d by simp
qed

lemma erase_call:
  assumes inv: "rpc_inv cl" and f: "om_find (cl_pendingCalls cl) x = Some call"
    and cl': "cl' = cancel_timer (rc_Tid call) (cl\<lparr>cl_pendingCalls := om_erase x (cl_pendingCalls cl)\<rparr>)"
  shows "rpc_inv cl'" and "open_calls cl = add_mset (rc_Done call) (open_calls cl')"
proof -
  let ?P = "cl_pendingCalls cl"
  have P: "om_invar ?P" "cl_timers cl = map (\<lambda>e. (rc_Tid (snd e), fst e)) ?P" "distinct (map (\<lambda>e. rc_Tid (snd e)) ?P)"
    using inv unfolding rpc_inv_def by blast+
  have mem: "(x, call) \<in> set ?P" using om_find_set [OF f] .
  have "inj_on (\<lambda>e. rc_Tid (snd e)) (set ?P)" using P(3) by (simp add: distinct_map)
  then have iff: "rc_Tid (snd e) \<noteq> rc_Tid call \<longleftrightarrow> fst e \<noteq> x" if "e \<in> set ?P" for e
    using that mem P(1) by (metis (no_types, lifting) fst_conv inj_on_def om_find_iff option.inject prod.collapse snd_conv)
  have t: "cl_timers cl' = map (\<lambda>e. (rc_Tid (snd e), fst e)) (om_erase x ?P)"
    unfolding cl' cancel_timer_def om_erase_def by (simp add: P(2) filter_map comp_def iff cong: filter_cong)
  have p: "cl_pendingCalls cl' = om_erase x ?P" "cl_nextTimer cl' = cl_nextTimer cl" "cl_xid cl' = cl_xid cl"
    by (simp_all add: cl' cancel_timer_def)
  have "distinct (map (\<lambda>e. rc_Tid (snd e)) (om_erase x ?P))" using P(3) by (simp add: om_erase_def distinct_map_filter)
  then show "rpc_inv cl'" using inv t p om_invar_erase [OF P(1)] unfolding rpc_inv_def om_erase_def by simp
  show "open_calls cl = add_mset (rc_Done call) (open_calls cl')"
    using om_erase_mset [OF P(1) f] by (simp add: cl' open_calls_def cancel_timer_def)
qed

lemma end_call_hist:
  assumes h: "rpc_hist past cl" and f: "om_find (cl_pendingCalls cl) x = Some call"
    and cl': "cl' = cancel_timer (rc_Tid call) (cl\<lparr>cl_pendingCalls := om_erase x (cl_pendingCalls cl)\<rparr>)"
    and rep: "\<And>r. rep = Some r \<Longrightarrow> rep_xid r = x"
  shows "rpc_hist (past @ [Done (rc_Done call) st rep]) cl' \<and> cl_xid cl' = cl_xid cl \<and> accounts [] cl [Done (rc_Done call) st rep] cl'"
proof -
  let ?es = "[Done (rc_Done call) st rep]"
  note c = rpc_histD(3) [OF h om_find_set [OF f]]
  have "matched (past @ ?es)"
    using rpc_histD(2) [OF h] rep c by (intro matched_append) auto
  moreover have "set (cl_pendingCalls cl') \<subseteq> set (cl_pendingCalls cl)" by (auto simp: cl' om_erase_def cancel_timer_def)
  ultimately have "rpc_hist (past @ ?es) cl'"
    using h erase_call(1) [OF rpc_histD(1) [OF h] f cl'] unfolding rpc_hist_def
    by (auto simp: cl' cancel_timer_def)
  then show ?thesis using erase_call(2) [OF rpc_histD(1) [OF h] f cl']
    by (simp add: accounts_def cl' cancel_timer_def)
qed

lemma rpc_hist_fields:
  assumes "rpc_hist past cl"
  shows "rpc_hist past (cl\<lparr>cl_connected := b\<rparr>)" "rpc_hist past (cl\<lparr>cl_closing := b\<rparr>)"
    "rpc_hist past (cl\<lparr>cl_tasks := ts\<rparr>)"
  using assms unfolding rpc_hist_def rpc_inv_def by simp_all

lemma rpc_hist_connection:
  assumes "rpc_hist past cl" shows "rpc_hist (past @ [Connection b]) cl"
  using assms matched_append [of past "[Connection b]"] by (auto simp: rpc_hist_def)

lemma rpc_Close_hist:
  assumes "rpc_hist past cl"
  shows "\<exists>es cl'. rpc_Close cl = Some (es, cl') \<and> rpc_hist (past @ es) cl' \<and> cl_xid cl' = cl_xid cl \<and> accounts [] cl es cl'
    \<and> cl_pendingCalls cl' = [] \<and> cl_tasks cl' = cl_tasks cl \<and> \<not> cl_connected cl'"
  using clearCalls_hist [of past "cl\<lparr>cl_closing := True, cl_connected := False\<rparr>"] rpc_hist_fields [OF assms]
    rpc_hist_fields(1) [OF rpc_hist_fields(2) [OF assms]]
  by (simp add: rpc_Close_def accounts_def open_calls_def)

lemma rpc_timer_hist:
  assumes h: "rpc_hist past cl" and t: "map_of (cl_timers cl) tid = Some xid"
  obtains call where "om_find (cl_pendingCalls cl) xid = Some call" "rc_Tid call = tid"
    "onCallTimeout xid (cancel_timer tid cl) = ([Done (rc_Done call) (Timeout ''rpc call timeout'') None],
       cancel_timer (rc_Tid call) (cl\<lparr>cl_pendingCalls := om_erase xid (cl_pendingCalls cl)\<rparr>))"
proof -
  have "(tid, xid) \<in> set (cl_timers cl)" using t by (rule map_of_SomeD)
  moreover have P: "om_invar (cl_pendingCalls cl)" "cl_timers cl = map (\<lambda>e. (rc_Tid (snd e), fst e)) (cl_pendingCalls cl)"
    using rpc_histD(1) [OF h] unfolding rpc_inv_def by blast+
  ultimately obtain call where c: "(xid, call) \<in> set (cl_pendingCalls cl)" "rc_Tid call = tid" by auto
  then have "om_find (cl_pendingCalls cl) xid = Some call" using om_find_iff [OF P(1)] by simp
  then show thesis using that c(2) by (simp add: onCallTimeout_def cancel_timer_def)
qed

lemma rpc_step_hist:
  assumes h: "rpc_hist past cl" and x: "unat (cl_xid cl) < 2 ^ 64 - 1"
  shows "\<exists>es cl'. rpc_step i cl = Some (es, cl') \<and> rpc_hist (past @ es) cl' \<and> unat (cl_xid cl') \<le> unat (cl_xid cl) + 1
    \<and> accounts (called [i]) cl es cl'"
proof (cases i)
  case (In_call c req)
  then show ?thesis using rpc_hist_fields(3) [OF h] by (simp add: rpc_step_def rpc_Call_def accounts_def open_calls_def)
next
  case In_task
  show ?thesis
  proof (cases "cl_tasks cl")
    case (Cons t rest)
    obtain c req where t: "t = (c, req)" by (cases t)
    obtain es cl' where r: "rpc_callInLoop c req (cl\<lparr>cl_tasks := rest\<rparr>) = (es, cl')" by (cases "rpc_callInLoop c req (cl\<lparr>cl_tasks := rest\<rparr>)")
    from rpc_callInLoop_hist [OF rpc_hist_fields(3) [OF h] _ r] x
    show ?thesis by (simp add: In_task rpc_step_def Cons t r accounts_def open_calls_def)
  qed (use h in \<open>simp add: In_task rpc_step_def accounts_def\<close>)
next
  case (In_connection b)
  show ?thesis
  proof (cases b)
    case True
    then show ?thesis using rpc_hist_connection [OF rpc_hist_fields(1) [OF h]]
      by (simp add: In_connection rpc_step_def rpc_onConnection_def accounts_def open_calls_def)
  next
    case False
    then show ?thesis using clearCalls_hist [OF rpc_hist_fields(1) [OF h, of False]]
      by (auto simp: In_connection rpc_step_def rpc_onConnection_def accounts_def open_calls_def)
  qed
next
  case (In_message rep)
  show ?thesis
  proof (cases "om_find (cl_pendingCalls cl) (rep_xid rep)")
    case None
    then show ?thesis using h by (simp add: In_message rpc_step_def rpc_onRpcMessage_def accounts_def)
  next
    case (Some call)
    then show ?thesis using end_call_hist [OF h Some refl, of "Some rep" OK]
      by (simp add: In_message rpc_step_def rpc_onRpcMessage_def)
  qed
next
  case (In_timer tid)
  show ?thesis
  proof (cases "map_of (cl_timers cl) tid")
    case None
    then show ?thesis using h by (simp add: In_timer rpc_step_def accounts_def)
  next
    case (Some xid)
    from rpc_timer_hist [OF h Some] obtain call where c: "om_find (cl_pendingCalls cl) xid = Some call"
      "onCallTimeout xid (cancel_timer tid cl) = ([Done (rc_Done call) (Timeout ''rpc call timeout'') None],
         cancel_timer (rc_Tid call) (cl\<lparr>cl_pendingCalls := om_erase xid (cl_pendingCalls cl)\<rparr>))" by blast
    then show ?thesis using end_call_hist [OF h c(1) refl, of None "Timeout ''rpc call timeout''"]
      by (simp add: In_timer rpc_step_def Some)
  qed
next
  case In_close
  then show ?thesis using rpc_Close_hist [OF h] by (auto simp: rpc_step_def)
next
  case In_destroy
  then show ?thesis using rpc_Close_hist [OF h] h by (auto simp: rpc_step_def RpcClient_destroy_def accounts_def)
qed

lemma called_Cons: "called (i # is) = called [i] @ called is"
  by (cases i) simp_all

lemma rpc_run_hist:
  assumes "rpc_hist past cl" and "unat (cl_xid cl) + length is < 2 ^ 64"
  shows "\<exists>es cl'. rpc_run is cl = Some (es, cl') \<and> rpc_hist (past @ es) cl' \<and> unat (cl_xid cl') \<le> unat (cl_xid cl) + length is
    \<and> accounts (called is) cl es cl'"
  using assms
proof (induction "is" arbitrary: past cl)
  case Nil
  then show ?case by (simp add: accounts_def)
next
  case (Cons i "is")
  then have "unat (cl_xid cl) < 2 ^ 64 - 1" by simp
  from rpc_step_hist [OF Cons.prems(1) this, of i] obtain es cl1 where
    1: "rpc_step i cl = Some (es, cl1)" "rpc_hist (past @ es) cl1" "unat (cl_xid cl1) \<le> unat (cl_xid cl) + 1"
      "accounts (called [i]) cl es cl1" by blast
  have "unat (cl_xid cl1) + length is < 2 ^ 64" using 1(3) Cons.prems(2) by simp
  from Cons.IH [OF 1(2) this] obtain fs cl2 where
    2: "rpc_run is cl1 = Some (fs, cl2)" "rpc_hist ((past @ es) @ fs) cl2"
      "unat (cl_xid cl2) \<le> unat (cl_xid cl1) + length is" "accounts (called is) cl1 fs cl2" by blast
  have "accounts (called (i # is)) cl (es @ fs) cl2"
    using 1(4) 2(4) unfolding accounts_def called_Cons [of i "is"] by (simp add: ac_simps) (metis union_assoc union_commute)
  then show ?case using 1 2 by simp
qed

lemma timer_of_call:
  assumes h: "rpc_hist past cl" and f: "om_find (cl_pendingCalls cl) x = Some call"
  shows "\<exists>cl'. rpc_step (In_timer (rc_Tid call)) cl = Some ([Done (rc_Done call) (Timeout ''rpc call timeout'') None], cl')"
proof -
  have P: "cl_timers cl = map (\<lambda>e. (rc_Tid (snd e), fst e)) (cl_pendingCalls cl)" "distinct (map (\<lambda>e. rc_Tid (snd e)) (cl_pendingCalls cl))"
    using rpc_histD(1) [OF h] unfolding rpc_inv_def by blast+
  have m: "map_of (cl_timers cl) (rc_Tid call) = Some x"
    using P om_find_set [OF f] by (intro map_of_is_SomeI) (auto simp: comp_def image_iff intro!: bexI [of _ "(x, call)"])
  obtain call' where "om_find (cl_pendingCalls cl) x = Some call'"
    "onCallTimeout x (cancel_timer (rc_Tid call) cl) = ([Done (rc_Done call') (Timeout ''rpc call timeout'') None],
       cancel_timer (rc_Tid call') (cl\<lparr>cl_pendingCalls := om_erase x (cl_pendingCalls cl)\<rparr>))"
    by (rule rpc_timer_hist [OF h m])
  then show ?thesis using f m by (simp add: rpc_step_def)
qed

text \<open>Without a connection the queued calls end at once.\<close>

lemma rpc_run_tasks:
  assumes "\<not> cl_connected cl" "cl_pendingCalls cl = []" "length (cl_tasks cl) = n"
  shows "\<exists>fs cl'. rpc_run (replicate n In_task) cl = Some (fs, cl') \<and> open_calls cl' = {#}"
  using assms
proof (induction n arbitrary: cl)
  case 0
  then show ?case by (simp add: open_calls_def)
next
  case (Suc n)
  then obtain c req rest where t: "cl_tasks cl = (c, req) # rest" by (cases "cl_tasks cl") auto
  with Suc.IH [of "cl\<lparr>cl_tasks := rest\<rparr>"] Suc.prems show ?case
    by (auto simp: rpc_step_def rpc_callInLoop_def)
qed

text \<open>
  C14. Every call over a connection completes exactly once. In every run, whatever the order of
  calls, answers, timers, lost connections and closes: no \<^verbatim>\<open>CHECK\<close> fails; the calls made are those that
  completed and those still on their way; no two requests carry the same number; a response
  completes the call whose request carried its number; each call that was sent has a timer that
  ends it; and closing the client ends whatever is left. The numbers do not wrap before
  \<open>2 ^ 64\<close> steps.
\<close>

theorem rpc_calls_once:
  assumes "length is < 2 ^ 64"
  shows "\<exists>es cl. rpc_run is (RpcClient_new addr) = Some (es, cl)
    \<and> mset (called is) = mset (ended es) + open_calls cl
    \<and> distinct (map rq_xid (sent es)) \<and> matched es
    \<and> (\<forall>x call. om_find (cl_pendingCalls cl) x = Some call \<longrightarrow>
         (\<exists>cl'. rpc_step (In_timer (rc_Tid call)) cl = Some ([Done (rc_Done call) (Timeout ''rpc call timeout'') None], cl')))
    \<and> (\<exists>fs cl'. rpc_run (In_close # replicate (length (cl_tasks cl)) In_task) cl = Some (fs, cl') \<and> open_calls cl' = {#})"
proof -
  have new: "rpc_hist [] (RpcClient_new addr :: 'a RpcClient)"
    by (simp add: rpc_hist_def matched_def) (simp add: RpcClient_new_def)
  have "unat (cl_xid (RpcClient_new addr :: 'a RpcClient)) + length is < 2 ^ 64" using assms by (simp add: RpcClient_new_def)
  from rpc_run_hist [OF new this] obtain es cl where r: "rpc_run is (RpcClient_new addr) = Some (es, cl)" "rpc_hist es cl"
    "accounts (called is) (RpcClient_new addr) es cl" by auto
  from rpc_Close_hist [OF r(2)] obtain fs cl1 where c: "rpc_Close cl = Some (fs, cl1)" "cl_pendingCalls cl1 = []"
    "cl_tasks cl1 = cl_tasks cl" "\<not> cl_connected cl1" by blast
  from rpc_run_tasks [OF c(4,2)] c(3) obtain gs cl2 where "rpc_run (replicate (length (cl_tasks cl)) In_task) cl1 = Some (gs, cl2)" "open_calls cl2 = {#}"
    by fastforce
  then have "\<exists>fs cl'. rpc_run (In_close # replicate (length (cl_tasks cl)) In_task) cl = Some (fs, cl') \<and> open_calls cl' = {#}"
    using c(1) by (simp add: rpc_step_def)
  moreover have "mset (called is) = mset (ended es) + open_calls cl"
    using r(3) by (simp add: accounts_def open_calls_def RpcClient_new_def)
  moreover have "distinct (map rq_xid (sent es)) \<and> matched es" using r(2) by (simp add: rpc_hist_def)
  ultimately show ?thesis using r(1) timer_of_call [OF r(2)] by blast
qed

theorem rpc_calls_once_witness:
  "\<exists>es cl. rpc_run [In_connection True, In_call ''ping'' Request_default, In_task, In_call ''read'' Request_default, In_task,
       In_message (Response_default\<lparr>rp_xid := Some 1\<rparr>), In_connection False] (RpcClient_new ''h:1'') = Some (es, cl)
     \<and> mset (ended es) = {#''ping'', ''read''#} \<and> matched es \<and> Done ''read'' OK (Some (Response_default\<lparr>rp_xid := Some 1\<rparr>)) \<in> set es"
proof -
  let ?is = "[In_connection True, In_call ''ping'' Request_default, In_task, In_call ''read'' Request_default, In_task,
       In_message (Response_default\<lparr>rp_xid := Some 1\<rparr>), In_connection False]"
  obtain es cl where r: "rpc_run ?is (RpcClient_new ''h:1'') = Some (es, cl)" "matched es" "mset (called ?is) = mset (ended es) + open_calls cl"
    using rpc_calls_once [of ?is "''h:1''"] by auto
  have "cl_pendingCalls cl = [] \<and> cl_tasks cl = [] \<and> Done ''read'' OK (Some (Response_default\<lparr>rp_xid := Some 1\<rparr>)) \<in> set es"
    using r(1) by (auto simp: rpc_step_def rpc_onConnection_def RpcClient_new_def rpc_Call_def rpc_callInLoop_def Let_def
        rpc_onRpcMessage_def rep_xid_def clearCalls_def om_insert_def om_erase_def cancel_timer_def)
  then show ?thesis using r by (auto simp: open_calls_def)
qed

end
