(* ===== verification/Rpc_Server.thy ===== *)
theory Rpc_Server
  imports Event_Log
begin

text \<open>
  \<^verbatim>\<open>rpc/server.cc\<close>, \<^verbatim>\<open>rpc/session.cc\<close> and \<^verbatim>\<open>server/rpc_service.cc\<close>: how requests come in and
  responses go out. A connection is a number; its session is the object that the table
  \<^verbatim>\<open>sessions_\<close> keeps alive, and a \<^verbatim>\<open>weak_ptr\<close> to it can be locked as long as it is in the table.
  A closure that has not run yet is its session and its call, under the number by which the
  event names it.
\<close>

record RpcCallInfo =
  ca_Start :: timestamp
  ca_Addr :: string
  ca_Req :: Request

record RpcServer =
  rs_sid :: u64
  rs_sessions :: "(u64, nat) omap"
  rs_context :: "(nat, u64) omap"
  rs_calls :: "(nat, nat \<times> RpcCallInfo) omap"
  rs_nextConn :: nat
  rs_nextDone :: nat

datatype rs_effect =
    R_receive nat Event
  | R_send nat nat Response
  | R_log string Request Response rat

definition RpcServer_new :: RpcServer where
  "RpcServer_new = \<lparr>rs_sid = 0, rs_sessions = [], rs_context = [], rs_calls = [], rs_nextConn = 0, rs_nextDone = 0\<rparr>"

definition rs_lock :: "RpcServer \<Rightarrow> nat \<Rightarrow> bool" where
  "rs_lock rs conn \<longleftrightarrow> conn \<in> set (map snd (rs_sessions rs))"

text \<open>\<^verbatim>\<open>Server::onConnection\<close>; \<^verbatim>\<open>any_cast\<close> throws on a connection without a context.\<close>

definition rs_onConnection :: "nat \<Rightarrow> bool \<Rightarrow> RpcServer \<Rightarrow> RpcServer option" where
  "rs_onConnection conn up rs =
     (if up then
        Some (rs\<lparr>rs_context := om_put conn (rs_sid rs) (rs_context rs),
                 rs_sessions := om_insert (rs_sid rs) conn (rs_sessions rs),
                 rs_sid := rs_sid rs + 1\<rparr>)
      else (case om_find (rs_context rs) conn of
         None \<Rightarrow> None
       | Some sid \<Rightarrow> Some (rs\<lparr>rs_sessions := om_erase sid (rs_sessions rs)\<rparr>)))"

definition rs_onRpcMessage :: "timestamp \<Rightarrow> nat \<Rightarrow> string \<Rightarrow> Request \<Rightarrow> RpcServer \<Rightarrow> Event \<times> RpcServer" where
  "rs_onRpcMessage now conn ip message rs =
     (let call = \<lparr>ca_Start = now, ca_Addr = c_str ip, ca_Req = message\<rparr>;
          done = rs_nextDone rs
      in (\<lparr>ev_Req = message, ev_Rep = Response_default, ev_Addr = c_str ip, ev_done = done\<rparr>,
          rs\<lparr>rs_nextDone := done + 1, rs_calls := om_put done (conn, call) (rs_calls rs)\<rparr>))"

text \<open>\<^verbatim>\<open>onRpcDone\<close>, when the closure \<open>done\<close> runs with the response in its final form. A closure runs
  once and deletes itself.\<close>

definition rs_onRpcDone ::
  "(timestamp \<Rightarrow> timestamp \<Rightarrow> rat) \<Rightarrow> timestamp \<Rightarrow> nat \<Rightarrow> Response \<Rightarrow> RpcServer \<Rightarrow> rs_effect list \<times> RpcServer" where
  "rs_onRpcDone timeDifference now done rep rs = (case om_find (rs_calls rs) done of
       None \<Rightarrow> ([], rs)
     | Some (conn, call) \<Rightarrow>
         (let rs = rs\<lparr>rs_calls := om_erase done (rs_calls rs)\<rparr> in
          if rs_lock rs conn then
            (let rep = rep\<lparr>rp_xid := Some (rq_xid (ca_Req call))\<rparr>;
                 used = timeDifference now (ca_Start call)
             in ([R_send done conn rep, R_log (ca_Addr call) (ca_Req call) rep used], rs))
          else ([], rs)))"

text \<open>\<^verbatim>\<open>RpcServiceImpl::Call\<close>, the same service over the other transport: its response has the
  number from the start.\<close>

definition RpcService_Call :: "Request \<Rightarrow> Response \<Rightarrow> nat \<Rightarrow> string \<Rightarrow> Event" where
  "RpcService_Call req rep done RemoteAddress =
     \<lparr>ev_Req = req, ev_Rep = rep\<lparr>rp_xid := Some (rq_xid req)\<rparr>, ev_Addr = RemoteAddress, ev_done = done\<rparr>"

subsection \<open>Runs\<close>

text \<open>A connection comes up, a message arrives on one that is up, one goes down, a closure runs.\<close>

datatype rs_input =
    R_connect
  | R_message timestamp nat string Request
  | R_down nat
  | R_done timestamp nat Response

definition rs_step ::
  "(timestamp \<Rightarrow> timestamp \<Rightarrow> rat) \<Rightarrow> rs_input \<Rightarrow> RpcServer \<Rightarrow> (rs_effect list \<times> RpcServer) option" where
  "rs_step td i rs = (case i of
       R_connect \<Rightarrow> do {
         rs \<leftarrow> rs_onConnection (rs_nextConn rs) True rs;
         Some ([], rs\<lparr>rs_nextConn := rs_nextConn rs + 1\<rparr>) }
     | R_message now conn ip req \<Rightarrow>
         if rs_lock rs conn then
           (case rs_onRpcMessage now conn ip req rs of (e, rs) \<Rightarrow> Some ([R_receive conn e], rs))
         else Some ([], rs)
     | R_down conn \<Rightarrow>
         if rs_lock rs conn then do { rs \<leftarrow> rs_onConnection conn False rs; Some ([], rs) }
         else Some ([], rs)
     | R_done now done rep \<Rightarrow> Some (rs_onRpcDone td now done rep rs))"

fun rs_run ::
  "(timestamp \<Rightarrow> timestamp \<Rightarrow> rat) \<Rightarrow> rs_input list \<Rightarrow> RpcServer \<Rightarrow> (rs_effect list \<times> RpcServer) option" where
  "rs_run td [] rs = Some ([], rs)"
| "rs_run td (i # is) rs = do {
     (es, rs) \<leftarrow> rs_step td i rs;
     (fs, rs) \<leftarrow> rs_run td is rs;
     Some (es @ fs, rs) }"

text \<open>The connections that are up, when \<open>n\<close> have come before.\<close>

fun up_conns :: "rs_input list \<Rightarrow> nat \<Rightarrow> nat set \<Rightarrow> nat set" where
  "up_conns [] n U = U"
| "up_conns (R_connect # is) n U = up_conns is (n + 1) (insert n U)"
| "up_conns (R_down c # is) n U = up_conns is n (U - {c})"
| "up_conns (_ # is) n U = up_conns is n U"

subsection \<open>The sessions are those of the connections that are up\<close>

definition rs_inv :: "RpcServer \<Rightarrow> bool" where
  "rs_inv rs \<longleftrightarrow> om_invar (rs_sessions rs) \<and> om_invar (rs_calls rs)
     \<and> distinct (map snd (rs_sessions rs))
     \<and> (\<forall>e \<in> set (rs_sessions rs). fst e < rs_sid rs \<and> snd e < rs_nextConn rs \<and> om_find (rs_context rs) (snd e) = Some (fst e))
     \<and> (\<forall>e \<in> set (rs_calls rs). fst e < rs_nextDone rs)"

lemma rs_connect:
  assumes "rs_inv rs" "unat (rs_sid rs) < 2 ^ 64 - 1"
  obtains rs' where "rs_step td R_connect rs = Some ([], rs')" "rs_inv rs'" "rs_calls rs' = rs_calls rs"
    "rs_nextDone rs' = rs_nextDone rs" "rs_nextConn rs' = rs_nextConn rs + 1"
    "unat (rs_sid rs') = unat (rs_sid rs) + 1" "Collect (rs_lock rs') = insert (rs_nextConn rs) (Collect (rs_lock rs))"
proof -
  let ?s = "rs_sid rs" and ?n = "rs_nextConn rs" and ?S = "rs_sessions rs"
  have I: "\<forall>e \<in> set ?S. fst e < ?s \<and> snd e < ?n \<and> om_find (rs_context rs) (snd e) = Some (fst e)"
    using assms(1) unfolding rs_inv_def by blast
  then have "om_find ?S ?s = None" by (metis om_find_set fst_conv not_None_eq order_less_irrefl)
  then have ins: "om_insert ?s ?n ?S = ?S @ [(?s, ?n)]" using om_put_greatest [of ?S ?s ?n] I by (simp add: om_insert_def)
  define rs' where "rs' = rs\<lparr>rs_context := om_put ?n ?s (rs_context rs), rs_sessions := ?S @ [(?s, ?n)], rs_sid := ?s + 1, rs_nextConn := ?n + 1\<rparr>"
  have run: "rs_step td R_connect rs = Some ([], rs')"
    by (simp add: rs_step_def rs_onConnection_def ins rs'_def)
  have u: "unat (?s + 1) = unat ?s + 1" using assms(2) by (simp add: unat_word_ariths)
  then have gt: "?s < ?s + 1" by (simp add: word_less_nat_alt)
  have lt: "k < ?s + 1" if "k < ?s" for k using that gt by (rule order_less_trans)
  have "om_invar (?S @ [(?s, ?n)])" using om_invar_insert [of ?S ?s ?n] assms(1) ins by (simp add: rs_inv_def)
  then have "rs_inv rs'" using assms(1) I gt lt unfolding rs_inv_def rs'_def by (fastforce simp: less_SucI)
  moreover have "Collect (rs_lock rs') = insert ?n (Collect (rs_lock rs))" by (auto simp: rs'_def rs_lock_def)
  ultimately show thesis using that [OF run] u by (simp add: rs'_def)
qed

lemma rs_disconnect:
  assumes "rs_inv rs" "rs_lock rs conn"
  obtains rs' where "rs_step td (R_down conn) rs = Some ([], rs')" "rs_inv rs'" "rs_calls rs' = rs_calls rs"
    "rs_nextDone rs' = rs_nextDone rs" "rs_nextConn rs' = rs_nextConn rs" "rs_sid rs' = rs_sid rs"
    "Collect (rs_lock rs') = Collect (rs_lock rs) - {conn}"
proof -
  let ?S = "rs_sessions rs"
  from assms obtain sid where m: "(sid, conn) \<in> set ?S" and c: "om_find (rs_context rs) conn = Some sid"
    by (force simp: rs_lock_def rs_inv_def)
  define rs' where "rs' = rs\<lparr>rs_sessions := om_erase sid ?S\<rparr>"
  have run: "rs_step td (R_down conn) rs = Some ([], rs')"
    using assms(2) c by (simp add: rs_step_def rs_onConnection_def rs'_def)
  have iff: "fst e = sid \<longleftrightarrow> snd e = conn" if "e \<in> set ?S" for e
  proof -
    have "inj_on snd (set ?S)" "inj_on fst (set ?S)"
      using assms(1) om.entries_distinct [of ?S] by (simp_all add: rs_inv_def distinct_map)
    then show ?thesis using that m by (metis fst_conv inj_on_def snd_conv)
  qed
  have "rs_inv rs'" using assms(1) by (auto simp: rs_inv_def rs'_def om_erase_def distinct_map_filter om_invar_erase [unfolded om_erase_def])
  moreover have "Collect (rs_lock rs') = Collect (rs_lock rs) - {conn}"
    using iff by (force simp: rs_lock_def rs'_def om_erase_def)
  ultimately show thesis using that [OF run] by (simp add: rs'_def)
qed

subsection \<open>Responses go where the requests came from\<close>

fun received :: "rs_effect list \<Rightarrow> nat list" where
  "received [] = []"
| "received (R_receive c e # es) = ev_done e # received es"
| "received (_ # es) = received es"

fun responded :: "rs_effect list \<Rightarrow> nat list" where
  "responded [] = []"
| "responded (R_send d c rep # es) = d # responded es"
| "responded (_ # es) = responded es"

definition paired :: "rs_effect list \<Rightarrow> bool" where
  "paired = preceded (\<lambda>past x. case x of
       R_send d conn rep \<Rightarrow> \<exists>e. R_receive conn e \<in> set past \<and> ev_done e = d \<and> rp_xid rep = Some (rq_xid (ev_Req e))
     | _ \<Rightarrow> True)"

definition rs_hist :: "rs_effect list \<Rightarrow> RpcServer \<Rightarrow> bool" where
  "rs_hist past rs \<longleftrightarrow> rs_inv rs
     \<and> (\<forall>d conn call. om_find (rs_calls rs) d = Some (conn, call) \<longrightarrow>
          (\<exists>e. R_receive conn e \<in> set past \<and> ev_done e = d \<and> ev_Req e = ca_Req call))
     \<and> distinct (received past) \<and> (\<forall>d \<in> set (received past). d < rs_nextDone rs)
     \<and> distinct (responded past) \<and> (\<forall>d \<in> set (responded past). d < rs_nextDone rs \<and> om_find (rs_calls rs) d = None)
     \<and> paired past"

lemma received_append [simp]: "received (a @ b) = received a @ received b"
  by (induction a rule: received.induct) auto

lemma responded_append [simp]: "responded (a @ b) = responded a @ responded b"
  by (induction a rule: responded.induct) auto

lemma rs_hist_call:
  assumes "rs_hist past rs" "om_find (rs_calls rs) d = Some (conn, call)"
  obtains e where "R_receive conn e \<in> set past" "ev_done e = d" "ev_Req e = ca_Req call"
  using assms unfolding rs_hist_def by blast

lemma rs_message:
  assumes h: "rs_hist past rs" and r: "rs_onRpcMessage now conn ip req rs = (e, rs')"
  shows "rs_hist (past @ [R_receive conn e]) rs' \<and> rs_sid rs' = rs_sid rs \<and> rs_nextConn rs' = rs_nextConn rs \<and> rs_lock rs' = rs_lock rs"
proof -
  let ?d = "rs_nextDone rs"
  define call where "call = \<lparr>ca_Start = now, ca_Addr = c_str ip, ca_Req = req\<rparr>"
  have e: "ev_done e = ?d" "ev_Req e = req" and rs': "rs' = rs\<lparr>rs_nextDone := ?d + 1, rs_calls := om_put ?d (conn, call) (rs_calls rs)\<rparr>"
    using r by (auto simp: rs_onRpcMessage_def Let_def call_def)
  have inv: "rs_inv rs" using h by (simp add: rs_hist_def)
  have "fst x < ?d" if "x \<in> set (rs_calls rs)" for x using inv that unfolding rs_inv_def by blast
  then have "om_put ?d (conn, call) (rs_calls rs) = rs_calls rs @ [(?d, (conn, call))]" by (rule om_put_greatest)
  then have "rs_inv rs'" using inv om_invar_put [of "rs_calls rs" ?d "(conn, call)"]
    unfolding rs_inv_def rs' by (auto simp: less_SucI)
  moreover have "paired (past @ [R_receive conn e])"
    using h unfolding paired_def by (intro preceded_append) (auto simp: rs_hist_def paired_def)
  moreover have "\<exists>ev. R_receive c ev \<in> set (past @ [R_receive conn e]) \<and> ev_done ev = d \<and> ev_Req ev = ca_Req k"
    if "om_find (rs_calls rs') d = Some (c, k)" for d c k
  proof (cases "d = ?d")
    case True
    then show ?thesis using that e by (auto simp: rs' call_def)
  next
    case False
    then have "om_find (rs_calls rs) d = Some (c, k)" using that by (simp add: rs')
    from rs_hist_call [OF h this] show ?thesis by auto
  qed
  moreover have "\<forall>d \<in> set (responded past). om_find (rs_calls rs') d = None" using h by (auto simp: rs_hist_def rs')
  ultimately have "rs_hist (past @ [R_receive conn e]) rs'"
    using h e unfolding rs_hist_def by (auto simp: rs' less_SucI)
  then show ?thesis by (simp add: rs' rs_lock_def fun_eq_iff)
qed

lemma rs_done:
  assumes h: "rs_hist past rs" and r: "rs_onRpcDone td now d rep rs = (es, rs')"
  shows "rs_hist (past @ es) rs' \<and> rs_sid rs' = rs_sid rs \<and> rs_nextConn rs' = rs_nextConn rs \<and> rs_lock rs' = rs_lock rs"
proof (cases "om_find (rs_calls rs) d")
  case None
  with r h show ?thesis by (simp add: rs_onRpcDone_def)
next
  case (Some cc)
  obtain conn call where cc: "cc = (conn, call)" by (cases cc)
  have rs': "rs' = rs\<lparr>rs_calls := om_erase d (rs_calls rs)\<rparr>"
    and es: "es = [] \<or> (\<exists>used rep'. rp_xid rep' = Some (rq_xid (ca_Req call)) \<and> es = [R_send d conn rep', R_log (ca_Addr call) (ca_Req call) rep' used])"
    using r Some cc by (auto simp: rs_onRpcDone_def Let_def split: if_splits)
  have inv: "rs_inv rs" using h by (simp add: rs_hist_def)
  have d: "d < rs_nextDone rs" using inv om_find_set [OF Some] by (auto simp: rs_inv_def)
  have "rs_inv rs'" using inv by (auto simp: rs_inv_def rs' om_erase_def om_invar_erase [unfolded om_erase_def])
  moreover obtain e where e: "R_receive conn e \<in> set past" "ev_done e = d" "ev_Req e = ca_Req call"
    using rs_hist_call [OF h Some [unfolded cc]] by blast
  have "paired past" using h by (simp add: rs_hist_def)
  then have "paired (past @ es)" unfolding paired_def
  proof (rule preceded_append)
    fix a x
    assume "x \<in> set es" and sub: "set past \<subseteq> set a"
    then show "case x of R_send d conn rep \<Rightarrow> \<exists>e. R_receive conn e \<in> set a \<and> ev_done e = d \<and> rp_xid rep = Some (rq_xid (ev_Req e)) | _ \<Rightarrow> True"
      using es e subsetD [OF sub e(1)] by (auto intro!: exI [of _ e])
  qed
  moreover have "d \<notin> set (responded past)" using h Some by (auto simp: rs_hist_def)
  ultimately have "rs_hist (past @ es) rs'"
    using h es d unfolding rs_hist_def by (auto simp: rs')
  then show ?thesis by (simp add: rs' rs_lock_def fun_eq_iff)
qed

lemma rs_step_hist:
  assumes h: "rs_hist past rs" and x: "unat (rs_sid rs) < 2 ^ 64 - 1"
  shows "\<exists>es rs'. rs_step td i rs = Some (es, rs') \<and> rs_hist (past @ es) rs' \<and> unat (rs_sid rs') \<le> unat (rs_sid rs) + 1
    \<and> (\<forall>is. up_conns (i # is) (rs_nextConn rs) (Collect (rs_lock rs)) = up_conns is (rs_nextConn rs') (Collect (rs_lock rs')))"
proof -
  have inv: "rs_inv rs" using h by (simp add: rs_hist_def)
  have fields: "rs_hist past rs'" if "rs_inv rs'" "rs_calls rs' = rs_calls rs" "rs_nextDone rs' = rs_nextDone rs" for rs'
    using h that unfolding rs_hist_def by simp
  show ?thesis
  proof (cases i)
    case R_connect
    from rs_connect [OF inv x, of td] fields show ?thesis unfolding R_connect
      by (metis append_Nil2 eq_imp_le up_conns.simps(2))
  next
    case (R_down c)
    show ?thesis
    proof (cases "rs_lock rs c")
      case True
      from rs_disconnect [OF inv True, of td] fields show ?thesis unfolding R_down
        by (metis append_Nil2 le_add1 up_conns.simps(3))
    next
      case False
      then show ?thesis using h by (simp add: R_down rs_step_def)
    qed
  next
    case (R_message now conn ip req)
    obtain e rs' where r: "rs_onRpcMessage now conn ip req rs = (e, rs')" by (cases "rs_onRpcMessage now conn ip req rs")
    show ?thesis using rs_message [OF h r] h by (cases "rs_lock rs conn") (auto simp: R_message rs_step_def r)
  next
    case (R_done now d rep)
    obtain es rs' where r: "rs_onRpcDone td now d rep rs = (es, rs')" by (cases "rs_onRpcDone td now d rep rs")
    show ?thesis using rs_done [OF h r] by (auto simp: R_done rs_step_def r)
  qed
qed

lemma rs_run_hist:
  assumes "rs_hist past rs" and "unat (rs_sid rs) + length is < 2 ^ 64"
  shows "\<exists>es rs'. rs_run td is rs = Some (es, rs') \<and> rs_hist (past @ es) rs'
    \<and> Collect (rs_lock rs') = up_conns is (rs_nextConn rs) (Collect (rs_lock rs))"
  using assms
proof (induction "is" arbitrary: past rs)
  case (Cons i "is")
  then have "unat (rs_sid rs) < 2 ^ 64 - 1" by simp
  from rs_step_hist [OF Cons.prems(1) this, of td i] obtain es rs1 where
    1: "rs_step td i rs = Some (es, rs1)" "rs_hist (past @ es) rs1" "unat (rs_sid rs1) \<le> unat (rs_sid rs) + 1"
      "\<And>is. up_conns (i # is) (rs_nextConn rs) (Collect (rs_lock rs)) = up_conns is (rs_nextConn rs1) (Collect (rs_lock rs1))" by blast
  have "unat (rs_sid rs1) + length is < 2 ^ 64" using 1(3) Cons.prems(2) by simp
  from Cons.IH [OF 1(2) this] 1 show ?case by auto
qed simp

text \<open>
  Requests and responses of the rpc server: in every run, of less than \<open>2 ^ 64\<close> steps, no
  exception is thrown; a session lives exactly as long as its connection is up; each request goes
  to the server once; a response goes out at most once per request, after it, on the connection
  the request came in on and with the request's number; and a closure that runs while that
  connection is up sends its response.
\<close>

theorem rpc_responses_paired:
  assumes "length is < 2 ^ 64"
  shows "\<exists>es rs. rs_run td is RpcServer_new = Some (es, rs) \<and> Collect (rs_lock rs) = up_conns is 0 {}
    \<and> distinct (received es) \<and> distinct (responded es) \<and> paired es
    \<and> (\<forall>d conn call. om_find (rs_calls rs) d = Some (conn, call) \<longrightarrow>
         d \<in> set (received es) \<and> d \<notin> set (responded es)
         \<and> (rs_lock rs conn \<longrightarrow> (\<forall>now rep. d \<in> set (responded (fst (rs_onRpcDone td now d rep rs))))))"
proof -
  have new: "rs_hist [] RpcServer_new" and l: "Collect (rs_lock RpcServer_new) = {}"
    by (simp_all add: rs_hist_def rs_inv_def RpcServer_new_def paired_def rs_lock_def)
  have "unat (rs_sid RpcServer_new) + length is < 2 ^ 64" using assms by (simp add: RpcServer_new_def)
  moreover have "rs_nextConn RpcServer_new = 0" by (simp add: RpcServer_new_def)
  ultimately obtain es rs where r: "rs_run td is RpcServer_new = Some (es, rs)" "rs_hist es rs"
    "Collect (rs_lock rs) = up_conns is 0 {}" using rs_run_hist [OF new, of "is" td] l by auto
  have mem: "R_receive c e \<in> set xs \<Longrightarrow> ev_done e \<in> set (received xs)" for c e xs by (induction xs rule: received.induct) auto
  have "d \<in> set (received es) \<and> d \<notin> set (responded es)
      \<and> (rs_lock rs conn \<longrightarrow> (\<forall>now rep. d \<in> set (responded (fst (rs_onRpcDone td now d rep rs)))))"
    if c: "om_find (rs_calls rs) d = Some (conn, call)" for d conn call
  proof -
    have "d \<in> set (received es)" using rs_hist_call [OF r(2) c] mem by metis
    moreover have "d \<notin> set (responded es)" using r(2) c by (auto simp: rs_hist_def)
    ultimately show ?thesis using c by (simp add: rs_onRpcDone_def Let_def rs_lock_def)
  qed
  moreover have "distinct (received es) \<and> distinct (responded es) \<and> paired es" using r(2) by (simp add: rs_hist_def)
  ultimately show ?thesis using r by blast
qed

theorem rpc_responses_paired_witness:
  "\<exists>es rs. rs_run (\<lambda>_ _. 0) [R_connect, R_connect, R_message 5 1 ''ip'' (Request_default\<lparr>rq_xid := 9\<rparr>), R_message 6 0 ''ip'' Request_default,
       R_down 0, R_done 7 1 Response_default, R_done 8 0 Response_default] RpcServer_new = Some (es, rs)
     \<and> responded es = [0] \<and> Collect (rs_lock rs) = {1} \<and> paired es"
proof -
  let ?is = "[R_connect, R_connect, R_message 5 1 ''ip'' (Request_default\<lparr>rq_xid := 9\<rparr>), R_message 6 0 ''ip'' Request_default,
       R_down 0, R_done 7 1 Response_default, R_done 8 0 Response_default]"
  obtain es rs where r: "rs_run (\<lambda>_ _. 0) ?is RpcServer_new = Some (es, rs)" "Collect (rs_lock rs) = up_conns ?is 0 {}" "paired es"
    using rpc_responses_paired [of ?is "\<lambda>_ _. 0"] by auto
  have "responded es = [0]"
    using r(1) by (auto simp: rs_step_def rs_onConnection_def RpcServer_new_def rs_onRpcMessage_def Let_def rs_onRpcDone_def
        rs_lock_def om_insert_def om_erase_def)
  then show ?thesis using r by auto
qed

end
