(* ===== verification/Service.thy ===== *)
theory Service
  imports Server_Ledger Rpc_Server
begin

text \<open>
  The rpc server in front of what it serves. \<^verbatim>\<open>rpc/rpc_receiver.h\<close> is the interface between them: the rpc server hands
  over events, and the receiver runs the closure of each of them when it drops it. The locale states
  what is relied on, that a receiver owes exactly the closures of the events it was given and has not
  run; the replica is its instance. Then every request that came in on a connection that is still up is
  owed or was answered, once, on that connection.
\<close>

subsection \<open>The rpc server and a receiver\<close>

fun run_closures ::
  "(timestamp \<Rightarrow> timestamp \<Rightarrow> rat) \<Rightarrow> timestamp \<Rightarrow> (nat \<times> Response) list \<Rightarrow> RpcServer \<Rightarrow> rs_effect list \<times> RpcServer" where
  "run_closures td now [] rs = ([], rs)"
| "run_closures td now ((d, rep) # xs) rs =
     (case rs_onRpcDone td now d rep rs of (es, rs) \<Rightarrow>
        (case run_closures td now xs rs of (fs, rs) \<Rightarrow> (es @ fs, rs)))"

fun handed_over :: "rs_effect list \<Rightarrow> Event list" where
  "handed_over [] = []"
| "handed_over (R_receive conn e # es) = e # handed_over es"
| "handed_over (_ # es) = handed_over es"

datatype 'i service_input =
    S_connect
  | S_message timestamp nat string Request
  | S_down nat
  | S_step timestamp 'i

definition service_step ::
  "(Event \<Rightarrow> 's \<Rightarrow> 's) \<Rightarrow> ('i \<Rightarrow> 's \<Rightarrow> ((nat \<times> Response) list \<times> 's) option) \<Rightarrow> (timestamp \<Rightarrow> timestamp \<Rightarrow> rat)
     \<Rightarrow> 'i service_input \<Rightarrow> RpcServer \<times> 's \<Rightarrow> (rs_effect list \<times> RpcServer \<times> 's) option" where
  "service_step accept step td i x = (case x of (rs, s) \<Rightarrow> (case i of
       S_connect \<Rightarrow> do { (es, rs) \<leftarrow> rs_step td R_connect rs; Some (es, rs, s) }
     | S_message now conn ip req \<Rightarrow> do {
         (es, rs) \<leftarrow> rs_step td (R_message now conn ip req) rs;
         Some (es, rs, fold accept (handed_over es) s) }
     | S_down conn \<Rightarrow> do { (es, rs) \<leftarrow> rs_step td (R_down conn) rs; Some (es, rs, s) }
     | S_step now i \<Rightarrow> do {
         (reps, s) \<leftarrow> step i s;
         let (es, rs) = run_closures td now reps rs;
         Some (es, rs, s) }))"

fun service_run ::
  "(Event \<Rightarrow> 's \<Rightarrow> 's) \<Rightarrow> ('i \<Rightarrow> 's \<Rightarrow> ((nat \<times> Response) list \<times> 's) option) \<Rightarrow> (timestamp \<Rightarrow> timestamp \<Rightarrow> rat)
     \<Rightarrow> 'i service_input list \<Rightarrow> RpcServer \<times> 's \<Rightarrow> (rs_effect list \<times> RpcServer \<times> 's) option" where
  "service_run accept step td [] x = Some ([], x)"
| "service_run accept step td (i # is) x = do {
     (es, x) \<leftarrow> service_step accept step td i x;
     (fs, x) \<leftarrow> service_run accept step td is x;
     Some (es @ fs, x) }"

text \<open>A request that came in is waiting for its closure, or its response was sent, or its connection is gone.\<close>

definition settled :: "rs_effect list \<Rightarrow> RpcServer \<Rightarrow> bool" where
  "settled past rs \<longleftrightarrow> (\<forall>conn e. R_receive conn e \<in> set past \<longrightarrow> conn < rs_nextConn rs \<and>
     (om_find (rs_calls rs) (ev_done e) \<noteq> None \<or> ev_done e \<in> set (responded past) \<or> \<not> rs_lock rs conn))"

lemma settledD:
  "settled past rs \<Longrightarrow> R_receive conn e \<in> set past \<Longrightarrow> conn < rs_nextConn rs \<and>
     (om_find (rs_calls rs) (ev_done e) \<noteq> None \<or> ev_done e \<in> set (responded past) \<or> \<not> rs_lock rs conn)"
  by (simp add: settled_def)

lemma received_mem: "R_receive c e \<in> set es \<Longrightarrow> ev_done e \<in> set (Rpc_Server.received es)"
  by (induction es rule: Rpc_Server.received.induct) auto

lemma lock_conn: "rs_inv rs \<Longrightarrow> rs_lock rs conn \<Longrightarrow> conn < rs_nextConn rs"
  by (force simp: rs_inv_def rs_lock_def)

lemma calls_distinct: "rs_inv rs \<Longrightarrow> distinct (map fst (rs_calls rs))"
  unfolding rs_inv_def om_invar_def by (metis strict_sorted_iff)

lemma settled_message:
  assumes h: "rs_hist past rs" and st: "settled past rs" and l: "rs_lock rs conn" and r: "rs_onRpcMessage now conn ip req rs = (e, rs')"
  shows "settled (past @ [R_receive conn e]) rs'"
    and "mset (map fst (rs_calls rs')) = mset (map fst (rs_calls rs)) + {#ev_done e#}"
proof -
  define call where "call = \<lparr>ca_Start = now, ca_Addr = c_str ip, ca_Req = req\<rparr>"
  have e: "ev_done e = rs_nextDone rs"
    and rs': "rs' = rs\<lparr>rs_nextDone := rs_nextDone rs + 1, rs_calls := om_put (rs_nextDone rs) (conn, call) (rs_calls rs)\<rparr>"
    using r by (auto simp: rs_onRpcMessage_def Let_def call_def)
  have inv: "rs_inv rs" using h by (simp add: rs_hist_def)
  have "fst x < rs_nextDone rs" if "x \<in> set (rs_calls rs)" for x using inv that unfolding rs_inv_def by blast
  then have put: "om_put (rs_nextDone rs) (conn, call) (rs_calls rs) = rs_calls rs @ [(rs_nextDone rs, (conn, call))]" by (rule om_put_greatest)
  show "mset (map fst (rs_calls rs')) = mset (map fst (rs_calls rs)) + {#ev_done e#}" by (simp add: rs' put e)
  show "settled (past @ [R_receive conn e]) rs'"
    using st lock_conn [OF inv l] by (auto simp: settled_def rs' e rs_lock_def)
qed

lemma receive_unique:
  assumes "distinct (Rpc_Server.received past)" and "R_receive c e \<in> set past" and "R_receive c' e' \<in> set past" and "ev_done e = ev_done e'"
  shows "c = c'"
  using assms by (induction past rule: Rpc_Server.received.induct) (auto dest: received_mem)

lemma mset_erase:
  assumes "distinct (map fst m)" and "d \<in> set (map fst m)"
  shows "mset (map fst (om_erase d m)) + {#d#} = mset (map fst m)"
proof -
  have "map fst (om_erase d m) = removeAll d (map fst m)" by (induction m) (auto simp: om_erase_def)
  then have "map fst (om_erase d m) = remove1 d (map fst m)" using distinct_remove1_removeAll [OF assms(1)] by simp
  then show ?thesis using assms(2) by simp
qed

lemma settled_done:
  assumes h: "rs_hist past rs" and st: "settled past rs" and r: "rs_onRpcDone td now d rep rs = (es, rs')"
    and d: "d \<in> set (map fst (rs_calls rs))"
  shows "settled (past @ es) rs'" and "mset (map fst (rs_calls rs')) + {#d#} = mset (map fst (rs_calls rs))"
proof -
  have inv: "rs_inv rs" using h by (simp add: rs_hist_def)
  then have iv: "om_invar (rs_calls rs)" by (simp add: rs_inv_def)
  obtain conn call where f: "om_find (rs_calls rs) d = Some (conn, call)" using d om_find_iff [OF iv] by auto
  have rs': "rs' = rs\<lparr>rs_calls := om_erase d (rs_calls rs)\<rparr>"
    using r f by (auto simp: rs_onRpcDone_def Let_def split: if_splits)
  show "mset (map fst (rs_calls rs')) + {#d#} = mset (map fst (rs_calls rs))"
    using mset_erase [OF calls_distinct [OF inv] d] by (simp add: rs')
  have no: "R_receive c e \<notin> set es" and sent: "rs_lock rs conn \<Longrightarrow> d \<in> set (responded es)" for c e
    using r f by (auto simp: rs_onRpcDone_def Let_def rs_lock_def split: if_splits)
  obtain e0 where e0: "R_receive conn e0 \<in> set past" "ev_done e0 = d" using rs_hist_call [OF h f] by blast
  have u: "c = conn" if "R_receive c e \<in> set past" "ev_done e = d" for c e
    using receive_unique [OF _ that(1) e0(1)] that(2) e0(2) h by (simp add: rs_hist_def)
  show "settled (past @ es) rs'" unfolding settled_def
  proof (intro allI impI conjI)
    fix c e
    assume "R_receive c e \<in> set (past @ es)"
    then have m: "R_receive c e \<in> set past" using no by auto
    then show "c < rs_nextConn rs'" using st by (auto simp: settled_def rs')
    show "om_find (rs_calls rs') (ev_done e) \<noteq> None \<or> ev_done e \<in> set (responded (past @ es)) \<or> \<not> rs_lock rs' c"
      using st m sent u [OF m] by (cases "ev_done e = d") (auto simp: settled_def rs' rs_lock_def)
  qed
qed

lemma run_closures_settled:
  assumes "rs_hist past rs" and "settled past rs" and "run_closures td now xs rs = (es, rs')" and "mset (map fst xs) \<subseteq># mset (map fst (rs_calls rs))"
  shows "rs_hist (past @ es) rs' \<and> settled (past @ es) rs' \<and> rs_sid rs' = rs_sid rs
    \<and> mset (map fst (rs_calls rs')) + mset (map fst xs) = mset (map fst (rs_calls rs))"
  using assms
proof (induction xs arbitrary: past rs es)
  case (Cons x xs)
  obtain d rep where x: "x = (d, rep)" by (cases x)
  obtain es1 rs1 where 1: "rs_onRpcDone td now d rep rs = (es1, rs1)" by fastforce
  obtain es2 where 2: "run_closures td now xs rs1 = (es2, rs')" "es = es1 @ es2" using Cons.prems(3) 1 by (auto simp: x split: prod.splits)
  have d: "d \<in> set (map fst (rs_calls rs))" using Cons.prems(4) by (auto simp: x dest: mset_subset_eqD)
  note s = settled_done [OF Cons.prems(1,2) 1 d]
  have "{#d#} + mset (map fst xs) \<subseteq># {#d#} + mset (map fst (rs_calls rs1))" using Cons.prems(4) s(2) by (simp add: x)
  then have "mset (map fst xs) \<subseteq># mset (map fst (rs_calls rs1))" by simp
  from Cons.IH [OF _ s(1) 2(1) this] rs_done [OF Cons.prems(1) 1] s(2) show ?case by (simp add: x 2(2) flip: s(2)) 
qed simp

subsection \<open>What is relied on\<close>

locale rpc_receiver =
  fixes accept :: "Event \<Rightarrow> 's \<Rightarrow> 's"
    and step :: "'i \<Rightarrow> 's \<Rightarrow> ((nat \<times> Response) list \<times> 's) option"
    and good :: "'s \<Rightarrow> bool"
    and owed :: "'s \<Rightarrow> nat multiset"
  assumes accept: "good s \<Longrightarrow> good (accept e s) \<and> owed (accept e s) = owed s + {#ev_done e#}"
    and step: "good s \<Longrightarrow> step i s = Some (reps, s') \<Longrightarrow> good s' \<and> mset (map fst reps) + owed s' = owed s"
begin

definition service_inv :: "rs_effect list \<Rightarrow> RpcServer \<times> 's \<Rightarrow> bool" where
  "service_inv past x = (case x of (rs, s) \<Rightarrow> rs_hist past rs \<and> settled past rs \<and> good s \<and> mset (map fst (rs_calls rs)) = owed s)"

lemma service_step_inv:
  assumes i: "service_inv past x" and sid: "unat (rs_sid (fst x)) < 2 ^ 64 - 1" and run: "service_step accept step td i x = Some (es, y)"
  shows "service_inv (past @ es) y \<and> unat (rs_sid (fst y)) \<le> unat (rs_sid (fst x)) + 1"
proof -
  obtain rs s where x: "x = (rs, s)" by (cases x)
  have h: "rs_hist past rs" "settled past rs" "good s" "mset (map fst (rs_calls rs)) = owed s" using i by (simp_all add: service_inv_def x)
  have inv: "rs_inv rs" using h(1) by (simp add: rs_hist_def)
  show ?thesis
  proof (cases i)
    case S_connect
    obtain rs' where r: "rs_step td R_connect rs = Some ([], rs')" "rs_inv rs'" "rs_calls rs' = rs_calls rs"
      "rs_nextDone rs' = rs_nextDone rs" "rs_nextConn rs' = rs_nextConn rs + 1" "unat (rs_sid rs') = unat (rs_sid rs) + 1"
      "Collect (rs_lock rs') = insert (rs_nextConn rs) (Collect (rs_lock rs))"
      using rs_connect [OF inv, of td] sid unfolding x fst_conv by blast
    have "rs_lock rs' c = rs_lock rs c" if "c < rs_nextConn rs" for c using that r(7) by (auto simp: set_eq_iff)
    then have "settled past rs'" using h(2) r(3,5) unfolding settled_def by (metis Suc_eq_plus1 less_SucI)
    moreover have "rs_hist past rs'" using h(1) r(2-4) by (simp add: rs_hist_def)
    moreover have "es = []" "y = (rs', s)" using run r(1) by (simp_all add: service_step_def x S_connect)
    ultimately show ?thesis using h(3,4) r(3,6) by (simp add: x service_inv_def)
  next
    case (S_down conn)
    show ?thesis
    proof (cases "rs_lock rs conn")
      case True
      obtain rs' where r: "rs_step td (R_down conn) rs = Some ([], rs')" "rs_inv rs'" "rs_calls rs' = rs_calls rs"
        "rs_nextDone rs' = rs_nextDone rs" "rs_nextConn rs' = rs_nextConn rs" "rs_sid rs' = rs_sid rs"
        "Collect (rs_lock rs') = Collect (rs_lock rs) - {conn}"
        by (rule rs_disconnect [OF inv True])
      have "rs_lock rs c" if "rs_lock rs' c" for c using that r(7) by (auto simp: set_eq_iff)
      then have "settled past rs'" using h(2) r(3,5) unfolding settled_def by metis
      moreover have "rs_hist past rs'" using h(1) r(2-4) by (simp add: rs_hist_def)
      moreover have "es = []" "y = (rs', s)" using run r(1) by (simp_all add: service_step_def x S_down)
      ultimately show ?thesis using h(3,4) r(3,6) by (simp add: x service_inv_def)
    next
      case False
      then show ?thesis using run i by (auto simp: service_step_def x S_down rs_step_def)
    qed
  next
    case (S_message now conn ip req)
    obtain e rs' where r: "rs_onRpcMessage now conn ip req rs = (e, rs')" by fastforce
    show ?thesis
    proof (cases "rs_lock rs conn")
      case True
      then have "es = [R_receive conn e]" "y = (rs', accept e s)" using run r by (auto simp: service_step_def x S_message rs_step_def)
      then show ?thesis using rs_message [OF h(1) r] settled_message [OF h(1,2) True r] accept [OF h(3), of e] h(4) by (simp add: service_inv_def x)
    next
      case False
      then show ?thesis using run i by (auto simp: service_step_def x S_message rs_step_def)
    qed
  next
    case (S_step now a)
    obtain reps s' where st: "step a s = Some (reps, s')" using run by (auto simp: service_step_def x S_step elim!: bind_eq_SomeE)
    obtain fs rs' where c: "run_closures td now reps rs = (fs, rs')" by fastforce
    have y: "es = fs" "y = (rs', s')" using run st c by (auto simp: service_step_def x S_step)
    note p = step [OF h(3) st]
    then have "mset (map fst reps) \<subseteq># mset (map fst (rs_calls rs))" unfolding h(4) by (metis mset_subset_eq_add_left)
    note r = run_closures_settled [OF h(1,2) c this]
    then have "mset (map fst (rs_calls rs')) = owed s'" using p h(4) by (metis add.commute add_left_cancel)
    then show ?thesis using r p by (simp add: y x service_inv_def)
  qed
qed

lemma service_run_inv:
  assumes "service_inv past x" and "unat (rs_sid (fst x)) + length is < 2 ^ 64" and "service_run accept step td is x = Some (es, y)"
  shows "service_inv (past @ es) y"
  using assms
proof (induction "is" arbitrary: past x es)
  case (Cons i "is")
  obtain es1 x1 es2 where 1: "service_step accept step td i x = Some (es1, x1)" "service_run accept step td is x1 = Some (es2, y)"
    and es: "es = es1 @ es2" using Cons.prems(3) by (auto elim!: bind_eq_SomeE)
  have "service_inv (past @ es1) x1 \<and> unat (rs_sid (fst x1)) \<le> unat (rs_sid (fst x)) + 1"
    using Cons.prems(2) by (intro service_step_inv [OF Cons.prems(1) _ 1(1)]) simp
  then show ?case using Cons.IH [OF _ _ 1(2), of "past @ es1"] Cons.prems(2) by (simp add: es)
qed simp

text \<open>A receiver that starts with nothing owed.\<close>

lemma answers_once:
  assumes "good s" and "owed s = {#}" and "length is < 2 ^ 64" and "service_run accept step td is (RpcServer_new, s) = Some (es, rs, s')"
  shows "distinct (Rpc_Server.received es) \<and> distinct (responded es) \<and> paired es
    \<and> (\<forall>conn e. R_receive conn e \<in> set es \<longrightarrow>
         (if ev_done e \<in># owed s' then ev_done e \<notin> set (responded es) else rs_lock rs conn \<longrightarrow> ev_done e \<in> set (responded es)))"
proof -
  have "service_inv [] (RpcServer_new, s)"
    using assms(1,2) by (simp add: service_inv_def rs_hist_def rs_inv_def RpcServer_new_def paired_def settled_def)
  moreover have "unat (rs_sid (fst (RpcServer_new, s))) + length is < 2 ^ 64" using assms(3) by (simp add: RpcServer_new_def)
  ultimately have "service_inv es (rs, s')" using service_run_inv [of "[]", OF _ _ assms(4)] by simp
  then have h: "rs_hist es rs" "settled es rs" "mset (map fst (rs_calls rs)) = owed s'" by (simp_all add: service_inv_def)
  have iv: "om_invar (rs_calls rs)" using h(1) by (simp add: rs_hist_def rs_inv_def)
  have k: "d \<in># owed s' \<longleftrightarrow> om_find (rs_calls rs) d \<noteq> None" for d
  proof -
    have "d \<in># owed s' \<longleftrightarrow> d \<in> fst ` set (rs_calls rs)" unfolding h(3) [symmetric] by simp
    then show ?thesis using om_find_iff [OF iv, of d] by force
  qed
  have "if ev_done e \<in># owed s' then ev_done e \<notin> set (responded es) else rs_lock rs conn \<longrightarrow> ev_done e \<in> set (responded es)"
    if "R_receive conn e \<in> set es" for conn e
  proof (cases "om_find (rs_calls rs) (ev_done e)")
    case None
    then show ?thesis using settledD [OF h(2) that] by (auto simp: k)
  next
    case (Some c)
    then show ?thesis using h(1) by (auto simp: k rs_hist_def)
  qed
  then show ?thesis using h(1) by (auto simp: rs_hist_def)
qed

end

subsection \<open>The replica\<close>

text \<open>Closure 0 is the replica's own, so the closures of the rpc server count from 1 there. Between two steps nothing is left in
  the replica's output: the closures have run.\<close>

definition replica_accept :: "Event \<Rightarrow> 'db Server \<Rightarrow> 'db Server" where
  "replica_accept e srv = ReceiveEvent (e\<lparr>ev_done := Suc (ev_done e)\<rparr>) srv"

text \<open>Requests reach the replica through the rpc server only.\<close>

definition replica_step :: "Env \<times> action \<Rightarrow> 'db Server \<Rightarrow> ((nat \<times> Response) list \<times> 'db Server) option" where
  "replica_step i srv = (case i of (env, act) \<Rightarrow> (case act of
       Act_event _ \<Rightarrow> Some ([], srv)
     | _ \<Rightarrow> do {
         srv \<leftarrow> server_act env act (srv\<lparr>sv_out := []\<rparr>);
         Some (map (\<lambda>e. (ev_done e - 1, ev_Rep e)) (filter (\<lambda>e. ev_done e \<noteq> 0) (replies (sv_out srv))), srv) }))"

definition replica_owed :: "'db Server \<Rightarrow> nat multiset" where
  "replica_owed srv = image_mset (\<lambda>d. d - 1) (clients (outstanding srv))"

interpretation replica: rpc_receiver replica_accept replica_step books_ok replica_owed
proof unfold_locales
  show "books_ok (replica_accept e s) \<and> replica_owed (replica_accept e s) = replica_owed s + {#ev_done e#}"
    if "books_ok s" for e and s :: "'a Server"
    using that by (simp add: replica_accept_def ReceiveEvent_def books_ok_def replica_owed_def outstanding_def clients_def)
next
  fix s s' :: "'a Server" and i reps
  assume ok: "books_ok s" and st: "replica_step i s = Some (reps, s')"
  obtain env act where i: "i = (env, act)" by (cases i)
  show "books_ok s' \<and> mset (map fst reps) + replica_owed s' = replica_owed s"
  proof (cases "\<exists>e. act = Act_event e")
    case True
    then show ?thesis using ok st by (auto simp: replica_step_def i)
  next
    case False
    then have act: "server_act env act (s\<lparr>sv_out := []\<rparr>) = Some s'"
      and reps: "reps = map (\<lambda>e. (ev_done e - 1, ev_Rep e)) (filter (\<lambda>e. ev_done e \<noteq> 0) (replies (sv_out s')))"
      using st by (auto simp: replica_step_def i elim!: bind_eq_SomeE split: action.splits)
    have "books_ok s' \<and> clients (ledger s') = clients (ledger (s\<lparr>sv_out := []\<rparr>))"
      using moves_clients [OF moves_server_act [OF act]] ok False
      by (auto simp: books_ok_def Server_Ledger.received_def clients_def split: action.splits)
    then have l: "books_ok s'" "clients (answered s') + clients (outstanding s') = clients (outstanding s)"
      by (simp_all add: ledger_split) (simp add: answered_def outstanding_def clients_def)
    have "mset (map fst reps) = image_mset (\<lambda>d. d - 1) (clients (answered s'))"
      by (simp add: reps clients_def answered_def comp_def filter_mset_image_mset image_mset.compositionality)
    then show ?thesis using l by (simp add: replica_owed_def flip: image_mset_union)
  qed
qed

end
