(* ===== verification/Network.thy ===== *)
theory Network
  imports Rpc_Client Service
begin

text \<open>
  Clients, connections and the service, together. Any number of rpc clients (\<^verbatim>\<open>rpc/client.cc\<close>) talk to
  one rpc server with its receiver (\<open>Service\<close>) over connections, each of them two queues of messages: TCP keeps the order and neither
  changes nor invents a message, and what is in the queues when an end goes away is lost. An end learns of everything at a
  time of its own: a client may send before the server has accepted, the server may answer a
  client that is gone. A client that was closed does not connect again. What happens when is a list of inputs.
\<close>

subsection \<open>The system\<close>

text \<open>A connection: the client that made it, its number at the server once accepted, and the messages under way.\<close>

record Conn =
  cn_client :: nat
  cn_server :: "nat option"
  cn_reqs :: "Request list"
  cn_reps :: "Response list"

text \<open>\<open>sy_cur\<close> is \<^verbatim>\<open>client_.connection()\<close> of each client.\<close>

record ('c, 's) System =
  sy_clients :: "nat \<Rightarrow> 'c RpcClient"
  sy_cur :: "nat \<Rightarrow> nat option"
  sy_net :: "Conn list"
  sy_server :: RpcServer
  sy_recv :: 's

datatype ('c, 'i) sys_input =
    Y_client nat "'c rpc_input"
  | Y_up nat
  | Y_lost nat
  | Y_reply nat
  | Y_accept nat
  | Y_request nat timestamp string
  | Y_down nat
  | Y_serve timestamp 'i

text \<open>What a client does, what the rpc server does, and which closures the receiver runs with what response.\<close>

datatype 'c sys_effect =
    At nat "'c rpc_effect"
  | Srv rs_effect
  | Answer nat Response

definition System_new :: "(nat \<Rightarrow> string) \<Rightarrow> 's \<Rightarrow> ('c, 's) System" where
  "System_new addr s =
     \<lparr>sy_clients = (\<lambda>k. RpcClient_new (addr k)), sy_cur = (\<lambda>_. None), sy_net = [], sy_server = RpcServer_new, sy_recv = s\<rparr>"

text \<open>\<^verbatim>\<open>codec_.send(client_.connection(), *req)\<close>, with no connection a null pointer.\<close>

fun transmit :: "nat option \<Rightarrow> 'c rpc_effect list \<Rightarrow> Conn list \<Rightarrow> Conn list option" where
  "transmit cur [] net = Some net"
| "transmit cur (Send c req # es) net = (case cur of
       None \<Rightarrow> None
     | Some n \<Rightarrow> transmit cur es (net[n := (net ! n)\<lparr>cn_reqs := cn_reqs (net ! n) @ [req]\<rparr>]))"
| "transmit cur (_ # es) net = transmit cur es net"

text \<open>\<^verbatim>\<open>s->codec_.send(s->conn_, *call.Rep)\<close>.\<close>

fun post :: "rs_effect list \<Rightarrow> Conn list \<Rightarrow> Conn list" where
  "post [] net = net"
| "post (R_send d n rep # es) net =
     post es (map (\<lambda>c. if cn_server c = Some n then c\<lparr>cn_reps := cn_reps c @ [rep]\<rparr> else c) net)"
| "post (_ # es) net = post es net"

text \<open>The inputs of a client that do not come from its connection, and those that close it.\<close>

fun local_input :: "'c rpc_input \<Rightarrow> bool" where
  "local_input (In_connection b) \<longleftrightarrow> False"
| "local_input (In_message rep) \<longleftrightarrow> False"
| "local_input _ \<longleftrightarrow> True"

fun drops_connection :: "'c rpc_input \<Rightarrow> bool" where
  "drops_connection (In_connection b) \<longleftrightarrow> \<not> b"
| "drops_connection In_close \<longleftrightarrow> True"
| "drops_connection In_destroy \<longleftrightarrow> True"
| "drops_connection _ \<longleftrightarrow> False"

definition client_act :: "nat \<Rightarrow> 'c rpc_input \<Rightarrow> ('c, 's) System \<Rightarrow> ('c sys_effect list \<times> ('c, 's) System) option" where
  "client_act k i y = do {
     (es, cl) \<leftarrow> rpc_step i (sy_clients y k);
     net \<leftarrow> transmit (sy_cur y k) es (sy_net y);
     Some (map (At k) es,
       y\<lparr>sy_clients := (sy_clients y)(k := cl),
         sy_cur := if drops_connection i then (sy_cur y)(k := None) else sy_cur y, sy_net := net\<rparr>) }"

definition answers :: "('i \<Rightarrow> 's \<Rightarrow> ((nat \<times> Response) list \<times> 's) option) \<Rightarrow> 'i service_input \<Rightarrow> 's \<Rightarrow> (nat \<times> Response) list" where
  "answers step i s = (case i of
       S_step now a \<Rightarrow> (case step a s of None \<Rightarrow> [] | Some (reps, s') \<Rightarrow> reps)
     | _ \<Rightarrow> [])"

definition server_input ::
  "(Event \<Rightarrow> 's \<Rightarrow> 's) \<Rightarrow> ('i \<Rightarrow> 's \<Rightarrow> ((nat \<times> Response) list \<times> 's) option) \<Rightarrow> (timestamp \<Rightarrow> timestamp \<Rightarrow> rat)
     \<Rightarrow> 'i service_input \<Rightarrow> ('c, 's) System \<Rightarrow> ('c sys_effect list \<times> ('c, 's) System) option" where
  "server_input accept step td i y = do {
     (es, rs, s) \<leftarrow> service_step accept step td i (sy_server y, sy_recv y);
     Some (map (\<lambda>(d, rep). Answer d rep) (answers step i (sy_recv y)) @ map Srv es,
       y\<lparr>sy_server := rs, sy_recv := s, sy_net := post es (sy_net y)\<rparr>) }"

definition sys_step ::
  "(Event \<Rightarrow> 's \<Rightarrow> 's) \<Rightarrow> ('i \<Rightarrow> 's \<Rightarrow> ((nat \<times> Response) list \<times> 's) option) \<Rightarrow> (timestamp \<Rightarrow> timestamp \<Rightarrow> rat)
     \<Rightarrow> ('c, 'i) sys_input \<Rightarrow> ('c, 's) System \<Rightarrow> ('c sys_effect list \<times> ('c, 's) System) option" where
  "sys_step accept step td i y = (let net = sy_net y in case i of
       Y_client k i \<Rightarrow> if local_input i then client_act k i y else Some ([], y)
     | Y_up k \<Rightarrow>
         if sy_cur y k = None \<and> \<not> cl_closing (sy_clients y k) then
           client_act k (In_connection True)
             (y\<lparr>sy_cur := (sy_cur y)(k \<mapsto> length net), sy_net := net @ [\<lparr>cn_client = k, cn_server = None, cn_reqs = [], cn_reps = []\<rparr>]\<rparr>)
         else Some ([], y)
     | Y_lost k \<Rightarrow> if sy_cur y k \<noteq> None then client_act k (In_connection False) y else Some ([], y)
     | Y_reply n \<Rightarrow>
         if n < length net \<and> sy_cur y (cn_client (net ! n)) = Some n then (case cn_reps (net ! n) of
             [] \<Rightarrow> Some ([], y)
           | rep # rest \<Rightarrow>
               client_act (cn_client (net ! n)) (In_message rep) (y\<lparr>sy_net := net[n := (net ! n)\<lparr>cn_reps := rest\<rparr>]\<rparr>))
         else Some ([], y)
     | Y_accept n \<Rightarrow>
         if n < length net \<and> cn_server (net ! n) = None then
           server_input accept step td S_connect
             (y\<lparr>sy_net := net[n := (net ! n)\<lparr>cn_server := Some (rs_nextConn (sy_server y))\<rparr>]\<rparr>)
         else Some ([], y)
     | Y_request n now ip \<Rightarrow>
         if n < length net then (case (cn_server (net ! n), cn_reqs (net ! n)) of
             (Some conn, req # rest) \<Rightarrow>
               server_input accept step td (S_message now conn ip req) (y\<lparr>sy_net := net[n := (net ! n)\<lparr>cn_reqs := rest\<rparr>]\<rparr>)
           | _ \<Rightarrow> Some ([], y))
         else Some ([], y)
     | Y_down n \<Rightarrow>
         if n < length net then (case cn_server (net ! n) of
             Some conn \<Rightarrow> server_input accept step td (S_down conn) y
           | None \<Rightarrow> Some ([], y))
         else Some ([], y)
     | Y_serve now i \<Rightarrow> server_input accept step td (S_step now i) y)"

fun sys_run ::
  "(Event \<Rightarrow> 's \<Rightarrow> 's) \<Rightarrow> ('i \<Rightarrow> 's \<Rightarrow> ((nat \<times> Response) list \<times> 's) option) \<Rightarrow> (timestamp \<Rightarrow> timestamp \<Rightarrow> rat)
     \<Rightarrow> ('c, 'i) sys_input list \<Rightarrow> ('c, 's) System \<Rightarrow> ('c sys_effect list \<times> ('c, 's) System) option" where
  "sys_run accept step td [] y = Some ([], y)"
| "sys_run accept step td (i # is) y = do {
     (es, y) \<leftarrow> sys_step accept step td i y;
     (fs, y) \<leftarrow> sys_run accept step td is y;
     Some (es @ fs, y) }"

subsection \<open>The parts of a trace\<close>

fun client_trace :: "nat \<Rightarrow> 'c sys_effect list \<Rightarrow> 'c rpc_effect list" where
  "client_trace k [] = []"
| "client_trace k (At j e # tr) = (if j = k then e # client_trace k tr else client_trace k tr)"
| "client_trace k (_ # tr) = client_trace k tr"

fun served :: "'c sys_effect list \<Rightarrow> rs_effect list" where
  "served [] = []"
| "served (Srv e # tr) = e # served tr"
| "served (_ # tr) = served tr"

fun made :: "nat \<Rightarrow> ('c, 'i) sys_input list \<Rightarrow> 'c list" where
  "made k [] = []"
| "made k (Y_client j (In_call c req) # is) = (if j = k then c # made k is else made k is)"
| "made k (_ # is) = made k is"

text \<open>A response that client \<open>k\<close> can get: the receiver's answer to a request of that client, with the number of the request.\<close>

definition sent_by :: "'c sys_effect list \<Rightarrow> nat \<Rightarrow> Request \<Rightarrow> bool" where
  "sent_by past k req \<longleftrightarrow> (\<exists>c. At k (Send c req) \<in> set past)"

definition answer_to :: "'c sys_effect list \<Rightarrow> Request \<Rightarrow> Response \<Rightarrow> bool" where
  "answer_to past req rep \<longleftrightarrow> (\<exists>conn e r. Srv (R_receive conn e) \<in> set past \<and> ev_Req e = req \<and> Answer (ev_done e) r \<in> set past
     \<and> Srv (R_send (ev_done e) conn rep) \<in> set past \<and> rep = r\<lparr>rp_xid := Some (rq_xid req)\<rparr>)"

definition own_answers :: "'c sys_effect list \<Rightarrow> bool" where
  "own_answers = preceded (\<lambda>past x. case x of
       At k (Done c st (Some rep)) \<Rightarrow> \<exists>req. At k (Send c req) \<in> set past \<and> answer_to past req rep
     | _ \<Rightarrow> True)"

lemma client_trace_append [simp]: "client_trace k (a @ b) = client_trace k a @ client_trace k b"
  by (induction k a rule: client_trace.induct) auto

lemma served_append [simp]: "served (a @ b) = served a @ served b"
  by (induction a rule: served.induct) auto

lemma client_trace_At [simp]: "client_trace k (map (At j) es) = (if j = k then es else [])"
  by (induction es) auto

lemma client_trace_Srv [simp]: "client_trace k (map Srv es) = []" and served_Srv [simp]: "served (map Srv es) = es"
  by (induction es) auto

lemma served_At [simp]: "served (map (At j) es) = []"
  by (induction es) auto

lemma client_trace_mem [simp]: "e \<in> set (client_trace k tr) \<longleftrightarrow> At k e \<in> set tr"
  by (induction k tr rule: client_trace.induct) auto

lemma served_mem [simp]: "e \<in> set (served tr) \<longleftrightarrow> Srv e \<in> set tr"
  by (induction tr rule: served.induct) auto

lemma client_trace_Answer [simp]: "client_trace k (map (\<lambda>(d, rep). Answer d rep) xs) = []"
  and served_Answer [simp]: "served (map (\<lambda>(d, rep). Answer d rep) xs) = []"
  by (induction xs) auto

lemma made_Cons: "made k (i # is) = made k [i] @ made k is"
  by (cases "(k, i # is)" rule: made.cases) auto

lemma answer_to_mono: "answer_to past req rep \<Longrightarrow> set past \<subseteq> set past' \<Longrightarrow> answer_to past' req rep"
  unfolding answer_to_def by blast

lemma sent_by_mono: "sent_by past k req \<Longrightarrow> set past \<subseteq> set past' \<Longrightarrow> sent_by past' k req"
  unfolding sent_by_def by blast

lemma sent_mem: "req \<in> set (sent es) \<longleftrightarrow> (\<exists>c. Send c req \<in> set es)"
  by (induction es rule: sent.induct) auto

lemma own_answers_append:
  assumes "own_answers past"
    and "\<And>k c st rep. At k (Done c st (Some rep)) \<in> set es \<Longrightarrow> \<exists>req. At k (Send c req) \<in> set past \<and> answer_to past req rep"
  shows "own_answers (past @ es)"
  using assms(1) unfolding own_answers_def
proof (rule preceded_append)
  fix a x
  assume "x \<in> set es" and sub: "set past \<subseteq> set a"
  then show "case x of At k (Done c st (Some rep)) \<Rightarrow> \<exists>req. At k (Send c req) \<in> set a \<and> answer_to a req rep | _ \<Rightarrow> True"
    by (auto split: sys_effect.split rpc_effect.split option.split dest!: assms(2) intro: answer_to_mono)
qed

subsection \<open>What is on the wires\<close>

definition conn_ok :: "'c sys_effect list \<Rightarrow> Conn \<Rightarrow> bool" where
  "conn_ok past c \<longleftrightarrow> (\<forall>req \<in> set (cn_reqs c). sent_by past (cn_client c) req)
     \<and> (\<forall>n e. cn_server c = Some n \<longrightarrow> Srv (R_receive n e) \<in> set past \<longrightarrow> sent_by past (cn_client c) (ev_Req e))
     \<and> (\<forall>rep \<in> set (cn_reps c). \<exists>req. sent_by past (cn_client c) req \<and> answer_to past req rep)"

lemma conn_ok_mono:
  assumes "conn_ok past c" and "set past \<subseteq> set past'"
    and "\<And>n e. cn_server c = Some n \<Longrightarrow> Srv (R_receive n e) \<in> set past' \<Longrightarrow> Srv (R_receive n e) \<in> set past \<or> sent_by past' (cn_client c) (ev_Req e)"
  shows "conn_ok past' c"
  using assms(1) sent_by_mono [OF _ assms(2)] answer_to_mono [OF _ assms(2)] assms(3) unfolding conn_ok_def by meson

lemma transmit_ok:
  assumes "transmit cur es net = Some net'" and "\<forall>c \<in> set net. conn_ok past c"
    and "\<And>n. cur = Some n \<Longrightarrow> n < length net \<and> cn_client (net ! n) = k" and "\<forall>req \<in> set (sent es). sent_by past k req"
  shows "(\<forall>c \<in> set net'. conn_ok past c) \<and> map cn_server net' = map cn_server net \<and> map cn_client net' = map cn_client net"
  using assms
proof (induction cur es net rule: transmit.induct)
  case (2 cur c req es net)
  then obtain n where n: "cur = Some n" by (cases cur) auto
  let ?c = "(net ! n)\<lparr>cn_reqs := cn_reqs (net ! n) @ [req]\<rparr>"
  have c: "n < length net" "cn_client (net ! n) = k" using "2.prems"(3) n by auto
  have "conn_ok past ?c" using "2.prems"(2,4) c nth_mem [OF c(1)] by (auto simp: conn_ok_def)
  then have "\<forall>c \<in> set (net[n := ?c]). conn_ok past c" using "2.prems"(2) by (auto dest!: subsetD [OF set_update_subset_insert])
  moreover have "map cn_server (net[n := ?c]) = map cn_server net" "map cn_client (net[n := ?c]) = map cn_client net"
    by (simp_all add: map_update list_update_same_conv [THEN iffD2] c)
  moreover have "transmit cur es (net[n := ?c]) = Some net'" using "2.prems"(1) n by simp
  moreover have "m < length (net[n := ?c]) \<and> cn_client (net[n := ?c] ! m) = k" if "cur = Some m" for m using that n c by simp
  ultimately show ?case using "2.IH" [OF n] "2.prems"(4) by simp
qed simp_all

lemma post_ok:
  assumes "\<forall>c \<in> set net. conn_ok past c"
    and "\<And>d n rep c. R_send d n rep \<in> set es \<Longrightarrow> c \<in> set net \<Longrightarrow> cn_server c = Some n \<Longrightarrow> \<exists>req. sent_by past (cn_client c) req \<and> answer_to past req rep"
  shows "(\<forall>c \<in> set (post es net). conn_ok past c) \<and> map cn_server (post es net) = map cn_server net \<and> map cn_client (post es net) = map cn_client net"
  using assms
proof (induction es net rule: post.induct)
  case (2 d n rep es net)
  define f where "f = (\<lambda>c :: Conn. if cn_server c = Some n then c\<lparr>cn_reps := cn_reps c @ [rep]\<rparr> else c)"
  have f: "cn_server (f c) = cn_server c" "cn_client (f c) = cn_client c" for c by (simp_all add: f_def)
  have "conn_ok past (f c)" if "c \<in> set net" for c
    using "2.prems"(1) "2.prems"(2) [OF _ that, of d n rep] that by (auto simp: conn_ok_def f_def)
  moreover have "\<exists>req. sent_by past (cn_client c) req \<and> answer_to past req rep'"
    if "R_send d' n' rep' \<in> set es" "c \<in> set (map f net)" "cn_server c = Some n'" for d' n' rep' c
    using "2.prems"(2) [of d' n' rep'] that by (auto simp: f)
  ultimately have "(\<forall>c \<in> set (post es (map f net)). conn_ok past c) \<and> map cn_server (post es (map f net)) = map cn_server (map f net)
      \<and> map cn_client (post es (map f net)) = map cn_client (map f net)"
    by (intro "2.IH" [folded f_def]) simp_all
  moreover have "post (R_send d n rep # es) net = post es (map f net)" by (simp add: f_def)
  ultimately show ?case by (simp add: f comp_def)
qed simp_all

subsection \<open>The steps of a client\<close>

text \<open>A client that thinks it is connected has a connection.\<close>

definition link_ok :: "'c RpcClient \<Rightarrow> nat option \<Rightarrow> bool" where
  "link_ok cl cur \<longleftrightarrow> (cl_connected cl \<longrightarrow> cur \<noteq> None) \<and> (cl_closing cl \<longrightarrow> \<not> cl_connected cl)"

lemma cancel_timer_flags:
  "cl_connected (cancel_timer t cl) = cl_connected cl" "cl_closing (cancel_timer t cl) = cl_closing cl"
  "cl_pendingCalls (cancel_timer t cl) = cl_pendingCalls cl"
  by (simp_all add: cancel_timer_def)

lemma fold_cancel_flags:
  "cl_connected (fold (\<lambda>call. cancel_timer (rc_Tid call)) calls cl) = cl_connected cl"
  "cl_closing (fold (\<lambda>call. cancel_timer (rc_Tid call)) calls cl) = cl_closing cl"
  by (simp_all add: fold_cancel_timer)

lemmas rpc_step_defs = rpc_step_def rpc_Call_def rpc_callInLoop_def rpc_onConnection_def rpc_onRpcMessage_def onCallTimeout_def
  rpc_Close_def RpcClient_destroy_def clearCalls_def Let_def cancel_timer_flags fold_cancel_flags

lemma rpc_step_link:
  assumes "rpc_step i cl = Some (es, cl')" and "link_ok cl cur" and "i = In_connection True \<Longrightarrow> cur \<noteq> None \<and> \<not> cl_closing cl"
  shows "link_ok cl' (if drops_connection i then None else cur)"
  using assms
  by (cases i) (auto simp: rpc_step_defs link_ok_def split: if_splits list.splits option.splits prod.splits)

lemma rpc_step_sends:
  assumes "rpc_step i cl = Some (es, cl')" and "Send c req \<in> set es"
  shows "cl_connected cl"
  using assms by (cases i) (auto simp: rpc_step_defs split: if_splits list.splits option.splits prod.splits)

lemma rpc_step_answers:
  assumes "rpc_step i cl = Some (es, cl')" and "Done c st (Some rep) \<in> set es"
  obtains call where "i = In_message rep" "om_find (cl_pendingCalls cl) (rep_xid rep) = Some call" "c = rc_Done call"
  using assms by (cases i) (auto simp: rpc_step_defs split: if_splits list.splits option.splits prod.splits)

lemma transmit_total:
  assumes "\<And>c req. Send c req \<in> set es \<Longrightarrow> cur \<noteq> None"
  shows "\<exists>net'. transmit cur es net = Some net'"
  using assms by (induction cur es net rule: transmit.induct) (auto split: option.split)

definition clients_ok :: "'c sys_effect list \<Rightarrow> nat \<Rightarrow> ('c, 's) System \<Rightarrow> bool" where
  "clients_ok past N y \<longleftrightarrow> (\<forall>k. rpc_hist (client_trace k past) (sy_clients y k) \<and> unat (cl_xid (sy_clients y k)) \<le> N
     \<and> link_ok (sy_clients y k) (sy_cur y k)
     \<and> (\<forall>n. sy_cur y k = Some n \<longrightarrow> n < length (sy_net y) \<and> cn_client (sy_net y ! n) = k))"

lemma clients_okD:
  assumes "clients_ok past N y"
  shows "rpc_hist (client_trace k past) (sy_clients y k)" "unat (cl_xid (sy_clients y k)) \<le> N" "link_ok (sy_clients y k) (sy_cur y k)"
    "sy_cur y k = Some n \<Longrightarrow> n < length (sy_net y) \<and> cn_client (sy_net y ! n) = k"
  using assms by (simp_all add: clients_ok_def)

text \<open>The call that a response completes was sent with the request that the response answers: the numbers of a client's requests are all different.\<close>

lemma answers_own_call:
  assumes h: "rpc_hist (client_trace k past) cl" and f: "om_find (cl_pendingCalls cl) (rep_xid rep) = Some call"
    and req: "sent_by past k req" and a: "answer_to past req rep"
  shows "At k (Send (rc_Done call) req) \<in> set past"
proof -
  have c: "Send (rc_Done call) (rc_Req call) \<in> set (client_trace k past)" "rq_xid (rc_Req call) = rep_xid rep"
    using rpc_histD(3) [OF h om_find_set [OF f]] by auto
  have "rep_xid rep = rq_xid req" using a by (auto simp: answer_to_def rep_xid_def)
  moreover have "req \<in> set (sent (client_trace k past))" "rc_Req call \<in> set (sent (client_trace k past))"
    using req c(1) by (auto simp: sent_mem sent_by_def)
  moreover have "inj_on rq_xid (set (sent (client_trace k past)))" using h by (simp add: rpc_hist_def distinct_map)
  ultimately have "req = rc_Req call" using c(2) by (metis inj_onD)
  then show ?thesis using c(1) by simp
qed

lemma client_act_inv:
  assumes ok: "clients_ok past N y" and N: "N < 2 ^ 64 - 1" and net: "\<forall>c \<in> set (sy_net y). conn_ok past c" and own: "own_answers past"
    and up: "i = In_connection True \<Longrightarrow> sy_cur y k \<noteq> None \<and> \<not> cl_closing (sy_clients y k)"
    and msg: "\<And>rep. i = In_message rep \<Longrightarrow> \<exists>req. sent_by past k req \<and> answer_to past req rep"
  obtains es y' where "client_act k i y = Some (map (At k) es, y')" "clients_ok (past @ map (At k) es) (N + 1) y'"
    "\<forall>c \<in> set (sy_net y'). conn_ok (past @ map (At k) es) c" "map cn_server (sy_net y') = map cn_server (sy_net y)"
    "own_answers (past @ map (At k) es)" "sy_server y' = sy_server y" "sy_recv y' = sy_recv y"
    "\<And>j. accounts (if j = k then called [i] else []) (sy_clients y j) (client_trace j (map (At k) es)) (sy_clients y' j)"
proof -
  note h = clients_okD [OF ok]
  have "unat (cl_xid (sy_clients y k)) < 2 ^ 64 - 1" using h(2) [of k] N by simp
  from rpc_step_hist [OF h(1) this] obtain es cl where r: "rpc_step i (sy_clients y k) = Some (es, cl)"
    "rpc_hist (client_trace k past @ es) cl" "unat (cl_xid cl) \<le> unat (cl_xid (sy_clients y k)) + 1" "accounts (called [i]) (sy_clients y k) es cl"
    by blast
  have "sy_cur y k \<noteq> None" if "Send c req \<in> set es" for c req
    using rpc_step_sends [OF r(1) that] h(3) [of k] by (simp add: link_ok_def)
  then obtain net' where t: "transmit (sy_cur y k) es (sy_net y) = Some net'" using transmit_total by blast
  let ?tr = "map (At k) es"
  have "\<forall>c \<in> set (sy_net y). conn_ok (past @ ?tr) c" using net by (auto intro: conn_ok_mono)
  moreover have "\<forall>req \<in> set (sent es). sent_by (past @ ?tr) k req" by (auto simp: sent_mem sent_by_def image_iff)
  ultimately have n: "\<forall>c \<in> set net'. conn_ok (past @ ?tr) c" "map cn_server net' = map cn_server (sy_net y)" "map cn_client net' = map cn_client (sy_net y)"
    using transmit_ok [OF t, of "past @ ?tr" k] h(4) [of k] by simp_all
  define y' where "y' = y\<lparr>sy_clients := (sy_clients y)(k := cl),
         sy_cur := if drops_connection i then (sy_cur y)(k := None) else sy_cur y, sy_net := net'\<rparr>"
  have a: "client_act k i y = Some (?tr, y')" by (simp add: client_act_def r(1) t y'_def)
  have l: "length net' = length (sy_net y)" "\<And>m. m < length net' \<Longrightarrow> cn_client (net' ! m) = cn_client (sy_net y ! m)"
    using n(3) by (metis length_map) (metis n(3) nth_map length_map)
  have "clients_ok (past @ ?tr) (N + 1) y'" unfolding clients_ok_def
  proof
    fix j
    show "rpc_hist (client_trace j (past @ ?tr)) (sy_clients y' j) \<and> unat (cl_xid (sy_clients y' j)) \<le> N + 1 \<and> link_ok (sy_clients y' j) (sy_cur y' j)
       \<and> (\<forall>n. sy_cur y' j = Some n \<longrightarrow> n < length (sy_net y') \<and> cn_client (sy_net y' ! n) = j)"
      using h [of j] h(2) [of k] r rpc_step_link [OF r(1) h(3) up] l by (cases "j = k") (auto simp: y'_def le_SucI)
  qed
  moreover have "own_answers (past @ ?tr)"
  proof (rule own_answers_append [OF own])
    fix j c st rep
    assume "At j (Done c st (Some rep)) \<in> set ?tr"
    then have j: "j = k" "Done c st (Some rep) \<in> set es" by auto
    obtain call where c: "i = In_message rep" "om_find (cl_pendingCalls (sy_clients y k)) (rep_xid rep) = Some call" "c = rc_Done call"
      by (rule rpc_step_answers [OF r(1) j(2)])
    obtain req where q: "sent_by past k req" "answer_to past req rep" using msg [OF c(1)] by blast
    show "\<exists>req. At j (Send c req) \<in> set past \<and> answer_to past req rep"
      using answers_own_call [OF h(1) c(2) q] q(2) unfolding j(1) c(3) by blast
  qed
  moreover have "accounts (if j = k then called [i] else []) (sy_clients y j) (client_trace j ?tr) (sy_clients y' j)" for j
    using r(4) by (simp add: y'_def accounts_def)
  ultimately show thesis using that [OF a] n by (simp add: y'_def)
qed

subsection \<open>The steps of the server\<close>

lemma pairedD:
  assumes "paired es" and "R_send d n rep \<in> set es"
  obtains e where "R_receive n e \<in> set es" "ev_done e = d" "rp_xid rep = Some (rq_xid (ev_Req e))"
proof -
  obtain a b where es: "es = a @ R_send d n rep # b" using assms(2) by (meson split_list)
  then have "\<exists>e. R_receive n e \<in> set a \<and> ev_done e = d \<and> rp_xid rep = Some (rq_xid (ev_Req e))"
    using assms(1) unfolding paired_def preceded_def by fastforce
  then show thesis using that es by auto
qed

lemma run_closures_effects:
  assumes "run_closures td now reps rs = (es, rs')"
  shows "(\<forall>n e. R_receive n e \<notin> set es) \<and> rs_nextConn rs' = rs_nextConn rs
    \<and> (\<forall>d n rep. R_send d n rep \<in> set es \<longrightarrow> (\<exists>r x. (d, r) \<in> set reps \<and> rep = r\<lparr>rp_xid := x\<rparr>))"
  using assms
proof (induction reps arbitrary: rs es)
  case (Cons x reps)
  obtain d' r' where x: "x = (d', r')" by (cases x)
  obtain es1 rs1 where 1: "rs_onRpcDone td now d' r' rs = (es1, rs1)" by fastforce
  obtain es2 where 2: "run_closures td now reps rs1 = (es2, rs')" "es = es1 @ es2"
    using Cons.prems 1 by (auto simp: x split: prod.splits)
  have "(\<forall>n e. R_receive n e \<notin> set es1) \<and> rs_nextConn rs1 = rs_nextConn rs
      \<and> (\<forall>d n rep. R_send d n rep \<in> set es1 \<longrightarrow> d = d' \<and> (\<exists>x. rep = r'\<lparr>rp_xid := x\<rparr>))"
    using 1 by (auto simp: rs_onRpcDone_def Let_def intro!: exI [of _ "Some _"] split: option.splits if_splits)
  then show ?case using Cons.IH [OF 2(1)] by (simp add: 2(2) x) blast
qed simp

lemma service_step_effects:
  assumes "service_step accept step td i (rs, s) = Some (es, rs', s')"
  shows "R_receive n e \<in> set es \<Longrightarrow> \<exists>now ip. i = S_message now n ip (ev_Req e)"
    and "rs_nextConn rs' = rs_nextConn rs + (if i = S_connect then 1 else 0)"
    and "R_send d n rep \<in> set es \<Longrightarrow> \<exists>r x. (d, r) \<in> set (answers step i s) \<and> rep = r\<lparr>rp_xid := x\<rparr>"
proof -
  note defs = service_step_def rs_step_def rs_onConnection_def rs_onRpcMessage_def Let_def
  show "R_receive n e \<in> set es \<Longrightarrow> \<exists>now ip. i = S_message now n ip (ev_Req e)"
    using assms by (cases i) (auto simp: defs split: if_splits option.splits prod.splits elim!: bind_eq_SomeE dest!: run_closures_effects)
  show "rs_nextConn rs' = rs_nextConn rs + (if i = S_connect then 1 else 0)"
    using assms by (cases i) (auto simp: defs split: if_splits option.splits prod.splits elim!: bind_eq_SomeE dest!: run_closures_effects)
  show "\<exists>r x. (d, r) \<in> set (answers step i s) \<and> rep = r\<lparr>rp_xid := x\<rparr>" if "R_send d n rep \<in> set es"
    using assms that
    by (cases i) (auto simp: defs answers_def split: if_splits option.splits prod.splits elim!: bind_eq_SomeE dest!: run_closures_effects)
qed

text \<open>No two connections have the same number at the server.\<close>

definition numbered :: "nat option list \<Rightarrow> nat \<Rightarrow> bool" where
  "numbered ns nx \<longleftrightarrow> (\<forall>i n. i < length ns \<longrightarrow> ns ! i = Some n \<longrightarrow> n < nx \<and> (\<forall>j < length ns. ns ! j = Some n \<longrightarrow> i = j))"

lemma numberedD: "numbered ns nx \<Longrightarrow> i < length ns \<Longrightarrow> ns ! i = Some n \<Longrightarrow> n < nx \<and> (\<forall>j < length ns. ns ! j = Some n \<longrightarrow> i = j)"
  by (simp add: numbered_def)

lemma numbered_snoc: "numbered ns nx \<Longrightarrow> numbered (ns @ [None]) nx"
  by (auto simp: numbered_def nth_append split: if_splits)

lemma numbered_accept:
  assumes "numbered ns nx" shows "numbered (ns[k := Some nx]) (nx + 1)"
  unfolding numbered_def
proof (intro allI impI)
  fix i n
  assume i: "i < length (ns[k := Some nx])" "ns[k := Some nx] ! i = Some n"
  have less: "m < nx" if "j < length ns" "ns ! j = Some m" for j m using numberedD [OF assms that] by simp
  show "n < nx + 1 \<and> (\<forall>j < length (ns[k := Some nx]). ns[k := Some nx] ! j = Some n \<longrightarrow> i = j)"
  proof (cases "i = k")
    case True
    then have "n = nx" using i by simp
    moreover have "k = j" if "j < length ns" "ns[k := Some nx] ! j = Some nx" for j
      using that less [of j nx] by (cases "k = j") simp_all
    ultimately show ?thesis using True by simp
  next
    case False
    then have o: "i < length ns" "ns ! i = Some n" using i by simp_all
    have "i = j" if "j < length ns" "ns[k := Some nx] ! j = Some n" for j
      using that numberedD [OF assms o] less [OF o] by (cases "k = j") auto
    then show ?thesis using less [OF o] by simp
  qed
qed

lemma clients_ok_update:
  assumes "clients_ok past N y" and "cn_client c = cn_client (sy_net y ! n)"
  shows "clients_ok past N (y\<lparr>sy_net := (sy_net y)[n := c]\<rparr>)"
proof -
  have "cn_client ((sy_net y)[n := c] ! m) = cn_client (sy_net y ! m)" for m
    using assms(2) by (cases "n < length (sy_net y)"; cases "m = n") (simp_all add: list_update_beyond)
  then show ?thesis using assms(1) by (simp add: clients_ok_def)
qed

lemma clients_ok_up:
  assumes "clients_ok past N y" and "sy_cur y k = None" and "cn_client c = k"
  shows "clients_ok past N (y\<lparr>sy_cur := (sy_cur y)(k \<mapsto> length (sy_net y)), sy_net := sy_net y @ [c]\<rparr>)" (is "clients_ok past N ?y")
  unfolding clients_ok_def
proof
  fix j
  show "rpc_hist (client_trace j past) (sy_clients ?y j) \<and> unat (cl_xid (sy_clients ?y j)) \<le> N \<and> link_ok (sy_clients ?y j) (sy_cur ?y j)
     \<and> (\<forall>n. sy_cur ?y j = Some n \<longrightarrow> n < length (sy_net ?y) \<and> cn_client (sy_net ?y ! n) = j)"
    using clients_okD [OF assms(1), of j] assms(2,3) by (cases "j = k") (auto simp: nth_append link_ok_def)
qed

lemma conns_update:
  assumes "\<forall>c \<in> set net. conn_ok past c" and "conn_ok past c'"
  shows "\<forall>c \<in> set (net[n := c']). conn_ok past c"
  using assms by (auto dest!: subsetD [OF set_update_subset_insert])

context rpc_receiver
begin

lemma server_input_inv:
  assumes inv: "service_inv (served past) (sy_server y, sy_recv y)" and sid: "unat (rs_sid (sy_server y)) \<le> N" and N: "N < 2 ^ 64 - 1"
    and net: "\<forall>c \<in> set (sy_net y). conn_ok past c" and own: "own_answers past"
    and msg: "\<forall>now n ip req. i = S_message now n ip req \<longrightarrow> (\<forall>c \<in> set (sy_net y). cn_server c = Some n \<longrightarrow> sent_by past (cn_client c) req)"
    and run: "server_input accept step td i y = Some (tr, y')"
  shows "service_inv (served (past @ tr)) (sy_server y', sy_recv y') \<and> unat (rs_sid (sy_server y')) \<le> N + 1
    \<and> (\<forall>c \<in> set (sy_net y'). conn_ok (past @ tr) c) \<and> map cn_server (sy_net y') = map cn_server (sy_net y)
    \<and> map cn_client (sy_net y') = map cn_client (sy_net y) \<and> own_answers (past @ tr)
    \<and> rs_nextConn (sy_server y') = rs_nextConn (sy_server y) + (if i = S_connect then 1 else 0)
    \<and> sy_clients y' = sy_clients y \<and> sy_cur y' = sy_cur y \<and> (\<forall>k. client_trace k tr = [])"
proof -
  obtain es rs s where r: "service_step accept step td i (sy_server y, sy_recv y) = Some (es, rs, s)"
    and tr: "tr = map (\<lambda>(d, rep). Answer d rep) (answers step i (sy_recv y)) @ map Srv es"
    and y': "y' = y\<lparr>sy_server := rs, sy_recv := s, sy_net := post es (sy_net y)\<rparr>"
    using run by (auto simp: server_input_def elim!: bind_eq_SomeE)
  note eff = service_step_effects [OF r]
  have st: "service_inv (served past @ es) (rs, s) \<and> unat (rs_sid rs) \<le> unat (rs_sid (sy_server y)) + 1"
    using service_step_inv [OF inv _ r] sid N by simp
  have new: "Srv (R_receive n e) \<in> set tr \<longleftrightarrow> R_receive n e \<in> set es" for n e by (auto simp: tr)
  have ok: "conn_ok (past @ tr) c" if "c \<in> set (sy_net y)" for c
  proof (rule conn_ok_mono)
    show "conn_ok past c" using net that by simp
    fix n e
    assume n: "cn_server c = Some n" and m: "Srv (R_receive n e) \<in> set (past @ tr)"
    show "Srv (R_receive n e) \<in> set past \<or> sent_by (past @ tr) (cn_client c) (ev_Req e)"
    proof (cases "Srv (R_receive n e) \<in> set past")
      case False
      then obtain now ip where "i = S_message now n ip (ev_Req e)" using m eff(1) [of n e] new by auto
      then have "sent_by past (cn_client c) (ev_Req e)" using msg that n by blast
      then show ?thesis by (simp add: sent_by_mono)
    qed simp
  qed simp
  have "paired (served (past @ tr))" using st by (simp add: tr service_inv_def rs_hist_def)
  have rep: "\<exists>req. sent_by (past @ tr) (cn_client c) req \<and> answer_to (past @ tr) req rep"
    if send: "R_send d n rep \<in> set es" and c: "c \<in> set (sy_net y)" "cn_server c = Some n" for d n rep c
  proof -
    have "R_send d n rep \<in> set (served (past @ tr))" using send by (simp add: tr)
    then obtain e where e: "R_receive n e \<in> set (served (past @ tr))" "ev_done e = d" "rp_xid rep = Some (rq_xid (ev_Req e))"
      by (rule pairedD [OF \<open>paired _\<close>])
    obtain r x where "(d, r) \<in> set (answers step i (sy_recv y))" "rep = r\<lparr>rp_xid := x\<rparr>" using eff(3) [OF send] by blast
    then have "Answer d r \<in> set (past @ tr)" "rep = r\<lparr>rp_xid := Some (rq_xid (ev_Req e))\<rparr>" using e(3) by (force simp: tr)+
    moreover have "Srv (R_send d n rep) \<in> set (past @ tr)" using send by (simp add: tr)
    moreover have "Srv (R_receive n e) \<in> set (past @ tr)" using e(1) by (simp only: served_mem)
    ultimately have "answer_to (past @ tr) (ev_Req e) rep" unfolding answer_to_def using e(2) by blast
    moreover have "sent_by (past @ tr) (cn_client c) (ev_Req e)"
      using ok [OF c(1)] c(2) \<open>Srv (R_receive n e) \<in> set (past @ tr)\<close> unfolding conn_ok_def by blast
    ultimately show ?thesis by blast
  qed
  have "own_answers (past @ tr)" using own by (rule own_answers_append) (auto simp: tr)
  then show ?thesis using st sid eff(2) post_ok [of "sy_net y" "past @ tr" es] ok rep by (simp add: y' tr)
qed

text \<open>The whole state, after \<open>N\<close> steps with the effects \<open>past\<close>.\<close>

definition sys_inv :: "'c sys_effect list \<Rightarrow> nat \<Rightarrow> ('c, 's) System \<Rightarrow> bool" where
  "sys_inv past N y \<longleftrightarrow> clients_ok past N y \<and> (\<forall>c \<in> set (sy_net y). conn_ok past c) \<and> own_answers past
     \<and> service_inv (served past) (sy_server y, sy_recv y) \<and> unat (rs_sid (sy_server y)) \<le> N
     \<and> numbered (map cn_server (sy_net y)) (rs_nextConn (sy_server y))"

definition sys_post :: "'c sys_effect list \<Rightarrow> nat \<Rightarrow> ('c, 'i) sys_input \<Rightarrow> ('c, 's) System \<Rightarrow> 'c sys_effect list \<Rightarrow> ('c, 's) System \<Rightarrow> bool" where
  "sys_post past N i y tr y' \<longleftrightarrow> sys_inv (past @ tr) (N + 1) y'
     \<and> (\<forall>k. accounts (made k [i]) (sy_clients y k) (client_trace k tr) (sy_clients y' k))"

lemma sys_stutter:
  assumes "sys_inv past N y" and "\<And>k. made k [i] = []"
  shows "sys_post past N i y [] y"
  using assms by (auto simp: sys_post_def sys_inv_def clients_ok_def accounts_def le_SucI)

lemma client_act_post:
  assumes inv: "sys_inv past N y0" and N: "N < 2 ^ 64 - 1" and ok: "clients_ok past N y" "\<forall>c \<in> set (sy_net y). conn_ok past c"
    and same: "sy_clients y = sy_clients y0" "sy_server y = sy_server y0" "sy_recv y = sy_recv y0"
    and ns: "numbered (map cn_server (sy_net y)) (rs_nextConn (sy_server y0))"
    and up: "a = In_connection True \<Longrightarrow> sy_cur y k \<noteq> None \<and> \<not> cl_closing (sy_clients y k)"
    and msg: "\<And>rep. a = In_message rep \<Longrightarrow> \<exists>req. sent_by past k req \<and> answer_to past req rep"
    and made: "\<And>j. made j [i] = (if j = k then called [a] else [])" and run: "client_act k a y = Some (tr, y')"
  shows "sys_post past N i y0 tr y'"
proof -
  have "own_answers past" using inv by (simp add: sys_inv_def)
  obtain es y1 where c: "client_act k a y = Some (map (At k) es, y1)" "clients_ok (past @ map (At k) es) (N + 1) y1"
    "\<forall>c \<in> set (sy_net y1). conn_ok (past @ map (At k) es) c" "map cn_server (sy_net y1) = map cn_server (sy_net y)"
    "own_answers (past @ map (At k) es)" "sy_server y1 = sy_server y" "sy_recv y1 = sy_recv y"
    "\<And>j. accounts (if j = k then called [a] else []) (sy_clients y j) (client_trace j (map (At k) es)) (sy_clients y1 j)"
    by (rule client_act_inv [OF ok(1) N ok(2) \<open>own_answers past\<close> up msg]) blast+
  then have "tr = map (At k) es" "y' = y1" using run by simp_all
  then show ?thesis using c inv ns made by (simp add: sys_post_def sys_inv_def same)
qed

lemma server_input_post:
  assumes inv: "sys_inv past N y0" and N: "N < 2 ^ 64 - 1" and ok: "clients_ok past N y" "\<forall>c \<in> set (sy_net y). conn_ok past c"
    and same: "sy_clients y = sy_clients y0" "sy_server y = sy_server y0" "sy_recv y = sy_recv y0"
    and ns: "numbered (map cn_server (sy_net y)) (rs_nextConn (sy_server y0) + (if a = S_connect then 1 else 0))"
    and msg: "\<forall>now n ip req. a = S_message now n ip req \<longrightarrow> (\<forall>c \<in> set (sy_net y). cn_server c = Some n \<longrightarrow> sent_by past (cn_client c) req)"
    and made: "\<And>j. made j [i] = []" and run: "server_input accept step td a y = Some (tr, y')"
  shows "sys_post past N i y0 tr y'"
proof -
  have i: "service_inv (served past) (sy_server y, sy_recv y)" "unat (rs_sid (sy_server y)) \<le> N" "own_answers past"
    using inv by (simp_all add: sys_inv_def same)
  note r = server_input_inv [OF i(1,2) N ok(2) i(3) msg run]
  then have l: "map cn_client (sy_net y') = map cn_client (sy_net y)" by blast
  have "n < length (sy_net y') \<and> cn_client (sy_net y' ! n) = k" if "n < length (sy_net y)" "cn_client (sy_net y ! n) = k" for n k
    using that l by (metis length_map nth_map)
  then have "clients_ok (past @ tr) (N + 1) y'" using ok(1) r by (auto simp: clients_ok_def le_SucI)
  then show ?thesis using r ns made by (simp add: sys_post_def sys_inv_def same accounts_def)
qed

lemma sys_step_up:
  assumes inv: "sys_inv past N y" and N: "N < 2 ^ 64 - 1" and run: "sys_step accept step td (Y_up k) y = Some (tr, y')"
  shows "sys_post past N (Y_up k) y tr y'"
proof (cases "sy_cur y k = None \<and> \<not> cl_closing (sy_clients y k)")
  case True
  let ?c = "\<lparr>cn_client = k, cn_server = None, cn_reqs = [], cn_reps = []\<rparr>"
  define y1 where "y1 = y\<lparr>sy_cur := (sy_cur y)(k \<mapsto> length (sy_net y)), sy_net := sy_net y @ [?c]\<rparr>"
  have i: "clients_ok past N y" "\<forall>c \<in> set (sy_net y). conn_ok past c" "numbered (map cn_server (sy_net y)) (rs_nextConn (sy_server y))"
    using inv by (simp_all add: sys_inv_def)
  have "client_act k (In_connection True) y1 = Some (tr, y')" using run True by (simp add: sys_step_def Let_def y1_def)
  moreover have "clients_ok past N y1" using clients_ok_up [OF i(1)] True by (simp add: y1_def)
  moreover have "\<forall>c \<in> set (sy_net y1). conn_ok past c" using i(2) by (simp add: y1_def conn_ok_def)
  ultimately show ?thesis using numbered_snoc [OF i(3)] True
    by (intro client_act_post [OF inv N, of y1 "In_connection True" k]) (auto simp: y1_def)
next
  case False
  then show ?thesis using run sys_stutter [OF inv, of "Y_up k"] by (auto simp: sys_step_def Let_def)
qed

lemma sys_step_reply:
  assumes inv: "sys_inv past N y" and N: "N < 2 ^ 64 - 1" and run: "sys_step accept step td (Y_reply n) y = Some (tr, y')"
  shows "sys_post past N (Y_reply n) y tr y'"
proof (cases "n < length (sy_net y) \<and> sy_cur y (cn_client (sy_net y ! n)) = Some n \<and> cn_reps (sy_net y ! n) \<noteq> []")
  case True
  define c where "c = sy_net y ! n"
  obtain rep rest where r: "cn_reps c = rep # rest" using True by (auto simp: c_def neq_Nil_conv)
  define y1 where "y1 = y\<lparr>sy_net := (sy_net y)[n := c\<lparr>cn_reps := rest\<rparr>]\<rparr>"
  have i: "clients_ok past N y" "\<forall>c \<in> set (sy_net y). conn_ok past c" "numbered (map cn_server (sy_net y)) (rs_nextConn (sy_server y))"
    using inv by (simp_all add: sys_inv_def)
  have c: "conn_ok past c" using i(2) True by (simp add: c_def)
  then have "conn_ok past (c\<lparr>cn_reps := rest\<rparr>)" and rep: "\<exists>req. sent_by past (cn_client c) req \<and> answer_to past req rep"
    using r by (simp_all add: conn_ok_def)
  then have "\<forall>c \<in> set (sy_net y1). conn_ok past c" using conns_update [OF i(2)] by (simp add: y1_def)
  moreover have "clients_ok past N y1" unfolding y1_def by (rule clients_ok_update [OF i(1)]) (simp add: c_def)
  moreover have "client_act (cn_client c) (In_message rep) y1 = Some (tr, y')" using run True r by (simp add: sys_step_def Let_def y1_def c_def)
  moreover have "map cn_server (sy_net y1) = map cn_server (sy_net y)" using True by (simp add: y1_def map_update c_def list_update_same_conv)
  ultimately show ?thesis using i(3) rep by (intro client_act_post [OF inv N, of y1 "In_message rep" "cn_client c"]) (auto simp: y1_def)
next
  case False
  then show ?thesis using run sys_stutter [OF inv, of "Y_reply n"] by (auto simp: sys_step_def Let_def split: if_splits list.splits)
qed

lemma sys_step_accept:
  assumes inv: "sys_inv past N y" and N: "N < 2 ^ 64 - 1" and run: "sys_step accept step td (Y_accept n) y = Some (tr, y')"
  shows "sys_post past N (Y_accept n) y tr y'"
proof (cases "n < length (sy_net y) \<and> cn_server (sy_net y ! n) = None")
  case True
  define c where "c = (sy_net y ! n)\<lparr>cn_server := Some (rs_nextConn (sy_server y))\<rparr>"
  define y1 where "y1 = y\<lparr>sy_net := (sy_net y)[n := c]\<rparr>"
  have i: "clients_ok past N y" "\<forall>c \<in> set (sy_net y). conn_ok past c" "numbered (map cn_server (sy_net y)) (rs_nextConn (sy_server y))"
    "settled (served past) (sy_server y)" using inv by (simp_all add: sys_inv_def service_inv_def)
  have "Srv (R_receive (rs_nextConn (sy_server y)) e) \<notin> set past" for e using settledD [OF i(4), of "rs_nextConn (sy_server y)" e] by auto
  moreover have "conn_ok past (sy_net y ! n)" using i(2) True by simp
  ultimately have "conn_ok past c" unfolding c_def conn_ok_def by simp
  then have "\<forall>c \<in> set (sy_net y1). conn_ok past c" using conns_update [OF i(2)] by (simp add: y1_def)
  moreover have "clients_ok past N y1" unfolding y1_def by (rule clients_ok_update [OF i(1)]) (simp add: c_def)
  moreover have "server_input accept step td S_connect y1 = Some (tr, y')" using run True by (simp add: sys_step_def Let_def y1_def c_def)
  moreover have "numbered (map cn_server (sy_net y1)) (rs_nextConn (sy_server y) + 1)"
    using numbered_accept [OF i(3)] by (simp add: y1_def map_update c_def)
  ultimately show ?thesis by (intro server_input_post [OF inv N, of y1 S_connect]) (auto simp: y1_def)
next
  case False
  then show ?thesis using run sys_stutter [OF inv, of "Y_accept n"] by (auto simp: sys_step_def Let_def)
qed

lemma sys_step_request:
  assumes inv: "sys_inv past N y" and N: "N < 2 ^ 64 - 1" and run: "sys_step accept step td (Y_request n now ip) y = Some (tr, y')"
  shows "sys_post past N (Y_request n now ip) y tr y'"
proof (cases "n < length (sy_net y) \<and> cn_server (sy_net y ! n) \<noteq> None \<and> cn_reqs (sy_net y ! n) \<noteq> []")
  case True
  define c where "c = sy_net y ! n"
  obtain conn req rest where r: "cn_server c = Some conn" "cn_reqs c = req # rest" using True by (auto simp: c_def neq_Nil_conv)
  define y1 where "y1 = y\<lparr>sy_net := (sy_net y)[n := c\<lparr>cn_reqs := rest\<rparr>]\<rparr>"
  have i: "clients_ok past N y" "\<forall>c \<in> set (sy_net y). conn_ok past c" "numbered (map cn_server (sy_net y)) (rs_nextConn (sy_server y))"
    using inv by (simp_all add: sys_inv_def)
  have "conn_ok past c" using i(2) True by (simp add: c_def)
  then have "conn_ok past (c\<lparr>cn_reqs := rest\<rparr>)" and req: "sent_by past (cn_client c) req" using r by (simp_all add: conn_ok_def)
  then have "\<forall>c \<in> set (sy_net y1). conn_ok past c" using conns_update [OF i(2)] by (simp add: y1_def)
  moreover have ns: "map cn_server (sy_net y1) = map cn_server (sy_net y)" using True by (simp add: y1_def map_update c_def list_update_same_conv)
  moreover have "sent_by past (cn_client c') req" if c': "c' \<in> set (sy_net y1)" "cn_server c' = Some conn" for c'
  proof -
    have l: "length (sy_net y1) = length (sy_net y)" by (simp add: y1_def)
    obtain j where j: "j < length (sy_net y1)" "sy_net y1 ! j = c'" using c'(1) by (auto simp: in_set_conv_nth)
    then have "map cn_server (sy_net y1) ! j = Some conn" using c'(2) by simp
    then have "map cn_server (sy_net y) ! j = Some conn" unfolding ns .
    moreover have "map cn_server (sy_net y) ! n = Some conn" using True r(1) by (simp add: c_def)
    ultimately have "n = j" using numberedD [OF i(3), of n conn] True j(1) l by simp
    then show ?thesis using req j(2) True by (auto simp: y1_def)
  qed
  moreover have "clients_ok past N y1" unfolding y1_def by (rule clients_ok_update [OF i(1)]) (simp add: c_def)
  moreover have "server_input accept step td (S_message now conn ip req) y1 = Some (tr, y')" using run True r by (simp add: sys_step_def Let_def y1_def c_def)
  ultimately show ?thesis using i(3) by (intro server_input_post [OF inv N, of y1 "S_message now conn ip req"]) (auto simp: y1_def)
next
  case False
  then show ?thesis using run sys_stutter [OF inv, of "Y_request n now ip"] by (auto simp: sys_step_def Let_def split: if_splits list.splits option.splits)
qed

lemma sys_step_inv:
  assumes inv: "sys_inv past N y" and N: "N < 2 ^ 64 - 1" and run: "sys_step accept step td i y = Some (tr, y')"
  shows "sys_post past N i y tr y'"
proof -
  have i: "clients_ok past N y" "\<forall>c \<in> set (sy_net y). conn_ok past c" "numbered (map cn_server (sy_net y)) (rs_nextConn (sy_server y))"
    using inv by (simp_all add: sys_inv_def)
  show ?thesis
  proof (cases i)
    case (Y_client k a)
    show ?thesis
    proof (cases "local_input a")
      case True
      then have "client_act k a y = Some (tr, y')" using run by (simp add: Y_client sys_step_def)
      then show ?thesis using i True unfolding Y_client
        by (intro client_act_post [OF inv N, of y a k]) (simp_all, cases a, simp_all)
    next
      case False
      then have "made j [i] = []" for j using Y_client by (cases a) simp_all
      then show ?thesis using run False sys_stutter [OF inv] by (simp add: Y_client sys_step_def)
    qed
  next
    case (Y_lost k)
    show ?thesis
    proof (cases "sy_cur y k = None")
      case False
      then have "client_act k (In_connection False) y = Some (tr, y')" using run by (simp add: Y_lost sys_step_def Let_def)
      then show ?thesis using i unfolding Y_lost by (intro client_act_post [OF inv N, of y "In_connection False" k]) simp_all
    qed (use run sys_stutter [OF inv, of i] in \<open>simp add: Y_lost sys_step_def Let_def\<close>)
  next
    case (Y_down n)
    show ?thesis
    proof (cases "n < length (sy_net y) \<and> cn_server (sy_net y ! n) \<noteq> None")
      case True
      then obtain conn where "server_input accept step td (S_down conn) y = Some (tr, y')" using run by (auto simp: Y_down sys_step_def Let_def)
      then show ?thesis using i unfolding Y_down by (intro server_input_post [OF inv N, of y "S_down conn"]) simp_all
    next
      case False
      then show ?thesis using run sys_stutter [OF inv, of i] by (auto simp: Y_down sys_step_def Let_def split: if_splits)
    qed
  next
    case (Y_serve now a)
    then have "server_input accept step td (S_step now a) y = Some (tr, y')" using run by (simp add: sys_step_def)
    then show ?thesis using i unfolding Y_serve by (intro server_input_post [OF inv N, of y "S_step now a"]) simp_all
  qed (use run inv N sys_step_up sys_step_reply sys_step_accept sys_step_request in auto)
qed

lemma sys_run_inv:
  assumes "sys_inv past N y" and "N + length is < 2 ^ 64" and "sys_run accept step td is y = Some (tr, y')"
  shows "sys_inv (past @ tr) (N + length is) y' \<and> (\<forall>k. accounts (made k is) (sy_clients y k) (client_trace k tr) (sy_clients y' k))"
  using assms
proof (induction "is" arbitrary: past N y tr)
  case (Cons i "is")
  obtain tr1 y1 tr2 where 1: "sys_step accept step td i y = Some (tr1, y1)" "sys_run accept step td is y1 = Some (tr2, y')"
    and tr: "tr = tr1 @ tr2" using Cons.prems(3) by (auto elim!: bind_eq_SomeE)
  have p: "sys_post past N i y tr1 y1" using Cons.prems(2) by (intro sys_step_inv [OF Cons.prems(1) _ 1(1)]) simp
  then have "sys_inv ((past @ tr1) @ tr2) (N + 1 + length is) y' \<and> (\<forall>k. accounts (made k is) (sy_clients y1 k) (client_trace k tr2) (sy_clients y' k))"
    using Cons.prems(2) by (intro Cons.IH [OF _ _ 1(2)]) (simp_all add: sys_post_def)
  moreover have "accounts (made k (i # is)) (sy_clients y k) (client_trace k tr) (sy_clients y' k)"
    if "accounts (made k is) (sy_clients y1 k) (client_trace k tr2) (sy_clients y' k)" for k
    using p that unfolding sys_post_def accounts_def tr made_Cons [of k i "is"]
    by (simp add: ac_simps)
  ultimately show ?case by (simp add: tr)
qed (simp add: accounts_def)

text \<open>From a start with nothing owed: what every client gets, and that a client can always make its next step.\<close>

lemma sys_new:
  assumes "good s" and "owed s = {#}"
  shows "sys_inv [] 0 (System_new addr s :: ('c, 's) System)"
proof -
  have "rpc_hist [] (RpcClient_new a :: 'c RpcClient)" "link_ok (RpcClient_new a :: 'c RpcClient) None" for a
    by (simp_all add: rpc_hist_def matched_def link_ok_def) (simp_all add: RpcClient_new_def)
  then show ?thesis using assms
    by (simp add: sys_inv_def clients_ok_def System_new_def own_answers_def numbered_def service_inv_def rs_hist_def rs_inv_def RpcServer_new_def
        paired_def settled_def) (simp add: RpcClient_new_def)
qed

lemma clients_served:
  assumes "good s" and "owed s = {#}" and "length is < 2 ^ 64 - 1" and "sys_run accept step td is (System_new addr s) = Some (tr, y)"
  shows "own_answers tr \<and> (\<forall>k. mset (made k is) = mset (ended (client_trace k tr)) + open_calls (sy_clients y k))
    \<and> distinct (Rpc_Server.received (served tr)) \<and> distinct (responded (served tr))
    \<and> (\<forall>k i. local_input i \<longrightarrow> client_act k i y \<noteq> None)"
proof -
  from sys_run_inv [OF sys_new [OF assms(1,2)] _ assms(4)] assms(3) have r: "sys_inv tr (length is) y"
    "\<And>k. accounts (made k is) (sy_clients (System_new addr s) k) (client_trace k tr) (sy_clients y k)" by simp_all
  have i: "clients_ok tr (length is) y" "\<forall>c \<in> set (sy_net y). conn_ok tr c" "own_answers tr" using r(1) by (simp_all add: sys_inv_def)
  have "client_act k i y \<noteq> None" if l: "local_input i" for k i
  proof -
    obtain es y' where "client_act k i y = Some (map (At k) es, y')"
      by (rule client_act_inv [OF i(1) assms(3) i(2,3), of i k]) (use l in auto)
    then show ?thesis by simp
  qed
  moreover have "mset (made k is) = mset (ended (client_trace k tr)) + open_calls (sy_clients y k)" for k
    using r(2) [of k] by (simp add: accounts_def System_new_def open_calls_def RpcClient_new_def)
  moreover have "distinct (Rpc_Server.received (served tr))" "distinct (responded (served tr))" using r(1) by (simp_all add: sys_inv_def service_inv_def rs_hist_def)
  ultimately show ?thesis using i(3) by simp
qed

end

end
