(* ===== verification/Delivery.thy ===== *)
theory Delivery
  imports Network
begin

text \<open>
  Nothing gets lost between clients and service while a connection is up: the request of a call that has not completed is on its
  way to the server, or the receiver owes its answer, or the response is on its way back. Built on the invariant of \<open>Network\<close>.
\<close>

subsection \<open>The clients\<close>

definition idle_ok :: "'c RpcClient \<Rightarrow> bool" where
  "idle_ok cl \<longleftrightarrow> cl_connected cl \<or> cl_pendingCalls cl = []"

lemma fold_cancel_pending: "cl_pendingCalls (fold (\<lambda>call. cancel_timer (rc_Tid call)) calls cl) = cl_pendingCalls cl"
  by (simp add: fold_cancel_timer)

lemma rpc_step_idle:
  assumes "rpc_step i cl = Some (es, cl')" and "idle_ok cl"
  shows "idle_ok cl'"
  using assms
  by (cases i) (auto simp: rpc_step_defs fold_cancel_pending idle_ok_def om_erase_def split: if_splits list.splits option.splits prod.splits)

lemma rpc_step_pending:
  assumes run: "rpc_step i cl = Some (es, cl')" and ok: "idle_ok cl" "link_ok cl cur" and f: "om_find (cl_pendingCalls cl') x = Some call"
  shows "om_find (cl_pendingCalls cl) x = Some call \<and> \<not> drops_connection i \<and> (\<forall>rep. i = In_message rep \<longrightarrow> x \<noteq> rep_xid rep)
    \<or> Send (rc_Done call) (rc_Req call) \<in> set es"
  using assms
  by (cases i) (auto simp: rpc_step_defs fold_cancel_pending idle_ok_def link_ok_def om_find_insert split: if_splits list.splits option.splits prod.splits)

lemma transmit_nth:
  assumes "transmit cur es net = Some net'" and "\<And>n. cur = Some n \<Longrightarrow> n < length net"
  shows "net' ! m = (if cur = Some m then (net ! m)\<lparr>cn_reqs := cn_reqs (net ! m) @ sent es\<rparr> else net ! m)"
  using assms
proof (induction cur es net rule: transmit.induct)
  case (2 cur c req es net)
  then obtain n where n: "cur = Some n" "n < length net" by (cases cur) auto
  then show ?case using "2.IH" [OF n(1)] "2.prems"(1) by auto
qed simp_all

subsection \<open>The server\<close>

lemma post_nth:
  assumes "m < length net"
  shows "length (post es net) = length net \<and> cn_reqs (post es net ! m) = cn_reqs (net ! m) \<and> cn_server (post es net ! m) = cn_server (net ! m)
    \<and> set (cn_reps (post es net ! m)) = set (cn_reps (net ! m)) \<union> {rep. \<exists>d n. cn_server (net ! m) = Some n \<and> R_send d n rep \<in> set es}"
  using assms by (induction es net rule: post.induct) auto

lemma rs_lock_calls [simp]: "rs_lock (rs\<lparr>rs_calls := c\<rparr>) = rs_lock rs" "rs_lock (rs\<lparr>rs_nextDone := n\<rparr>) = rs_lock rs"
  by (simp_all add: rs_lock_def fun_eq_iff)

lemma rep_xid_set [simp]: "rep_xid (r\<lparr>rp_xid := Some x\<rparr>) = x"
  by (simp add: rep_xid_def)

lemma run_closures_keep:
  assumes "run_closures td now reps rs = (es, rs')"
  shows "rs_lock rs' = rs_lock rs \<and> (om_find (rs_calls rs) d = Some (conn, call) \<longrightarrow> rs_lock rs conn \<longrightarrow>
    om_find (rs_calls rs') d = Some (conn, call) \<or> (\<exists>rep. R_send d conn rep \<in> set es \<and> rep_xid rep = rq_xid (ca_Req call)))"
  using assms
proof (induction reps arbitrary: rs es)
  case (Cons x reps)
  obtain d' r' where x: "x = (d', r')" by (cases x)
  obtain es1 rs1 where 1: "rs_onRpcDone td now d' r' rs = (es1, rs1)" by fastforce
  obtain es2 where 2: "run_closures td now reps rs1 = (es2, rs')" "es = es1 @ es2"
    using Cons.prems 1 by (auto simp: x split: prod.splits)
  have "rs_lock rs1 = rs_lock rs" "om_find (rs_calls rs) d = Some (conn, call) \<Longrightarrow> rs_lock rs conn \<Longrightarrow>
      om_find (rs_calls rs1) d = Some (conn, call) \<or> (\<exists>rep. R_send d conn rep \<in> set es1 \<and> rep_xid rep = rq_xid (ca_Req call))"
    using 1 by (auto simp: rs_onRpcDone_def Let_def intro!: exI split: option.splits if_splits)
  then show ?case using Cons.IH [OF 2(1)] by (auto simp: 2(2))
qed simp

lemma om_insert_value: "(a, w) \<in> set (om_insert k v m) \<Longrightarrow> w = v \<or> w \<in> snd ` set m"
proof -
  have "(a, w) \<in> set (om_put k v m) \<Longrightarrow> w = v \<or> w \<in> snd ` set m" by (induction k v m rule: om_put.induct) (force split: if_splits)+
  moreover have "(a, w) \<in> set m \<Longrightarrow> w \<in> snd ` set m" by force
  ultimately show "(a, w) \<in> set (om_insert k v m) \<Longrightarrow> w = v \<or> w \<in> snd ` set m" by (auto simp: om_insert_def split: option.splits)
qed

lemma rs_step_lock:
  assumes "rs_step td i rs = Some (es, rs')" and "conn < rs_nextConn rs" and "rs_lock rs' conn"
  shows "rs_lock rs conn"
proof (cases i)
  case R_connect
  then show ?thesis using assms by (auto simp: rs_step_def rs_onConnection_def rs_lock_def dest: om_insert_value)
next
  case (R_down c)
  then show ?thesis using assms by (auto simp: rs_step_def rs_onConnection_def rs_lock_def om_erase_def split: if_splits option.splits)
next
  case (R_done now d rep)
  then show ?thesis using assms by (auto simp: rs_step_def rs_onRpcDone_def Let_def split: if_splits option.splits)
qed (use assms in \<open>auto simp: rs_step_def rs_onRpcMessage_def Let_def split: if_splits\<close>)

lemma service_step_lock:
  assumes "service_step accept step td i (rs, s) = Some (es, rs', s')" and "conn < rs_nextConn rs" and "rs_lock rs' conn"
  shows "rs_lock rs conn"
  using assms run_closures_keep
  by (cases i) (auto simp: service_step_def dest: rs_step_lock split: prod.splits elim!: bind_eq_SomeE)

text \<open>A call of the server stays where it is until its response is sent.\<close>

lemma service_step_keeps:
  assumes run: "service_step accept step td i (rs, s) = Some (es, rs', s')" and inv: "rs_inv rs" and lock: "rs_lock rs' conn"
    and f: "om_find (rs_calls rs) d = Some (conn, call)" and conn: "conn < rs_nextConn rs"
  shows "om_find (rs_calls rs') d = Some (conn, call) \<or> (\<exists>rep. R_send d conn rep \<in> set es \<and> rep_xid rep = rq_xid (ca_Req call))"
proof -
  have l: "rs_lock rs conn" by (rule service_step_lock [OF run conn lock])
  have "d < rs_nextDone rs" using inv om_find_set [OF f] by (auto simp: rs_inv_def)
  then show ?thesis
    using run f l
    by (cases i) (auto simp: service_step_def rs_step_def rs_onConnection_def rs_onRpcMessage_def Let_def
        split: prod.splits if_splits option.splits elim!: bind_eq_SomeE dest!: run_closures_keep [where d = d and conn = conn and call = call])
qed

lemma service_step_takes:
  assumes "service_step accept step td (S_message now conn ip req) (rs, s) = Some (es, rs', s')" and "rs_lock rs' conn"
  shows "\<exists>d call. om_find (rs_calls rs') d = Some (conn, call) \<and> ca_Req call = req"
  using assms by (auto simp: service_step_def rs_step_def rs_onRpcMessage_def Let_def split: if_splits elim!: bind_eq_SomeE)

subsection \<open>Where a call is\<close>

definition on_its_way :: "RpcServer \<Rightarrow> Conn \<Rightarrow> u64 \<Rightarrow> Request \<Rightarrow> bool" where
  "on_its_way rs c x req \<longleftrightarrow> req \<in> set (cn_reqs c) \<or> (\<exists>rep \<in> set (cn_reps c). rep_xid rep = x)
     \<or> (\<exists>conn. cn_server c = Some conn \<and> (\<not> rs_lock rs conn
          \<or> (\<exists>d call. om_find (rs_calls rs) d = Some (conn, call) \<and> rq_xid (ca_Req call) = x)))"

text \<open>All calls but those of client \<open>k\<close> with the numbers in \<open>X\<close>.\<close>

definition kept_but :: "nat \<Rightarrow> u64 set \<Rightarrow> ('c, 's) System \<Rightarrow> bool" where
  "kept_but k X y \<longleftrightarrow> (\<forall>j. idle_ok (sy_clients y j) \<and> (\<forall>n x call. sy_cur y j = Some n \<longrightarrow>
     om_find (cl_pendingCalls (sy_clients y j)) x = Some call \<longrightarrow> (j = k \<longrightarrow> x \<notin> X) \<longrightarrow> on_its_way (sy_server y) (sy_net y ! n) x (rc_Req call)))"

abbreviation calls_kept :: "('c, 's) System \<Rightarrow> bool" where
  "calls_kept y \<equiv> kept_but 0 {} y"

lemma kept_butD:
  assumes "kept_but k X y"
  shows "idle_ok (sy_clients y j)"
    and "sy_cur y j = Some n \<Longrightarrow> om_find (cl_pendingCalls (sy_clients y j)) x = Some call \<Longrightarrow> (j = k \<Longrightarrow> x \<notin> X) \<Longrightarrow>
      on_its_way (sy_server y) (sy_net y ! n) x (rc_Req call)"
  using assms by (simp_all add: kept_but_def)

lemma client_act_kept:
  assumes ok: "clients_ok past N y" and kept: "kept_but k (case i of In_message rep \<Rightarrow> {rep_xid rep} | _ \<Rightarrow> {}) y"
    and run: "client_act k i y = Some (tr, y')"
  shows "calls_kept y'"
  unfolding kept_but_def
proof (intro allI conjI impI)
  obtain es cl net where r: "rpc_step i (sy_clients y k) = Some (es, cl)" "transmit (sy_cur y k) es (sy_net y) = Some net"
    and y': "y' = y\<lparr>sy_clients := (sy_clients y)(k := cl), sy_cur := if drops_connection i then (sy_cur y)(k := None) else sy_cur y, sy_net := net\<rparr>"
    using run by (auto simp: client_act_def elim!: bind_eq_SomeE)
  note c = clients_okD [OF ok] and kd = kept_butD [OF kept]
  fix j
  show "idle_ok (sy_clients y' j)" using kd(1) rpc_step_idle [OF r(1) kd(1)] by (simp add: y')
  fix n x call
  assume n: "sy_cur y' j = Some n" and f: "om_find (cl_pendingCalls (sy_clients y' j)) x = Some call"
  have cur: "sy_cur y j = Some n" using n by (auto simp: y' split: if_splits)
  have nth: "net ! n = (if j = k then (sy_net y ! n)\<lparr>cn_reqs := cn_reqs (sy_net y ! n) @ sent es\<rparr> else sy_net y ! n)"
    using transmit_nth [OF r(2), of n] c(4) [of k] c(4) [OF cur] cur by auto
  show "on_its_way (sy_server y') (sy_net y' ! n) x (rc_Req call)"
  proof (cases "j = k")
    case False
    then show ?thesis using kd(2) [OF cur] f nth by (simp add: y')
  next
    case True
    have "om_find (cl_pendingCalls cl) x = Some call" using f True by (simp add: y')
    from rpc_step_pending [OF r(1) kd(1) c(3) this] show ?thesis
    proof
      assume p: "om_find (cl_pendingCalls (sy_clients y k)) x = Some call \<and> \<not> drops_connection i \<and> (\<forall>rep. i = In_message rep \<longrightarrow> x \<noteq> rep_xid rep)"
      then have "on_its_way (sy_server y) (sy_net y ! n) x (rc_Req call)"
        using kd(2) [OF cur] True by (auto split: rpc_input.splits)
      then show ?thesis using nth True by (auto simp: y' on_its_way_def)
    next
      assume "Send (rc_Done call) (rc_Req call) \<in> set es"
      then have "rc_Req call \<in> set (sent es)" by (auto simp: sent_mem)
      then show ?thesis using nth True by (simp add: y' on_its_way_def)
    qed
  qed
qed

lemma on_its_way_step:
  assumes run: "service_step accept step td i (rs, s) = Some (es, rs', s')" and inv: "rs_inv rs" and m: "m < length net"
    and conn: "\<And>conn. cn_server (net ! m) = Some conn \<Longrightarrow> conn < rs_nextConn rs" and way: "on_its_way rs (net ! m) x req"
  shows "on_its_way rs' (post es net ! m) x req"
proof -
  note p = post_nth [OF m, of es]
  from way consider (req) "req \<in> set (cn_reqs (net ! m))" | (rep) rep where "rep \<in> set (cn_reps (net ! m))" "rep_xid rep = x"
    | (down) conn where "cn_server (net ! m) = Some conn" "\<not> rs_lock rs conn"
    | (call) conn d call where "cn_server (net ! m) = Some conn" "om_find (rs_calls rs) d = Some (conn, call)" "rq_xid (ca_Req call) = x"
    unfolding on_its_way_def by blast
  then show ?thesis
  proof cases
    case req
    then show ?thesis using p by (simp add: on_its_way_def)
  next
    case rep
    then show ?thesis using p by (auto simp: on_its_way_def)
  next
    case down
    then show ?thesis using p service_step_lock [OF run conn [OF down(1)]] by (auto simp: on_its_way_def)
  next
    case call
    show ?thesis
    proof (cases "rs_lock rs' conn")
      case True
      from service_step_keeps [OF run inv True call(2) conn [OF call(1)]] show ?thesis
        using p call(1,3) by (auto simp: on_its_way_def)
    next
      case False
      then show ?thesis using p call(1) by (auto simp: on_its_way_def)
    qed
  qed
qed

text \<open>What one input does to the connection of one call.\<close>

lemma server_input_way:
  assumes run: "server_input accept step td i y = Some (tr, y')" and inv: "rs_inv (sy_server y)" and m: "m < length (sy_net y)"
    and conn: "\<And>conn. cn_server (sy_net y ! m) = Some conn \<Longrightarrow> conn < rs_nextConn (sy_server y)"
    and way: "on_its_way (sy_server y) (sy_net y ! m) x req"
  shows "on_its_way (sy_server y') (sy_net y' ! m) x req"
  using run on_its_way_step [OF _ inv m conn way] by (auto simp: server_input_def elim!: bind_eq_SomeE)

lemma accept_way:
  assumes run: "server_input accept step td S_connect (y\<lparr>sy_net := (sy_net y)[n := (sy_net y ! n)\<lparr>cn_server := a\<rparr>]\<rparr>) = Some (tr, y')"
    and inv: "rs_inv (sy_server y)" and m: "m < length (sy_net y)" and none: "cn_server (sy_net y ! n) = None"
    and conn: "\<And>conn. cn_server (sy_net y ! m) = Some conn \<Longrightarrow> conn < rs_nextConn (sy_server y)"
    and way: "on_its_way (sy_server y) (sy_net y ! m) x req"
  shows "on_its_way (sy_server y') (sy_net y' ! m) x req"
proof (cases "m = n")
  case False
  then show ?thesis using server_input_way [OF run, of m x req] inv m conn way by simp
next
  case True
  obtain es where y': "sy_net y' = post es ((sy_net y)[n := (sy_net y ! n)\<lparr>cn_server := a\<rparr>])"
    using run by (auto simp: server_input_def elim!: bind_eq_SomeE)
  have "req \<in> set (cn_reqs (sy_net y ! n)) \<or> (\<exists>rep \<in> set (cn_reps (sy_net y ! n)). rep_xid rep = x)"
    using way none True by (simp add: on_its_way_def)
  then show ?thesis using post_nth [of m "(sy_net y)[n := (sy_net y ! n)\<lparr>cn_server := a\<rparr>]" es] m True by (auto simp: y' on_its_way_def)
qed

lemma request_way:
  assumes run: "server_input accept step td (S_message now conn ip r) (y\<lparr>sy_net := (sy_net y)[n := (sy_net y ! n)\<lparr>cn_reqs := rest\<rparr>]\<rparr>) = Some (tr, y')"
    and r: "cn_server (sy_net y ! n) = Some conn" "cn_reqs (sy_net y ! n) = r # rest"
    and inv: "rs_inv (sy_server y)" and m: "m < length (sy_net y)"
    and conn: "\<And>conn. cn_server (sy_net y ! m) = Some conn \<Longrightarrow> conn < rs_nextConn (sy_server y)"
    and way: "on_its_way (sy_server y) (sy_net y ! m) x req" and x: "rq_xid req = x"
  shows "on_its_way (sy_server y') (sy_net y' ! m) x req"
proof (cases "m = n \<and> req = r")
  case False
  define net where "net = (sy_net y)[n := (sy_net y ! n)\<lparr>cn_reqs := rest\<rparr>]"
  have "on_its_way (sy_server y) (net ! m) x req" "cn_server (net ! m) = cn_server (sy_net y ! m)"
    using way False r m by (cases "m = n"; auto simp: on_its_way_def net_def)+
  then show ?thesis using server_input_way [OF run, of m x req] inv m conn by (simp flip: net_def) (simp add: net_def)
next
  case True
  obtain es rs s where s: "service_step accept step td (S_message now conn ip r) (sy_server y, sy_recv y) = Some (es, rs, s)"
    and y': "sy_server y' = rs" "sy_net y' = post es ((sy_net y)[n := (sy_net y ! n)\<lparr>cn_reqs := rest\<rparr>])"
    using run by (auto simp: server_input_def elim!: bind_eq_SomeE)
  have "cn_server (sy_net y' ! m) = Some conn"
    using post_nth [of m "(sy_net y)[n := (sy_net y ! n)\<lparr>cn_reqs := rest\<rparr>]" es] m r True by (simp add: y')
  moreover have "\<not> rs_lock rs conn \<or> (\<exists>d call. om_find (rs_calls rs) d = Some (conn, call) \<and> rq_xid (ca_Req call) = x)"
    using service_step_takes [OF s] x True by blast
  ultimately show ?thesis unfolding on_its_way_def y'(1) by blast
qed

context rpc_receiver
begin

lemma kept_server:
  assumes inv: "sys_inv past N y" and kept: "calls_kept y" and same: "sy_clients y' = sy_clients y" "sy_cur y' = sy_cur y"
    and way: "\<And>m x req. m < length (sy_net y) \<Longrightarrow> (\<And>conn. cn_server (sy_net y ! m) = Some conn \<Longrightarrow> conn < rs_nextConn (sy_server y)) \<Longrightarrow>
      on_its_way (sy_server y) (sy_net y ! m) x req \<Longrightarrow> rq_xid req = x \<Longrightarrow> on_its_way (sy_server y') (sy_net y' ! m) x req"
  shows "calls_kept y'"
  unfolding kept_but_def
proof (intro allI conjI impI)
  have ok: "clients_ok past N y" and ns: "numbered (map cn_server (sy_net y)) (rs_nextConn (sy_server y))" using inv by (simp_all add: sys_inv_def)
  fix j
  show "idle_ok (sy_clients y' j)" using kept_butD(1) [OF kept] by (simp add: same)
  fix n x call
  assume n: "sy_cur y' j = Some n" and f: "om_find (cl_pendingCalls (sy_clients y' j)) x = Some call"
  have l: "n < length (sy_net y)" using clients_okD(4) [OF ok] n by (simp add: same)
  have "rq_xid (rc_Req call) = x" using rpc_histD(3) [OF clients_okD(1) [OF ok] om_find_set] f by (simp add: same)
  moreover have "on_its_way (sy_server y) (sy_net y ! n) x (rc_Req call)" using kept_butD(2) [OF kept] n f by (simp add: same)
  moreover have "conn < rs_nextConn (sy_server y)" if "cn_server (sy_net y ! n) = Some conn" for conn
    using numberedD [OF ns, of n conn] l that by simp
  ultimately show "on_its_way (sy_server y') (sy_net y' ! n) x (rc_Req call)" by (intro way [OF l])
qed

lemma server_input_same: "server_input accept step td i y = Some (tr, y') \<Longrightarrow> sy_clients y' = sy_clients y \<and> sy_cur y' = sy_cur y"
  by (auto simp: server_input_def elim!: bind_eq_SomeE)

lemma kept_up:
  assumes inv: "sys_inv past N y" and kept: "calls_kept y" and run: "sys_step accept step td (Y_up k) y = Some (tr, y')"
  shows "calls_kept y'"
proof (cases "sy_cur y k = None \<and> \<not> cl_closing (sy_clients y k)")
  case True
  let ?c = "\<lparr>cn_client = k, cn_server = None, cn_reqs = [], cn_reps = []\<rparr>"
  let ?y = "y\<lparr>sy_cur := (sy_cur y)(k \<mapsto> length (sy_net y)), sy_net := sy_net y @ [?c]\<rparr>"
  have ok: "clients_ok past N y" using inv by (simp add: sys_inv_def)
  have "cl_pendingCalls (sy_clients y k) = []" using kept_butD(1) [OF kept, of k] clients_okD(3) [OF ok, of k] True
    by (simp add: idle_ok_def link_ok_def)
  then have "kept_but k {} ?y" using kept clients_okD(4) [OF ok] unfolding kept_but_def by (auto simp: nth_append)
  then show ?thesis using run True clients_ok_up [OF ok, of k ?c]
    by (intro client_act_kept [of past N ?y k "In_connection True"]) (simp_all add: sys_step_def Let_def)
qed (use run kept in \<open>auto simp: sys_step_def\<close>)

lemma kept_reply:
  assumes inv: "sys_inv past N y" and kept: "calls_kept y" and run: "sys_step accept step td (Y_reply n) y = Some (tr, y')"
  shows "calls_kept y'"
proof (cases "n < length (sy_net y) \<and> sy_cur y (cn_client (sy_net y ! n)) = Some n \<and> cn_reps (sy_net y ! n) \<noteq> []")
  case True
  have ok: "clients_ok past N y" using inv by (simp add: sys_inv_def)
  define c where "c = sy_net y ! n"
  obtain rep rest where r: "cn_reps c = rep # rest" using True by (auto simp: c_def neq_Nil_conv)
  define y1 where "y1 = y\<lparr>sy_net := (sy_net y)[n := c\<lparr>cn_reps := rest\<rparr>]\<rparr>"
  have "on_its_way (sy_server y1) (sy_net y1 ! m) x req"
    if "on_its_way (sy_server y) (sy_net y ! m) x req" "m < length (sy_net y)" "m = n \<Longrightarrow> x \<noteq> rep_xid rep" for m x req
    using that r by (cases "m = n") (auto simp: y1_def on_its_way_def c_def)
  moreover have "j = cn_client c" if "sy_cur y j = Some n" for j using clients_okD(4) [OF ok that] by (simp add: c_def)
  ultimately have "kept_but (cn_client c) {rep_xid rep} y1"
    using kept clients_okD(4) [OF ok] unfolding kept_but_def y1_def by simp
  moreover have "clients_ok past N y1" unfolding y1_def by (rule clients_ok_update [OF ok]) (simp add: c_def)
  moreover have "client_act (cn_client c) (In_message rep) y1 = Some (tr, y')" using run True r by (simp add: sys_step_def Let_def y1_def c_def)
  ultimately show ?thesis by (intro client_act_kept [of past N y1 "cn_client c" "In_message rep"]) simp_all
qed (use run kept in \<open>auto simp: sys_step_def Let_def split: if_splits list.splits\<close>)

lemma sys_step_kept:
  assumes inv: "sys_inv past N y" and kept: "calls_kept y" and run: "sys_step accept step td i y = Some (tr, y')"
  shows "calls_kept y'"
proof -
  have ok: "clients_ok past N y" and ri: "rs_inv (sy_server y)" using inv by (simp_all add: sys_inv_def service_inv_def rs_hist_def)
  have any: "kept_but k {} y" for k using kept by (simp add: kept_but_def)
  note way = kept_server [OF inv kept] and same = server_input_same
  show ?thesis
  proof (cases i)
    case (Y_client k a)
    show ?thesis
    proof (cases "local_input a")
      case True
      then have "client_act k a y = Some (tr, y')" using run by (simp add: Y_client sys_step_def)
      then show ?thesis using True by (intro client_act_kept [OF ok, of k a]) (cases a, simp_all add: any)
    qed (use run kept in \<open>simp add: Y_client sys_step_def\<close>)
  next
    case (Y_lost k)
    then show ?thesis using run kept any client_act_kept [OF ok, of k "In_connection False"] by (auto simp: sys_step_def split: if_splits)
  next
    case (Y_accept n)
    show ?thesis
    proof (cases "n < length (sy_net y) \<and> cn_server (sy_net y ! n) = None")
      case True
      then have r: "server_input accept step td S_connect
          (y\<lparr>sy_net := (sy_net y)[n := (sy_net y ! n)\<lparr>cn_server := Some (rs_nextConn (sy_server y))\<rparr>]\<rparr>) = Some (tr, y')"
        using run by (simp add: Y_accept sys_step_def Let_def)
      show ?thesis using same [OF r] True by (intro way) (simp_all add: accept_way [OF r ri])
    qed (use run kept in \<open>auto simp: Y_accept sys_step_def Let_def\<close>)
  next
    case (Y_request n now ip)
    show ?thesis
    proof (cases "n < length (sy_net y) \<and> cn_server (sy_net y ! n) \<noteq> None \<and> cn_reqs (sy_net y ! n) \<noteq> []")
      case True
      then obtain conn req rest where q: "cn_server (sy_net y ! n) = Some conn" "cn_reqs (sy_net y ! n) = req # rest" by (auto simp: neq_Nil_conv)
      then have r: "server_input accept step td (S_message now conn ip req) (y\<lparr>sy_net := (sy_net y)[n := (sy_net y ! n)\<lparr>cn_reqs := rest\<rparr>]\<rparr>) = Some (tr, y')"
        using run True by (simp add: Y_request sys_step_def Let_def)
      show ?thesis using same [OF r] by (intro way) (simp_all add: request_way [OF r q ri])
    qed (use run kept in \<open>auto simp: Y_request sys_step_def Let_def split: if_splits option.splits list.splits\<close>)
  next
    case (Y_down n)
    show ?thesis
    proof (cases "n < length (sy_net y) \<and> cn_server (sy_net y ! n) \<noteq> None")
      case True
      then obtain conn where r: "server_input accept step td (S_down conn) y = Some (tr, y')" using run by (auto simp: Y_down sys_step_def Let_def)
      show ?thesis using same [OF r] by (intro way) (simp_all add: server_input_way [OF r ri])
    qed (use run kept in \<open>auto simp: Y_down sys_step_def Let_def split: if_splits option.splits\<close>)
  next
    case (Y_serve now a)
    then have r: "server_input accept step td (S_step now a) y = Some (tr, y')" using run by (simp add: sys_step_def Let_def)
    show ?thesis using same [OF r] by (intro way) (simp_all add: server_input_way [OF r ri])
  qed (use run kept_up [OF inv kept] kept_reply [OF inv kept] in auto)
qed

lemma sys_run_kept:
  assumes "sys_inv past N y" and "calls_kept y" and "N + length is < 2 ^ 64" and "sys_run accept step td is y = Some (tr, y')"
  shows "calls_kept y'"
  using assms
proof (induction "is" arbitrary: past N y tr)
  case (Cons i "is")
  obtain tr1 y1 tr2 where 1: "sys_step accept step td i y = Some (tr1, y1)" "sys_run accept step td is y1 = Some (tr2, y')"
    using Cons.prems(4) by (auto elim!: bind_eq_SomeE)
  have "sys_inv (past @ tr1) (N + 1) y1" using sys_step_inv [OF Cons.prems(1) _ 1(1)] Cons.prems(3) by (simp add: sys_post_def)
  then show ?case using Cons.IH [OF _ sys_step_kept [OF Cons.prems(1,2) 1(1)] _ 1(2)] Cons.prems(3) by simp
qed simp

lemma calls_not_lost:
  assumes "good s" and "owed s = {#}" and "length is < 2 ^ 64" and "sys_run accept step td is (System_new addr s) = Some (tr, y)"
    and "om_find (cl_pendingCalls (sy_clients y k)) x = Some call"
  shows "\<exists>n. sy_cur y k = Some n \<and> (let c = sy_net y ! n in
      rc_Req call \<in> set (cn_reqs c) \<or> (\<exists>rep \<in> set (cn_reps c). rep_xid rep = x)
      \<or> (\<exists>conn. cn_server c = Some conn \<and> (\<not> rs_lock (sy_server y) conn
           \<or> (\<exists>d info. d \<in># owed (sy_recv y) \<and> om_find (rs_calls (sy_server y)) d = Some (conn, info) \<and> rq_xid (ca_Req info) = x))))"
proof -
  note new = sys_new [OF assms(1,2), of addr]
  have "calls_kept (System_new addr s :: ('a, 's) System)" by (simp add: kept_but_def System_new_def idle_ok_def RpcClient_new_def)
  with new have kept: "calls_kept y" using sys_run_kept [OF _ _ _ assms(4)] assms(3) by fastforce
  have inv: "sys_inv tr (length is) y" using sys_run_inv [OF new _ assms(4)] assms(3) by simp
  then have ok: "clients_ok tr (length is) y" and ow: "mset (map fst (rs_calls (sy_server y))) = owed (sy_recv y)"
    by (simp_all add: sys_inv_def service_inv_def)
  have "sy_cur y k \<noteq> None" using kept_butD(1) [OF kept, of k] clients_okD(3) [OF ok, of k] assms(5) by (auto simp: idle_ok_def link_ok_def)
  then obtain n where n: "sy_cur y k = Some n" by blast
  have "d \<in># owed (sy_recv y)" if "om_find (rs_calls (sy_server y)) d = Some z" for d z
    using om_find_set [OF that] unfolding ow [symmetric] by force
  moreover have "on_its_way (sy_server y) (sy_net y ! n) x (rc_Req call)" using kept_butD(2) [OF kept n assms(5)] by simp
  ultimately show ?thesis using n unfolding on_its_way_def Let_def by blast
qed

end

end
