(* ===== verification/Acknowledged.thy ===== *)
theory Acknowledged
  imports Leader Delivery
begin

text \<open>
  What an answer without an error means. A request that changes the tree or the sessions is only
  answered without an error when it was run as a command, with that result: the server keeps every event with the request
  it came with, its error paths set an error, and under the invariant of \<open>Leader\<close> the command that a leader runs is that of the
  request it answers. With the rpc server and the clients of \<open>Network\<close> in front of the leader, this is what a client's call can rely on.
\<close>

subsection \<open>Events and their requests\<close>

text \<open>A request that is handed to the raft library as it is.\<close>

definition changes :: "Request \<Rightarrow> bool" where
  "changes req \<longleftrightarrow> rq_register req = None \<and> needBoradcast req"

text \<open>\<open>K\<close>: the closures and requests that came in; \<open>L\<close>: the commands that ran without an error, with their responses.\<close>

definition known :: "(nat \<times> Request) set \<Rightarrow> Event \<Rightarrow> bool" where
  "known K e \<longleftrightarrow> ev_done e = 0 \<or> (ev_done e, ev_Req e) \<in> K"

definition backed :: "(Request \<times> Response) set \<Rightarrow> Event \<Rightarrow> bool" where
  "backed L e \<longleftrightarrow> (changes (ev_Req e) \<and> rp_err (ev_Rep e) = None \<longrightarrow> (ev_Req e, ev_Rep e) \<in> L)"

definition held_pings :: "SessionManager \<Rightarrow> Event set" where
  "held_pings sm = {p. \<exists>sid s. (sid, s) \<in> set (sm_sessions sm) \<and> ss_pingEvent s = Some p}"

definition ack_ok :: "(nat \<times> Request) set \<Rightarrow> (Request \<times> Response) set \<Rightarrow> 'db Server \<Rightarrow> bool" where
  "ack_ok K L srv \<longleftrightarrow> (\<forall>e \<in> set (sv_eventch srv) \<union> set (sv_requests srv). known K e)
     \<and> (\<forall>p \<in> held_pings (sv_sm srv). known K p \<and> \<not> changes (ev_Req p))
     \<and> (\<forall>e \<in> set (replies (sv_out srv)). known K e \<and> backed L e)"

lemma ack_ok_mono: "ack_ok K L srv \<Longrightarrow> K \<subseteq> K' \<Longrightarrow> L \<subseteq> L' \<Longrightarrow> ack_ok K' L' srv"
  unfolding ack_ok_def known_def backed_def by blast

lemma known_upd [simp]: "known K (e\<lparr>ev_Rep := r\<rparr>) = known K e" "known K (fail_event st e) = known K e"
  by (simp_all add: known_def fail_event_def)

lemma backed_fail [simp]: "backed L (fail_event st e)"
  by (simp add: backed_def fail_event_def set_err_def)

lemma backed_soft: "\<not> changes (ev_Req e) \<Longrightarrow> backed L e"
  by (simp add: backed_def)

lemma ack_ok_upd [simp]:
  "ack_ok K L (srv\<lparr>sv_wm := a\<rparr>) = ack_ok K L srv" "ack_ok K L (srv\<lparr>sv_store := b\<rparr>) = ack_ok K L srv"
  "ack_ok K L (srv\<lparr>sv_loop := c\<rparr>) = ack_ok K L srv" "ack_ok K L (srv\<lparr>sv_state := d\<rparr>) = ack_ok K L srv"
  "ack_ok K L (srv\<lparr>sv_cmdch := e\<rparr>) = ack_ok K L srv" "ack_ok K L (srv\<lparr>sv_statech := f\<rparr>) = ack_ok K L srv"
  "ack_ok K L (srv\<lparr>sv_logIndex := g\<rparr>) = ack_ok K L srv"
  by (simp_all add: ack_ok_def)

lemma ack_ok_sm:
  assumes "ack_ok K L srv" and "held_pings sm \<subseteq> held_pings (sv_sm srv)"
  shows "ack_ok K L (srv\<lparr>sv_sm := sm\<rparr>)"
  using assms unfolding ack_ok_def by auto

lemma ack_ok_emit:
  assumes "ack_ok K L srv" and "\<And>e. e \<in> set (replies es) \<Longrightarrow> known K e \<and> backed L e"
  shows "ack_ok K L (emit es srv)"
  using assms unfolding ack_ok_def emit_def by auto

subsection \<open>Sessions\<close>

lemma held_pingsI: "(sid, s) \<in> set (sm_sessions sm) \<Longrightarrow> ss_pingEvent s = Some p \<Longrightarrow> p \<in> held_pings sm"
  unfolding held_pings_def by blast

lemma held_pings_sub:
  assumes "\<And>sid s p. (sid, s) \<in> set (sm_sessions sm') \<Longrightarrow> ss_pingEvent s = Some p \<Longrightarrow> p \<in> A"
  shows "held_pings sm' \<subseteq> A"
  using assms unfolding held_pings_def by blast

lemma held_pings_cong: "sm_sessions sm' = sm_sessions sm \<Longrightarrow> held_pings sm' = held_pings sm"
  by (simp add: held_pings_def)

lemma held_pings_adjust:
  assumes "\<And>s. ss_pingEvent (f s) = ss_pingEvent s"
  shows "held_pings (SM_adjust sid f sm) \<subseteq> held_pings sm"
  using assms by (intro held_pings_sub) (auto simp: SM_adjust_def om_adjust_def intro: held_pingsI split: if_splits)

lemma held_pings_set: "held_pings (SM_adjust sid (\<lambda>_. s) sm) \<subseteq> held_pings sm \<union> {p. ss_pingEvent s = Some p}"
  by (intro held_pings_sub) (auto simp: SM_adjust_def om_adjust_def intro: held_pingsI split: if_splits)

lemma held_pings_Touch:
  assumes "Touch X now sid sm = Some sm'"
  shows "held_pings sm' \<subseteq> held_pings sm"
proof -
  have "sm' = sm \<or> (\<exists>e. sm_sessions sm' = sm_sessions (SM_adjust sid (SetExpireTime e) sm))"
    using assms by (auto simp: Touch_def Let_def SM_adjust_def removeFromTimers_sessions elim!: bind_eq_SomeE split: option.splits if_splits)
  moreover have "held_pings (SM_adjust sid (SetExpireTime e) sm) \<subseteq> held_pings sm" for e by (rule held_pings_adjust) simp
  ultimately show ?thesis using held_pings_cong by blast
qed

lemma set_om_insert: "x \<in> set (om_insert k v m) \<Longrightarrow> x = (k, v) \<or> x \<in> set m"
proof -
  have "x \<in> set (om_put k v m) \<Longrightarrow> x = (k, v) \<or> x \<in> set m" by (induction k v m rule: om_put.induct) (auto split: if_splits)
  then show "x \<in> set (om_insert k v m) \<Longrightarrow> x = (k, v) \<or> x \<in> set m" by (auto simp: om_insert_def split: option.splits)
qed

lemma held_pings_Add:
  assumes "SM_Add now s sm st = Some (sm', st')" and "ss_pingEvent s = None"
  shows "held_pings sm' \<subseteq> held_pings sm"
proof -
  obtain sm1 where "Touch (so_lib st') now (ss_sid s) sm1 = Some sm'" and sm1: "sm_sessions sm1 = om_insert (ss_sid s) s (sm_sessions sm)"
    using assms(1) by (auto simp: SM_Add_def Let_def elim!: bind_eq_SomeE split: prod.splits if_splits)
  then have "held_pings sm' \<subseteq> held_pings sm1" by (intro held_pings_Touch)
  moreover have "held_pings sm1 \<subseteq> held_pings sm" using assms(2) by (intro held_pings_sub) (auto simp: sm1 intro: held_pingsI dest!: set_om_insert)
  ultimately show ?thesis by blast
qed

lemma held_pings_Remove:
  assumes "SM_Remove sid sm st = Some (sm', st')"
  shows "held_pings sm' \<subseteq> held_pings sm"
proof -
  have "sm_sessions sm' = om_erase sid (sm_sessions sm)"
    using assms by (auto simp: SM_Remove_def removeFromSessions_def removeFromTimers_sessions Let_def
        elim!: bind_eq_SomeE split: if_splits prod.splits option.splits)
  then show ?thesis by (intro held_pings_sub) (auto simp: om_erase_def intro: held_pingsI)
qed

lemma held_pings_Get: "SM_Get sm sid = Some s \<Longrightarrow> ss_pingEvent s = Some p \<Longrightarrow> p \<in> held_pings sm"
  by (auto simp: SM_Get_def intro: held_pingsI dest!: om_find_set)

lemma held_pings_reset: "reset_timers X nows i ts new sm = Some sm' \<Longrightarrow> held_pings sm' \<subseteq> held_pings sm"
proof (induction X nows i ts new sm rule: reset_timers.induct)
  case (1 X nows i new sm)
  then show ?case using held_pings_cong [of sm' sm] by auto
next
  case (2 X nows i t b rest new sm)
  have f: "held_pings (fold (\<lambda>y sm. SM_adjust (snd y) (SetExpireTime e) sm) ys sm) \<subseteq> held_pings sm" for e ys and sm
  proof (induction ys arbitrary: sm)
    case (Cons y ys)
    have "held_pings (SM_adjust (snd y) (SetExpireTime e) sm) \<subseteq> held_pings sm" by (rule held_pings_adjust) simp
    then show ?case using Cons [of "SM_adjust (snd y) (SetExpireTime e) sm"] by (simp only: fold_simps subset_trans)
  qed simp
  obtain x r s where b: "b = x # r" "SM_Get sm (snd x) = Some s" using 2(2) by (auto split: list.splits option.splits)
  from 2(1) [OF b(1) b(2) refl refl] 2(2) b have "held_pings sm' \<subseteq> held_pings (fold (\<lambda>y sm. SM_adjust (snd y) (SetExpireTime (expiry X (nows i) (ss_timeout s))) sm) b sm)"
    by (simp add: Let_def)
  then show ?case using f by (rule subset_trans)
qed

lemma held_pings_ResetWatchers: "held_pings (ResetWatchers sm) \<subseteq> held_pings sm"
  by (intro held_pings_sub) (auto simp: ResetWatchers_def intro: held_pingsI)

lemma ack_session:
  assumes ok: "ack_ok K L srv"
    and f: "\<And>s e. e \<in> set (replies (snd (f s))) \<Longrightarrow> (\<exists>p. ss_pingEvent s = Some p \<and> ev_done e = ev_done p \<and> ev_Req e = ev_Req p)"
    and g: "\<And>s p. ss_pingEvent (fst (f s)) = Some p \<Longrightarrow> ss_pingEvent s = Some p \<or> known K p \<and> \<not> changes (ev_Req p)"
  shows "ack_ok K L (sv_session sid f srv)"
proof (cases "SM_Get (sv_sm srv) sid")
  case (Some s)
  have h: "known K p \<and> \<not> changes (ev_Req p)" if "p \<in> held_pings (sv_sm srv)" for p using ok that by (simp add: ack_ok_def)
  note p = h [OF held_pings_Get [OF Some]]
  have "known K q \<and> \<not> changes (ev_Req q)" if "q \<in> held_pings (SM_adjust sid (\<lambda>_. fst (f s)) (sv_sm srv))" for q
    using subsetD [OF held_pings_set that] g [of s q] h [of q] p [of q] by blast
  then have "ack_ok K L (sv_adjust sid (\<lambda>_. fst (f s)) srv)" using ok by (simp add: ack_ok_def sv_adjust_def)
  moreover have "known K e \<and> backed L e" if "e \<in> set (replies (snd (f s)))" for e
    using f [OF that] p by (auto simp: known_def intro: backed_soft)
  ultimately show ?thesis using Some by (simp add: sv_session_def ack_ok_emit)
qed (simp add: sv_session_def ok)

lemma ack_PingBack: "ack_ok K L srv \<Longrightarrow> ack_ok K L (sv_session sid (PingBack now) srv)"
  by (rule ack_session) (auto simp: PingBack_def Let_def split: option.splits list.splits)

interpretation ack: server_frame "\<lambda>srv srv'. ack_ok K L srv \<longrightarrow> ack_ok K L srv'" for K L
proof unfold_locales
  fix srv :: "'a Server" and f :: "Session \<Rightarrow> Session" and sid
  assume "\<And>s. ss_pingEvent (f s) = ss_pingEvent s"
  then show "ack_ok K L srv \<longrightarrow> ack_ok K L (sv_adjust sid f srv)" by (simp add: sv_adjust_def ack_ok_sm held_pings_adjust)
next
  fix srv :: "'a Server" and es
  assume "list_all silent es"
  then have "replies es = []" by (rule replies_silent)
  then show "ack_ok K L srv \<longrightarrow> ack_ok K L (emit es srv)" by (auto intro: ack_ok_emit)
next
  fix srv :: "'a Server" and now addr sid t sm st
  assume "SM_Add now (Session_new addr now sid t) (sv_sm srv) (sv_store srv) = Some (sm, st)"
  then have "held_pings sm \<subseteq> held_pings (sv_sm srv)" by (rule held_pings_Add) (simp add: Session_new_def)
  then show "ack_ok K L srv \<longrightarrow> ack_ok K L (srv\<lparr>sv_sm := sm, sv_store := st\<rparr>)" by (simp add: ack_ok_sm)
next
  fix srv srv' :: "'a Server" and sid s sm st
  assume g: "SM_Get (sv_sm srv) sid = Some s" and r: "SM_Remove sid (sv_sm srv) (sv_store srv) = Some (sm, st)"
    and i: "ack_ok K L (srv\<lparr>sv_sm := sm, sv_store := st\<rparr>) \<longrightarrow> ack_ok K L srv'"
  show "ack_ok K L srv \<longrightarrow> ack_ok K L (emit (case ss_pingEvent s of None \<Rightarrow> [] | Some p \<Rightarrow> [Reply p]) srv')"
  proof
    assume ok: "ack_ok K L srv"
    have "ack_ok K L srv'" using i ack_ok_sm [OF ok held_pings_Remove [OF r]] by simp
    moreover have "known K p \<and> backed L p" if "ss_pingEvent s = Some p" for p
      using ok held_pings_Get [OF g that] by (simp add: ack_ok_def backed_soft)
    ultimately show "ack_ok K L (emit (case ss_pingEvent s of None \<Rightarrow> [] | Some p \<Rightarrow> [Reply p]) srv')"
      by (intro ack_ok_emit) (auto split: option.splits)
  qed
qed (simp_all add: ack_PingBack)

subsection \<open>The handlers of a leader\<close>

lemma ack_push: "ack_ok K L srv \<Longrightarrow> known K e \<Longrightarrow> ack_ok K L (push_request e srv)"
  by (simp add: ack_ok_def push_request_def ball_Un)

lemma ack_replicate: "ack_ok K L srv \<Longrightarrow> ack_ok K L (replicate_cmd cmd srv)"
  unfolding replicate_cmd_def by (rule ack_ok_emit) simp_all

lemma ack_finish:
  assumes "ack_ok K L srv" and "known K e" and "ok st \<Longrightarrow> \<not> changes (ev_Req e)"
  shows "ack_ok K L (finish_event st e srv)"
  unfolding finish_event_def using assms by (intro ack_ok_emit) (auto intro: backed_soft split: if_splits)

lemma ack_Touch: "sv_Touch env sid srv = Some srv' \<Longrightarrow> ack_ok K L srv \<Longrightarrow> ack_ok K L srv'"
  by (auto simp: sv_Touch_def intro: ack_ok_sm [OF _ held_pings_Touch])

lemma ack_handleRegister:
  assumes "ack_ok K L srv" and "known K e" and "rq_register (ev_Req e) \<noteq> None"
  shows "ack_ok K L (handleRegister e srv)"
proof (cases "rq_sid (ev_Req e)")
  case None
  obtain sid sm where g: "GenSid (sv_sm srv) = (sid, sm)" by fastforce
  then have "held_pings sm = held_pings (sv_sm srv)" by (intro held_pings_cong) (auto simp: GenSid_def Let_def)
  then show ?thesis using None g assms(1,2) by (simp add: handleRegister_def Let_def ack_replicate ack_push ack_ok_sm)
next
  case (Some sid)
  have "ack_ok K L (sv_adjust sid (SetTimeout t) srv)" for t using ack.adjust [of "SetTimeout t" K L srv sid] assms(1) by simp
  then show ?thesis using Some assms by (auto simp: handleRegister_def Let_def changes_def intro!: ack_ok_emit backed_soft)
qed

lemma ack_HoldPing:
  assumes "ack_ok K L srv" and "known K e" and "\<not> changes (ev_Req e)"
  shows "ack_ok K L (sv_session sid (HoldPing e) srv)"
  using assms(1) by (rule ack_session) (auto simp: HoldPing_def assms split: option.splits if_splits)

lemma ack_handlePing:
  assumes run: "handlePing env e srv = Some (st, srv')" and ok: "ack_ok K L srv" and e: "known K e" "\<not> changes (ev_Req e)"
  shows "ack_ok K L srv'"
  using run ok by (auto simp: handlePing_def Let_def ack_PingBack ack_HoldPing e elim!: bind_eq_SomeE dest!: ack_Touch split: if_splits option.splits)

lemma ack_handleRead:
  assumes "handleRead env e srv = Some (st, e', srv')" and "ack_ok K L srv"
  shows "ack_ok K L srv' \<and> (known K e' = known K e) \<and> ev_Req e' = ev_Req e"
  using assms ack.onWatch [of "ev_Req e" srv]
  by (auto simp: handleRead_def Let_def elim!: bind_eq_SomeE split: if_splits prod.splits)

lemma ack_handleStat:
  assumes "handleStat env e srv = Some (st, e', srv')" and "ack_ok K L srv"
  shows "ack_ok K L srv' \<and> (known K e' = known K e) \<and> ev_Req e' = ev_Req e"
  using assms ack.onWatch [of "ev_Req e" srv]
  by (auto simp: handleStat_def Let_def elim!: bind_eq_SomeE split: if_splits prod.splits)

lemma ack_handleEvent:
  assumes run: "handleEvent env e srv = Some srv'" and ok: "ack_ok K L srv" and e: "known K e"
  shows "ack_ok K L srv'"
proof (cases "rq_register (ev_Req e) = None \<and> SM_Get (sv_sm srv) (req_sid (ev_Req e)) \<noteq> None")
  case False
  then show ?thesis using run ok e ack_handleRegister [OF ok e]
    by (auto simp: handleEvent_def Let_def ok_def mk_status_def intro!: ack_finish split: if_splits)
next
  case True
  let ?req = "ev_Req e"
  obtain srv1 where t: "(if \<not> rq_ping ?req \<and> \<not> rq_unregister ?req then sv_Touch env (req_sid ?req) srv else Some srv) = Some srv1"
    using run True by (auto simp: handleEvent_def Let_def elim!: bind_eq_SomeE)
  then have 1: "ack_ok K L srv1" using ok by (auto split: if_splits intro: ack_Touch)
  show ?thesis
  proof (cases "needBoradcast ?req")
    case b: True
    then have "srv' = push_request e (replicate_cmd ?req srv1)" using run True t by (simp add: handleEvent_def Let_def)
    then show ?thesis using 1 e by (simp add: ack_push ack_replicate)
  next
    case False
    then have s: "\<not> changes ?req" by (simp add: changes_def)
    have fin: "ack_ok K L (finish_event st e2 srv2)" if "ack_ok K L srv2 \<and> (known K e2 = known K e) \<and> ev_Req e2 = ?req" for st e2 srv2
      using that e s by (intro ack_finish) simp_all
    show ?thesis using run True t False 1 e s ack.onWatch [of ?req srv1]
      by (auto simp: handleEvent_def Let_def elim!: bind_eq_SomeE split: if_splits prod.splits
          intro!: fin dest!: ack_handleRead ack_handleStat intro: ack_handlePing)
  qed
qed

lemma ack_close_due:
  assumes "close_due env sid srv = Some srv'" and "ack_ok K L srv"
  shows "ack_ok K L srv'"
proof -
  obtain s where s: "SM_Get (sv_sm srv) sid = Some s" using assms by (auto simp: close_due_def split: option.splits)
  have a: "ack_ok K L (emit [Log_session sid ''expire''] (sv_adjust sid Close srv))"
    using ack.adjust [of Close K L srv sid] assms(2) by (intro ack_ok_emit) simp_all
  show ?thesis
  proof (cases "ss_active s")
    case True
    then have "handleEvent env (close_event sid) (emit [Log_session sid ''expire''] (sv_adjust sid Close srv)) = Some srv'"
      using assms s by (auto simp: close_due_def onSessionClosed_def split: option.splits if_splits)
    from ack_handleEvent [OF this a] show ?thesis by (simp add: known_def close_event_def)
  qed (use assms s in \<open>simp add: close_due_def\<close>)
qed

lemma ack_Step:
  assumes "server_Step env srv = Some (t, srv')" and "ack_ok K L srv"
  shows "ack_ok K L srv'"
proof -
  have "fold_opt (close_due env) (due_sessions (en_now env) (sv_sm srv)) srv = Some srv'"
    using assms(1) by (auto simp: server_Step_def elim!: bind_eq_SomeE)
  from ack.fold_opt [OF _ this, of K L] show ?thesis using ack_close_due assms(2) by blast
qed

lemma ack_pingBack: "ack_ok K L srv \<Longrightarrow> ack_ok K L (pingBack env b srv)"
  unfolding pingBack_def using ack.fold [of K L "\<lambda>x srv. sv_session (snd x) (PingBack (en_now env)) srv" srv b] ack_PingBack by blast

lemma ack_leader_enter:
  assumes "leaderLoop_enter env srv = Some srv'" and "ack_ok K L srv"
  shows "ack_ok K L srv'"
proof -
  obtain sm t srv2 where r: "ResetTimer (sv_lib srv) (en_nows env) (sv_sm srv) = Some sm"
    and st: "server_Step env (srv\<lparr>sv_sm := ResetWatchers sm, sv_wm := WM_Reset (sv_wm srv)\<rparr>) = Some (t, srv2)"
    and s': "srv' = srv2\<lparr>sv_loop := In_leader t\<rparr>"
    using assms(1) by (auto simp: leaderLoop_enter_def Let_def elim!: bind_eq_SomeE)
  have "held_pings (ResetWatchers sm) \<subseteq> held_pings (sv_sm srv)"
    using held_pings_ResetWatchers held_pings_reset [OF r [unfolded ResetTimer_def]] by (rule subset_trans)
  then have "ack_ok K L (srv\<lparr>sv_sm := ResetWatchers sm\<rparr>)" using assms(2) by (intro ack_ok_sm)
  then show ?thesis using ack_Step [OF st] by (simp add: s')
qed

subsection \<open>Runs of a leader\<close>

text \<open>The command that a leader runs without an error in a step, with the response it makes.\<close>

definition lead_ran :: "Env \<Rightarrow> lead_action \<Rightarrow> 'db Server \<Rightarrow> (Request \<times> Response) list" where
  "lead_ran env act srv = (case act of
       Lead_loop ch \<Rightarrow>
         if ch = Choose_cmd \<and> leading (sv_loop srv) then (case (sv_cmdch srv, sv_requests srv) of
             (cmd # rest, e # es) \<Rightarrow> (case run_command env cmd (srv\<lparr>sv_cmdch := rest, sv_requests := es\<rparr>) of
                 Some (st, rep, srv') \<Rightarrow> if ok st then [(cmd, rep)] else []
               | None \<Rightarrow> [])
           | _ \<Rightarrow> [])
         else []
     | _ \<Rightarrow> [])"

lemma ack_lead_cmd:
  assumes inv: "lead_inv T (srv, q)" and t: "sv_loop srv = In_leader t" and c: "sv_cmdch srv = cmd # rest"
    and run: "mainLoop env Choose_cmd srv = Some srv'" and ok: "ack_ok K L srv"
  shows "ack_ok K (L \<union> set (lead_ran env (Lead_loop Choose_cmd) srv)) srv'"
proof -
  let ?L = "L \<union> set (lead_ran env (Lead_loop Choose_cmd) srv)"
  obtain e es where r: "sv_requests srv = e # es" "command_of e cmd"
    and m: "map_option (\<lambda>(st, rep, srv'). emit [Reply (e\<lparr>ev_Rep := if \<not> ok st then set_err st rep else rep\<rparr>)] srv')
      (run_command env cmd (srv\<lparr>sv_cmdch := rest, sv_requests := es\<rparr>)) = Some srv'"
    using lead_inv_answers [OF inv t c, of env] unfolding run by (elim exE conjE) (rule that, assumption+, erule sym)
  obtain st rep srv1 where rc: "run_command env cmd (srv\<lparr>sv_cmdch := rest, sv_requests := es\<rparr>) = Some (st, rep, srv1)"
    and s': "srv' = emit [Reply (e\<lparr>ev_Rep := if \<not> ok st then set_err st rep else rep\<rparr>)] srv1"
    using m by auto
  have "ack_ok K ?L (srv\<lparr>sv_cmdch := rest, sv_requests := es\<rparr>)"
    using ack_ok_mono [OF ok, of K ?L] r(1) by (simp add: ack_ok_def ball_Un)
  then have "ack_ok K ?L srv1" using ack.run_command [OF rc, of K ?L] by blast
  moreover have "known K e" using ok r(1) by (simp add: ack_ok_def)
  moreover have "(cmd, rep) \<in> ?L" if "ok st" using that rc t c r(1) by (simp add: lead_ran_def leading_def)
  then have "backed ?L (e\<lparr>ev_Rep := if \<not> ok st then set_err st rep else rep\<rparr>)"
    using r(2) by (auto simp: backed_def changes_def command_of_def set_err_def split: if_splits)
  ultimately show ?thesis unfolding s' by (intro ack_ok_emit) simp_all
qed

lemma ack_leaderLoop:
  assumes inv: "lead_inv T (srv, q)" and t: "sv_loop srv = In_leader t" and run: "leaderLoop env ch srv = Some srv'" and ok: "ack_ok K L srv"
  shows "ack_ok K (L \<union> set (lead_ran env (Lead_loop ch) srv)) srv'"
proof -
  have m: "mainLoop env ch srv = Some srv'" using run t by (simp add: mainLoop_def)
  note mono = ack_ok_mono [OF _ subset_refl Un_upper1]
  show ?thesis
  proof (cases ch)
    case Choose_state
    then have "srv' = srv" using run inv by (simp add: leaderLoop_def lead_inv_def)
    then show ?thesis using ok by (simp add: mono)
  next
    case Choose_event
    show ?thesis
    proof (cases "sv_eventch srv")
      case (Cons e rest)
      then have "handleEvent env e (srv\<lparr>sv_eventch := rest\<rparr>) = Some srv'" using run Choose_event by (simp add: leaderLoop_def)
      moreover have "ack_ok K L (srv\<lparr>sv_eventch := rest\<rparr>)" "known K e" using ok Cons by (simp_all add: ack_ok_def ball_Un)
      ultimately show ?thesis by (intro mono) (rule ack_handleEvent)
    qed (use run ok Choose_event in \<open>simp add: leaderLoop_def mono\<close>)
  next
    case Choose_cmd
    show ?thesis
    proof (cases "sv_cmdch srv")
      case (Cons cmd rest)
      then show ?thesis using ack_lead_cmd [OF inv t Cons _ ok] m by (simp add: Choose_cmd)
    qed (use run ok Choose_cmd in \<open>simp add: leaderLoop_def mono\<close>)
  next
    case Choose_timer
    obtain t' srv1 where s: "server_Step env srv = Some (t', srv1)"
      "srv' = srv1\<lparr>sv_loop := In_leader t'\<rparr> \<or> (\<exists>b. srv' = pingBack env b (srv1\<lparr>sv_loop := In_leader t'\<rparr>))"
      using run Choose_timer by (auto simp: leaderLoop_def Let_def elim!: bind_eq_SomeE split: option.splits) blast
    then show ?thesis using ack_Step [OF s(1) ok] by (intro mono) (auto intro!: ack_pingBack)
  qed
qed

lemma ack_lead_act:
  assumes inv: "lead_inv T (srv, q)" and run: "lead_act env act (srv, q) = Some (srv', q')" and ok: "ack_ok K L srv"
    and new: "\<And>e. act = Lead_event e \<Longrightarrow> known K e"
  shows "ack_ok K (L \<union> set (lead_ran env act srv)) srv'"
proof (cases act)
  case (Lead_loop ch)
  then have m: "mainLoop env ch srv = Some srv'" using run by (auto simp: lead_act_def)
  note mono = ack_ok_mono [OF _ subset_refl Un_upper1]
  show ?thesis
  proof (cases "sv_loop srv")
    case At_main
    with inv consider "sv_state srv = kWaiter" | "sv_state srv = kLeader" by (auto simp: lead_inv_def split: State.splits)
    then show ?thesis
      using m At_main ok by cases (auto simp: mainLoop_def waitLoop_enter_def Let_def intro!: mono intro: ack_replicate ack_leader_enter)
  next
    case (In_leader t)
    then show ?thesis using ack_leaderLoop [OF inv In_leader _ ok] m by (simp add: Lead_loop mainLoop_def)
  next
    case (In_wait tag)
    then have "sv_state srv = kWaiter" "sv_statech srv = []" using inv by (auto simp: lead_inv_def split: State.splits)
    moreover have "ack_ok K L (srv\<lparr>sv_cmdch := c\<rparr>)" for c using ok by simp
    ultimately have "ack_ok K L srv'" using m In_wait ok ack.run_command [of env _ "srv\<lparr>sv_cmdch := _\<rparr>" _ _ _ K L]
      by (auto simp: mainLoop_def waitLoop_def Let_def onCommand_leader split: choice.splits list.splits if_splits)
    then show ?thesis by (rule mono)
  qed (use inv in \<open>auto simp: lead_inv_def split: State.splits\<close>)
next
  case (Lead_event e)
  then show ?thesis using run ok new by (auto simp: lead_act_def lead_ran_def ReceiveEvent_def ack_ok_def)
next
  case (Lead_commit index)
  then show ?thesis using run ok by (auto simp: lead_act_def lead_ran_def onSynced_def split: list.splits prod.splits if_splits)
qed

subsection \<open>The leader behind the rpc server\<close>

definition leader_accept :: "Event \<Rightarrow> 'db Server \<times> string list \<Rightarrow> 'db Server \<times> string list" where
  "leader_accept e x = (replica_accept e (fst x), snd x)"

text \<open>As for the replica: requests come through the rpc server, and the closures run in the step that drops the event.\<close>

definition leader_step :: "Env \<times> lead_action \<Rightarrow> 'db Server \<times> string list \<Rightarrow> ((nat \<times> Response) list \<times> 'db Server \<times> string list) option" where
  "leader_step i x = (case (i, x) of ((env, act), (srv, q)) \<Rightarrow> (case act of
       Lead_event _ \<Rightarrow> Some ([], srv, q)
     | _ \<Rightarrow> do {
         (srv, q) \<leftarrow> lead_act env act (srv\<lparr>sv_out := []\<rparr>, q);
         Some (map (\<lambda>e. (ev_done e - 1, ev_Rep e)) (filter (\<lambda>e. ev_done e \<noteq> 0) (replies (sv_out srv))), srv, q) }))"

lemma leader_step_replica:
  assumes "leader_step (env, act) (srv, q) = Some (reps, srv', q')"
  shows "reps = [] \<and> (srv' = srv \<or> srv' = srv\<lparr>sv_out := []\<rparr>) \<or> (\<exists>i. replica_step i srv = Some (reps, srv'))"
proof (cases act)
  case (Lead_loop ch)
  then have "replica_step (env, Act_loop ch) srv = Some (reps, srv')"
    using assms by (auto simp: leader_step_def lead_act_def replica_step_def server_act_def elim!: bind_eq_SomeE)
  then show ?thesis by blast
next
  case (Lead_event e)
  then show ?thesis using assms by (simp add: leader_step_def)
next
  case (Lead_commit index)
  show ?thesis
  proof (cases q)
    case Nil
    then show ?thesis using assms by (simp add: Lead_commit leader_step_def lead_act_def)
  next
    case (Cons d q1)
    then have "replica_step (env, Act_synced index d) srv = Some (reps, srv')"
      using assms by (auto simp: Lead_commit leader_step_def lead_act_def replica_step_def server_act_def elim!: bind_eq_SomeE)
    then show ?thesis by blast
  qed
qed

interpretation leader: rpc_receiver leader_accept leader_step "\<lambda>x. books_ok (fst x)" "\<lambda>x. replica_owed (fst x)"
proof unfold_locales
  show "books_ok (fst (leader_accept e s)) \<and> replica_owed (fst (leader_accept e s)) = replica_owed (fst s) + {#ev_done e#}"
    if "books_ok (fst s)" for e and s :: "'a Server \<times> string list"
    using replica.accept [OF that, of e] by (simp add: leader_accept_def)
next
  fix s s' :: "'a Server \<times> string list" and i reps
  assume ok: "books_ok (fst s)" and st: "leader_step i s = Some (reps, s')"
  obtain env act srv q srv' q' where x: "i = (env, act)" "s = (srv, q)" "s' = (srv', q')" by (metis surj_pair)
  from leader_step_replica [OF st [unfolded x]] show "books_ok (fst s') \<and> mset (map fst reps) + replica_owed (fst s') = replica_owed (fst s)"
  proof
    assume "reps = [] \<and> (srv' = srv \<or> srv' = srv\<lparr>sv_out := []\<rparr>)"
    then show ?thesis using ok by (auto simp: x books_ok_def replica_owed_def outstanding_def)
  next
    assume "\<exists>i. replica_step i srv = Some (reps, srv')"
    then obtain j where "replica_step j srv = Some (reps, srv')" ..
    from replica.step [OF _ this] show ?thesis using ok by (simp add: x)
  qed
qed

subsection \<open>What the clients can rely on\<close>

definition taken :: "'c sys_effect list \<Rightarrow> (nat \<times> Request) set" where
  "taken past = {(Suc (ev_done e), ev_Req e) | conn e. Srv (R_receive conn e) \<in> set past}"

definition answers_backed :: "'c sys_effect list \<Rightarrow> (Request \<times> Response) set \<Rightarrow> bool" where
  "answers_backed past L \<longleftrightarrow> (\<forall>d r. Answer d r \<in> set past \<longrightarrow>
     (\<exists>req. (Suc d, req) \<in> taken past \<and> (changes req \<and> rp_err r = None \<longrightarrow> (req, r) \<in> L)))"

definition sys_ack :: "u64 set \<Rightarrow> 'c sys_effect list \<Rightarrow> (Request \<times> Response) set \<Rightarrow> 'db Server \<times> string list \<Rightarrow> bool" where
  "sys_ack T past L x \<longleftrightarrow> lead_inv T x \<and> ack_ok (taken past) L (fst x) \<and> answers_backed past L"

text \<open>The commands that the leader runs without an error in a run of the system.\<close>

fun sys_ran :: "(timestamp \<Rightarrow> timestamp \<Rightarrow> rat) \<Rightarrow> ('c, Env \<times> lead_action) sys_input list \<Rightarrow> ('c, 'db Server \<times> string list) System
    \<Rightarrow> (Request \<times> Response) list" where
  "sys_ran td [] y = []"
| "sys_ran td (i # is) y =
     (case i of Y_serve now (env, act) \<Rightarrow> lead_ran env act ((fst (sy_recv y))\<lparr>sv_out := []\<rparr>) | _ \<Rightarrow> [])
     @ (case sys_step leader_accept leader_step td i y of None \<Rightarrow> [] | Some (tr, y) \<Rightarrow> sys_ran td is y)"

definition times_of :: "('c, Env \<times> lead_action) sys_input list \<Rightarrow> u64 set" where
  "times_of is = {word_of_int (en_now env) | now env act. Y_serve now (env, act) \<in> set is}"

lemma taken_append: "taken (a @ b) = taken a \<union> taken b"
  by (auto simp: taken_def)

lemma answers_backed_mono:
  assumes "answers_backed past L" and "L \<subseteq> L'" and "\<And>d r. Answer d r \<in> set es \<Longrightarrow> Answer d r \<in> set past"
  shows "answers_backed (past @ es) L'"
  unfolding answers_backed_def taken_append
proof (intro allI impI)
  fix d r
  assume "Answer d r \<in> set (past @ es)"
  then have "Answer d r \<in> set past" using assms(3) by auto
  then obtain req where "(Suc d, req) \<in> taken past" "changes req \<and> rp_err r = None \<longrightarrow> (req, r) \<in> L" using assms(1) unfolding answers_backed_def by blast
  then show "\<exists>req. (Suc d, req) \<in> taken past \<union> taken es \<and> (changes req \<and> rp_err r = None \<longrightarrow> (req, r) \<in> L')" using assms(2) by blast
qed

lemma sys_ack_same:
  assumes "sys_ack T past L x" and "\<And>d r. Answer d r \<in> set es \<Longrightarrow> Answer d r \<in> set past"
  shows "sys_ack T (past @ es) L x"
  using assms answers_backed_mono [of past L L es] ack_ok_mono [of "taken past" L "fst x" "taken (past @ es)" L]
  by (simp add: sys_ack_def taken_append)

lemma sys_ack_accept:
  assumes "sys_ack T past L x" and "(Suc (ev_done e), ev_Req e) \<in> taken past"
  shows "sys_ack T past L (leader_accept e x)"
proof -
  obtain srv q where x: "x = (srv, q)" by (cases x)
  have "lead_inv T (leader_accept e x) = lead_inv T x"
    unfolding x leader_accept_def fst_conv snd_conv by (rule lead_inv_cong) (simp_all add: replica_accept_def ReceiveEvent_def pending_def)
  moreover have "ack_ok (taken past) L (replica_accept e srv)" using assms
    by (auto simp: sys_ack_def x ack_ok_def replica_accept_def ReceiveEvent_def known_def)
  ultimately show ?thesis using assms(1) by (simp add: sys_ack_def leader_accept_def x)
qed

lemma sys_ack_fold:
  assumes "sys_ack T past L x" and "\<And>e. e \<in> set es \<Longrightarrow> (Suc (ev_done e), ev_Req e) \<in> taken past"
  shows "sys_ack T past L (fold leader_accept es x)"
  using assms by (induction es arbitrary: x) (simp_all add: sys_ack_accept)

lemma sys_ack_step:
  assumes ack: "sys_ack T past L x" and run: "leader_step (env, act) x = Some (reps, x')" and T: "word_of_int (en_now env) \<in> T"
  shows "sys_ack T (past @ map (\<lambda>(d, rep). Answer d rep) reps) (L \<union> set (lead_ran env act ((fst x)\<lparr>sv_out := []\<rparr>))) x'"
proof (cases "\<exists>e. act = Lead_event e")
  case True
  then have "reps = []" "x' = x" "lead_ran env act ((fst x)\<lparr>sv_out := []\<rparr>) = []" using run by (auto simp: leader_step_def lead_ran_def split: prod.splits)
  then show ?thesis using ack by simp
next
  case False
  obtain srv q srv' q' where x: "x = (srv, q)" "x' = (srv', q')" by (metis surj_pair)
  let ?srv = "srv\<lparr>sv_out := []\<rparr>" and ?L = "L \<union> set (lead_ran env act (srv\<lparr>sv_out := []\<rparr>))"
  have a: "lead_act env act (?srv, q) = Some (srv', q')"
    and reps: "reps = map (\<lambda>e. (ev_done e - 1, ev_Rep e)) (filter (\<lambda>e. ev_done e \<noteq> 0) (replies (sv_out srv')))"
    using run False by (auto simp: leader_step_def x elim!: bind_eq_SomeE split: lead_action.splits)
  have "lead_inv T (?srv, q) = lead_inv T (srv, q)" by (rule lead_inv_cong) (simp_all add: pending_def)
  then have i: "lead_inv T (?srv, q)" using ack by (simp add: sys_ack_def x)
  have "ack_ok (taken past) L ?srv" using ack by (simp add: sys_ack_def x ack_ok_def)
  from ack_lead_act [OF i a this] have ok: "ack_ok (taken past) ?L srv'" using False by blast
  have "\<exists>req. (Suc d, req) \<in> taken past \<and> (changes req \<and> rp_err r = None \<longrightarrow> (req, r) \<in> ?L)" if m: "(d, r) \<in> set reps" for d r
  proof -
    obtain e where e: "e \<in> set (replies (sv_out srv'))" "ev_done e \<noteq> 0" "d = ev_done e - 1" "r = ev_Rep e" using m by (auto simp: reps)
    then have "known (taken past) e" "backed ?L e" using ok by (simp_all add: ack_ok_def)
    then show ?thesis using e(2-4) by (auto simp: known_def backed_def)
  qed
  then have "answers_backed (past @ map (\<lambda>(d, rep). Answer d rep) reps) ?L"
    using ack unfolding sys_ack_def answers_backed_def taken_append by fastforce
  moreover have "lead_inv T (srv', q')" by (rule lead_act_inv [OF i a T])
  ultimately show ?thesis using ack_ok_mono [OF ok, of "taken (past @ map (\<lambda>(d, rep). Answer d rep) reps)" ?L]
    by (simp add: sys_ack_def x taken_append)
qed

text \<open>One step of the rpc server with the leader behind it.\<close>

lemma handed_over_mem: "e \<in> set (handed_over es) \<Longrightarrow> \<exists>conn. R_receive conn e \<in> set es"
  by (induction es rule: handed_over.induct) auto

lemma sys_ack_server:
  assumes ack: "sys_ack T past L (sy_recv y)" and run: "server_input leader_accept leader_step td i y = Some (tr, y')"
    and T: "\<And>now env act. i = S_step now (env, act) \<Longrightarrow> word_of_int (en_now env) \<in> T"
  shows "sys_ack T (past @ tr) (L \<union> set (case i of S_step now (env, act) \<Rightarrow> lead_ran env act ((fst (sy_recv y))\<lparr>sv_out := []\<rparr>) | _ \<Rightarrow> [])) (sy_recv y')"
proof -
  obtain es rs s where s: "service_step leader_accept leader_step td i (sy_server y, sy_recv y) = Some (es, rs, s)"
    and tr: "tr = map (\<lambda>(d, rep). Answer d rep) (answers leader_step i (sy_recv y)) @ map Srv es" and y': "sy_recv y' = s"
    using run by (auto simp: server_input_def elim!: bind_eq_SomeE)
  show ?thesis
  proof (cases i)
    case (S_step now a)
    obtain env act where a: "a = (env, act)" by (cases a)
    obtain reps where st: "leader_step (env, act) (sy_recv y) = Some (reps, s)"
      using s by (auto simp: S_step a service_step_def elim!: bind_eq_SomeE split: prod.splits)
    have "answers leader_step i (sy_recv y) = reps" using st by (simp add: answers_def S_step a)
    then show ?thesis using sys_ack_same [OF sys_ack_step [OF ack st T [OF S_step [unfolded a]]], of "map Srv es"]
      by (auto simp: tr y' S_step a)
  next
    case (S_message now conn ip req)
    have "s = fold leader_accept (handed_over es) (sy_recv y)" using s by (auto simp: S_message service_step_def elim!: bind_eq_SomeE)
    moreover have "tr = map Srv es" by (simp add: tr S_message answers_def)
    moreover have "(Suc (ev_done e), ev_Req e) \<in> taken (past @ map Srv es)" if "e \<in> set (handed_over es)" for e
      using handed_over_mem [OF that] by (auto simp: taken_def)
    moreover have "sys_ack T (past @ map Srv es) L (sy_recv y)" by (rule sys_ack_same [OF ack]) auto
    ultimately show ?thesis using sys_ack_fold [of T "past @ map Srv es" L "sy_recv y" "handed_over es"] by (simp add: y' S_message)
  qed (use s ack in \<open>auto simp: service_step_def y' tr answers_def elim!: bind_eq_SomeE intro!: sys_ack_same\<close>)
qed

text \<open>An input to the system is a step of a client, which leaves the leader alone, or one of the rpc server.\<close>

lemma client_act_recv: "client_act k i y = Some (tr, y') \<Longrightarrow> sy_recv y' = sy_recv y \<and> (\<forall>d r. Answer d r \<notin> set tr)"
  by (auto simp: client_act_def elim!: bind_eq_SomeE)

lemma sys_step_shape:
  assumes "sys_step accept step td i y = Some (tr, y')"
  shows "(sy_recv y' = sy_recv y \<and> (\<forall>d r. Answer d r \<notin> set tr) \<and> (\<forall>now a. i \<noteq> Y_serve now a))
    \<or> (\<exists>j y1. sy_recv y1 = sy_recv y \<and> server_input accept step td j y1 = Some (tr, y')
        \<and> (\<forall>now a. j = S_step now a \<longleftrightarrow> i = Y_serve now a))"
proof -
  have srv: ?thesis if "server_input accept step td j y1 = Some (tr, y')" "sy_recv y1 = sy_recv y" "\<forall>now a. j \<noteq> S_step now a"
    "\<forall>now a. i \<noteq> Y_serve now a" for j y1
    using that by blast
  show ?thesis
  proof (cases i)
    case (Y_client k a)
    then show ?thesis using assms by (auto simp: sys_step_def dest!: client_act_recv split: if_splits)
  next
    case (Y_accept n)
    show ?thesis
    proof (cases "n < length (sy_net y) \<and> cn_server (sy_net y ! n) = None")
      case True
      then have "server_input accept step td S_connect
          (y\<lparr>sy_net := (sy_net y)[n := (sy_net y ! n)\<lparr>cn_server := Some (rs_nextConn (sy_server y))\<rparr>]\<rparr>) = Some (tr, y')"
        using assms by (simp add: Y_accept sys_step_def Let_def)
      then show ?thesis by (rule srv) (simp_all add: Y_accept)
    qed (use assms in \<open>auto simp: Y_accept sys_step_def Let_def\<close>)
  next
    case (Y_request n now ip)
    show ?thesis
    proof (cases "n < length (sy_net y) \<and> cn_server (sy_net y ! n) \<noteq> None \<and> cn_reqs (sy_net y ! n) \<noteq> []")
      case True
      then obtain conn req rest where "cn_server (sy_net y ! n) = Some conn" "cn_reqs (sy_net y ! n) = req # rest" by (auto simp: neq_Nil_conv)
      then have "server_input accept step td (S_message now conn ip req) (y\<lparr>sy_net := (sy_net y)[n := (sy_net y ! n)\<lparr>cn_reqs := rest\<rparr>]\<rparr>) = Some (tr, y')"
        using assms True by (simp add: Y_request sys_step_def Let_def)
      then show ?thesis by (rule srv) (simp_all add: Y_request)
    qed (use assms in \<open>auto simp: Y_request sys_step_def Let_def split: if_splits option.splits list.splits\<close>)
  next
    case (Y_down n)
    show ?thesis
    proof (cases "n < length (sy_net y) \<and> cn_server (sy_net y ! n) \<noteq> None")
      case True
      then obtain conn where "server_input accept step td (S_down conn) y = Some (tr, y')" using assms by (auto simp: Y_down sys_step_def Let_def)
      then show ?thesis by (rule srv) (simp_all add: Y_down)
    qed (use assms in \<open>auto simp: Y_down sys_step_def Let_def split: if_splits option.splits\<close>)
  next
    case (Y_serve now a)
    then have "server_input accept step td (S_step now a) y = Some (tr, y')" using assms by (simp add: sys_step_def)
    then show ?thesis using Y_serve by (intro disjI2 exI [of _ "S_step now a"] exI [of _ y]) auto
  qed (use assms in \<open>auto simp: sys_step_def Let_def dest!: client_act_recv split: if_splits list.splits\<close>)
qed

lemma sys_run_ack:
  assumes "sys_ack T past L (sy_recv y)" and "sys_run leader_accept leader_step td is y = Some (tr, y')" and "times_of is \<subseteq> T"
  shows "sys_ack T (past @ tr) (L \<union> set (sys_ran td is y)) (sy_recv y')"
  using assms
proof (induction "is" arbitrary: past L y tr)
  case (Cons i "is")
  obtain tr1 y1 tr2 where 1: "sys_step leader_accept leader_step td i y = Some (tr1, y1)" "sys_run leader_accept leader_step td is y1 = Some (tr2, y')"
    and tr: "tr = tr1 @ tr2" using Cons.prems(2) by (auto elim!: bind_eq_SomeE)
  define now_ran where "now_ran = (case i of Y_serve now (env, act) \<Rightarrow> lead_ran env act ((fst (sy_recv y))\<lparr>sv_out := []\<rparr>) | _ \<Rightarrow> [])"
  have "sys_ack T (past @ tr1) (L \<union> set now_ran) (sy_recv y1)"
    using sys_step_shape [OF 1(1)]
  proof
    assume s: "sy_recv y1 = sy_recv y \<and> (\<forall>d r. Answer d r \<notin> set tr1) \<and> (\<forall>now a. i \<noteq> Y_serve now a)"
    then have "now_ran = []" by (simp add: now_ran_def split: sys_input.splits)
    then show ?thesis using sys_ack_same [OF Cons.prems(1), of tr1] s by simp
  next
    assume "\<exists>j y2. sy_recv y2 = sy_recv y \<and> server_input leader_accept leader_step td j y2 = Some (tr1, y1)
      \<and> (\<forall>now a. j = S_step now a \<longleftrightarrow> i = Y_serve now a)"
    then obtain j y2 where j: "sy_recv y2 = sy_recv y" "server_input leader_accept leader_step td j y2 = Some (tr1, y1)"
      "\<And>now a. j = S_step now a \<longleftrightarrow> i = Y_serve now a" by blast
    have "now_ran = (case j of S_step now (env, act) \<Rightarrow> lead_ran env act ((fst (sy_recv y2))\<lparr>sv_out := []\<rparr>) | _ \<Rightarrow> [])"
    proof (cases "\<exists>now a. j = S_step now a")
      case False
      then show ?thesis using j(3) by (auto simp: now_ran_def split: sys_input.splits service_input.splits)
    next
      case True
      then obtain now a where "j = S_step now a" "i = Y_serve now a" using j(3) by blast
      then show ?thesis using j(1) by (simp add: now_ran_def)
    qed
    moreover have "word_of_int (en_now env) \<in> T" if "j = S_step now (env, act)" for now env act
      using that j(3) Cons.prems(3) unfolding times_of_def by fastforce
    ultimately show ?thesis using sys_ack_server [OF _ j(2), of T past L] Cons.prems(1) j(1) by simp
  qed
  moreover have "times_of is \<subseteq> T" using Cons.prems(3) by (auto simp: times_of_def)
  moreover have "sys_ran td (i # is) y = now_ran @ sys_ran td is y1" by (simp add: 1 now_ran_def)
  ultimately show ?case using Cons.IH [OF _ 1(2), of "past @ tr1" "L \<union> set now_ran"] by (simp add: tr Un_assoc)
qed simp

lemma own_answersD:
  assumes "own_answers tr" and "At k (Done c st (Some rep)) \<in> set tr"
  shows "\<exists>req. At k (Send c req) \<in> set tr \<and> answer_to tr req rep"
proof -
  obtain a b where ab: "tr = a @ At k (Done c st (Some rep)) # b" using split_list [OF assms(2)] by blast
  then have "\<exists>req. At k (Send c req) \<in> set a \<and> answer_to a req rep" using assms(1) unfolding own_answers_def preceded_def by fastforce
  then show ?thesis using answer_to_mono [of a _ rep tr] by (auto simp: ab)
qed

lemma receive_unique_event:
  assumes "distinct (Rpc_Server.received past)" and "R_receive c e \<in> set past" and "R_receive c' e' \<in> set past" and "ev_done e = ev_done e'"
  shows "e = e'"
  using assms by (induction past rule: Rpc_Server.received.induct) (auto dest: received_mem)

lemma nothing_owed:
  assumes "ledger srv = {#}"
  shows "sv_eventch srv = []" "sv_requests srv = []" "replies (sv_out srv) = []" "held_pings (sv_sm srv) = {}" "replica_owed srv = {#}"
  using assms by (auto simp: ledger_def held_def held_pings_def replica_owed_def outstanding_def clients_def map_filter_def filter_empty_conv)

end
