(* ===== verification/Client_Watch.thy ===== *)
theory Client_Watch
  imports Containers Watch_Event
begin

text \<open>
  \<^verbatim>\<open>client/watch_manager.cc\<close> and \<^verbatim>\<open>client/watcher.h\<close>: the watchers of a client program, at most one
  per path, and a default watcher for everything else. A watcher fires once; its callback runs
  later, in a thread pool. Callbacks are values of any type, \<open>None\<close> the empty \<^verbatim>\<open>boost::function\<close>.
\<close>

record 'f ClientWatcher =
  cw_Path :: string
  cw_Mask :: EventType
  cw_Recursive :: bool
  cw_Done :: "'f option"

record 'f ClientWM =
  cm_default :: "'f ClientWatcher"
  cm_watchers :: "(string, 'f ClientWatcher) omap"
  cm_pool :: "('f ClientWatcher \<times> WEvent) list"

text \<open>Only \<^verbatim>\<open>Done\<close> of the default watcher is ever set or read.\<close>

definition CWM_new :: "'f option \<Rightarrow> 'f ClientWM" where
  "CWM_new cb = \<lparr>cm_default = \<lparr>cw_Path = [], cw_Mask = kNone, cw_Recursive = False, cw_Done = cb\<rparr>, cm_watchers = [], cm_pool = []\<rparr>"

definition CWM_Clear :: "'f ClientWM \<Rightarrow> 'f ClientWM" where
  "CWM_Clear wm = wm\<lparr>cm_watchers := []\<rparr>"

text \<open>\<^verbatim>\<open>Walk\<close> calls back for a copy of the table.\<close>

definition CWM_Walk :: "'f ClientWM \<Rightarrow> 'f ClientWatcher list" where
  "CWM_Walk wm = map snd (cm_watchers wm)"

definition CWM_Add :: "string \<Rightarrow> 'f ClientWatcher \<Rightarrow> 'f ClientWM \<Rightarrow> 'f ClientWM" where
  "CWM_Add path watcher wm = wm\<lparr>cm_watchers := om_insert path watcher (cm_watchers wm)\<rparr>"

definition CWM_Remove :: "string \<Rightarrow> 'f ClientWM \<Rightarrow> 'f ClientWM" where
  "CWM_Remove path wm = wm\<lparr>cm_watchers := om_erase path (cm_watchers wm)\<rparr>"

definition CWM_Triger :: "string \<Rightarrow> WEvent \<Rightarrow> 'f ClientWM \<Rightarrow> 'f ClientWM" where
  "CWM_Triger path e wm = (case om_find (cm_watchers wm) path of
       None \<Rightarrow> wm\<lparr>cm_pool := cm_pool wm @ [(cm_default wm, e)]\<rparr>
     | Some watcher \<Rightarrow>
         wm\<lparr>cm_watchers := om_erase path (cm_watchers wm), cm_pool := cm_pool wm @ [(watcher, e)]\<rparr>)"

text \<open>A thread of the pool runs \<^verbatim>\<open>trigerInternal\<close>. Calling an empty function throws
  \<^verbatim>\<open>bad_function_call\<close>, which nothing in the program catches: \<open>None\<close>.\<close>

definition CWM_trigerInternal :: "'f ClientWatcher \<Rightarrow> WEvent \<Rightarrow> ('f \<times> WEvent) option" where
  "CWM_trigerInternal watcher e = (case cw_Done watcher of None \<Rightarrow> None | Some f \<Rightarrow> Some (f, e))"

definition CWM_run :: "'f ClientWM \<Rightarrow> (('f \<times> WEvent) list \<times> 'f ClientWM) option" where
  "CWM_run wm = (case cm_pool wm of
       [] \<Rightarrow> Some ([], wm)
     | (w, e) # rest \<Rightarrow> do {
         r \<leftarrow> CWM_trigerInternal w e;
         Some ([r], wm\<lparr>cm_pool := rest\<rparr>) })"

subsection \<open>Watchers fire once\<close>

definition fired :: "'f ClientWM \<Rightarrow> 'f ClientWM \<Rightarrow> ('f ClientWatcher \<times> WEvent) list" where
  "fired wm wm' = drop (length (cm_pool wm)) (cm_pool wm')"

fun triger_all :: "(string \<times> WEvent) list \<Rightarrow> 'f ClientWM \<Rightarrow> 'f ClientWM" where
  "triger_all [] wm = wm"
| "triger_all ((p, e) # es) wm = triger_all es (CWM_Triger p e wm)"

lemma triger_all_spec:
  "\<exists>fs. cm_pool (triger_all es wm) = cm_pool wm @ fs \<and> map snd fs = map snd es
     \<and> cm_default (triger_all es wm) = cm_default wm
     \<and> (\<forall>i < length es. fst (fs ! i) =
          (if fst (es ! i) \<in> fst ` set (take i es) then cm_default wm
           else case om_find (cm_watchers wm) (fst (es ! i)) of None \<Rightarrow> cm_default wm | Some w \<Rightarrow> w))
     \<and> (\<forall>p. om_find (cm_watchers (triger_all es wm)) p = (if p \<in> fst ` set es then None else om_find (cm_watchers wm) p))"
proof (induction es arbitrary: wm)
  case (Cons x es)
  obtain p e where x: "x = (p, e)" by (cases x)
  define w where "w = (case om_find (cm_watchers wm) p of None \<Rightarrow> cm_default wm | Some w \<Rightarrow> w)"
  let ?wm = "CWM_Triger p e wm"
  have 1: "cm_pool ?wm = cm_pool wm @ [(w, e)]" "cm_default ?wm = cm_default wm"
    "\<And>q. om_find (cm_watchers ?wm) q = (if q = p then None else om_find (cm_watchers wm) q)"
    by (auto simp: CWM_Triger_def w_def split: option.splits)
  from Cons.IH [of ?wm] obtain fs where fs: "cm_pool (triger_all es ?wm) = cm_pool ?wm @ fs" "map snd fs = map snd es"
    "cm_default (triger_all es ?wm) = cm_default wm"
    "\<forall>i < length es. fst (fs ! i) = (if fst (es ! i) \<in> fst ` set (take i es) then cm_default wm
       else case om_find (cm_watchers ?wm) (fst (es ! i)) of None \<Rightarrow> cm_default wm | Some w \<Rightarrow> w)"
    "\<forall>q. om_find (cm_watchers (triger_all es ?wm)) q = (if q \<in> fst ` set es then None else om_find (cm_watchers ?wm) q)"
    unfolding 1(2) by blast
  have "fst (((w, e) # fs) ! i) = (if fst ((x # es) ! i) \<in> fst ` set (take i (x # es)) then cm_default wm
       else case om_find (cm_watchers wm) (fst ((x # es) ! i)) of None \<Rightarrow> cm_default wm | Some w \<Rightarrow> w)"
    if "i < length (x # es)" for i
    using that fs(4) by (cases i) (auto simp: x w_def 1(3))
  then show ?case using fs 1 by (intro exI [of _ "(w, e) # fs"]) (auto simp: x)
qed simp

text \<open>
  C31. A watcher of a client program fires exactly once: whatever the watch events that come,
  each of them runs one callback, in the order of the events; the first event for a path runs the
  callback of the watcher of that path, any later one runs the default callback, and so does an event for a path
  without a watcher; all other watchers stay.
\<close>

theorem client_watch_once:
  "\<exists>fs. cm_pool (triger_all es wm) = cm_pool wm @ fs \<and> map snd fs = map snd es
     \<and> (\<forall>i < length es. fst (fs ! i) =
          (if fst (es ! i) \<in> fst ` set (take i es) then cm_default wm
           else case om_find (cm_watchers wm) (fst (es ! i)) of None \<Rightarrow> cm_default wm | Some w \<Rightarrow> w))
     \<and> (\<forall>p. p \<notin> fst ` set es \<longrightarrow> om_find (cm_watchers (triger_all es wm)) p = om_find (cm_watchers wm) p)"
  using triger_all_spec [of es wm] by auto

theorem client_watch_once_witness:
  "\<exists>fs. cm_pool (triger_all [(''/a'', mk_event ''/a'' kModify), (''/a'', mk_event ''/a'' kDelete)]
        (CWM_Add ''/a'' \<lparr>cw_Path = ''/a'', cw_Mask = kAll, cw_Recursive = False, cw_Done = Some (1 :: nat)\<rparr> (CWM_new (Some 0)))) = fs
     \<and> map (\<lambda>f. cw_Done (fst f)) fs = [Some 1, Some 0]"
proof -
  let ?wm = "CWM_Add ''/a'' \<lparr>cw_Path = ''/a'', cw_Mask = kAll, cw_Recursive = False, cw_Done = Some (1 :: nat)\<rparr> (CWM_new (Some 0))"
  let ?es = "[(''/a'', mk_event ''/a'' kModify), (''/a'', mk_event ''/a'' kDelete)]"
  from client_watch_once [of ?es ?wm] obtain fs where fs: "cm_pool (triger_all ?es ?wm) = cm_pool ?wm @ fs" "map snd fs = map snd ?es"
    "\<forall>i < length ?es. fst (fs ! i) = (if fst (?es ! i) \<in> fst ` set (take i ?es) then cm_default ?wm
           else case om_find (cm_watchers ?wm) (fst (?es ! i)) of None \<Rightarrow> cm_default ?wm | Some w \<Rightarrow> w)" by blast
  have "length fs = 2" using arg_cong [OF fs(2), of length] by simp
  then obtain a b where ab: "fs = [a, b]" by (auto simp: length_Suc_conv numeral_2_eq_2)
  have "fst (fs ! 0) = fst a" "fst (fs ! Suc 0) = fst b" by (simp_all add: ab)
  then have "cw_Done (fst a) = Some 1" "cw_Done (fst b) = Some 0"
    using fs(3) [rule_format, of 0] fs(3) [rule_format, of 1] by (auto simp: CWM_Add_def CWM_new_def om_insert_def dest: sym)
  moreover have "cm_pool ?wm = []" by (simp add: CWM_Add_def CWM_new_def)
  ultimately show ?thesis using fs(1) ab by (intro exI [of _ fs]) simp
qed

end
