(* ===== verification/Client_Cache.thy ===== *)
theory Client_Cache
  imports Thirdparty
begin

text \<open>
  \<^verbatim>\<open>client/cache.cc\<close>: the nodes a client has read, kept in a database of its own for the time
  when no server answers. \<^verbatim>\<open>CHECK_NOTNULL\<close> that fails is \<open>None\<close>; the target of a read is its
  presence and the node it is left with.
\<close>

record 'db Cache =
  ca_dir :: string
  ca_db :: "'db option"

definition Cache_new :: "string \<Rightarrow> 'db Cache" where
  "Cache_new dir = \<lparr>ca_dir = dir, ca_db = None\<rparr>"

text \<open>\<^verbatim>\<open>leveldb::DB::Open\<close> is the argument \<open>open_db\<close>.\<close>

definition Cache_Init :: "'db thirdparty \<Rightarrow> (string \<Rightarrow> ldb_status \<times> 'db) \<Rightarrow> 'db Cache \<Rightarrow> Status \<times> 'db Cache" where
  "Cache_Init X open_db c = (case open_db (ca_dir c) of (st, db) \<Rightarrow>
     if \<not> ldb_ok st then (Internal (''open cache failed:'' @ ldb_ToString (ldb X) st), c)
     else (OK, c\<lparr>ca_db := Some db\<rparr>))"

definition Cache_Read :: "'db thirdparty \<Rightarrow> string \<Rightarrow> bool \<Rightarrow> Node \<Rightarrow> 'db Cache \<Rightarrow> (Status \<times> Node) option" where
  "Cache_Read X path present node c = (case ca_db c of
       None \<Rightarrow> None
     | Some db \<Rightarrow> Some
         (if \<not> present then (InvalidArgument ''store::Node'', node)
          else (case ldb_Get (ldb X) db path of (st, data) \<Rightarrow>
            if \<not> ldb_ok st then
              (if ldb_IsNotFound st then NotFound path else Internal (ldb_ToString (ldb X) st), node)
            else (case node_ParseFromString (pb X) data of (r, node) \<Rightarrow>
              (if \<not> r then Internal (''parse node:'' @ path) else OK, node)))))"

definition Cache_Write :: "'db thirdparty \<Rightarrow> string \<Rightarrow> Node \<Rightarrow> 'db Cache \<Rightarrow> (Status \<times> 'db Cache) option" where
  "Cache_Write X path node c = (case ca_db c of
       None \<Rightarrow> None
     | Some db \<Rightarrow> Some
         (case node_SerializeToString (pb X) node of (r, data) \<Rightarrow>
            if \<not> r then (Internal (''serialize node:'' @ path), c)
            else (case ldb_Put (ldb X) db path data of (st, db) \<Rightarrow>
              (if \<not> ldb_ok st then Internal (ldb_ToString (ldb X) st) else OK, c\<lparr>ca_db := Some db\<rparr>))))"

subsection \<open>What a cache holds\<close>

definition cached :: "'db thirdparty \<Rightarrow> 'db Cache \<Rightarrow> string \<rightharpoonup> Node" where
  "cached X c path = (case Cache_Read X path True Node_default c of
     Some (st, node) \<Rightarrow> if ok st then Some node else None | None \<Rightarrow> None)"

lemma cached_view:
  assumes "ca_db c = Some db"
  shows "cached X c path = (case ldb_view (ldb X) db path of None \<Rightarrow> None
    | Some data \<Rightarrow> (case node_ParseFromString (pb X) data of (r, node) \<Rightarrow> if r then Some node else None))"
  by (auto simp: cached_def Cache_Read_def assms ldb_view_def split: prod.splits)

lemma Cache_Write_cached:
  assumes "leveldb_ok (ldb X)" "proto_ok (pb X)" "ca_db c = Some db"
  obtains st c' where "Cache_Write X path node c = Some (st, c')" "ca_db c' \<noteq> None"
    "ok st = ldb_ok (fst (ldb_Put (ldb X) db path (snd (node_SerializeToString (pb X) node))))"
    "cached X c' = (if ok st then (cached X c)(path \<mapsto> node) else cached X c)"
proof -
  obtain data where d: "node_SerializeToString (pb X) node = (True, data)" "node_ParseFromString (pb X) data = (True, node)"
    using assms(2) that by (cases "node_SerializeToString (pb X) node") (auto simp: proto_ok_def dest: spec [of _ node])
  obtain s db' where p: "ldb_Put (ldb X) db path data = (s, db')" by (cases "ldb_Put (ldb X) db path data")
  have v: "ldb_view (ldb X) db' = (if ldb_ok s then (ldb_view (ldb X) db)(path \<mapsto> data) else ldb_view (ldb X) db)"
    using assms(1) p unfolding leveldb_ok_def by (metis fst_conv snd_conv)
  let ?st = "if \<not> ldb_ok s then Internal (ldb_ToString (ldb X) s) else OK" and ?c = "c\<lparr>ca_db := Some db'\<rparr>"
  have "Cache_Write X path node c = Some (?st, ?c)" by (simp add: Cache_Write_def assms(3) d p)
  moreover have "cached X ?c = (if ok ?st then (cached X c)(path \<mapsto> node) else cached X c)"
    using v d cached_view [OF assms(3), of X] cached_view [of ?c db' X] by (auto simp: fun_eq_iff)
  moreover have "ok ?st = ldb_ok (fst (ldb_Put (ldb X) db path (snd (node_SerializeToString (pb X) node))))" by (simp add: d p)
  ultimately show thesis using that [of ?st ?c] by simp
qed

end
