(* ===== verification/Client.thy ===== *)
theory Client
  imports Rpc_Client Client_Watch Client_Cache
begin

text \<open>
  \<^verbatim>\<open>client/client_impl.cc\<close>, \<^verbatim>\<open>client/client.cc\<close> and \<^verbatim>\<open>client/options.h\<close>: the client library. Its
  event loop connects to one server after the other, registers the session, and then keeps one
  ping outstanding; the calls of the program's threads go through the same connection. The
  state is that of the object with what the loop holds for it: the calls queued for
  \<^verbatim>\<open>callInLoop\<close>, the connection timers that are armed, and the rpc clients that have been replaced and
  wait in the loop's queue for their end, each with whether its connection is still being made. \<open>None\<close> is a failing \<^verbatim>\<open>CHECK\<close> or a null pointer; the
  argument \<open>r\<close> is what the random generator gives.
\<close>

datatype client_cb = On_call nat | On_register | On_ping

datatype CState = cs_Looking | cs_Connected | cs_Closed

record ClientOptions =
  co_Timeout :: u32
  co_CacheDir :: string
  co_EnableCache :: bool
  co_Sid :: sid_t
  co_EnableDebugLog :: bool

definition ClientOptions_default :: ClientOptions where
  "ClientOptions_default = \<lparr>co_Timeout = 30 * 1000, co_CacheDir = ''./cache'', co_EnableCache = True, co_Sid = 0, co_EnableDebugLog = False\<rparr>"

record 'f ReadOptions =
  ro_WatchEvent :: u32
  ro_Recursive :: bool
  ro_Callback :: "'f option"

definition ReadOptions_default :: "'f ReadOptions" where
  "ReadOptions_default = \<lparr>ro_WatchEvent = kNone, ro_Recursive = False, ro_Callback = None\<rparr>"

record ('db, 'f) ClientImpl =
  ci_state :: CState
  ci_addrList :: "string list"
  ci_options :: ClientOptions
  ci_cache :: "'db Cache"
  ci_wm :: "'f ClientWM"
  ci_client :: "client_cb RpcClient option"
  ci_connecting :: bool
  ci_old :: "(client_cb RpcClient \<times> bool) list"
  ci_sid :: sid_t
  ci_tasks :: "(nat \<times> Request) list"
  ci_timers :: "(nat \<times> string) list"
  ci_connTimerId :: nat
  ci_nextTimer :: nat

datatype client_effect =
    Call_done nat Status Response
  | Start_reregister

definition ClientImpl_new :: "'db thirdparty \<Rightarrow> ClientOptions \<Rightarrow> string \<Rightarrow> 'f option \<Rightarrow> ('db, 'f) ClientImpl" where
  "ClientImpl_new X options addrList cb =
     \<lparr>ci_state = cs_Closed, ci_addrList = SplitString (toft X) addrList '','', ci_options = options,
      ci_cache = Cache_new (co_CacheDir options), ci_wm = CWM_new cb, ci_client = None, ci_connecting = False,
      ci_old = [], ci_sid = co_Sid options, ci_tasks = [], ci_timers = [], ci_connTimerId = 0, ci_nextTimer = 0\<rparr>"

text \<open>\<^verbatim>\<open>Uniform(0)\<close> divides by zero.\<close>

definition randomAddr :: "string list \<Rightarrow> nat \<Rightarrow> string option" where
  "randomAddr addrList r = (if addrList = [] then None else Some (addrList ! (r mod length addrList)))"

subsection \<open>Connecting\<close>

text \<open>The old client is moved into the loop's queue; the timeout of a call is computed in
  \<^verbatim>\<open>uint32_t\<close> and passed as an \<^verbatim>\<open>int\<close>.\<close>

definition resetConnection :: "string \<Rightarrow> ('db, 'f) ClientImpl \<Rightarrow> ('db, 'f) ClientImpl" where
  "resetConnection addr ci =
     (if ci_state ci = cs_Closed then ci
      else ci\<lparr>ci_old := ci_old ci @ (case ci_client ci of None \<Rightarrow> [] | Some c \<Rightarrow> [(c, ci_connecting ci)]),
              ci_client := Some (SetCallTimeout (sint (co_Timeout (ci_options ci) + 1000)) (RpcClient_new addr)),
              ci_connecting := True,
              ci_timers := ci_timers ci @ [(ci_nextTimer ci, addr)],
              ci_connTimerId := ci_nextTimer ci,
              ci_nextTimer := ci_nextTimer ci + 1\<rparr>)"

definition resetRandom :: "nat \<Rightarrow> ('db, 'f) ClientImpl \<Rightarrow> ('db, 'f) ClientImpl option" where
  "resetRandom r ci = do { addr \<leftarrow> randomAddr (ci_addrList ci) r; Some (resetConnection addr ci) }"

definition client_Call :: "client_cb \<Rightarrow> Request \<Rightarrow> ('db, 'f) ClientImpl \<Rightarrow> ('db, 'f) ClientImpl option" where
  "client_Call cb req ci = (case ci_client ci of
       None \<Rightarrow> None
     | Some c \<Rightarrow> Some (ci\<lparr>ci_client := Some (rpc_Call cb req c)\<rparr>))"

definition client_register :: "('db, 'f) ClientImpl \<Rightarrow> ('db, 'f) ClientImpl option" where
  "client_register ci =
     (let req = Request_default;
          req = (if ci_sid ci \<noteq> 0 then req\<lparr>rq_sid := Some (ci_sid ci)\<rparr> else req);
          req = req\<lparr>rq_register := Some (co_Timeout (ci_options ci))\<rparr>
      in client_Call On_register req ci)"

definition client_onConnection :: "nat \<Rightarrow> bool \<Rightarrow> ('db, 'f) ClientImpl \<Rightarrow> ('db, 'f) ClientImpl option" where
  "client_onConnection r up ci =
     (if up then client_register (ci\<lparr>ci_timers := filter (\<lambda>t. fst t \<noteq> ci_connTimerId ci) (ci_timers ci)\<rparr>)
      else resetRandom r (ci\<lparr>ci_wm := CWM_Triger [] (mk_event [] kDisconnected) (ci_wm ci)\<rparr>))"

definition onConnectionTimeout :: "nat \<Rightarrow> string \<Rightarrow> ('db, 'f) ClientImpl \<Rightarrow> ('db, 'f) ClientImpl option" where
  "onConnectionTimeout r addr ci = resetRandom r ci"

text \<open>\<^verbatim>\<open>resetConnection(client_->Addr())\<close> after the session has expired.\<close>

definition resetExpired :: "('db, 'f) ClientImpl \<Rightarrow> ('db, 'f) ClientImpl option" where
  "resetExpired ci = (case ci_client ci of
       None \<Rightarrow> None
     | Some c \<Rightarrow> Some (resetConnection (cl_addr c) (ci\<lparr>ci_sid := 0\<rparr>)))"

text \<open>The end of \<^verbatim>\<open>onPing\<close>, after a ping that failed other than by a timeout.\<close>

definition ping_failed :: "nat \<Rightarrow> Response \<Rightarrow> ('db, 'f) ClientImpl \<Rightarrow> ('db, 'f) ClientImpl option" where
  "ping_failed r rep ci =
     (if err_type (rep_err rep) = rpc_kSessionExpired then resetExpired ci else resetRandom r ci)"

text \<open>\<^verbatim>\<open>ping\<close> through \<^verbatim>\<open>callInLoop\<close>, which calls \<^verbatim>\<open>onPing\<close> at once when the client is not connected.\<close>

definition ping :: "nat \<Rightarrow> ('db, 'f) ClientImpl \<Rightarrow> ('db, 'f) ClientImpl option" where
  "ping r ci =
     (if ci_state ci = cs_Connected then
        client_Call On_ping (Request_default\<lparr>rq_ping := True, rq_sid := Some (ci_sid ci)\<rparr>) ci
      else if ci_state ci = cs_Closed then Some ci
      else ping_failed r Response_default ci)"

definition onPing :: "nat \<Rightarrow> Status \<Rightarrow> Response \<Rightarrow> ('db, 'f) ClientImpl \<Rightarrow> ('db, 'f) ClientImpl option" where
  "onPing r st rep ci =
     (if ci_state ci = cs_Closed then Some ci
      else if ok st \<and> rp_err rep = None then
        (let path = (case rp_path rep of None \<Rightarrow> [] | Some p \<Rightarrow> p) in
         ping r (case rp_watch rep of None \<Rightarrow> ci | Some e \<Rightarrow> ci\<lparr>ci_wm := CWM_Triger path e (ci_wm ci)\<rparr>))
      else if IsTimeout st then ping r ci
      else ping_failed r rep ci)"

definition client_onRegister ::
  "nat \<Rightarrow> Status \<Rightarrow> Response \<Rightarrow> ('db, 'f) ClientImpl \<Rightarrow> (client_effect list \<times> ('db, 'f) ClientImpl) option" where
  "client_onRegister r st rep ci =
     (if ci_state ci = cs_Closed then Some ([], ci)
      else if ok st \<and> rp_err rep = None then do {
        ci \<leftarrow> ping r (ci\<lparr>ci_sid := (case rp_sid rep of None \<Rightarrow> 0 | Some s \<Rightarrow> s), ci_state := cs_Connected,
                       ci_wm := CWM_Triger [] (mk_event [] kConnected) (ci_wm ci)\<rparr>);
        Some ([Start_reregister], ci) }
      else do {
        addr \<leftarrow> randomAddr (ci_addrList ci) r;
        ci \<leftarrow> (if err_type (rep_err rep) = rpc_kNotLeader then
                 (case err_data (rep_err rep) of None \<Rightarrow> None | Some a \<Rightarrow> Some (resetConnection a ci))
               else if err_type (rep_err rep) = rpc_kSessionExpired then resetExpired ci
               else Some (resetConnection addr ci));
        Some ([], ci) })"

subsection \<open>Calls\<close>

text \<open>\<^verbatim>\<open>call\<close> up to its wait, \<^verbatim>\<open>callInLoop\<close>, and what \<^verbatim>\<open>call\<close> returns.\<close>

definition call_begin :: "nat \<Rightarrow> Request \<Rightarrow> ('db, 'f) ClientImpl \<Rightarrow> client_effect list \<times> ('db, 'f) ClientImpl" where
  "call_begin n req ci =
     (if ci_state ci = cs_Closed then ([Call_done n (Disconnect ''closed'') Response_default], ci)
      else ([], ci\<lparr>ci_tasks := ci_tasks ci @ [(n, req)]\<rparr>))"

definition client_callInLoop ::
  "nat \<Rightarrow> Request \<Rightarrow> ('db, 'f) ClientImpl \<Rightarrow> (client_effect list \<times> ('db, 'f) ClientImpl) option" where
  "client_callInLoop n req ci =
     (if ci_state ci \<noteq> cs_Connected then Some ([Call_done n (Disconnect ''not connected'') Response_default], ci)
      else do {
        ci \<leftarrow> client_Call (On_call n) (req\<lparr>rq_sid := Some (ci_sid ci)\<rparr>) ci;
        Some ([], ci) })"

definition call_result :: "Status \<Rightarrow> Response \<Rightarrow> Status" where
  "call_result st rep = (if \<not> ok st then st else FromRpcError (rep_err rep))"

subsection \<open>The interface\<close>

definition Start :: "'db thirdparty \<Rightarrow> (string \<Rightarrow> ldb_status \<times> 'db) \<Rightarrow> nat \<Rightarrow> ('db, 'f) ClientImpl \<Rightarrow> (Status \<times> ('db, 'f) ClientImpl) option" where
  "Start X open_db r ci =
     (case (if co_EnableCache (ci_options ci) then Cache_Init X open_db (ci_cache ci) else (OK, ci_cache ci)) of (st, cache) \<Rightarrow>
        if \<not> ok st then Some (Internal (''open cache failed:'' @ ToString st), ci)
        else do {
          ci \<leftarrow> resetRandom r (ci\<lparr>ci_cache := cache, ci_state := cs_Looking\<rparr>);
          Some (OK, ci) })"

text \<open>\<^verbatim>\<open>Read\<close> up to its call, and from its answer on; the node is what \<^verbatim>\<open>node\<close> points to, if anything.\<close>

definition Read_begin :: "'f ReadOptions \<Rightarrow> string \<Rightarrow> ('db, 'f) ClientImpl \<Rightarrow> Request \<times> ('db, 'f) ClientImpl" where
  "Read_begin options path ci =
     (let req = Request_default\<lparr>rq_stat := Some path\<rparr> in
      if ro_WatchEvent options \<noteq> kNone then
        (req\<lparr>rq_watch := Some \<lparr>wq_path = path, wq_watch = ro_WatchEvent options, wq_recursive = ro_Recursive options\<rparr>\<rparr>,
         ci\<lparr>ci_wm := CWM_Add path \<lparr>cw_Path = path, cw_Mask = ro_WatchEvent options,
               cw_Recursive = ro_Recursive options, cw_Done = ro_Callback options\<rparr> (ci_wm ci)\<rparr>)
      else (req, ci))"

definition Read_end ::
  "'db thirdparty \<Rightarrow> string \<Rightarrow> Status \<Rightarrow> Response \<Rightarrow> ClientNode option \<Rightarrow> ('db, 'f) ClientImpl
     \<Rightarrow> (Status \<times> ClientNode option \<times> ('db, 'f) ClientImpl) option" where
  "Read_end X path st rep node ci =
     (if \<not> ok st then
        (let ci = ci\<lparr>ci_wm := CWM_Remove path (ci_wm ci)\<rparr> in
         if co_EnableCache (ci_options ci) \<and> IsDisconnect st then do {
           (st1, proto) \<leftarrow> Cache_Read X path True Node_default (ci_cache ci);
           Some (if \<not> ok st1 then (st, node, ci)
                 else (Cached path, map_option (\<lambda>n. CopyNodeFromProto n proto) node, ci)) }
         else Some (st, node, ci))
      else (case node_ParseFromString (pb X) (case rp_data rep of None \<Rightarrow> [] | Some d \<Rightarrow> d) of (parsed, proto) \<Rightarrow>
        if \<not> parsed then Some (Internal ''decode stat error'', node, ci)
        else
          (let node = map_option (\<lambda>n. CopyNodeFromProto n proto) node in
           if co_EnableCache (ci_options ci) then do {
             (st1, cache) \<leftarrow> Cache_Write X path proto (ci_cache ci);
             Some (OK, node, ci\<lparr>ci_cache := cache\<rparr>) }
           else Some (OK, node, ci))))"

definition Write_request :: "string \<Rightarrow> string \<Rightarrow> Request" where
  "Write_request path data = Request_default\<lparr>rq_write := Some \<lparr>wr_path = path, wr_data = data\<rparr>\<rparr>"

definition Create_request :: "u32 \<Rightarrow> string \<Rightarrow> string \<Rightarrow> Request" where
  "Create_request flags path data =
     Request_default\<lparr>rq_create := Some \<lparr>cr_path = path, cr_flags = flags, cr_data = data\<rparr>\<rparr>"

definition Delete_request :: "string \<Rightarrow> Request" where
  "Delete_request path = Request_default\<lparr>rq_delete := Some path\<rparr>"

definition unregister_request :: Request where
  "unregister_request = Request_default\<lparr>rq_unregister := True\<rparr>"

definition client_Sid :: "bool \<Rightarrow> ('db, 'f) ClientImpl \<Rightarrow> Status \<times> sid_t option" where
  "client_Sid null ci =
     (if null then (InvalidArgument ''sid null'', None)
      else if ci_state ci \<noteq> cs_Connected then (Disconnect ''connection lost'', None)
      else (OK, Some (ci_sid ci)))"

text \<open>\<^verbatim>\<open>watcherWalker\<close> for every watcher, in the thread that \<^verbatim>\<open>onRegister\<close> starts.\<close>

definition watcherWalker :: "'f ClientWatcher \<Rightarrow> Request" where
  "watcherWalker w = Request_default\<lparr>rq_watch := Some \<lparr>wq_path = cw_Path w, wq_watch = cw_Mask w, wq_recursive = cw_Recursive w\<rparr>\<rparr>"

definition reregisterWatchers :: "('db, 'f) ClientImpl \<Rightarrow> Request list" where
  "reregisterWatchers ci = map watcherWalker (CWM_Walk (ci_wm ci))"

text \<open>\<^verbatim>\<open>~ClientImpl\<close> after \<^verbatim>\<open>unregister\<close>: the client goes into the loop's queue.\<close>

definition ClientImpl_close :: "('db, 'f) ClientImpl \<Rightarrow> ('db, 'f) ClientImpl" where
  "ClientImpl_close ci =
     (if ci_state ci = cs_Closed then ci
      else ci\<lparr>ci_state := cs_Closed, ci_old := ci_old ci @ (case ci_client ci of None \<Rightarrow> [] | Some c \<Rightarrow> [(c, ci_connecting ci)]), ci_client := None\<rparr>)"

text \<open>\<^verbatim>\<open>Client::Open\<close>: \<^verbatim>\<open>cli\<close> null or not, and the client it leaves there.\<close>

definition Client_Open ::
  "'db thirdparty \<Rightarrow> (string \<Rightarrow> ldb_status \<times> 'db) \<Rightarrow> nat \<Rightarrow> ClientOptions \<Rightarrow> string \<Rightarrow> 'f option \<Rightarrow> bool
     \<Rightarrow> (Status \<times> ('db, 'f) ClientImpl option) option" where
  "Client_Open X open_db r options addrList cb null =
     (if null then Some (InvalidArgument ''client'', None)
      else do {
        (st, impl) \<leftarrow> Start X open_db r (ClientImpl_new X options addrList cb);
        Some (if \<not> ok st then (st, None) else (st, Some impl)) })"

subsection \<open>The event loop\<close>

text \<open>What the rpc client does for its callbacks.\<close>

definition client_handle ::
  "nat \<Rightarrow> client_cb rpc_effect \<Rightarrow> ('db, 'f) ClientImpl \<Rightarrow> (client_effect list \<times> ('db, 'f) ClientImpl) option" where
  "client_handle r x ci = (case x of
       Send cb req \<Rightarrow> Some ([], ci)
     | Connection up \<Rightarrow> do { ci \<leftarrow> client_onConnection r up ci; Some ([], ci) }
     | Done cb st rep \<Rightarrow>
         (let rep = (case rep of None \<Rightarrow> Response_default | Some rep \<Rightarrow> rep) in
          case cb of
            On_call n \<Rightarrow> Some ([Call_done n st rep], ci)
          | On_register \<Rightarrow> client_onRegister r st rep ci
          | On_ping \<Rightarrow> do { ci \<leftarrow> onPing r st rep ci; Some ([], ci) }))"

fun client_handle_all ::
  "nat \<Rightarrow> client_cb rpc_effect list \<Rightarrow> ('db, 'f) ClientImpl \<Rightarrow> (client_effect list \<times> ('db, 'f) ClientImpl) option" where
  "client_handle_all r [] ci = Some ([], ci)"
| "client_handle_all r (x # xs) ci = do {
     (es, ci) \<leftarrow> client_handle r x ci;
     (fs, ci) \<leftarrow> client_handle_all r xs ci;
     Some (es @ fs, ci) }"

text \<open>One event: the rpc client, or one that has been replaced, has an input of its own; a
  connection timer fires; a replaced client with nothing queued is destroyed; a call of a
  thread begins or is taken up by the loop; the library is closed. A connection comes up once
  per rpc client. Replacing a client does not stop its connection: until the client is destroyed it may still come up, and then
  calls the same \<^verbatim>\<open>onConnection\<close>.\<close>

datatype client_input =
    C_begin nat Request
  | C_task
  | C_rpc "client_cb rpc_input"
  | C_old nat "client_cb rpc_input"
  | C_destroy
  | C_timer nat
  | C_close

definition rpc_possible :: "bool \<Rightarrow> client_cb rpc_input \<Rightarrow> bool" where
  "rpc_possible connecting i = (case i of
       In_task \<Rightarrow> True | In_message _ \<Rightarrow> True | In_timer _ \<Rightarrow> True
     | In_connection up \<Rightarrow> up = connecting
     | _ \<Rightarrow> False)"

definition client_step ::
  "nat \<Rightarrow> client_input \<Rightarrow> ('db, 'f) ClientImpl \<Rightarrow> (client_effect list \<times> ('db, 'f) ClientImpl) option" where
  "client_step r i ci = (case i of
       C_begin n req \<Rightarrow> Some (call_begin n req ci)
     | C_task \<Rightarrow> (case ci_tasks ci of
           [] \<Rightarrow> Some ([], ci)
         | (n, req) # rest \<Rightarrow> client_callInLoop n req (ci\<lparr>ci_tasks := rest\<rparr>))
     | C_rpc x \<Rightarrow> (case ci_client ci of
           None \<Rightarrow> Some ([], ci)
         | Some c \<Rightarrow>
             if \<not> rpc_possible (ci_connecting ci) x then Some ([], ci)
             else do {
               (es, c) \<leftarrow> rpc_step x c;
               client_handle_all r es (ci\<lparr>ci_client := Some c, ci_connecting := (ci_connecting ci \<and> x \<noteq> In_connection True)\<rparr>) })
     | C_old k x \<Rightarrow>
         if k \<ge> length (ci_old ci) then Some ([], ci)
         else (case ci_old ci ! k of (c, connecting) \<Rightarrow>
           if \<not> rpc_possible connecting x then Some ([], ci)
           else do {
             (es, c) \<leftarrow> rpc_step x c;
             client_handle_all r es (ci\<lparr>ci_old := (ci_old ci)[k := (c, connecting \<and> x \<noteq> In_connection True)]\<rparr>) })
     | C_destroy \<Rightarrow> (case ci_old ci of
           [] \<Rightarrow> Some ([], ci)
         | (c, _) # rest \<Rightarrow>
             if cl_tasks c \<noteq> [] then Some ([], ci)
             else do {
               (es, c) \<leftarrow> RpcClient_destroy c;
               client_handle_all r es (ci\<lparr>ci_old := rest\<rparr>) })
     | C_timer tid \<Rightarrow> (case map_of (ci_timers ci) tid of
           None \<Rightarrow> Some ([], ci)
         | Some addr \<Rightarrow> do {
             ci \<leftarrow> onConnectionTimeout r addr (ci\<lparr>ci_timers := filter (\<lambda>t. fst t \<noteq> tid) (ci_timers ci)\<rparr>);
             Some ([], ci) })
     | C_close \<Rightarrow> Some ([], ClientImpl_close ci))"

fun client_run ::
  "(nat \<times> client_input) list \<Rightarrow> ('db, 'f) ClientImpl \<Rightarrow> (client_effect list \<times> ('db, 'f) ClientImpl) option" where
  "client_run [] ci = Some ([], ci)"
| "client_run ((r, i) # is) ci = do {
     (es, ci) \<leftarrow> client_step r i ci;
     (fs, ci) \<leftarrow> client_run is ci;
     Some (es @ fs, ci) }"

end
