(* ===== verification/Client_Runs.thy ===== *)
theory Client_Runs
  imports Client
begin

text \<open>
  What holds in every run of the client library: it never stops trying (while it is open, something that drives it on
  is outstanding, and exactly one thing unless the connection of a replaced client comes up), and every call of a thread
  gets exactly one answer.
\<close>

subsection \<open>The rpc clients\<close>

definition no_connection :: "'c rpc_effect list \<Rightarrow> bool" where
  "no_connection es \<longleftrightarrow> (\<forall>up. Connection up \<notin> set es)"

definition rpc_good :: "nat \<Rightarrow> 'c RpcClient \<Rightarrow> bool" where
  "rpc_good N c \<longleftrightarrow> (\<exists>past. rpc_hist past c) \<and> unat (cl_xid c) \<le> N \<and> \<not> cl_closing c"

lemma rpc_possible_closing:
  assumes "rpc_possible b i" "rpc_step i c = Some (es, c')"
  shows "cl_closing c' = cl_closing c" "called [i] = []"
  using assms
  by (auto simp: rpc_possible_def rpc_step_def rpc_callInLoop_def rpc_onConnection_def rpc_onRpcMessage_def onCallTimeout_def
      clearCalls_def cancel_timer_def fold_cancel_timer Let_def
      split: rpc_input.splits if_splits option.splits list.splits)

lemma rpc_good_step:
  assumes "rpc_good N c" "N < 2 ^ 64 - 1" "rpc_possible b i"
  obtains es c' where "rpc_step i c = Some (es, c')" "rpc_good (N + 1) c'" "open_calls c = mset (ended es) + open_calls c'"
proof -
  from assms obtain past where h: "rpc_hist past c" "unat (cl_xid c) \<le> N" by (auto simp: rpc_good_def)
  then have "unat (cl_xid c) < 2 ^ 64 - 1" using assms(2) by simp
  from rpc_step_hist [OF h(1) this, of i] obtain es c' where r: "rpc_step i c = Some (es, c')" "rpc_hist (past @ es) c'"
    "unat (cl_xid c') \<le> unat (cl_xid c) + 1" "accounts (called [i]) c es c'" by blast
  have "rpc_good (N + 1) c'" using r(2,3) h(2) rpc_possible_closing(1) [OF assms(3) r(1)] assms(1) by (auto simp: rpc_good_def)
  then show thesis using that r(1,4) rpc_possible_closing(2) [OF assms(3) r(1)] by (simp add: accounts_def)
qed

lemma rpc_good_destroy:
  assumes "rpc_good N c" "cl_tasks c = []"
  obtains es c' where "RpcClient_destroy c = Some (es, c')" "no_connection es" "open_calls c = mset (ended es)"
    "\<And>cb st rep. Done cb st (Some rep) \<notin> set es"
proof -
  from assms obtain past where h: "rpc_hist past c" "\<not> cl_closing c" by (auto simp: rpc_good_def)
  from rpc_Close_hist [OF h(1)] obtain es c' where r: "rpc_Close c = Some (es, c')" "accounts [] c es c'"
    "cl_pendingCalls c' = []" "cl_tasks c' = []" using assms(2) by auto
  moreover have "no_connection es" "Done cb st (Some rep) \<notin> set es" for cb st rep
    using r(1) by (auto simp: rpc_Close_def clearCalls_def no_connection_def Let_def)
  ultimately show thesis using that h(2) by (simp add: RpcClient_destroy_def accounts_def open_calls_def)
qed

lemma rpc_good_mono: "rpc_good N c \<Longrightarrow> N \<le> M \<Longrightarrow> rpc_good M c"
  by (auto simp: rpc_good_def)

lemma rpc_good_new: "rpc_good N (SetCallTimeout t (RpcClient_new addr))"
  by (auto simp: rpc_good_def rpc_hist_def rpc_inv_def matched_def SetCallTimeout_def RpcClient_new_def intro!: exI [of _ "[]"])

lemma rpc_good_Call: "rpc_good N c \<Longrightarrow> rpc_good N (rpc_Call cb req c)"
  using rpc_hist_fields(3) [of _ c] by (auto simp: rpc_good_def rpc_Call_def)

lemma open_calls_simps [simp]:
  "open_calls (rpc_Call cb req c) = add_mset cb (open_calls c)"
  "open_calls (SetCallTimeout t (RpcClient_new addr)) = {#}"
  by (simp_all add: open_calls_def rpc_Call_def SetCallTimeout_def RpcClient_new_def)

lemma rpc_step_connection:
  assumes "rpc_step i c = Some (es, c')"
  shows "(i = In_connection True \<and> es = [Connection True]) \<or> no_connection es"
  using assms
  by (auto simp: rpc_step_def rpc_callInLoop_def rpc_onConnection_def rpc_onRpcMessage_def onCallTimeout_def
      rpc_Close_def RpcClient_destroy_def clearCalls_def no_connection_def Let_def
      split: rpc_input.splits if_splits option.splits list.splits)

lemma rpc_step_not_connection: "rpc_step i c = Some (es, c') \<Longrightarrow> i \<noteq> In_connection True \<Longrightarrow> no_connection es"
  using rpc_step_connection by blast

subsection \<open>What is outstanding\<close>

definition is_driver :: "client_cb \<Rightarrow> bool" where
  "is_driver cb \<longleftrightarrow> (case cb of On_call _ \<Rightarrow> False | _ \<Rightarrow> True)"

lemma is_driver_simps [simp]: "\<not> is_driver (On_call n)" "is_driver On_register" "is_driver On_ping"
  by (simp_all add: is_driver_def)

definition drivers :: "client_cb multiset \<Rightarrow> nat" where
  "drivers M = size (filter_mset is_driver M)"

fun call_of :: "client_cb \<Rightarrow> nat multiset" where
  "call_of (On_call n) = {#n#}"
| "call_of _ = {#}"

definition calls :: "client_cb multiset \<Rightarrow> nat multiset" where
  "calls M = (\<Sum>cb \<in># M. call_of cb)"

lemma drivers_simps [simp]: "drivers {#} = 0" "drivers (M + N) = drivers M + drivers N"
  "drivers (add_mset cb M) = (if is_driver cb then Suc (drivers M) else drivers M)"
  by (simp_all add: drivers_def)

lemma calls_simps [simp]: "calls {#} = {#}" "calls (M + N) = calls M + calls N" "calls (add_mset cb M) = call_of cb + calls M"
  by (simp_all add: calls_def)

definition calls_of :: "('db, 'f) ClientImpl \<Rightarrow> nat multiset" where
  "calls_of ci = mset (map fst (ci_tasks ci))
     + (case ci_client ci of None \<Rightarrow> {#} | Some c \<Rightarrow> calls (open_calls c))
     + (\<Sum>x \<leftarrow> ci_old ci. calls (open_calls (fst x)))"

fun dones :: "client_effect list \<Rightarrow> nat list" where
  "dones [] = []"
| "dones (Call_done n st rep # es) = n # dones es"
| "dones (_ # es) = dones es"

lemma dones_append [simp]: "dones (a @ b) = dones a @ dones b"
  by (induction a rule: dones.induct) auto

text \<open>Everything that will drive the client on, wherever it is outstanding: the timers of connection attempts, and the
  registers and pings.\<close>

definition outstanding :: "('db, 'f) ClientImpl \<Rightarrow> nat" where
  "outstanding ci = length (ci_timers ci)
     + (case ci_client ci of None \<Rightarrow> 0 | Some c \<Rightarrow> drivers (open_calls c))
     + (\<Sum>x \<leftarrow> ci_old ci. drivers (open_calls (fst x)))"

subsection \<open>The invariant\<close>

text \<open>The parts that every state has; \<open>N\<close> bounds the numbers given out.\<close>

definition client_ok :: "nat \<Rightarrow> ('db, 'f) ClientImpl \<Rightarrow> bool" where
  "client_ok N ci \<longleftrightarrow> ci_addrList ci \<noteq> [] \<and> (\<forall>x \<in> set (ci_old ci). rpc_good N (fst x))
     \<and> (case ci_client ci of None \<Rightarrow> ci_state ci = cs_Closed | Some c \<Rightarrow> rpc_good N c \<and> ci_state ci \<noteq> cs_Closed)
     \<and> distinct (map fst (ci_timers ci)) \<and> (\<forall>t \<in> set (ci_timers ci). fst t < ci_nextTimer ci)"

text \<open>A connection that is being made has its timer.\<close>

definition timed :: "('db, 'f) ClientImpl \<Rightarrow> bool" where
  "timed ci \<longleftrightarrow> (ci_client ci \<noteq> None \<and> ci_connecting ci \<longrightarrow> ci_connTimerId ci \<in> fst ` set (ci_timers ci))"

text \<open>From the end of one thing that drives the client on to the start of the next.\<close>

definition goes_on :: "nat \<Rightarrow> ('db, 'f) ClientImpl \<Rightarrow> ('db, 'f) ClientImpl \<Rightarrow> bool" where
  "goes_on N ci ci' \<longleftrightarrow> client_ok N ci' \<and> calls_of ci' = calls_of ci
     \<and> (ci_state ci' = cs_Closed \<longleftrightarrow> ci_state ci = cs_Closed)
     \<and> (ci_state ci \<noteq> cs_Closed \<longrightarrow> outstanding ci' = outstanding ci + 1) \<and> (timed ci \<longrightarrow> timed ci')"

lemma client_okD: "client_ok N ci \<Longrightarrow> ci_state ci \<noteq> cs_Closed \<Longrightarrow> \<exists>c. ci_client ci = Some c"
  by (auto simp: client_ok_def split: option.splits)

lemma resetConnection_on:
  assumes "client_ok N ci"
  shows "goes_on N ci (resetConnection addr ci)" and "timed (resetConnection addr ci)"
proof -
  show "goes_on N ci (resetConnection addr ci)"
  proof (cases "ci_client ci")
    case None
    then show ?thesis using assms by (simp add: goes_on_def resetConnection_def client_ok_def)
  next
    case (Some c)
    then show ?thesis using assms
      by (auto simp: goes_on_def resetConnection_def client_ok_def calls_of_def outstanding_def timed_def rpc_good_new)
  qed
  show "timed (resetConnection addr ci)"
    using assms by (cases "ci_client ci") (auto simp: timed_def resetConnection_def client_ok_def)
qed

lemma resetRandom_on:
  assumes "client_ok N ci"
  obtains ci' where "resetRandom r ci = Some ci'" "goes_on N ci ci'" "timed ci'"
  using assms resetConnection_on [OF assms] that by (auto simp: resetRandom_def randomAddr_def client_ok_def)

lemma client_Call_on:
  assumes "client_ok N ci" "ci_client ci = Some c" "is_driver cb"
  obtains ci' where "client_Call cb req ci = Some ci'" "goes_on N ci ci'"
proof -
  have "call_of cb = {#}" using assms(3) by (cases cb) auto
  then show thesis using that assms rpc_good_Call [of N c cb req]
    by (auto simp: client_Call_def goes_on_def client_ok_def outstanding_def timed_def calls_of_def)
qed

lemma goes_on_same:
  assumes "goes_on N ci1 ci'" "calls_of ci1 = calls_of ci" "ci_state ci1 = cs_Closed \<longleftrightarrow> ci_state ci = cs_Closed"
    "outstanding ci1 = outstanding ci" "timed ci1 = timed ci"
  shows "goes_on N ci ci'"
  using assms by (simp add: goes_on_def)

subsection \<open>The callbacks\<close>

text \<open>What does not touch the connections and timers changes nothing here.\<close>

lemma client_cong:
  assumes "ci_client ci' = ci_client ci" "ci_old ci' = ci_old ci" "ci_timers ci' = ci_timers ci" "ci_nextTimer ci' = ci_nextTimer ci"
    "ci_addrList ci' = ci_addrList ci" "ci_tasks ci' = ci_tasks ci" "ci_state ci' = cs_Closed \<longleftrightarrow> ci_state ci = cs_Closed"
    "ci_connecting ci' = ci_connecting ci" "ci_connTimerId ci' = ci_connTimerId ci"
  shows "client_ok N ci' = client_ok N ci" "calls_of ci' = calls_of ci" "outstanding ci' = outstanding ci" "timed ci' = timed ci"
  using assms by (simp_all add: client_ok_def calls_of_def outstanding_def timed_def split: option.splits)

lemma client_upd [simp]:
  "client_ok N (ci\<lparr>ci_sid := s\<rparr>) = client_ok N ci" "calls_of (ci\<lparr>ci_sid := s\<rparr>) = calls_of ci"
  "outstanding (ci\<lparr>ci_sid := s\<rparr>) = outstanding ci" "timed (ci\<lparr>ci_sid := s\<rparr>) = timed ci"
  "client_ok N (ci\<lparr>ci_wm := w\<rparr>) = client_ok N ci" "calls_of (ci\<lparr>ci_wm := w\<rparr>) = calls_of ci"
  "outstanding (ci\<lparr>ci_wm := w\<rparr>) = outstanding ci" "timed (ci\<lparr>ci_wm := w\<rparr>) = timed ci"
  by (simp_all add: client_ok_def calls_of_def outstanding_def timed_def split: option.splits)

lemma resetExpired_on:
  assumes "client_ok N ci" "ci_state ci \<noteq> cs_Closed"
  obtains ci' where "resetExpired ci = Some ci'" "goes_on N ci ci'"
proof -
  obtain c where c: "ci_client ci = Some c" using client_okD [OF assms] by blast
  have "goes_on N ci (resetConnection (cl_addr c) (ci\<lparr>ci_sid := 0\<rparr>))"
    using assms by (intro goes_on_same [OF resetConnection_on(1)]) simp_all
  then show thesis using that c by (simp add: resetExpired_def)
qed

lemma ping_failed_on:
  assumes "client_ok N ci" "ci_state ci \<noteq> cs_Closed"
  obtains ci' where "ping_failed r rep ci = Some ci'" "goes_on N ci ci'"
  using that resetExpired_on [OF assms] resetRandom_on [OF assms(1), of r]
  unfolding ping_failed_def by metis

lemma ping_on:
  assumes "client_ok N ci" "ci_state ci \<noteq> cs_Closed"
  obtains ci' where "ping r ci = Some ci'" "goes_on N ci ci'"
proof -
  obtain c where c: "ci_client ci = Some c" using client_okD [OF assms] by blast
  show thesis
  proof (cases "ci_state ci = cs_Connected")
    case True
    then show thesis using that client_Call_on [OF assms(1) c] unfolding ping_def by (metis is_driver_simps(3))
  next
    case False
    then show thesis using that ping_failed_on [OF assms, of r Response_default] assms(2) unfolding ping_def by metis
  qed
qed

lemma onPing_on:
  assumes "client_ok N ci" "ci_state ci \<noteq> cs_Closed"
  obtains ci' where "onPing r st rep ci = Some ci'" "goes_on N ci ci'"
proof -
  define ci1 where "ci1 = (case rp_watch rep of None \<Rightarrow> ci
    | Some e \<Rightarrow> ci\<lparr>ci_wm := CWM_Triger (case rp_path rep of None \<Rightarrow> [] | Some p \<Rightarrow> p) e (ci_wm ci)\<rparr>)"
  have f: "client_ok N ci1 = client_ok N ci" "calls_of ci1 = calls_of ci" "outstanding ci1 = outstanding ci" "timed ci1 = timed ci" "ci_state ci1 = ci_state ci"
    by (simp_all add: ci1_def split: option.splits)
  obtain ci2 where 2: "ping r ci1 = Some ci2" "goes_on N ci1 ci2" using ping_on [of N ci1 r] f assms by auto
  obtain ci3 where 3: "ping r ci = Some ci3" "goes_on N ci ci3" using ping_on [OF assms] by blast
  obtain ci4 where 4: "ping_failed r rep ci = Some ci4" "goes_on N ci ci4" using ping_failed_on [OF assms] by blast
  have "goes_on N ci ci2" using goes_on_same [OF 2(2)] f by simp
  then show thesis using that 2 3 4 assms(2) unfolding onPing_def Let_def ci1_def [symmetric] by metis
qed

text \<open>A server that is not the leader says who is.\<close>

definition names_leader :: "Response \<Rightarrow> bool" where
  "names_leader rep \<longleftrightarrow> (case rp_err rep of
     Some e \<Rightarrow> err_type e = rpc_kNotLeader \<longrightarrow> err_data e \<noteq> None | None \<Rightarrow> True)"

text \<open>The errors that the servers put into a response: those made with \<^verbatim>\<open>Status::ToRpcError\<close>,
  which always sets the data, and the expired session of \<^verbatim>\<open>Server::handleRegister\<close>, without data.\<close>

definition from_server :: "Response \<Rightarrow> bool" where
  "from_server rep \<longleftrightarrow> (case rp_err rep of
     Some e \<Rightarrow> (\<exists>st. e = ToRpcError st) \<or> e = \<lparr>err_type = rpc_kSessionExpired, err_data = None\<rparr> | None \<Rightarrow> True)"

lemma from_server_names: "from_server rep \<Longrightarrow> names_leader rep"
  by (auto simp: from_server_def names_leader_def ToRpcError_def split: option.splits)

lemma set_err_from_server: "from_server (set_err st rep)"
  by (auto simp: from_server_def set_err_def)

lemma client_onRegister_on:
  assumes "client_ok N ci" "ci_state ci \<noteq> cs_Closed"
  shows "client_onRegister r st rep ci = Some (es, ci') \<Longrightarrow> goes_on N ci ci' \<and> dones es = []"
    and "names_leader rep \<Longrightarrow> client_onRegister r st rep ci \<noteq> None"
proof -
  let ?ci = "ci\<lparr>ci_sid := (case rp_sid rep of None \<Rightarrow> 0 | Some s \<Rightarrow> s), ci_state := cs_Connected,
    ci_wm := CWM_Triger [] (mk_event [] kConnected) (ci_wm ci)\<rparr>"
  have f: "client_ok N ?ci = client_ok N ci" "calls_of ?ci = calls_of ci" "outstanding ?ci = outstanding ci" "timed ?ci = timed ci"
    by (rule client_cong; use assms(2) in simp)+
  obtain ci2 where 2: "ping r ?ci = Some ci2" "goes_on N ?ci ci2" using ping_on [of N ?ci r] f assms by auto
  then have "goes_on N ci ci2" using goes_on_same [OF 2(2)] f assms(2) by simp
  moreover obtain addr where a: "randomAddr (ci_addrList ci) r = Some addr" using assms(1) by (simp add: randomAddr_def client_ok_def)
  moreover obtain ci1 where 1: "resetExpired ci = Some ci1" "goes_on N ci ci1" using resetExpired_on [OF assms] by blast
  moreover note resetConnection_on(1) [OF assms(1)]
  ultimately show "client_onRegister r st rep ci = Some (es, ci') \<Longrightarrow> goes_on N ci ci' \<and> dones es = []"
    using 2(1) assms(2) by (auto simp: client_onRegister_def split: if_splits option.splits)
  show "names_leader rep \<Longrightarrow> client_onRegister r st rep ci \<noteq> None"
    using 2(1) a 1(1) assms(2) by (auto simp: client_onRegister_def names_leader_def rep_err_def split: option.splits)
qed

lemma client_handle_done:
  assumes "client_ok N ci"
  shows "client_handle r (Done cb st rep) ci = Some (es, ci') \<Longrightarrow> client_ok N ci' \<and> calls_of ci' = calls_of ci
      \<and> (ci_state ci' = cs_Closed \<longleftrightarrow> ci_state ci = cs_Closed) \<and> mset (dones es) = call_of cb
      \<and> (ci_state ci \<noteq> cs_Closed \<longrightarrow> outstanding ci' = outstanding ci + (if is_driver cb then 1 else 0)) \<and> (timed ci \<longrightarrow> timed ci')"
    and "(\<And>x. rep = Some x \<Longrightarrow> names_leader x) \<Longrightarrow> client_handle r (Done cb st rep) ci \<noteq> None"
proof -
  let ?rep = "case rep of None \<Rightarrow> Response_default | Some rep \<Rightarrow> rep"
  have d: "client_onRegister r st ?rep ci = Some ([], ci)" "onPing r st ?rep ci = Some ci" if "ci_state ci = cs_Closed"
    using that by (simp_all add: client_onRegister_def onPing_def)
  have p: "\<exists>ci'. onPing r st ?rep ci = Some ci' \<and> goes_on N ci ci'" if "ci_state ci \<noteq> cs_Closed"
    using onPing_on [OF assms that] by metis
  note g = client_onRegister_on [OF assms, where r = r and st = st and rep = ?rep]
  show "client_ok N ci' \<and> calls_of ci' = calls_of ci
      \<and> (ci_state ci' = cs_Closed \<longleftrightarrow> ci_state ci = cs_Closed) \<and> mset (dones es) = call_of cb
      \<and> (ci_state ci \<noteq> cs_Closed \<longrightarrow> outstanding ci' = outstanding ci + (if is_driver cb then 1 else 0)) \<and> (timed ci \<longrightarrow> timed ci')"
    if run: "client_handle r (Done cb st rep) ci = Some (es, ci')"
  proof (cases cb)
    case (On_call n)
    then show ?thesis using run assms by (auto simp: client_handle_def Let_def)
  next
    case On_register
    then have o: "client_onRegister r st ?rep ci = Some (es, ci')" using run by (simp add: client_handle_def Let_def)
    show ?thesis
    proof (cases "ci_state ci = cs_Closed")
      case False
      then show ?thesis using g(1) [OF False o] by (simp add: On_register goes_on_def)
    qed (use o d(1) assms in \<open>simp add: On_register\<close>)
  next
    case On_ping
    then have o: "onPing r st ?rep ci = Some ci'" "es = []" using run by (auto simp: client_handle_def Let_def elim!: bind_eq_SomeE)
    show ?thesis
    proof (cases "ci_state ci = cs_Closed")
      case False
      then show ?thesis using p [OF False] o by (simp add: On_ping goes_on_def)
    qed (use o d(2) assms in \<open>simp add: On_ping\<close>)
  qed
  have n: "names_leader ?rep" if "\<And>x. rep = Some x \<Longrightarrow> names_leader x"
    using that by (auto simp: names_leader_def Response_default_def split: option.splits)
  show "client_handle r (Done cb st rep) ci \<noteq> None" if nl: "\<And>x. rep = Some x \<Longrightarrow> names_leader x"
  proof (cases "ci_state ci = cs_Closed")
    case True
    then show ?thesis using d by (cases cb) (simp_all add: client_handle_def Let_def)
  next
    case False
    obtain es1 ci1 where "client_onRegister r st ?rep ci = Some (es1, ci1)" using g(2) [OF False n [OF nl]] by fastforce
    moreover obtain ci2 where "onPing r st ?rep ci = Some ci2" using p [OF False] by blast
    ultimately show ?thesis by (cases cb) (simp_all add: client_handle_def Let_def)
  qed
qed

subsection \<open>The loop\<close>

lemma rpc_step_reps:
  assumes "rpc_step i c = Some (es, c')" "Done cb st (Some rep) \<in> set es"
  shows "i = In_message rep"
  using assms
  by (auto simp: rpc_step_def rpc_callInLoop_def rpc_onConnection_def rpc_onRpcMessage_def onCallTimeout_def
      rpc_Close_def RpcClient_destroy_def clearCalls_def Let_def
      split: rpc_input.splits if_splits option.splits list.splits)

text \<open>What the callbacks of the calls that ended keep.\<close>

definition handled :: "nat \<Rightarrow> client_cb rpc_effect list \<Rightarrow> ('db, 'f) ClientImpl \<Rightarrow> client_effect list \<Rightarrow> ('db, 'f) ClientImpl \<Rightarrow> bool" where
  "handled N es ci fs ci' \<longleftrightarrow> client_ok N ci' \<and> mset (dones fs) + calls_of ci' = calls (mset (ended es)) + calls_of ci
     \<and> (ci_state ci' = cs_Closed \<longleftrightarrow> ci_state ci = cs_Closed)
     \<and> (ci_state ci \<noteq> cs_Closed \<longrightarrow> outstanding ci' = outstanding ci + drivers (mset (ended es))) \<and> (timed ci \<longrightarrow> timed ci')"

lemma handle_all:
  assumes "no_connection es" "client_ok N ci"
  shows "(client_handle_all r es ci = Some (fs, ci') \<longrightarrow> handled N es ci fs ci')
    \<and> ((\<forall>cb st rep. Done cb st (Some rep) \<in> set es \<longrightarrow> names_leader rep) \<longrightarrow> client_handle_all r es ci \<noteq> None)"
  using assms
proof (induction es arbitrary: ci fs)
  case (Cons x es)
  have nc: "no_connection es" using Cons.prems(1) by (simp add: no_connection_def)
  show ?case
  proof (cases x)
    case (Done cb st rep)
    note h = client_handle_done [OF Cons.prems(2), where r = r and cb = cb and st = st and rep = rep]
    have 1: "handled N (x # es) ci fs ci'" if run: "client_handle_all r (x # es) ci = Some (fs, ci')"
    proof -
      obtain gs ci1 hs where r: "client_handle r x ci = Some (gs, ci1)" "client_handle_all r es ci1 = Some (hs, ci')" "fs = gs @ hs"
        using run by (auto elim!: bind_eq_SomeE)
      note h1 = h(1) [OF r(1) [unfolded Done]]
      then have "handled N es ci1 hs ci'" using Cons.IH [OF nc, of ci1 hs] r(2) by blast
      then show ?thesis using h1 r(3) by (auto simp: handled_def Done)
    qed
    have 2: "client_handle_all r (x # es) ci \<noteq> None" if n: "\<forall>cb st rep. Done cb st (Some rep) \<in> set (x # es) \<longrightarrow> names_leader rep"
    proof -
      obtain gs ci1 where r: "client_handle r x ci = Some (gs, ci1)" using h(2) n Done by fastforce
      have "client_ok N ci1" using h(1) r Done by blast
      then obtain hs ci2 where "client_handle_all r es ci1 = Some (hs, ci2)" using Cons.IH [OF nc, of ci1] n by fastforce
      then show ?thesis using r by simp
    qed
    show ?thesis using 1 2 by blast
  next
    case (Send c req)
    have "client_handle_all r (x # es) ci = client_handle_all r es ci" by (cases "client_handle_all r es ci") (auto simp: client_handle_def Send)
    moreover have "handled N (x # es) ci fs ci' = handled N es ci fs ci'" by (simp add: handled_def Send)
    ultimately show ?thesis using Cons.IH [OF nc Cons.prems(2), of fs] by simp
  next
    case (Connection up)
    then show ?thesis using Cons.prems(1) by (auto simp: no_connection_def)
  qed
qed (auto simp: handled_def)

lemma sum_list_update_ac:
  fixes f :: "'a \<Rightarrow> 'b::comm_monoid_add"
  shows "k < length xs \<Longrightarrow> sum_list (map f (xs[k := y])) + f (xs ! k) = sum_list (map f xs) + f y"
proof (induction xs arbitrary: k)
  case (Cons x xs)
  then show ?case by (cases k) (auto simp: add.assoc add.left_commute add.commute)
qed simp

definition good_input :: "client_input \<Rightarrow> bool" where
  "good_input i \<longleftrightarrow> (case i of
       C_rpc (In_message rep) \<Rightarrow> names_leader rep
     | C_old k (In_message rep) \<Rightarrow> names_leader rep
     | _ \<Rightarrow> True)"

fun begun :: "(nat \<times> client_input) list \<Rightarrow> nat list" where
  "begun [] = []"
| "begun ((r, C_begin n req) # is) = n # begun is"
| "begun (_ # is) = begun is"

text \<open>The connection of a client that has been replaced comes up.\<close>

definition late :: "client_input \<Rightarrow> bool" where
  "late i \<longleftrightarrow> (case i of C_old k x \<Rightarrow> x = In_connection True | _ \<Rightarrow> False)"

text \<open>What one event keeps; \<open>lt\<close> says that it is late, \<open>cl\<close> that it closes the library.\<close>

definition steps_on :: "nat \<Rightarrow> bool \<Rightarrow> bool \<Rightarrow> nat list \<Rightarrow> ('db, 'f) ClientImpl \<Rightarrow> client_effect list \<Rightarrow> ('db, 'f) ClientImpl \<Rightarrow> bool" where
  "steps_on N lt cl new ci fs ci' \<longleftrightarrow> client_ok N ci' \<and> mset new + calls_of ci = mset (dones fs) + calls_of ci'
     \<and> (ci_state ci' = cs_Closed \<longleftrightarrow> ci_state ci = cs_Closed \<or> cl)
     \<and> (ci_state ci' \<noteq> cs_Closed \<longrightarrow> outstanding ci \<le> outstanding ci' \<and> (\<not> lt \<and> timed ci \<longrightarrow> timed ci' \<and> outstanding ci' = outstanding ci))"

text \<open>A step always returns when its input is good and not late after the end.\<close>

definition step_ok :: "nat \<Rightarrow> nat \<Rightarrow> client_input \<Rightarrow> ('db, 'f) ClientImpl \<Rightarrow> bool" where
  "step_ok N r i ci \<longleftrightarrow> (\<forall>fs ci'. client_step r i ci = Some (fs, ci') \<longrightarrow> steps_on N (late i) (i = C_close) (begun [(r, i)]) ci fs ci')
     \<and> (good_input i \<and> (late i \<longrightarrow> ci_state ci \<noteq> cs_Closed) \<longrightarrow> client_step r i ci \<noteq> None)"

lemma client_ok_mono: "client_ok N ci \<Longrightarrow> N \<le> M \<Longrightarrow> client_ok M ci"
  by (auto simp: client_ok_def intro: rpc_good_mono split: option.splits)

lemma steps_on_mono: "steps_on N lt cl new ci fs ci' \<Longrightarrow> N \<le> M \<Longrightarrow> steps_on M lt cl new ci fs ci'"
  using client_ok_mono by (auto simp: steps_on_def)

lemma step_ok_mono: "step_ok N r i ci \<Longrightarrow> N \<le> M \<Longrightarrow> step_ok M r i ci"
  using steps_on_mono unfolding step_ok_def by blast

lemma step_ok_noop:
  assumes "client_step r i ci = Some ([], ci)" "client_ok N ci" "i \<noteq> C_close" "begun [(r, i)] = []"
  shows "step_ok N r i ci"
  using assms by (simp add: step_ok_def steps_on_def)

text \<open>The calls of an rpc client end.\<close>

lemma step_quiet:
  assumes run: "client_step r i ci = client_handle_all r es ci1" and nc: "no_connection es" and ok: "client_ok N ci1"
    and same: "ci_state ci1 = ci_state ci" "calls_of ci = calls (mset (ended es)) + calls_of ci1"
      "outstanding ci = outstanding ci1 + drivers (mset (ended es))" "timed ci \<longrightarrow> timed ci1"
    and i: "i \<noteq> C_close" "begun [(r, i)] = []"
    and reps: "good_input i \<Longrightarrow> \<forall>cb st rep. Done cb st (Some rep) \<in> set es \<longrightarrow> names_leader rep"
  shows "step_ok N r i ci"
proof -
  have "steps_on N (late i) False [] ci fs ci'" if "client_handle_all r es ci1 = Some (fs, ci')" for fs ci'
  proof -
    have "handled N es ci1 fs ci'" using handle_all [OF nc ok, of r fs ci'] that by blast
    then show ?thesis using same by (auto simp: handled_def steps_on_def)
  qed
  moreover have "client_handle_all r es ci1 \<noteq> None" if "good_input i" using handle_all [OF nc ok, of r] reps [OF that] by blast
  ultimately show ?thesis using i by (simp add: step_ok_def run)
qed

lemma filter_one:
  "distinct (map fst ts) \<Longrightarrow> length (filter (\<lambda>t. fst t \<noteq> i) ts) = length ts - (if i \<in> fst ` set ts then 1 else 0)"
proof (induction ts)
  case (Cons t ts)
  have "fst u \<noteq> fst t" if "u \<in> set ts" for u using Cons.prems that by (metis distinct.simps(2) imageI list.set_map list.simps(9))
  then have "filter (\<lambda>u. fst u \<noteq> fst t) ts = ts" by (simp add: filter_id_conv)
  moreover have "i \<in> fst ` set ts \<Longrightarrow> length ts > 0" by auto
  ultimately show ?case using Cons by auto
qed simp

text \<open>A connection comes up: the timer is cancelled and a register is sent on the current client.\<close>

lemma connection_up:
  assumes ok: "client_ok N ci" and c: "ci_client ci = Some c"
  obtains ci' where "client_handle_all r [Connection True] ci = Some ([], ci')" "client_ok N ci'" "calls_of ci' = calls_of ci"
    "ci_state ci' \<noteq> cs_Closed" "ci_connecting ci' = ci_connecting ci" "outstanding ci \<le> outstanding ci'"
    "ci_connTimerId ci \<in> fst ` set (ci_timers ci) \<Longrightarrow> outstanding ci' = outstanding ci"
proof -
  let ?ts = "filter (\<lambda>t. fst t \<noteq> ci_connTimerId ci) (ci_timers ci)"
  let ?ci = "ci\<lparr>ci_timers := ?ts\<rparr>"
  have st: "ci_state ci \<noteq> cs_Closed" and d: "distinct (map fst (ci_timers ci))" using ok c by (auto simp: client_ok_def)
  have "distinct (map fst ?ts)" using d by (induction "ci_timers ci" arbitrary: ci) (auto simp: distinct_map_filter)
  then have ok1: "client_ok N ?ci" using ok c by (auto simp: client_ok_def)
  obtain ci' where r: "client_register ?ci = Some ci'" "goes_on N ?ci ci'" and con: "ci_connecting ci' = ci_connecting ci"
  proof -
    obtain ci' where *: "client_register ?ci = Some ci'" "goes_on N ?ci ci'"
      unfolding client_register_def Let_def by (rule client_Call_on [OF ok1 _ is_driver_simps(2), of c]) (simp add: c)
    then have "ci_connecting ci' = ci_connecting ci" using c by (auto simp: client_register_def client_Call_def Let_def)
    then show thesis using that * by blast
  qed
  have l: "length ?ts = length (ci_timers ci) - (if ci_connTimerId ci \<in> fst ` set (ci_timers ci) then 1 else 0)" by (rule filter_one [OF d])
  have "ci_connTimerId ci \<in> fst ` set (ci_timers ci) \<Longrightarrow> length (ci_timers ci) > 0" by auto
  moreover have "outstanding ci' = outstanding ?ci + 1" "calls_of ci' = calls_of ci" "client_ok N ci'" "ci_state ci' \<noteq> cs_Closed"
    using r(2) st by (auto simp: goes_on_def calls_of_def)
  moreover have "client_handle_all r [Connection True] ci = Some ([], ci')" using r(1) by (simp add: client_handle_def client_onConnection_def)
  ultimately show thesis using that [of ci'] con l by (auto simp: outstanding_def)
qed

lemma step_current:
  assumes ok: "client_ok N ci" and N: "N < 2 ^ 64 - 1" and c: "ci_client ci = Some c" and p: "rpc_possible (ci_connecting ci) x"
  shows "step_ok (N + 1) r (C_rpc x) ci"
proof -
  have gc: "rpc_good N c" and st: "ci_state ci \<noteq> cs_Closed" using ok c by (auto simp: client_ok_def)
  obtain es c' where r: "rpc_step x c = Some (es, c')" "rpc_good (N + 1) c'" and a: "open_calls c = mset (ended es) + open_calls c'"
    using rpc_good_step [OF gc N p] by blast
  define ci1 where "ci1 = ci\<lparr>ci_client := Some c', ci_connecting := (ci_connecting ci \<and> x \<noteq> In_connection True)\<rparr>"
  have run: "client_step r (C_rpc x) ci = client_handle_all r es ci1"
    using c p r(1) by (simp add: client_step_def ci1_def)
  have ok1: "client_ok (N + 1) ci1" using client_ok_mono [OF ok, of "N + 1"] r(2) st by (simp add: client_ok_def ci1_def)
  have cs: "calls_of ci = calls (mset (ended es)) + calls_of ci1" "outstanding ci = outstanding ci1 + drivers (mset (ended es))"
    using a c by (simp_all add: calls_of_def outstanding_def ci1_def)
  show ?thesis
  proof (cases "x = In_connection True")
    case True
    then have con: "ci_connecting ci" using p by (simp add: rpc_possible_def)
    have es: "es = [Connection True]" using r(1) True by (auto simp: rpc_step_def rpc_onConnection_def)
    obtain ci' where u: "client_handle_all r [Connection True] ci1 = Some ([], ci')" "client_ok (N + 1) ci'" "calls_of ci' = calls_of ci1"
      "ci_state ci' \<noteq> cs_Closed" "ci_connecting ci' = ci_connecting ci1" "outstanding ci1 \<le> outstanding ci'"
      "ci_connTimerId ci1 \<in> fst ` set (ci_timers ci1) \<Longrightarrow> outstanding ci' = outstanding ci1"
      by (rule connection_up [OF ok1, of c' r]) (simp_all add: ci1_def)
    have "timed ci \<longrightarrow> ci_connTimerId ci1 \<in> fst ` set (ci_timers ci1)" using con c by (simp add: timed_def ci1_def)
    moreover have "timed ci'" using u(5) by (simp add: timed_def ci1_def True)
    ultimately show ?thesis using u cs st by (auto simp: step_ok_def steps_on_def run es late_def)
  next
    case False
    then have "no_connection es" using rpc_step_not_connection [OF r(1)] by simp
    then show ?thesis using ok1 cs rpc_step_reps [OF r(1)] c False
      by (intro step_quiet [OF run]) (auto simp: ci1_def timed_def good_input_def)
  qed
qed

lemma step_old:
  assumes ok: "client_ok N ci" and N: "N < 2 ^ 64 - 1" and k: "k < length (ci_old ci)" and o: "ci_old ci ! k = (c, b)" and p: "rpc_possible b x"
  shows "step_ok (N + 1) r (C_old k x) ci"
proof -
  have "(c, b) \<in> set (ci_old ci)" using k o nth_mem by metis
  then have "rpc_good N c" using ok by (force simp: client_ok_def)
  then obtain es c' where r: "rpc_step x c = Some (es, c')" "rpc_good (N + 1) c'" and a: "open_calls c = mset (ended es) + open_calls c'"
    using rpc_good_step [OF _ N p] by blast
  define ci1 where "ci1 = ci\<lparr>ci_old := (ci_old ci)[k := (c', b \<and> x \<noteq> In_connection True)]\<rparr>"
  have run: "client_step r (C_old k x) ci = client_handle_all r es ci1" using k o p r(1) by (simp add: client_step_def ci1_def)
  have ok1: "client_ok (N + 1) ci1"
    using client_ok_mono [OF ok, of "N + 1"] r(2) by (auto simp: client_ok_def ci1_def dest!: subsetD [OF set_update_subset_insert] split: option.splits)
  have cs: "calls_of ci = calls (mset (ended es)) + calls_of ci1" "outstanding ci = outstanding ci1 + drivers (mset (ended es))"
    using sum_list_update_ac [OF k, of "\<lambda>x. calls (open_calls (fst x))" "(c', b \<and> x \<noteq> In_connection True)"]
      sum_list_update_ac [OF k, of "\<lambda>x. drivers (open_calls (fst x))" "(c', b \<and> x \<noteq> In_connection True)"] a o
    by (simp_all add: calls_of_def outstanding_def ci1_def ac_simps)
  show ?thesis
  proof (cases "x = In_connection True")
    case True
    then have es: "es = [Connection True]" using r(1) by (auto simp: rpc_step_def rpc_onConnection_def)
    show ?thesis
    proof (cases "ci_client ci")
      case None
      then have st: "ci_state ci = cs_Closed" using ok by (simp add: client_ok_def)
      have "client_step r (C_old k x) ci = None"
        using None by (simp add: run es client_handle_def client_onConnection_def client_register_def client_Call_def Let_def ci1_def)
      then show ?thesis using st True by (simp add: step_ok_def late_def)
    next
      case (Some d)
      then have st: "ci_state ci \<noteq> cs_Closed" using ok by (auto simp: client_ok_def)
      obtain ci' where u: "client_handle_all r [Connection True] ci1 = Some ([], ci')" "client_ok (N + 1) ci'" "calls_of ci' = calls_of ci1"
        "ci_state ci' \<noteq> cs_Closed" "outstanding ci1 \<le> outstanding ci'"
        by (rule connection_up [OF ok1, of d r]) (simp_all add: ci1_def Some)
      have "steps_on (N + 1) True False [] ci [] ci'" using u(2-5) cs st es by (simp add: steps_on_def)
      moreover have "client_step r (C_old k x) ci = Some ([], ci')" "late (C_old k x)" using run es u(1) True by (simp_all add: late_def)
      ultimately show ?thesis by (simp add: step_ok_def)
    qed
  next
    case False
    then have "no_connection es" using rpc_step_not_connection [OF r(1)] by simp
    then show ?thesis using ok1 cs rpc_step_reps [OF r(1)]
      by (intro step_quiet [OF run]) (auto simp: ci1_def timed_def good_input_def)
  qed
qed

lemma step_destroy:
  assumes ok: "client_ok N ci" and o: "ci_old ci = (c, b) # rest" and t: "cl_tasks c = []"
  shows "step_ok N r C_destroy ci"
proof -
  have "rpc_good N c" using ok o by (simp add: client_ok_def)
  then obtain es c' where r: "RpcClient_destroy c = Some (es, c')" and nc: "no_connection es" and a: "open_calls c = mset (ended es)"
    and n: "\<And>cb st rep. Done cb st (Some rep) \<notin> set es"
    using rpc_good_destroy [OF _ t] by metis
  have "client_step r C_destroy ci = client_handle_all r es (ci\<lparr>ci_old := rest\<rparr>)" using o t r by (simp add: client_step_def)
  then show ?thesis using nc
    by (rule step_quiet) (use ok o a n in \<open>auto simp: client_ok_def calls_of_def outstanding_def timed_def ac_simps split: option.splits\<close>)
qed

lemma step_timer:
  assumes ok: "client_ok N ci" and t: "map_of (ci_timers ci) tid = Some addr"
  shows "step_ok N r (C_timer tid) ci"
proof -
  let ?ts = "filter (\<lambda>t. fst t \<noteq> tid) (ci_timers ci)"
  let ?ci = "ci\<lparr>ci_timers := ?ts\<rparr>"
  have d: "distinct (map fst (ci_timers ci))" using ok by (simp add: client_ok_def)
  have m: "tid \<in> fst ` set (ci_timers ci)" using map_of_SomeD [OF t] by force
  then have l: "length ?ts + 1 = length (ci_timers ci)" using filter_one [OF d, of tid] by (cases "ci_timers ci") auto
  have "client_ok N ?ci" using ok by (auto simp: client_ok_def distinct_map_filter split: option.splits)
  then obtain ci' where r: "resetRandom r ?ci = Some ci'" "goes_on N ?ci ci'" "timed ci'" by (metis resetRandom_on)
  have "steps_on N False False [] ci [] ci'" using r(2,3) l by (auto simp: steps_on_def goes_on_def calls_of_def outstanding_def)
  then show ?thesis using t r(1) by (simp add: step_ok_def client_step_def onConnectionTimeout_def late_def)
qed

lemma step_task:
  assumes ok: "client_ok N ci"
  shows "step_ok N r C_task ci"
proof (cases "ci_tasks ci")
  case Nil
  then show ?thesis using ok by (intro step_ok_noop) (simp_all add: client_step_def)
next
  case (Cons t rest)
  obtain n req where t: "t = (n, req)" by (cases t)
  show ?thesis
  proof (cases "ci_state ci = cs_Connected")
    case False
    then show ?thesis using ok Cons t
      by (auto simp: step_ok_def client_step_def client_callInLoop_def steps_on_def client_ok_def outstanding_def timed_def calls_of_def late_def split: option.splits)
  next
    case True
    with ok obtain c where c: "ci_client ci = Some c" by (auto simp: client_ok_def split: option.splits)
    with True show ?thesis using ok Cons t rpc_good_Call [of N c "On_call n" "req\<lparr>rq_sid := Some (ci_sid ci)\<rparr>"]
      by (auto simp: step_ok_def client_step_def client_callInLoop_def client_Call_def steps_on_def client_ok_def outstanding_def timed_def calls_of_def late_def)
  qed
qed

lemma step_close:
  assumes "client_ok N ci"
  shows "step_ok N r C_close ci"
proof (cases "ci_client ci")
  case None
  then have "ci_state ci = cs_Closed" using assms by (simp add: client_ok_def)
  then show ?thesis using assms by (simp add: step_ok_def client_step_def steps_on_def ClientImpl_close_def)
next
  case (Some c)
  then have e: "ClientImpl_close ci = ci\<lparr>ci_state := cs_Closed, ci_old := ci_old ci @ [(c, ci_connecting ci)], ci_client := None\<rparr>"
    using assms by (simp add: client_ok_def ClientImpl_close_def)
  show ?thesis using assms Some by (auto simp: step_ok_def client_step_def e steps_on_def client_ok_def calls_of_def)
qed

lemma client_step_on:
  assumes ok: "client_ok N ci" and N: "N < 2 ^ 64 - 1"
  shows "step_ok (N + 1) r i ci"
proof -
  have ok1: "client_ok (N + 1) ci" using client_ok_mono [OF ok] by simp
  show ?thesis
  proof (cases i)
    case (C_begin n req)
    have "client_ok (N + 1) (ci\<lparr>ci_tasks := ts\<rparr>)" for ts using ok1 by (simp add: client_ok_def split: option.splits)
    then show ?thesis using ok1
      by (auto simp: C_begin step_ok_def client_step_def call_begin_def steps_on_def calls_of_def outstanding_def timed_def late_def)
  next
    case (C_rpc x)
    show ?thesis
    proof (cases "\<exists>c. ci_client ci = Some c \<and> rpc_possible (ci_connecting ci) x")
      case True
      then show ?thesis using step_current [OF ok N] by (auto simp: C_rpc)
    next
      case False
      then show ?thesis using ok1 by (intro step_ok_noop) (auto simp: C_rpc client_step_def split: option.splits)
    qed
  next
    case (C_old k x)
    show ?thesis
    proof (cases "k < length (ci_old ci) \<and> rpc_possible (snd (ci_old ci ! k)) x")
      case True
      then show ?thesis using step_old [OF ok N, of k "fst (ci_old ci ! k)" "snd (ci_old ci ! k)"] by (simp add: C_old)
    next
      case False
      then show ?thesis using ok1 by (intro step_ok_noop) (auto simp: C_old client_step_def split: prod.splits)
    qed
  next
    case C_destroy
    show ?thesis
    proof (cases "\<exists>c b rest. ci_old ci = (c, b) # rest \<and> cl_tasks c = []")
      case True
      then show ?thesis using step_destroy [OF ok1] by (auto simp: C_destroy)
    next
      case False
      then show ?thesis using ok1 by (intro step_ok_noop) (auto simp: C_destroy client_step_def split: list.splits prod.splits)
    qed
  next
    case (C_timer tid)
    show ?thesis
    proof (cases "map_of (ci_timers ci) tid")
      case None
      then show ?thesis using ok1 by (intro step_ok_noop) (simp_all add: C_timer client_step_def)
    next
      case (Some addr)
      then show ?thesis using step_timer [OF ok1] by (simp add: C_timer)
    qed
  qed (use step_task [OF ok1] step_close [OF ok1] in simp_all)
qed

subsection \<open>Runs\<close>

lemma begun_Cons: "begun ((r, i) # is) = begun [(r, i)] @ begun is"
  by (cases i) simp_all

text \<open>No connection comes up after the library has been closed.\<close>

fun late_ok :: "(nat \<times> client_input) list \<Rightarrow> bool" where
  "late_ok [] = True"
| "late_ok ((r, i) # is) = (late_ok is \<and> (i = C_close \<longrightarrow> (\<forall>x \<in> set is. \<not> late (snd x))))"

lemma steps_on_trans:
  assumes "steps_on M lt cl new ci fs ci1" "steps_on N lt' cl' new' ci1 gs ci2"
  shows "steps_on N (lt \<or> lt') (cl \<or> cl') (new @ new') ci (fs @ gs) ci2"
proof -
  have "mset (new @ new') + calls_of ci = mset (dones (fs @ gs)) + calls_of ci2"
    using assms unfolding steps_on_def by simp (metis union_assoc union_commute)
  then show ?thesis using assms unfolding steps_on_def by auto
qed

lemma client_run_steps:
  assumes "client_ok N ci" "N + length is < 2 ^ 64" "client_run is ci = Some (fs, ci')"
  shows "steps_on (N + length is) (\<exists>x \<in> set is. late (snd x)) (C_close \<in> snd ` set is) (begun is) ci fs ci'"
  using assms
proof (induction "is" arbitrary: N ci fs)
  case Nil
  then show ?case by (simp add: steps_on_def)
next
  case (Cons x "is")
  obtain r i where x: "x = (r, i)" by (cases x)
  from Cons.prems(3) x obtain es ci1 gs where
    r: "client_step r i ci = Some (es, ci1)" "client_run is ci1 = Some (gs, ci')" "fs = es @ gs" by (auto elim!: bind_eq_SomeE)
  have 1: "steps_on (N + 1) (late i) (i = C_close) (begun [(r, i)]) ci es ci1"
    using client_step_on [OF Cons.prems(1), of r i] Cons.prems(2) r(1) by (simp add: step_ok_def)
  then have "client_ok (N + 1) ci1" by (simp add: steps_on_def)
  from steps_on_trans [OF 1 Cons.IH [OF this _ r(2)]] Cons.prems(2)
  have "steps_on (N + length (x # is)) (late i \<or> (\<exists>x \<in> set is. late (snd x))) (i = C_close \<or> C_close \<in> snd ` set is)
      (begun [(r, i)] @ begun is) ci fs ci'" using r(3) by simp
  moreover have "(C_close \<in> snd ` set (x # is)) = (i = C_close \<or> C_close \<in> snd ` set is)" using x by auto
  ultimately show ?case using begun_Cons [of r i "is"] x by simp
qed

lemma client_run_total:
  assumes "client_ok N ci" "N + length is < 2 ^ 64" "\<forall>x \<in> set is. good_input (snd x)" "late_ok is"
    "ci_state ci = cs_Closed \<Longrightarrow> \<forall>x \<in> set is. \<not> late (snd x)"
  shows "client_run is ci \<noteq> None"
  using assms
proof (induction "is" arbitrary: N ci)
  case (Cons x "is")
  obtain r i where x: "x = (r, i)" by (cases x)
  have ok: "step_ok (N + 1) r i ci" using client_step_on [OF Cons.prems(1)] Cons.prems(2) by simp
  then have "client_step r i ci \<noteq> None" using Cons.prems(3,5) x unfolding step_ok_def by auto
  then obtain fs ci1 where 1: "client_step r i ci = Some (fs, ci1)" by auto
  then have 2: "steps_on (N + 1) (late i) (i = C_close) (begun [(r, i)]) ci fs ci1" using ok by (simp add: step_ok_def)
  have "client_run is ci1 \<noteq> None"
  proof (rule Cons.IH [of "N + 1"])
    show "\<forall>x \<in> set is. \<not> late (snd x)" if "ci_state ci1 = cs_Closed"
      using that 2 Cons.prems(4,5) x unfolding steps_on_def by auto
  qed (use 2 Cons.prems x in \<open>auto simp: steps_on_def\<close>)
  then show ?case using 1 x by auto
qed simp

lemma Start_ok:
  assumes "SplitString (toft X) addrs '','' \<noteq> []" "co_EnableCache options \<longrightarrow> ldb_ok (fst (open_db (co_CacheDir options)))"
  obtains ci where "Start X open_db r (ClientImpl_new X options addrs cb) = Some (OK, ci)"
    "client_ok 0 ci" "timed ci" "outstanding ci = 1" "calls_of ci = {#}" "ci_state ci \<noteq> cs_Closed"
proof -
  let ?ci = "ClientImpl_new X options addrs cb"
  define cache where "cache = (if co_EnableCache options then (ci_cache ?ci)\<lparr>ca_db := Some (snd (open_db (co_CacheDir options)))\<rparr> else ci_cache ?ci)"
  have c: "(if co_EnableCache (ci_options ?ci) then Cache_Init X open_db (ci_cache ?ci) else (OK, ci_cache ?ci)) = (OK, cache)"
    using assms(2) unfolding cache_def by (cases "open_db (co_CacheDir options)") (auto simp: ClientImpl_new_def Cache_Init_def Cache_new_def)
  define ci where "ci = resetConnection (SplitString (toft X) addrs '','' ! (r mod length (SplitString (toft X) addrs '','')))
    (?ci\<lparr>ci_cache := cache, ci_state := cs_Looking\<rparr>)"
  have "Start X open_db r ?ci = Some (OK, ci)"
    using assms(1) by (simp add: Start_def c resetRandom_def randomAddr_def ci_def) (simp add: ClientImpl_new_def)
  moreover have "client_ok 0 ci" "timed ci" "outstanding ci = 1" "calls_of ci = {#}" "ci_state ci \<noteq> cs_Closed"
    using assms(1) by (simp_all add: ci_def resetConnection_def ClientImpl_new_def client_ok_def timed_def outstanding_def calls_of_def rpc_good_new)
  ultimately show thesis by (rule that)
qed

text \<open>The messages of a run come from servers.\<close>

definition served_input :: "client_input \<Rightarrow> bool" where
  "served_input i \<longleftrightarrow> (case i of
       C_rpc (In_message rep) \<Rightarrow> from_server rep
     | C_old k (In_message rep) \<Rightarrow> from_server rep
     | _ \<Rightarrow> True)"

lemma served_input_good: "served_input i \<Longrightarrow> good_input i"
  by (auto simp: served_input_def good_input_def from_server_names split: client_input.splits rpc_input.splits)

text \<open>
  C12. The client library never gives up and is never stuck. In every run after a successful
  \<^verbatim>\<open>Start\<close>, whatever the order of connections, losses, answers, timeouts and calls: as long as it
  has not been closed, at least one thing that drives it on is outstanding (the timer of a
  connection attempt, a register, or a ping), and exactly one unless the connection of a client
  that has been replaced came up, which \<^verbatim>\<open>onConnection\<close> takes for that of the new client; it is
  closed exactly when it was asked to, for good. No \<^verbatim>\<open>CHECK\<close> fails and no null client is called
  when every error in a response is one the servers make (with \<^verbatim>\<open>Status::ToRpcError\<close>, which sets
  the data that \<^verbatim>\<open>onRegister\<close> insists on, or an expired session; \<open>Server_Replies\<close> shows that a
  replica makes no others), and no connection comes up after the library was closed. The run has less than \<open>2 ^ 64\<close> events.
\<close>

theorem client_single_driver:
  assumes "SplitString (toft X) addrs '','' \<noteq> []" and "co_EnableCache options \<longrightarrow> ldb_ok (fst (open_db (co_CacheDir options)))"
    and "length is < 2 ^ 64"
  shows "\<exists>ci0. Start X open_db r (ClientImpl_new X options addrs cb) = Some (OK, ci0)
    \<and> (\<forall>es ci. client_run is ci0 = Some (es, ci) \<longrightarrow>
         (if C_close \<in> snd ` set is then ci_state ci = cs_Closed
          else ci_state ci \<noteq> cs_Closed \<and> outstanding ci \<ge> 1 \<and> ((\<forall>x \<in> set is. \<not> late (snd x)) \<longrightarrow> outstanding ci = 1)))
    \<and> ((\<forall>x \<in> set is. served_input (snd x)) \<and> late_ok is \<longrightarrow> client_run is ci0 \<noteq> None)"
proof -
  obtain ci0 where s: "Start X open_db r (ClientImpl_new X options addrs cb) = Some (OK, ci0)"
    "client_ok 0 ci0" "timed ci0" "outstanding ci0 = 1" "ci_state ci0 \<noteq> cs_Closed"
    by (rule Start_ok [where X = X and addrs = addrs and options = options and open_db = open_db and r = r and cb = cb, OF assms(1,2)])
  have "if C_close \<in> snd ` set is then ci_state ci = cs_Closed
      else ci_state ci \<noteq> cs_Closed \<and> outstanding ci \<ge> 1 \<and> ((\<forall>x \<in> set is. \<not> late (snd x)) \<longrightarrow> outstanding ci = 1)"
    if "client_run is ci0 = Some (es, ci)" for es ci
    using client_run_steps [OF s(2) _ that] assms(3) s(3-5) by (auto simp: steps_on_def)
  moreover have "client_run is ci0 \<noteq> None" if "\<forall>x \<in> set is. served_input (snd x)" "late_ok is"
    using client_run_total [OF s(2), of "is"] that assms(3) s(5) served_input_good by auto
  ultimately show ?thesis using s(1) by blast
qed

text \<open>
  C13. Every call of the program gets exactly one answer: in every run, the calls that were begun
  are those answered and those still queued or on their way; and a run in which the servers name
  the leader when they refuse a register, and no connection comes up after the library was closed,
  never aborts.
\<close>

theorem client_calls_once:
  assumes "SplitString (toft X) addrs '','' \<noteq> []" and "co_EnableCache options \<longrightarrow> ldb_ok (fst (open_db (co_CacheDir options)))"
    and "length is < 2 ^ 64"
  shows "\<exists>ci0. Start X open_db r (ClientImpl_new X options addrs cb) = Some (OK, ci0)
    \<and> (\<forall>es ci. client_run is ci0 = Some (es, ci) \<longrightarrow> mset (begun is) = mset (dones es) + calls_of ci)
    \<and> ((\<forall>x \<in> set is. good_input (snd x)) \<and> late_ok is \<longrightarrow> client_run is ci0 \<noteq> None)"
proof -
  obtain ci0 where s: "Start X open_db r (ClientImpl_new X options addrs cb) = Some (OK, ci0)"
    "client_ok 0 ci0" "calls_of ci0 = {#}" "ci_state ci0 \<noteq> cs_Closed"
    by (rule Start_ok [where X = X and addrs = addrs and options = options and open_db = open_db and r = r and cb = cb, OF assms(1,2)])
  have "mset (begun is) = mset (dones es) + calls_of ci" if "client_run is ci0 = Some (es, ci)" for es ci
    using client_run_steps [OF s(2) _ that] assms(3) s(3) by (simp add: steps_on_def)
  moreover have "client_run is ci0 \<noteq> None" if "\<forall>x \<in> set is. good_input (snd x)" "late_ok is"
    using client_run_total [OF s(2), of "is"] that assms(3) s(4) by auto
  ultimately show ?thesis using s(1) by blast
qed

end
