(* ===== verification/Server_Replies.thy ===== *)
theory Server_Replies
  imports Acknowledged Client_Runs
begin

text \<open>
  The errors in a replica's responses. Whatever a replica goes through, every response it sends that carries an
  error carries one made by \<^verbatim>\<open>Status::ToRpcError\<close> or the expired session of \<^verbatim>\<open>handleRegister\<close>: this is what
  the client library relies on when it is refused a register.
\<close>

subsection \<open>The invariant\<close>

definition unanswered :: "Event \<Rightarrow> bool" where
  "unanswered e \<longleftrightarrow> rp_err (ev_Rep e) = None"

definition errors_ok :: "'db Server \<Rightarrow> bool" where
  "errors_ok srv \<longleftrightarrow> (\<forall>e \<in> set (sv_eventch srv) \<union> set (sv_requests srv) \<union> held_pings (sv_sm srv). unanswered e)
     \<and> (\<forall>e \<in> set (replies (sv_out srv)). from_server (ev_Rep e))"

lemma unanswered_from_server: "unanswered e \<Longrightarrow> from_server (ev_Rep e)"
  by (simp add: unanswered_def from_server_def)

lemma fail_from_server [simp]: "from_server (ev_Rep (fail_event st e))"
  by (simp add: fail_event_def set_err_from_server)

lemma errors_upd [simp]:
  "errors_ok (srv\<lparr>sv_wm := a\<rparr>) = errors_ok srv" "errors_ok (srv\<lparr>sv_store := b\<rparr>) = errors_ok srv"
  "errors_ok (srv\<lparr>sv_loop := c\<rparr>) = errors_ok srv" "errors_ok (srv\<lparr>sv_state := d\<rparr>) = errors_ok srv"
  "errors_ok (srv\<lparr>sv_cmdch := e\<rparr>) = errors_ok srv" "errors_ok (srv\<lparr>sv_statech := f\<rparr>) = errors_ok srv"
  "errors_ok (srv\<lparr>sv_logIndex := g\<rparr>) = errors_ok srv"
  by (simp_all add: errors_ok_def)

lemma errors_sm:
  assumes "errors_ok srv" and "held_pings sm \<subseteq> held_pings (sv_sm srv)"
  shows "errors_ok (srv\<lparr>sv_sm := sm\<rparr>)"
  using assms unfolding errors_ok_def by auto

lemma errors_emit:
  assumes "errors_ok srv" and "\<And>e. e \<in> set (replies es) \<Longrightarrow> from_server (ev_Rep e)"
  shows "errors_ok (emit es srv)"
  using assms unfolding errors_ok_def emit_def by auto

lemma errors_session:
  assumes ok: "errors_ok srv"
    and f: "\<And>s e. e \<in> set (replies (snd (f s))) \<Longrightarrow> (\<exists>p. ss_pingEvent s = Some p \<and> rp_err (ev_Rep e) = rp_err (ev_Rep p))"
    and g: "\<And>s p. ss_pingEvent (fst (f s)) = Some p \<Longrightarrow> ss_pingEvent s = Some p \<or> unanswered p"
  shows "errors_ok (sv_session sid f srv)"
proof (cases "SM_Get (sv_sm srv) sid")
  case (Some s)
  have h: "unanswered p" if "p \<in> held_pings (sv_sm srv)" for p using ok that by (simp add: errors_ok_def)
  note p = h [OF held_pings_Get [OF Some]]
  have "unanswered q" if "q \<in> held_pings (SM_adjust sid (\<lambda>_. fst (f s)) (sv_sm srv))" for q
    using subsetD [OF held_pings_set that] g [of s q] h [of q] p [of q] by blast
  then have "errors_ok (sv_adjust sid (\<lambda>_. fst (f s)) srv)" using ok by (auto simp: errors_ok_def sv_adjust_def)
  moreover have "from_server (ev_Rep e)" if "e \<in> set (replies (snd (f s)))" for e
    using f [OF that] p by (auto simp: unanswered_def intro!: unanswered_from_server)
  ultimately show ?thesis using Some by (simp add: sv_session_def errors_emit)
qed (simp add: sv_session_def ok)

lemma errors_PingBack: "errors_ok srv \<Longrightarrow> errors_ok (sv_session sid (PingBack now) srv)"
  by (rule errors_session) (auto simp: PingBack_def Let_def split: option.splits list.splits)

lemma errors_HoldPing: "errors_ok srv \<Longrightarrow> unanswered e \<Longrightarrow> errors_ok (sv_session sid (HoldPing e) srv)"
  by (rule errors_session) (auto simp: HoldPing_def split: option.splits)

interpretation err: server_frame "\<lambda>srv srv'. errors_ok srv \<longrightarrow> errors_ok srv'"
proof unfold_locales
  fix srv :: "'a Server" and f :: "Session \<Rightarrow> Session" and sid
  assume "\<And>s. ss_pingEvent (f s) = ss_pingEvent s"
  then show "errors_ok srv \<longrightarrow> errors_ok (sv_adjust sid f srv)" by (simp add: sv_adjust_def errors_sm held_pings_adjust)
next
  fix srv :: "'a Server" and es
  assume "list_all silent es"
  then have "replies es = []" by (rule replies_silent)
  then show "errors_ok srv \<longrightarrow> errors_ok (emit es srv)" by (auto intro: errors_emit)
next
  fix srv :: "'a Server" and now addr sid t sm st
  assume "SM_Add now (Session_new addr now sid t) (sv_sm srv) (sv_store srv) = Some (sm, st)"
  then have "held_pings sm \<subseteq> held_pings (sv_sm srv)" by (rule held_pings_Add) (simp add: Session_new_def)
  then show "errors_ok srv \<longrightarrow> errors_ok (srv\<lparr>sv_sm := sm, sv_store := st\<rparr>)" by (simp add: errors_sm)
next
  fix srv srv' :: "'a Server" and sid s sm st
  assume g: "SM_Get (sv_sm srv) sid = Some s" and r: "SM_Remove sid (sv_sm srv) (sv_store srv) = Some (sm, st)"
    and i: "errors_ok (srv\<lparr>sv_sm := sm, sv_store := st\<rparr>) \<longrightarrow> errors_ok srv'"
  show "errors_ok srv \<longrightarrow> errors_ok (emit (case ss_pingEvent s of None \<Rightarrow> [] | Some p \<Rightarrow> [Reply p]) srv')"
  proof
    assume ok: "errors_ok srv"
    have "errors_ok srv'" using i errors_sm [OF ok held_pings_Remove [OF r]] by simp
    moreover have "from_server (ev_Rep p)" if "ss_pingEvent s = Some p" for p
      using ok held_pings_Get [OF g that] by (simp add: errors_ok_def unanswered_from_server)
    ultimately show "errors_ok (emit (case ss_pingEvent s of None \<Rightarrow> [] | Some p \<Rightarrow> [Reply p]) srv')"
      by (intro errors_emit) (auto split: option.splits)
  qed
qed (simp_all add: errors_PingBack)

subsection \<open>The handlers\<close>

lemma errors_push: "errors_ok srv \<Longrightarrow> unanswered e \<Longrightarrow> errors_ok (push_request e srv)"
  by (simp add: errors_ok_def push_request_def ball_Un)

lemma errors_replicate: "errors_ok srv \<Longrightarrow> errors_ok (replicate_cmd cmd srv)"
  unfolding replicate_cmd_def by (rule errors_emit) simp_all

lemma errors_finish: "errors_ok srv \<Longrightarrow> unanswered e \<Longrightarrow> errors_ok (finish_event st e srv)"
  unfolding finish_event_def by (rule errors_emit) (auto intro: unanswered_from_server split: if_splits)

lemma errors_Touch: "sv_Touch env sid srv = Some srv' \<Longrightarrow> errors_ok srv \<Longrightarrow> errors_ok srv'"
  by (auto simp: sv_Touch_def intro: errors_sm [OF _ held_pings_Touch])

lemma errors_handleRegister:
  assumes "errors_ok srv" and "unanswered e"
  shows "errors_ok (handleRegister e srv)"
proof (cases "rq_sid (ev_Req e)")
  case None
  obtain sid sm where g: "GenSid (sv_sm srv) = (sid, sm)" by fastforce
  then have "held_pings sm = held_pings (sv_sm srv)" by (intro held_pings_cong) (auto simp: GenSid_def Let_def)
  then show ?thesis using None g assms by (simp add: handleRegister_def Let_def errors_replicate errors_push errors_sm)
next
  case (Some sid)
  have "errors_ok (sv_adjust sid (SetTimeout t) srv)" for t using err.adjust [of "SetTimeout t" srv sid] assms(1) by simp
  then show ?thesis using Some assms by (auto simp: handleRegister_def Let_def unanswered_def from_server_def intro!: errors_emit)
qed

lemma errors_handlePing:
  assumes "handlePing env e srv = Some (st, srv')" and "errors_ok srv" and "unanswered e"
  shows "errors_ok srv'"
  using assms by (auto simp: handlePing_def Let_def errors_PingBack errors_HoldPing elim!: bind_eq_SomeE dest!: errors_Touch split: if_splits option.splits)

lemma errors_handleRead:
  assumes "handleRead env e srv = Some (st, e', srv')" and "errors_ok srv" and "unanswered e"
  shows "errors_ok srv' \<and> unanswered e'"
  using assms err.onWatch [of "ev_Req e" srv]
  by (auto simp: handleRead_def Let_def unanswered_def elim!: bind_eq_SomeE split: if_splits prod.splits)

lemma errors_handleStat:
  assumes "handleStat env e srv = Some (st, e', srv')" and "errors_ok srv" and "unanswered e"
  shows "errors_ok srv' \<and> unanswered e'"
  using assms err.onWatch [of "ev_Req e" srv]
  by (auto simp: handleStat_def Let_def unanswered_def elim!: bind_eq_SomeE split: if_splits prod.splits)

lemma errors_handleEvent:
  assumes run: "handleEvent env e srv = Some srv'" and ok: "errors_ok srv" and e: "unanswered e"
  shows "errors_ok srv'"
proof (cases "rq_register (ev_Req e) = None \<and> SM_Get (sv_sm srv) (req_sid (ev_Req e)) \<noteq> None")
  case False
  then show ?thesis using run ok e errors_handleRegister [OF ok e]
    by (auto simp: handleEvent_def Let_def intro!: errors_finish split: if_splits)
next
  case True
  let ?req = "ev_Req e"
  obtain srv1 where t: "(if \<not> rq_ping ?req \<and> \<not> rq_unregister ?req then sv_Touch env (req_sid ?req) srv else Some srv) = Some srv1"
    using run True by (auto simp: handleEvent_def Let_def elim!: bind_eq_SomeE)
  then have 1: "errors_ok srv1" using ok by (auto split: if_splits intro: errors_Touch)
  have fin: "errors_ok (finish_event st e2 srv2)" if "errors_ok srv2 \<and> unanswered e2" for st e2 srv2
    using that by (simp add: errors_finish)
  have read: "errors_ok srv2 \<and> unanswered e2" if "handleRead env e srv1 = Some (st, e2, srv2)" for st e2 srv2
    using errors_handleRead [OF that 1 e] .
  have stat: "errors_ok srv2 \<and> unanswered e2" if "handleStat env e srv1 = Some (st, e2, srv2)" for st e2 srv2
    using errors_handleStat [OF that 1 e] .
  have ping: "errors_ok srv2" if "handlePing env e srv1 = Some (st, srv2)" for st srv2 using errors_handlePing [OF that 1 e] .
  have watch: "errors_ok srv2" if "onWatch ?req srv1 = (st, srv2)" for st srv2
    using err.onWatch [of ?req srv1] that 1 by simp
  show ?thesis using run True t 1 e
    by (auto simp: handleEvent_def Let_def errors_push errors_replicate elim!: bind_eq_SomeE split: if_splits prod.splits
        intro!: fin dest: read stat ping watch)
qed

lemma errors_close_due:
  assumes "close_due env sid srv = Some srv'" and "errors_ok srv"
  shows "errors_ok srv'"
proof -
  obtain s where s: "SM_Get (sv_sm srv) sid = Some s" using assms by (auto simp: close_due_def split: option.splits)
  have a: "errors_ok (emit [Log_session sid ''expire''] (sv_adjust sid Close srv))"
    using err.adjust [of Close srv sid] assms(2) by (intro errors_emit) simp_all
  show ?thesis
  proof (cases "ss_active s")
    case True
    then have "handleEvent env (close_event sid) (emit [Log_session sid ''expire''] (sv_adjust sid Close srv)) = Some srv'"
      using assms s by (auto simp: close_due_def onSessionClosed_def split: option.splits if_splits)
    from errors_handleEvent [OF this a] show ?thesis by (simp add: unanswered_def close_event_def Response_default_def)
  qed (use assms s in \<open>simp add: close_due_def\<close>)
qed

lemma errors_Step:
  assumes "server_Step env srv = Some (t, srv')" and "errors_ok srv"
  shows "errors_ok srv'"
proof -
  have "fold_opt (close_due env) (due_sessions (en_now env) (sv_sm srv)) srv = Some srv'"
    using assms(1) by (auto simp: server_Step_def elim!: bind_eq_SomeE)
  from err.fold_opt [OF _ this] show ?thesis using errors_close_due assms(2) by blast
qed

lemma run_command_no_err: "run_command env req srv = Some (st, rep, srv') \<Longrightarrow> rp_err rep = None"
  by (auto simp: run_command_def Let_def Response_default_def elim!: bind_eq_SomeE split: if_splits prod.splits)

lemma errors_onCommand:
  assumes "onCommand env req srv = Some srv'" and ok: "errors_ok srv"
  shows "errors_ok srv'"
proof -
  obtain e srv0 where q: "(if sv_state srv = kLeader then
      (case sv_requests srv of [] \<Rightarrow> None | e # rest \<Rightarrow> Some (Some e, srv\<lparr>sv_requests := rest\<rparr>)) else Some (None, srv)) = Some (e, srv0)"
    using assms(1) by (auto simp: onCommand_def simp del: split_paired_All elim!: bind_eq_SomeE)
  then obtain st rep srv1 where r: "run_command env req srv0 = Some (st, rep, srv1)"
    and s': "srv' = (case e of None \<Rightarrow> srv1 | Some e \<Rightarrow> emit [Reply (e\<lparr>ev_Rep := if \<not> ok st then set_err st rep else rep\<rparr>)] srv1)"
    using assms(1) unfolding onCommand_def q Let_def by (auto elim!: bind_eq_SomeE)
  have "errors_ok srv0" using q ok by (auto simp: errors_ok_def split: if_splits list.splits)
  then have "errors_ok srv1" using err.run_command [OF r] by simp
  moreover have "from_server (if \<not> ok st then set_err st rep else rep)"
    using run_command_no_err [OF r] by (simp add: set_err_from_server) (simp add: from_server_def)
  ultimately show ?thesis by (auto simp: s' intro!: errors_emit split: option.splits)
qed

subsection \<open>The loops\<close>

lemma errors_pingBack: "errors_ok srv \<Longrightarrow> errors_ok (pingBack env b srv)"
  unfolding pingBack_def using err.fold [of "\<lambda>x srv. sv_session (snd x) (PingBack (en_now env)) srv" srv b] errors_PingBack by blast

lemma errors_leader_enter:
  assumes "leaderLoop_enter env srv = Some srv'" and "errors_ok srv"
  shows "errors_ok srv'"
proof -
  obtain sm t srv2 where r: "ResetTimer (sv_lib srv) (en_nows env) (sv_sm srv) = Some sm"
    and st: "server_Step env (srv\<lparr>sv_sm := ResetWatchers sm, sv_wm := WM_Reset (sv_wm srv)\<rparr>) = Some (t, srv2)"
    and s': "srv' = srv2\<lparr>sv_loop := In_leader t\<rparr>"
    using assms(1) by (auto simp: leaderLoop_enter_def Let_def elim!: bind_eq_SomeE)
  have "held_pings (ResetWatchers sm) \<subseteq> held_pings (sv_sm srv)"
    using held_pings_ResetWatchers held_pings_reset [OF r [unfolded ResetTimer_def]] by (rule subset_trans)
  then have "errors_ok (srv\<lparr>sv_sm := ResetWatchers sm\<rparr>)" using assms(2) by (intro errors_sm)
  then show ?thesis using errors_Step [OF st] by (simp add: s')
qed

lemma errors_take_event:
  "errors_ok srv \<Longrightarrow> sv_eventch srv = e # rest \<Longrightarrow> errors_ok (srv\<lparr>sv_eventch := rest\<rparr>) \<and> unanswered e"
  by (simp add: errors_ok_def)

lemma errors_take_cmd: "onCommand env cmd (srv\<lparr>sv_cmdch := rest\<rparr>) = Some srv' \<Longrightarrow> errors_ok srv \<Longrightarrow> errors_ok srv'"
  using errors_onCommand [of env cmd "srv\<lparr>sv_cmdch := rest\<rparr>"] by simp

lemma errors_leaderLoop:
  assumes run: "leaderLoop env ch srv = Some srv'" and ok: "errors_ok srv"
  shows "errors_ok srv'"
proof (cases ch)
  case Choose_event
  then show ?thesis using run ok errors_take_event [OF ok] errors_handleEvent by (auto simp: leaderLoop_def split: list.splits)
next
  case Choose_timer
  then obtain t srv1 where st: "server_Step env srv = Some (t, srv1)"
    and s': "srv' = srv1\<lparr>sv_loop := In_leader t\<rparr> \<or> (\<exists>b. srv' = pingBack env b (srv1\<lparr>sv_loop := In_leader t\<rparr>))"
    using run by (simp add: leaderLoop_def Let_def) (fastforce elim!: bind_eq_SomeE split: option.splits)
  have "errors_ok (srv1\<lparr>sv_loop := In_leader t\<rparr>)" using errors_Step [OF st ok] by simp
  then show ?thesis using s' errors_pingBack by blast
qed (use run ok errors_take_cmd in \<open>auto simp: leaderLoop_def split: list.splits\<close>)

lemma errors_followerLoop:
  assumes run: "followerLoop env ch srv = Some srv'" and ok: "errors_ok srv"
  shows "errors_ok srv'"
proof (cases ch)
  case Choose_event
  then show ?thesis using run ok errors_take_event [OF ok]
    by (auto simp: followerLoop_def redirect_event_def intro!: errors_emit split: list.splits if_splits)
qed (use run ok errors_take_cmd in \<open>auto simp: followerLoop_def Let_def split: list.splits if_splits\<close>)

lemma errors_waitLoop:
  assumes "waitLoop env tag ch srv = Some srv'" and "errors_ok srv"
  shows "errors_ok srv'"
  using assms errors_take_cmd by (cases ch) (auto simp: waitLoop_def Let_def split: list.splits if_splits)

lemma errors_mainLoop:
  assumes "mainLoop env ch srv = Some srv'" and "errors_ok srv"
  shows "errors_ok srv'"
proof (cases "sv_loop srv")
  case At_main
  have "errors_ok (waitLoop_enter env srv)" using assms(2) by (simp add: waitLoop_enter_def Let_def errors_replicate)
  with At_main assms show ?thesis by (cases "sv_state srv") (auto simp: mainLoop_def intro: errors_leader_enter)
qed (use assms in \<open>auto simp: mainLoop_def intro: errors_leaderLoop errors_followerLoop errors_waitLoop\<close>)

lemma errors_onState: "errors_ok srv \<Longrightarrow> errors_ok (onState env state srv)"
proof -
  assume ok: "errors_ok srv"
  let ?ss = "sm_sessions (sv_sm srv)" and ?now = "en_now env"
  have again: "replies (map (\<lambda>e. Reply (fail_event st e)) es) = map (fail_event st) es" for st es by (induction es) simp_all
  have pings: "from_server (ev_Rep e)"
    if "e \<in> set (replies (concat (map (\<lambda>(sid, s). snd (PingBack ?now s)) ss)))" "set ss \<subseteq> set ?ss" for e ss
    using that
  proof (induction ss)
    case (Cons x ss)
    obtain sid s where x: "x = (sid, s)" by (cases x)
    have h: "unanswered p" if "ss_pingEvent s = Some p" for p
      using ok held_pingsI [of sid s "sv_sm srv" p] that Cons.prems(2) x by (simp add: errors_ok_def)
    have "from_server (ev_Rep e)" if "e \<in> set (replies (snd (PingBack ?now s)))"
      using that h by (auto simp: PingBack_def Let_def unanswered_def from_server_def split: option.splits list.splits)
    then show ?case using Cons x by auto
  qed simp
  have "held_pings (sv_sm srv\<lparr>sm_sessions := map (\<lambda>(sid, s). (sid, fst (PingBack ?now s))) ?ss\<rparr>) \<subseteq> held_pings (sv_sm srv)"
    by (rule held_pings_sub) (auto simp: PingBack_def Let_def split: option.splits list.splits)
  then have "errors_ok (srv\<lparr>sv_requests := [], sv_sm := sv_sm srv\<lparr>sm_sessions := map (\<lambda>(sid, s). (sid, fst (PingBack ?now s))) ?ss\<rparr>\<rparr>)"
    using ok by (auto simp: errors_ok_def)
  then have "errors_ok (srv\<lparr>sv_requests := [], sv_sm := sv_sm srv\<lparr>sm_sessions := map (\<lambda>(sid, s). (sid, fst (PingBack ?now s))) ?ss\<rparr>,
      sv_statech := sv_statech srv @ [state]\<rparr>)" by simp
  then show ?thesis unfolding onState_def ResetPendingPing_def Let_def
    by (auto simp: again intro!: errors_emit dest: pings [OF _ subset_refl])
qed

lemma errors_server_act:
  assumes "server_act env act srv = Some srv'" and "errors_ok srv" and "\<And>e. act = Act_event e \<Longrightarrow> unanswered e"
  shows "errors_ok srv'"
proof (cases act)
  case (Act_synced index data)
  then show ?thesis using assms(1,2) by (auto simp: server_act_def onSynced_def split: prod.splits if_splits)
next
  case (Act_event e)
  then show ?thesis using assms by (auto simp: server_act_def ReceiveEvent_def errors_ok_def)
qed (use assms errors_mainLoop errors_onState in \<open>auto simp: server_act_def Server_Stop_def\<close>)

subsection \<open>Every response\<close>

text \<open>
  In every run of a server whose requests come in with responses that carry no error, as the rpc server makes
  them, every response that it sends is one the client library can take: it is never told that a server is not
  the leader without being told who is.
\<close>

theorem replies_from_server:
  assumes "Server_new env X mx opts db = Some srv0" and "server_run acts srv0 = Some srv"
    and "\<And>env e. (env, Act_event e) \<in> set acts \<Longrightarrow> unanswered e"
  shows "\<forall>e \<in> set (replies (sv_out srv)). from_server (ev_Rep e) \<and> names_leader (ev_Rep e)"
proof -
  have "errors_ok srv0" using assms(1)
    by (auto simp: Server_new_def Let_def errors_ok_def held_pings_def SessionManager_new_def elim!: bind_eq_SomeE)
  then have "errors_ok srv" using assms(2,3)
  proof (induction acts arbitrary: srv0)
    case (Cons a acts)
    obtain env act where a: "a = (env, act)" by (cases a)
    with Cons.prems(2) obtain srv1 where s1: "server_act env act srv0 = Some srv1" "server_run acts srv1 = Some srv"
      by (auto simp: server_run_def elim!: bind_eq_SomeE)
    have "errors_ok srv1" using errors_server_act [OF s1(1) Cons.prems(1)] Cons.prems(3) a by auto
    then show ?case using Cons.IH [OF _ s1(2)] Cons.prems(3) by auto
  qed (simp add: server_run_def)
  then show ?thesis by (auto simp: errors_ok_def from_server_names)
qed

end
