(* ===== verification/Snapshots.thy ===== *)
theory Snapshots
  imports Server Event_Log Store_Persist
begin

text \<open>
  The part of \<^verbatim>\<open>server/server.cc\<close> that takes snapshots: where a snapshot goes, the thread that copies the
  database, and the line it logs when it is done.
\<close>

subsection \<open>Taking a snapshot\<close>

text \<open>\<^verbatim>\<open>%020\<close> of an unsigned and \<^verbatim>\<open>%010ld\<close> of a signed number of 64 bits.\<close>

definition print_020u :: "u64 \<Rightarrow> string" where
  "print_020u n = zero_pad 20 (dec (unat n))"

definition print_010ld :: "u64 \<Rightarrow> string" where
  "print_010ld n = (if sint n < 0 then ''-'' @ zero_pad 9 (dec (nat (- sint n))) else zero_pad 10 (dec (nat (sint n))))"

definition snapshotDBDir :: "toftlib \<Rightarrow> string \<Rightarrow> u64 \<Rightarrow> string" where
  "snapshotDBDir T dir index = PathJoin T dir (print_020u index)"

record SnapshotJob =
  sj_dir :: string
  sj_index :: u64
  sj_begin :: timestamp

text \<open>\<^verbatim>\<open>onTakeSnapshot\<close> starts a thread with this job; the thread runs \<^verbatim>\<open>Store::TakeSnapshot\<close> on the store
  as it is by then.\<close>

definition onTakeSnapshot :: "Env \<Rightarrow> u64 \<Rightarrow> 'db Server \<Rightarrow> SnapshotJob" where
  "onTakeSnapshot env commitIndex srv =
     \<lparr>sj_dir = snapshotDBDir (toft (sv_lib srv)) (op_SnapshotDir (sv_options srv)) commitIndex,
      sj_index = commitIndex, sj_begin = en_now env\<rparr>"

definition takeSnapshotCallback ::
  "LogEnv \<Rightarrow> (timestamp \<Rightarrow> timestamp \<Rightarrow> rat) \<Rightarrow> timestamp \<Rightarrow> u64 \<Rightarrow> timestamp \<Rightarrow> EventLog \<Rightarrow> EventLog option" where
  "takeSnapshotCallback V timeDifference now idx start l =
     Log V ''-'' ''snapshot'' 0 0 (print_010ld idx) [] (timeDifference now start) l"

text \<open>The databases by directory; opening one that does not exist makes an empty one (the first argument).\<close>

definition snapshot_thread ::
  "'db \<Rightarrow> LogEnv \<Rightarrow> (timestamp \<Rightarrow> timestamp \<Rightarrow> rat) \<Rightarrow> timestamp \<Rightarrow> SnapshotJob \<Rightarrow> 'db Store
     \<Rightarrow> (string \<rightharpoonup> 'db) \<times> EventLog \<Rightarrow> ((string \<rightharpoonup> 'db) \<times> EventLog) option" where
  "snapshot_thread new V timeDifference now job s x = (case x of (dirs, l) \<Rightarrow> do {
     db \<leftarrow> Store_TakeSnapshot s (case dirs (sj_dir job) of None \<Rightarrow> new | Some db \<Rightarrow> db);
     l \<leftarrow> takeSnapshotCallback V timeDifference now (sj_index job) (sj_begin job) l;
     Some (dirs(sj_dir job \<mapsto> db), l) })"

subsection \<open>The names sort as the indices do\<close>

lemma digits_value_Cons: "digits_value (c # s) = (of_char c - 48) * 10 ^ length s + digits_value s"
proof -
  have "foldl (\<lambda>n c. n * 10 + (of_char c - 48)) k s = k * 10 ^ length s + digits_value s" for k
    unfolding digits_value_def
  proof (induction s arbitrary: k)
    case (Cons a s)
    show ?case unfolding foldl_Cons Cons [of "k * 10 + _"] Cons [of "0 * 10 + _"] by (simp add: algebra_simps)
  qed simp
  from this [of "of_char c - 48"] show ?thesis by (simp add: digits_value_def)
qed

lemma digits_value_bound: "\<forall>c \<in> set s. is_digit c \<Longrightarrow> digits_value s < 10 ^ length s"
proof (induction s)
  case (Cons c s)
  then have "of_char c - 48 \<le> (9 :: nat)" by (auto simp: is_digit_def)
  then have "(of_char c - 48) * 10 ^ length s \<le> (9 :: nat) * 10 ^ length s" by (rule mult_right_mono) simp
  moreover have "digits_value s < 10 ^ length s" using Cons by simp
  ultimately have "(of_char c - 48) * 10 ^ length s + digits_value s < (9 :: nat) * 10 ^ length s + 10 ^ length s" by (rule add_le_less_mono)
  then show ?case by (simp add: digits_value_Cons)
qed (simp add: digits_value_def)

lemma digits_order:
  assumes "length s = length t" and "\<forall>c \<in> set s. is_digit c" and "\<forall>c \<in> set t. is_digit c" and "digits_value s < digits_value t"
  shows "s < t"
  using assms
proof (induction s t rule: list_induct2)
  case (Cons c s d t)
  let ?c = "of_char c - 48 :: nat" and ?d = "of_char d - 48 :: nat"
  have v: "?c * 10 ^ length t + digits_value s < ?d * 10 ^ length t + digits_value t"
    using Cons.prems(3) Cons.hyps by (simp add: digits_value_Cons)
  have "digits_value t < 10 ^ length t" using Cons.prems(2) by (intro digits_value_bound) simp
  with v have "?c * 10 ^ length t < Suc ?d * 10 ^ length t" by simp
  then have "?c \<le> ?d" unfolding mult_less_cancel2 by simp
  moreover have "48 \<le> (of_char c :: nat)" "48 \<le> (of_char d :: nat)" using Cons.prems(1,2) by (simp_all add: is_digit_def)
  ultimately have "(of_char c :: nat) \<le> of_char d" by linarith
  then consider "c < d" | "c = d" by (auto simp: less_char_def order_le_less)
  then show ?case
  proof cases
    case 2
    then show ?thesis using Cons v by simp
  qed simp
qed (simp add: digits_value_def)

lemma print_020u_facts:
  "length (print_020u n) = 20" "\<forall>c \<in> set (print_020u n). is_digit c" "digits_value (print_020u n) = unat n"
proof -
  have "unat n < 2 ^ 64" using unsigned_less [of n] by simp
  then have "unat n < 10 ^ 20" by simp
  then have "length (dec (unat n)) \<le> 20" by (rule dec_length) simp
  then show "length (print_020u n) = 20" by (simp add: print_020u_def zero_pad_def)
  show "\<forall>c \<in> set (print_020u n). is_digit c" using dec_digits [of "unat n"] by (auto simp: print_020u_def zero_pad_def is_digit_def)
  have "digits_value (replicate k (CHR ''0'') @ s) = digits_value s" for k s
    by (induction k) (simp_all add: digits_value_Cons)
  then show "digits_value (print_020u n) = unat n" by (simp add: print_020u_def zero_pad_def digits_value_dec)
qed

text \<open>
  The directories of the snapshots sort as their commit indices do: the name is twenty digits whatever
  the index (so it fits the buffer of 32 bytes), two indices never share a name, and the name of
  a later index comes later in the order of strings.
\<close>

theorem snapshot_names_ordered:
  "length (print_020u i) = 20 \<and> (print_020u i < print_020u j \<longleftrightarrow> i < j) \<and> (print_020u i = print_020u j \<longleftrightarrow> i = j)"
proof -
  have lt: "print_020u a < print_020u b" if "a < b" for a b
    by (rule digits_order) (use that in \<open>simp_all add: print_020u_facts word_less_nat_alt\<close>)
  then show ?thesis using print_020u_facts(1) [of i] by (metis linorder_less_linear order_less_asym order_less_irrefl)
qed

end
