(* ===== verification/Programs.thy ===== *)
theory Programs
  imports Server Client Reference_Libs
begin

text \<open>
  The two programs. \<^verbatim>\<open>cmd/pyxisd/main.cc\<close> turns its flags into the options of a replica and of the raft
  library and starts them in order; \<^verbatim>\<open>cmd/pyxisctl/main.cc\<close> reads commands from the console and
  calls the client library. Parsing the flags is gflags' work; a failing \<^verbatim>\<open>CHECK\<close>, an
  \<^verbatim>\<open>abort\<close> and a subscript out of range are \<open>None\<close>.
\<close>

subsection \<open>The server program\<close>

record PyxisdFlags =
  fl_pyxis_list :: string
  fl_pyxis_listen_addr :: string
  fl_raft_listen_addr :: string
  fl_pprof :: int
  fl_dbdir :: string
  fl_session_interval :: int
  fl_max_timeout :: int
  fl_min_timeout :: int
  fl_rpc_channel_size :: int
  fl_raft_list :: string
  fl_snapshotdir :: string
  fl_snapshot_size :: u64
  fl_snapshot_interval :: u64
  fl_max_commit_size :: int
  fl_raftlog :: string
  fl_force_flush :: bool
  fl_election_timeout :: int
  fl_heartbeat_timeout :: int
  fl_myid :: u32

definition PyxisdFlags_default :: PyxisdFlags where
  "PyxisdFlags_default =
     \<lparr>fl_pyxis_list = [], fl_pyxis_listen_addr = ''0.0.0.0:7000'', fl_raft_listen_addr = ''0.0.0.0:7001'', fl_pprof = 9982,
      fl_dbdir = ''db'', fl_session_interval = 1000, fl_max_timeout = 2 * 60 * 1000, fl_min_timeout = 5 * 1000,
      fl_rpc_channel_size = 1024, fl_raft_list = [], fl_snapshotdir = ''snapshot'', fl_snapshot_size = 1000000,
      fl_snapshot_interval = 3600 * 24, fl_max_commit_size = 200, fl_raftlog = ''raftlog'', fl_force_flush = False,
      fl_election_timeout = 1000, fl_heartbeat_timeout = 50, fl_myid = 0\<rparr>"

record RaftOptions =
  rf_MyID :: int
  rf_RaftLogDir :: string
  rf_SnapshotLogSize :: u64
  rf_SnapshotInterval :: u64
  rf_ForceFlush :: bool
  rf_MaxCommitSize :: int
  rf_HeartbeatTimeout :: int
  rf_ElectionTimeout :: int

definition pyxisd_options :: "PyxisdFlags \<Rightarrow> string list \<Rightarrow> Options" where
  "pyxisd_options f pyxisList = Options_default
     \<lparr>op_DBDir := fl_dbdir f, op_SessionCheckInterval := fl_session_interval f, op_MaxSessionTimeout := fl_max_timeout f,
      op_MinSessionTimeout := fl_min_timeout f, op_SnapshotDir := fl_snapshotdir f, op_MyID := sint (fl_myid f), op_AddrList := pyxisList\<rparr>"

definition pyxisd_raft_options :: "PyxisdFlags \<Rightarrow> RaftOptions" where
  "pyxisd_raft_options f =
     \<lparr>rf_MyID = sint (fl_myid f), rf_RaftLogDir = fl_raftlog f, rf_SnapshotLogSize = fl_snapshot_size f,
      rf_SnapshotInterval = fl_snapshot_interval f, rf_ForceFlush = fl_force_flush f, rf_MaxCommitSize = fl_max_commit_size f,
      rf_HeartbeatTimeout = fl_heartbeat_timeout f, rf_ElectionTimeout = fl_election_timeout f\<rparr>"

text \<open>What the program makes and starts, in order.\<close>

datatype startup =
    New_inspector int
  | New_raft RaftOptions
  | New_raft_rpc string
  | Add_peer string
  | New_server Options
  | New_rpc_server string
  | Start_rpc_server
  | Start_server
  | Start_raft_rpc
  | Start_raft
  | Run_loop

text \<open>\<^verbatim>\<open>AddPeer\<close> for every server but this one.\<close>

definition pyxisd_peers :: "nat \<Rightarrow> string list \<Rightarrow> string list" where
  "pyxisd_peers myindex raftList = map snd (filter (\<lambda>(i, a). i \<noteq> myindex) (enumerate 0 raftList))"

definition pyxisd_main :: "toftlib \<Rightarrow> PyxisdFlags \<Rightarrow> startup list option" where
  "pyxisd_main T f =
     (let raftList = SplitString T (fl_raft_list f) '','';
          pyxisList = SplitString T (fl_pyxis_list f) '','';
          options = pyxisd_options f pyxisList;
          myid = fl_myid f;
          myindex = myid - 1
      in if \<not> myid > 0 then None
         else if \<not> unat myid \<le> length pyxisList then None
         else if \<not> unat myid \<le> length raftList then None
         else Some
           ((if fl_pprof f \<noteq> 0 then [New_inspector (fl_pprof f)] else [])
            @ [New_raft (pyxisd_raft_options f), New_raft_rpc (fl_raft_listen_addr f)]
            @ map Add_peer (pyxisd_peers (unat myindex) raftList)
            @ [New_server options, New_rpc_server (fl_pyxis_listen_addr f), Start_rpc_server, Start_server, Start_raft_rpc,
               Start_raft, Run_loop]))"

lemma pyxisd_peers_split:
  assumes "i < length xs"
  shows "pyxisd_peers i xs = take i xs @ drop (Suc i) xs"
proof -
  have xs: "xs = take i xs @ xs ! i # drop (Suc i) xs" using assms by (rule id_take_nth_drop)
  have "map snd (filter (\<lambda>(j, a). j \<noteq> k) (enumerate n ys)) = ys" if "\<forall>j \<in> {n..<n + length ys}. j \<noteq> k" for k n and ys :: "string list"
    using that by (induction ys arbitrary: n) (auto simp: enumerate_simps)
  then have a: "map snd (filter (\<lambda>(j, a). j \<noteq> i) (enumerate 0 (take i xs))) = take i xs"
    "map snd (filter (\<lambda>(j, a). j \<noteq> i) (enumerate (Suc i) (drop (Suc i) xs))) = drop (Suc i) xs" using assms by simp_all
  have "enumerate 0 xs = enumerate 0 (take i xs) @ (i, xs ! i) # enumerate (Suc i) (drop (Suc i) xs)"
    using assms by (subst xs) (simp add: enumerate_append_eq)
  then show ?thesis using a by (simp add: pyxisd_peers_def)
qed

text \<open>
  C39. The server program starts exactly when its number is between 1 and the lengths of both address lists;
  then the raft library gets every raft address but its own, in order, and the replica gets the
  list of client addresses. A redirect to the leader with any number raft can have finds an address
  only if the list of client addresses is not shorter than that of the raft servers, which is not
  checked; and the flag for the size of the rpc channel is not used.
\<close>

theorem pyxisd_starts:
  "let raftList = SplitString T (fl_raft_list f) '',''; pyxisList = SplitString T (fl_pyxis_list f) '',''; k = unat (fl_myid f) in
     (case pyxisd_main T f of
        None \<Rightarrow> k = 0 \<or> length pyxisList < k \<or> length raftList < k
      | Some acts \<Rightarrow> 1 \<le> k \<and> k \<le> length pyxisList \<and> k \<le> length raftList
          \<and> [a. Add_peer a \<leftarrow> acts] = take (k - 1) raftList @ drop k raftList
          \<and> (\<exists>opts. [o'. New_server o' \<leftarrow> acts] = [opts] \<and> op_AddrList opts = pyxisList \<and> op_RpcChannelSize opts = 1024
              \<and> ((\<forall>l \<in> {1..int (length raftList)}. nat (l - 1) < length (op_AddrList opts)) \<longleftrightarrow> length raftList \<le> length pyxisList)))"
proof -
  let ?r = "SplitString T (fl_raft_list f) '',''" and ?p = "SplitString T (fl_pyxis_list f) '',''" and ?k = "unat (fl_myid f)"
  have pos: "fl_myid f > 0 \<longleftrightarrow> ?k \<noteq> 0" by (simp add: word_gt_0 unat_eq_zero)
  show ?thesis
  proof (cases "?k \<noteq> 0 \<and> ?k \<le> length ?p \<and> ?k \<le> length ?r")
    case True
    then have k: "unat (fl_myid f - 1) = ?k - 1" using unat_minus_one [of "fl_myid f"] by (metis unat_0)
    have i: "?k - 1 < length ?r" and s: "Suc (?k - 1) = ?k" using True by auto
    have "[a. Add_peer a \<leftarrow> map Add_peer xs] = xs" "[o'. New_server o' \<leftarrow> map Add_peer xs] = []" for xs by (induction xs) simp_all
    moreover have "(\<forall>l \<in> {1..int (length ?r)}. nat (l - 1) < length ?p) \<longleftrightarrow> length ?r \<le> length ?p"
    proof
      assume "\<forall>l \<in> {1..int (length ?r)}. nat (l - 1) < length ?p"
      from bspec [OF this, of "int (length ?r)"] have "length ?r - 1 < length ?p" using True by force
      then show "length ?r \<le> length ?p" by simp
    qed auto
    ultimately show ?thesis using True pos k pyxisd_peers_split [OF i] s
      by (simp add: pyxisd_main_def Let_def pyxisd_options_def Options_default_def)
  next
    case False
    then show ?thesis using pos by (auto simp: pyxisd_main_def Let_def)
  qed
qed

definition two_of_three :: PyxisdFlags where
  "two_of_three = PyxisdFlags_default\<lparr>fl_pyxis_list := ''a,b'', fl_raft_list := ''c,d,e'', fl_myid := 2\<rparr>"

theorem pyxisd_starts_witness:
  "\<exists>acts opts. pyxisd_main ref_toft two_of_three = Some acts \<and> [a. Add_peer a \<leftarrow> acts] = [''c'', ''e'']
     \<and> [o'. New_server o' \<leftarrow> acts] = [opts] \<and> op_AddrList opts = [''a'', ''b'']"
proof -
  have "SplitString ref_toft (fl_raft_list two_of_three) '','' = [''c'', ''d'', ''e'']" "unat (fl_myid two_of_three) = 2"
    "SplitString ref_toft (fl_pyxis_list two_of_three) '','' = [''a'', ''b'']"
    by (simp_all add: two_of_three_def ref_toft_def)
  with pyxisd_starts [of ref_toft two_of_three] show ?thesis by (auto simp: Let_def split: option.splits)
qed

subsection \<open>The console\<close>

record CtlFlags =
  cf_addr :: string
  cf_timeout :: int
  cf_sid :: sid_t
  cf_cache :: string
  cf_enable_cache :: bool
  cf_debug :: bool

definition CtlFlags_default :: CtlFlags where
  "CtlFlags_default = \<lparr>cf_addr = [], cf_timeout = 5, cf_sid = 0, cf_cache = ''/tmp/pyxisctl'', cf_enable_cache = True, cf_debug = False\<rparr>"

definition ctl_options :: "CtlFlags \<Rightarrow> ClientOptions" where
  "ctl_options f = ClientOptions_default
     \<lparr>co_Sid := cf_sid f, co_EnableCache := cf_enable_cache f, co_CacheDir := cf_cache f, co_Timeout := word_of_int (cf_timeout f * 1000),
      co_EnableDebugLog := cf_debug f\<rparr>"

text \<open>A call of the client library, and what goes to the console. The callback is the function itself; a callback
  of the program is a value of this type.\<close>

datatype ctl_callback = Ctl_WatchFunc

datatype ctl_call = Ctl_Write string string | Ctl_Read string | Ctl_Create string

datatype ctl_out = Cout string | Cerr string

definition endl :: "string \<Rightarrow> string" where
  "endl s = s @ [CHR 0x0A]"

definition ctl_read_options :: "ctl_callback ReadOptions" where
  "ctl_read_options = ReadOptions_default\<lparr>ro_WatchEvent := kModify\<rparr>"

definition WatchFunc :: "(EventType \<Rightarrow> string) \<Rightarrow> WEvent \<Rightarrow> ctl_out list \<times> (ctl_callback ReadOptions \<times> string) option" where
  "WatchFunc print_int e =
     ([Cout (endl (''watcher - path:'' @ c_str (we_node e) @ '', event:'' @ print_int (we_type e)))],
      if we_type e = kModify then Some (ctl_read_options, we_node e) else None)"

definition ctl_Open ::
  "'db thirdparty \<Rightarrow> (string \<Rightarrow> ldb_status \<times> 'db) \<Rightarrow> nat \<Rightarrow> CtlFlags \<Rightarrow> ('db, ctl_callback) ClientImpl option" where
  "ctl_Open X open_db r f = do {
     (st, impl) \<leftarrow> Client_Open X open_db r (ctl_options f) (cf_addr f) (Some Ctl_WatchFunc) False;
     if \<not> ok st then None else impl }"

text \<open>One line of input: nothing to do, a complaint, or a call. An argument list with no entry has no first one.\<close>

datatype ctl_line = Line_skip | Line_wrong | Line_call ctl_call

definition ctl_parse :: "toftlib \<Rightarrow> string \<Rightarrow> ctl_line option" where
  "ctl_parse T line =
     (let args = SplitString T line '' '' in
      if line = [] then Some Line_skip
      else case args of
        [] \<Rightarrow> None
      | cmd # _ \<Rightarrow> Some
          (if cmd = ''write'' then (if length args < 3 then Line_wrong else Line_call (Ctl_Write (args ! 1) (args ! 2)))
           else if cmd = ''read'' then (if length args < 2 then Line_wrong else Line_call (Ctl_Read (args ! 1)))
           else if cmd = ''create'' then (if length args < 2 then Line_wrong else Line_call (Ctl_Create (args ! 1)))
           else Line_skip))"

definition ctl_print :: "ctl_call \<Rightarrow> Status \<Rightarrow> ClientNode \<Rightarrow> ctl_out list" where
  "ctl_print c st node = (case c of
       Ctl_Read _ \<Rightarrow>
         if \<not> ok st then (if IsCached st then [Cout (endl (''cache: '' @ cn_Data node))] else []) @ [Cerr (endl (ToString st))]
         else [Cout (endl (''Data:'' @ cn_Data node))]
     | _ \<Rightarrow> if \<not> ok st then [Cerr (endl (ToString st))] else [])"

text \<open>The loop: \<open>answer\<close> is what the client library returns for a call, which depends on the calls before it. It ends with
  the input.\<close>

fun ctl_loop ::
  "toftlib \<Rightarrow> (ctl_call list \<Rightarrow> ctl_call \<Rightarrow> Status \<times> ClientNode) \<Rightarrow> ctl_call list \<Rightarrow> string list
     \<Rightarrow> (ctl_call list \<times> ctl_out list) option" where
  "ctl_loop T answer calls [] = Some (calls, [Cout ''pyxis> ''])"
| "ctl_loop T answer calls (line # lines) = do {
     l \<leftarrow> ctl_parse T line;
     (case l of
        Line_skip \<Rightarrow> map_option (map_prod id ((#) (Cout ''pyxis> ''))) (ctl_loop T answer calls lines)
      | Line_wrong \<Rightarrow> map_option (map_prod id ((@) [Cout ''pyxis> '', Cerr (endl ''wrong args'')])) (ctl_loop T answer calls lines)
      | Line_call c \<Rightarrow> (case answer calls c of (st, node) \<Rightarrow>
          map_option (map_prod id ((@) (Cout ''pyxis> '' # ctl_print c st node))) (ctl_loop T answer (calls @ [c]) lines))) }"

text \<open>
  C40. The console does not survive a change of a node it has read: \<^verbatim>\<open>read\<close> asks for a watch but sets no callback in
  its options, and \<^verbatim>\<open>ClientImpl::Read\<close> stores the empty function instead of the callback that the client was
  opened with; so the first event for the path calls the empty function in the thread pool, which throws, and
  \<^verbatim>\<open>WatchFunc\<close>, which would print the event and read again, is not called.
\<close>

theorem ctl_read_crashes:
  assumes "om_find (cm_watchers (ci_wm ci)) path = None" and "cm_pool (ci_wm ci) = []"
  shows "(case Read_begin ctl_read_options path ci of (req, ci') \<Rightarrow>
      rq_watch req = Some \<lparr>wq_path = path, wq_watch = kModify, wq_recursive = False\<rparr> \<and> CWM_run (CWM_Triger path e (ci_wm ci')) = None)"
  using assms
  by (simp add: Read_begin_def ctl_read_options_def ReadOptions_default_def event_type_defs Let_def CWM_Add_def CWM_Triger_def
      om_insert_def CWM_run_def CWM_trigerInternal_def)

theorem ctl_read_crashes_witness:
  "let ci = ClientImpl_new ref_libs (ctl_options CtlFlags_default) ''127.0.0.1:7000'' (Some Ctl_WatchFunc) in
   CWM_run (CWM_Triger ''/a'' (mk_event ''/a'' kModify) (ci_wm (snd (Read_begin ctl_read_options ''/a'' ci)))) = None"
  using ctl_read_crashes [of "ClientImpl_new ref_libs (ctl_options CtlFlags_default) ''127.0.0.1:7000'' (Some Ctl_WatchFunc)" "''/a''"
      "mk_event ''/a'' kModify"]
  by (simp add: ClientImpl_new_def CWM_new_def split: prod.splits)

end
