(* ===== verification/Bench.thy ===== *)
theory Bench
  imports Client Replica
begin

text \<open>
  \<^verbatim>\<open>client/client_bench.cc\<close>, the benchmark: a program written against the interface \<^verbatim>\<open>client/client.h\<close>. The interface is a record of
  functions on the state of whatever serves the calls. A failing \<^verbatim>\<open>EXPECT\<close> fails the test and goes on, a
  failing \<^verbatim>\<open>ASSERT\<close> ends it; \<open>None\<close> is a null pointer that is used.
\<close>

record ('f, 's) ClientItf =
  it_Create :: "u32 \<Rightarrow> string \<Rightarrow> string \<Rightarrow> 's \<Rightarrow> Status \<times> 's"
  it_Delete :: "u32 \<Rightarrow> string \<Rightarrow> 's \<Rightarrow> Status \<times> 's"
  it_Write :: "u32 \<Rightarrow> string \<Rightarrow> string \<Rightarrow> 's \<Rightarrow> Status \<times> 's"
  it_Read :: "'f ReadOptions \<Rightarrow> string \<Rightarrow> ClientNode \<Rightarrow> 's \<Rightarrow> Status \<times> ClientNode \<times> 's"
  it_Sid :: "'s \<Rightarrow> Status \<times> sid_t option"

definition bench_options :: ClientOptions where
  "bench_options = ClientOptions_default\<lparr>co_Sid := 0, co_Timeout := 5000, co_EnableCache := False, co_EnableDebugLog := False\<rparr>"

definition bench_addr :: string where
  "bench_addr = ''127.0.0.1:9981,127.0.0.1:9982,127.0.0.1:9983''"

text \<open>\<^verbatim>\<open>sig_\<close> is set or not.\<close>

definition bench_Callback :: "WEvent \<Rightarrow> bool \<Rightarrow> bool" where
  "bench_Callback e sig = (if we_type e = kConnected then True else sig)"

text \<open>\<open>null\<close> and \<open>st\<close> are what \<^verbatim>\<open>Open\<close> left in \<^verbatim>\<open>cli\<close> and returned, \<open>signalled\<close> is whether \<^verbatim>\<open>TimedWait\<close> saw the signal.\<close>

definition bench_SetUp :: "Status \<Rightarrow> bool \<Rightarrow> bool \<Rightarrow> ('f, 's) ClientItf \<Rightarrow> 's \<Rightarrow> (bool \<times> 's) option" where
  "bench_SetUp st null signalled cli s =
     (let expect1 = ok st; expect2 = signalled in
      if null then None
      else (case it_Create cli kPersist ''/bench'' [] s of (st, s) \<Rightarrow>
        Some (expect1 \<and> expect2 \<and> (ok st \<or> IsExist st), s)))"

definition bench_TearDown :: "bool \<Rightarrow> ('s \<Rightarrow> 's option) \<Rightarrow> 's \<Rightarrow> 's option" where
  "bench_TearDown null delete_cli s = (if \<not> null then delete_cli s else Some s)"

text \<open>\<^verbatim>\<open>snprintf(name, 32, "/bench/node%d", i)\<close>.\<close>

definition bench_name :: "nat \<Rightarrow> string" where
  "bench_name i = take 31 (''/bench/node'' @ dec i)"

fun bench_create_loop :: "('f, 's) ClientItf \<Rightarrow> nat list \<Rightarrow> 's \<Rightarrow> bool \<times> 's" where
  "bench_create_loop cli [] s = (True, s)"
| "bench_create_loop cli (i # is) s =
     (case it_Create cli kEphemeral (bench_name i) [] s of (st, s) \<Rightarrow>
        if \<not> ok st then (False, s) else bench_create_loop cli is s)"

definition bench_Create :: "('f, 's) ClientItf \<Rightarrow> 's \<Rightarrow> bool \<times> 's" where
  "bench_Create cli s = bench_create_loop cli [0..<1000] s"

text \<open>The node that a read fills in is not initialised.\<close>

fun bench_read_loop :: "('f, 's) ClientItf \<Rightarrow> ClientNode \<Rightarrow> nat \<Rightarrow> 's \<Rightarrow> bool \<times> 's" where
  "bench_read_loop cli node 0 s = (True, s)"
| "bench_read_loop cli node (Suc n) s =
     (case it_Read cli (ReadOptions_default\<lparr>ro_WatchEvent := kModify\<rparr>) ''/bench/read'' node s of (st, _, s) \<Rightarrow>
        if \<not> ok st then (False, s) else bench_read_loop cli node n s)"

definition bench_Read :: "('f, 's) ClientItf \<Rightarrow> ClientNode \<Rightarrow> 's \<Rightarrow> bool \<times> 's" where
  "bench_Read cli node s =
     (case it_Create cli kEphemeral ''/bench/read'' [] s of (st, s) \<Rightarrow>
        if \<not> ok st then (False, s) else bench_read_loop cli node 10000 s)"

subsection \<open>A failed start\<close>

text \<open>\<^verbatim>\<open>Open\<close> leaves a null pointer when it fails, and \<^verbatim>\<open>SetUp\<close> only notes the failure: it calls \<^verbatim>\<open>Create\<close> on it.\<close>

lemma bench_SetUp_null:
  assumes "Client_Open X open_db r opts addr cb False = Some (st, cli)" and "\<not> ok st"
  shows "bench_SetUp st (cli = None) signalled itf s = None"
  using assms by (auto simp: Client_Open_def bench_SetUp_def elim!: bind_eq_SomeE split: if_splits)

subsection \<open>The benchmark on the replicated state machine\<close>

text \<open>The interface as one session sees the specification of the service.\<close>

definition spec_client :: "Config \<Rightarrow> sid_t \<Rightarrow> ('f, Replica) ClientItf" where
  "spec_client cfg sid =
     \<lparr>it_Create = (\<lambda>flags path data ra. case spec_create cfg sid \<lparr>cr_path = path, cr_flags = flags, cr_data = data\<rparr> ra of (c, ra) \<Rightarrow> (mk_status c [], ra)),
      it_Delete = (\<lambda>flags path ra. case spec_delete cfg sid path ra of (c, ra) \<Rightarrow> (mk_status c [], ra)),
      it_Write = (\<lambda>flags path data ra. case spec_write cfg \<lparr>wr_path = path, wr_data = data\<rparr> ra of (c, ra) \<Rightarrow> (mk_status c [], ra)),
      it_Read = (\<lambda>opts path node ra. case ra_tree ra path of None \<Rightarrow> (NotFound path, node, ra) | Some n \<Rightarrow> (OK, CopyNodeFromProto node n, ra)),
      it_Sid = (\<lambda>ra. (OK, Some sid))\<rparr>"

lemma dec_inj: "dec i = dec j \<longleftrightarrow> i = j"
  by (metis digits_value_dec)

lemma bench_name_short: "i < 1000 \<Longrightarrow> bench_name i = ''/bench'' @ slash # ''node'' @ dec i"
  using dec_length [of i 3] by (simp add: bench_name_def)

lemma bench_name_path:
  assumes "i < 1000"
  shows "IsValidPath (bench_name i)" and "SplitPath (bench_name i) = (OK, ''/bench'', ''node'' @ dec i)"
proof -
  have d: "isalnum c" "c \<noteq> slash" if "c \<in> set (dec i)" for c
    using dec_digits [of i] that by (auto simp: is_digit_def isalnum_def Let_def)
  show "IsValidPath (bench_name i)" using d dec_length [of i 3] assms
    by (auto simp: bench_name_short IsValidPath_def kMaxPathSize_def list_all_iff invalidChar_def isalnum_def)
  show "SplitPath (bench_name i) = (OK, ''/bench'', ''node'' @ dec i)"
    unfolding bench_name_short [OF assms] using d by (subst SplitPath_append) auto
qed

lemma bench_create_append:
  "bench_create_loop cli (xs @ ys) s = (case bench_create_loop cli xs s of (b, s) \<Rightarrow> if b then bench_create_loop cli ys s else (False, s))"
  by (induction cli xs s rule: bench_create_loop.induct) (auto split: prod.split)

text \<open>The parent and the tree after the first \<open>k\<close> nodes.\<close>

definition bench_parent :: "Node \<Rightarrow> nat \<Rightarrow> Node" where
  "bench_parent b k = b\<lparr>nd_children := nd_children b @ map (\<lambda>i. ''node'' @ dec i) [0..<k]\<rparr>"

definition bench_tree :: "sid_t \<Rightarrow> Node \<Rightarrow> (string \<rightharpoonup> Node) \<Rightarrow> nat \<Rightarrow> (string \<rightharpoonup> Node)" where
  "bench_tree sid b t k p =
     (if p = ''/bench'' then Some (bench_parent b k)
      else if \<exists>i < k. p = bench_name i then Some (new_node [] kEphemeral sid) else t p)"

lemma bench_parent_simps: "add_child (''node'' @ dec k) (bench_parent b k) = bench_parent b (Suc k)" "is_ephemeral (bench_parent b k) = is_ephemeral b"
  "bench_parent b 0 = b"
  by (simp_all add: bench_parent_def add_child_def is_ephemeral_def)

lemma bench_tree_step:
  assumes k: "k < 1000" and b: "\<not> is_ephemeral b" and free: "t (bench_name k) = None" and root: "\<not> prefix pr (bench_name k)"
    and room: "sz (bench_parent b (Suc k)) \<le> mx"
  shows "tree_create pr mx sz (bench_tree sid b t k) (bench_name k) [] kEphemeral sid = (kOk, bench_tree sid b t (Suc k))"
proof -
  have n: "bench_name k \<noteq> ''/bench''" "\<forall>i < k. bench_name k \<noteq> bench_name i"
    using k by (auto simp: bench_name_short dec_inj)
  have "(bench_tree sid b t k)(bench_name k \<mapsto> new_node [] kEphemeral sid, ''/bench'' \<mapsto> bench_parent b (Suc k)) = bench_tree sid b t (Suc k)"
    using n by (auto simp: fun_eq_iff bench_tree_def less_Suc_eq)
  moreover have "bench_tree sid b t k (bench_name k) = None" "bench_tree sid b t k ''/bench'' = Some (bench_parent b k)"
    using n free by (auto simp: bench_tree_def)
  ultimately show ?thesis using b root room bench_name_path [OF k] unfolding tree_create_def
    by (simp add: bench_parent_simps del: append.simps)
qed

lemma bench_create_loop_passes:
  fixes cli :: "('f, Replica) ClientItf"
  assumes cli: "cli = spec_client cfg sid" and s: "ra_nodes ra sid = Some []" and b: "ra_tree ra ''/bench'' = Some b" "\<not> is_ephemeral b"
    and free: "\<forall>i < 1000. ra_tree ra (bench_name i) = None \<and> \<not> prefix (cf_root cfg) (bench_name i) \<and> cf_size cfg (bench_parent b (Suc i)) \<le> cf_max cfg"
    and k: "k \<le> 1000"
  shows "\<exists>ra' ns. bench_create_loop cli [0..<k] ra = (True, ra') \<and> ra_tree ra' = bench_tree sid b (ra_tree ra) k
    \<and> ra_nodes ra' sid = Some ns \<and> distinct ns \<and> set ns = bench_name ` {..<k}"
  using k
proof (induction k)
  case 0
  then show ?case using s b by (simp add: fun_eq_iff bench_tree_def bench_parent_simps)
next
  case (Suc k)
  then obtain ra' ns where r: "bench_create_loop cli [0..<k] ra = (True, ra')" "ra_tree ra' = bench_tree sid b (ra_tree ra) k"
    "ra_nodes ra' sid = Some ns" "distinct ns" "set ns = bench_name ` {..<k}" by auto
  have "tree_create (cf_root cfg) (cf_max cfg) (cf_size cfg) (bench_tree sid b (ra_tree ra) k) (bench_name k) [] kEphemeral sid
      = (kOk, bench_tree sid b (ra_tree ra) (Suc k))"
    using Suc.prems b(2) free by (intro bench_tree_step) auto
  then show ?case using r
    by (auto simp: cli bench_create_append spec_client_def spec_create_def kEphemeral_def ok_def mk_status_def Let_def lessThan_Suc)
qed

text \<open>The tree while the nodes \<open>I\<close> of the benchmark are still there.\<close>

definition bench_left :: "sid_t \<Rightarrow> Node \<Rightarrow> (string \<rightharpoonup> Node) \<Rightarrow> nat set \<Rightarrow> (string \<rightharpoonup> Node) \<Rightarrow> bool" where
  "bench_left sid b t I t' \<longleftrightarrow>
     (\<exists>pn. t' ''/bench'' = Some pn \<and> mset (nd_children pn) = mset (nd_children b) + image_mset (\<lambda>i. ''node'' @ dec i) (mset_set I))
     \<and> (\<forall>p. p \<noteq> ''/bench'' \<longrightarrow> t' p = (if p \<in> bench_name ` I then Some (new_node [] kEphemeral sid) else t p))"

lemma mset_drop_child: "son \<in> set (nd_children n) \<Longrightarrow> mset (nd_children (drop_child son n)) = mset (nd_children n) - {#son#}"
proof (rule multiset_eqI)
  fix x
  assume "son \<in> set (nd_children n)"
  then show "count (mset (nd_children (drop_child son n))) x = count (mset (nd_children n) - {#son#}) x"
    using drop_child_spec(2) [of son n x] by (simp add: count_mset)
qed

lemma bench_leftD:
  "bench_left sid b t I t' \<Longrightarrow> p \<noteq> ''/bench'' \<Longrightarrow> t' p = (if p \<in> bench_name ` I then Some (new_node [] kEphemeral sid) else t p)"
  unfolding bench_left_def by simp

lemma bench_left_step:
  assumes l: "bench_left sid b t I t1" and i: "i \<in> I" "i < 1000" "finite I" "I \<subseteq> {..<1000}"
    and free: "t (bench_name i) = None" and root: "\<not> prefix (cf_root cfg) (bench_name i)"
  shows "\<exists>t2. spec_destroy_node cfg sid (bench_name i) t1 = Some t2 \<and> bench_left sid b t (I - {i}) t2"
proof -
  let ?son = "''node'' @ dec i"
  obtain pn where pn: "t1 ''/bench'' = Some pn" "mset (nd_children pn) = mset (nd_children b) + image_mset (\<lambda>i. ''node'' @ dec i) (mset_set I)"
    using l by (auto simp: bench_left_def)
  have n: "bench_name i \<noteq> ''/bench''" using i(2) by (simp add: bench_name_short)
  then have "t1 (bench_name i) = Some (new_node [] kEphemeral sid)" using bench_leftD [OF l] i(1) by simp
  then have d: "spec_destroy_node cfg sid (bench_name i) t1 = Some (t1(bench_name i := None, ''/bench'' \<mapsto> drop_child ?son pn))"
    using bench_name_path [OF i(2)] root pn(1) by (simp add: spec_destroy_node_def tree_delete_def new_node_def del: append.simps)
  have m: "mset_set I = add_mset i (mset_set (I - {i}))" by (rule mset_set.remove [OF i(3,1)])
  then have "?son \<in># mset (nd_children pn)" using pn(2) by simp
  then have "?son \<in> set (nd_children pn)" by simp
  then have "mset (nd_children (drop_child ?son pn)) = mset (nd_children b) + image_mset (\<lambda>i. ''node'' @ dec i) (mset_set (I - {i}))"
    using mset_drop_child [of ?son pn] pn(2) m by simp
  moreover have "p \<in> bench_name ` (I - {i}) \<longleftrightarrow> p \<in> bench_name ` I \<and> p \<noteq> bench_name i" for p
    using i by (auto simp: bench_name_short dec_inj subset_iff)
  ultimately have "bench_left sid b t (I - {i}) (t1(bench_name i := None, ''/bench'' \<mapsto> drop_child ?son pn))"
    using l free n unfolding bench_left_def by (auto simp del: append.simps)
  then show ?thesis using d by blast
qed

lemma bench_left_fold:
  assumes "bench_left sid b t I t1" and "distinct ns" and "set ns = bench_name ` I" and "I \<subseteq> {..<1000}"
    and "\<forall>i < 1000. t (bench_name i) = None \<and> \<not> prefix (cf_root cfg) (bench_name i)"
  shows "\<exists>t2. fold_opt (spec_destroy_node cfg sid) ns t1 = Some t2 \<and> bench_left sid b t {} t2"
  using assms
proof (induction ns arbitrary: I t1)
  case (Cons n ns)
  have fin: "finite I" using Cons.prems(4) finite_subset by blast
  obtain i where i: "i \<in> I" "n = bench_name i" "i < 1000" using Cons.prems(3,4) by (metis imageE insertI1 lessThan_iff list.simps(15) subsetD)
  have "t (bench_name i) = None" "\<not> prefix (cf_root cfg) (bench_name i)" using Cons.prems(5) i(3) by auto
  from bench_left_step [OF Cons.prems(1) i(1,3) fin Cons.prems(4) this] obtain t2 where
    t2: "spec_destroy_node cfg sid n t1 = Some t2" "bench_left sid b t (I - {i}) t2" unfolding i(2) by (elim exE conjE)
  have "inj_on bench_name I" using Cons.prems(4) by (auto simp: inj_on_def bench_name_short dec_inj subset_iff)
  then have "bench_name ` (I - {i}) = bench_name ` I - {n}" using i by (simp add: inj_on_image_set_diff [of _ I])
  then have "set ns = bench_name ` (I - {i})" using Cons.prems(2,3) by auto
  with Cons.IH [OF t2(2)] Cons.prems(2,4,5) t2(1) show ?case by auto
qed simp

text \<open>
  A run of the create benchmark passes on the specification of the service and leaves nothing behind: in a new session, with the node \<^verbatim>\<open>/bench\<close> in place,
  none of its thousand nodes there yet, and room in \<^verbatim>\<open>/bench\<close> for their names, every call succeeds, the nodes are there with the session as their
  owner, and deleting the client, which unregisters the session, gives the tree back, up to the order of the children.
\<close>

theorem bench_Create_passes:
  fixes cli :: "('f, Replica) ClientItf"
  assumes "cli = spec_client cfg sid" and "ra_nodes ra sid = Some []" and "ra_tree ra ''/bench'' = Some b" and "\<not> is_ephemeral b"
    and "\<forall>i < 1000. ra_tree ra (bench_name i) = None \<and> \<not> prefix (cf_root cfg) (bench_name i) \<and> cf_size cfg (bench_parent b (Suc i)) \<le> cf_max cfg"
  shows "\<exists>ra' ra'' b'. bench_Create cli ra = (True, ra') \<and> ra_tree ra' = bench_tree sid b (ra_tree ra) 1000
    \<and> bench_TearDown False (spec_unregister cfg sid) ra' = Some ra'' \<and> ra_tree ra'' = (ra_tree ra)(''/bench'' \<mapsto> b')
    \<and> mset (nd_children b') = mset (nd_children b) \<and> ra_nodes ra'' sid = None"
proof -
  let ?I = "{..<1000} :: nat set"
  obtain ra' ns where c: "bench_create_loop cli [0..<1000] ra = (True, ra')" "ra_tree ra' = bench_tree sid b (ra_tree ra) 1000"
    "ra_nodes ra' sid = Some ns" "distinct ns" "set ns = bench_name ` ?I"
    using bench_create_loop_passes [OF assms, of 1000] by blast
  have "bench_left sid b (ra_tree ra) ?I (ra_tree ra')"
    unfolding bench_left_def c(2) bench_tree_def bench_parent_def by (auto simp: lessThan_atLeast0 simp flip: mset_upt)
  from bench_left_fold [OF this c(4,5)] assms(5) obtain t where t: "fold_opt (spec_destroy_node cfg sid) ns (ra_tree ra') = Some t"
    "bench_left sid b (ra_tree ra) {} t" by blast
  obtain b' where "t ''/bench'' = Some b'" "mset (nd_children b') = mset (nd_children b)" using t(2) by (auto simp: bench_left_def)
  moreover from this have "t = (ra_tree ra)(''/bench'' \<mapsto> b')" using t(2) by (auto simp: bench_left_def fun_eq_iff)
  ultimately show ?thesis using c t(1) by (auto simp: bench_Create_def bench_TearDown_def spec_unregister_def)
qed

text \<open>The read benchmark, likewise: its node is created, and ten thousand reads of it succeed and change nothing.\<close>

lemma bench_read_loop_passes:
  assumes "ra_tree ra ''/bench/read'' = Some n"
  shows "bench_read_loop (spec_client cfg sid) node k ra = (True, ra)"
  using assms by (induction k) (simp_all add: spec_client_def)

theorem bench_Read_passes:
  fixes cli :: "('f, Replica) ClientItf"
  assumes "ra_nodes ra sid = Some ns" and "ra_tree ra ''/bench'' = Some b" and "\<not> is_ephemeral b" and "ra_tree ra ''/bench/read'' = None"
    and "\<not> prefix (cf_root cfg) ''/bench/read''" and "cf_size cfg (add_child ''read'' b) \<le> cf_max cfg" and cli: "cli = spec_client cfg sid"
  shows "\<exists>ra'. bench_Read cli node ra = (True, ra')
    \<and> ra_tree ra' = (ra_tree ra)(''/bench/read'' \<mapsto> new_node [] kEphemeral sid, ''/bench'' \<mapsto> add_child ''read'' b)"
proof -
  let ?t = "(ra_tree ra)(''/bench/read'' \<mapsto> new_node [] kEphemeral sid, ''/bench'' \<mapsto> add_child ''read'' b)"
  have "SplitPath ''/bench/read'' = (OK, ''/bench'', ''read'')" using SplitPath_append [of "''read''" "''/bench''"] by simp
  moreover have "IsValidPath ''/bench/read''" by (simp add: IsValidPath_def kMaxPathSize_def invalidChar_def isalnum_def Let_def)
  ultimately have t: "tree_create (cf_root cfg) (cf_max cfg) (cf_size cfg) (ra_tree ra) ''/bench/read'' [] kEphemeral sid = (kOk, ?t)"
    using assms(2-6) by (simp add: tree_create_def)
  then obtain ra' where c: "it_Create cli kEphemeral ''/bench/read'' [] ra = (mk_status kOk [], ra')" "ra_tree ra' = ?t"
    using assms(1) by (auto simp: cli spec_client_def spec_create_def Let_def)
  then have "bench_read_loop cli node 10000 ra' = (True, ra')" unfolding cli by (intro bench_read_loop_passes) auto
  then show ?thesis using c by (simp add: bench_Read_def ok_def mk_status_def)
qed

end
