(* ===== verification/Channel.thy ===== *)
theory Channel
  imports Prelude
begin

text \<open>
  \<^verbatim>\<open>base/channel.h\<close>: the bounded queue between threads. A call holds the mutex from its start to
  its end, except while it waits on a condition variable; so \<^verbatim>\<open>Put\<close> is two steps when the queue
  is full: it enters and waits, and it resumes when it finds room. The eventfd is its counter
  (\<^verbatim>\<open>EFD_SEMAPHORE\<close>: a read takes one), which a selector polls. \<open>None\<close> is a failing \<^verbatim>\<open>PCHECK\<close>.
\<close>

record 'a Channel =
  ch_size :: nat
  ch_queue :: "'a list"
  ch_closed :: bool
  ch_efd :: nat
  ch_putters :: "'a list"

definition Channel_new :: "nat \<Rightarrow> 'a Channel" where
  "Channel_new sz =
     \<lparr>ch_size = sz, ch_queue = [], ch_closed = False, ch_efd = 0, ch_putters = []\<rparr>"

text \<open>What a call has come to: it returned its result, or it waits.\<close>

datatype 'r outcome = Returned_val 'r | Waits

text \<open>The end of \<^verbatim>\<open>Put\<close>, with room in the queue. Writing to the eventfd fails when it is closed.\<close>

definition push :: "'a \<Rightarrow> 'a Channel \<Rightarrow> 'a Channel option" where
  "push x ch =
     (if ch_closed ch then None
      else Some (ch\<lparr>ch_queue := ch_queue ch @ [x], ch_efd := ch_efd ch + 1\<rparr>))"

definition Channel_Put :: "'a \<Rightarrow> 'a Channel \<Rightarrow> (bool outcome \<times> 'a Channel) option" where
  "Channel_Put x ch =
     (if ch_closed ch then Some (Returned_val False, ch)
      else if length (ch_queue ch) \<ge> ch_size ch then Some (Waits, ch\<lparr>ch_putters := ch_putters ch @ [x]\<rparr>)
      else do { ch \<leftarrow> push x ch; Some (Returned_val True, ch) })"

text \<open>A waiting \<^verbatim>\<open>Put\<close>, the \<open>i\<close>-th to have begun, wakes up: the loop tests the size again, and
  nothing tests \<^verbatim>\<open>closed_\<close>.\<close>

definition Put_resume :: "nat \<Rightarrow> 'a Channel \<Rightarrow> (bool outcome \<times> 'a Channel) option" where
  "Put_resume i ch =
     (if i \<ge> length (ch_putters ch) \<or> length (ch_queue ch) \<ge> ch_size ch then Some (Waits, ch)
      else do {
        ch' \<leftarrow> push (ch_putters ch ! i) ch;
        Some (Returned_val True, ch'\<lparr>ch_putters := take i (ch_putters ch) @ drop (i + 1) (ch_putters ch)\<rparr>) })"

text \<open>\<^verbatim>\<open>Take\<close> returns what it stored into \<^verbatim>\<open>*t\<close>, or nothing. The read from the eventfd would
  block, with the mutex held, if the counter were zero; that is \<open>Waits\<close> too.\<close>

definition Channel_Take :: "'a Channel \<Rightarrow> 'a option outcome \<times> 'a Channel" where
  "Channel_Take ch = (case ch_queue ch of
       [] \<Rightarrow> if ch_closed ch then (Returned_val None, ch) else (Waits, ch)
     | x # rest \<Rightarrow>
         if ch_closed ch then (Returned_val (Some x), ch\<lparr>ch_queue := rest\<rparr>)
         else if ch_efd ch = 0 then (Waits, ch)
         else (Returned_val (Some x), ch\<lparr>ch_queue := rest, ch_efd := ch_efd ch - 1\<rparr>))"

definition Channel_Close :: "'a Channel \<Rightarrow> 'a Channel" where
  "Channel_Close ch = ch\<lparr>ch_closed := True\<rparr>"

definition Channel_Empty :: "'a Channel \<Rightarrow> bool" where
  "Channel_Empty ch \<longleftrightarrow> ch_queue ch = []"

definition Channel_IsReadable :: "'a Channel \<Rightarrow> bool" where
  "Channel_IsReadable ch \<longleftrightarrow> ch_queue ch \<noteq> []"

text \<open>\<^verbatim>\<open>Size\<close> returns a \<^verbatim>\<open>bool\<close>.\<close>

definition Channel_Size :: "'a Channel \<Rightarrow> bool" where
  "Channel_Size ch \<longleftrightarrow> length (ch_queue ch) \<noteq> 0"

subsection \<open>Threads on a channel\<close>

text \<open>One step of some thread, with the element it put into the queue or took out of it.\<close>

datatype 'a chan_event = Puts 'a | Takes 'a | Silent

inductive chan_step :: "'a Channel \<Rightarrow> 'a chan_event \<Rightarrow> 'a Channel \<Rightarrow> bool" where
  put: "Channel_Put x ch = Some (Returned_val True, ch') \<Longrightarrow> chan_step ch (Puts x) ch'"
| put_waits: "Channel_Put x ch = Some (Waits, ch') \<Longrightarrow> chan_step ch Silent ch'"
| put_refused: "Channel_Put x ch = Some (Returned_val False, ch') \<Longrightarrow> chan_step ch Silent ch'"
| resume: "i < length (ch_putters ch) \<Longrightarrow> Put_resume i ch = Some (Returned_val True, ch')
    \<Longrightarrow> chan_step ch (Puts (ch_putters ch ! i)) ch'"
| tak: "Channel_Take ch = (Returned_val (Some x), ch') \<Longrightarrow> chan_step ch (Takes x) ch'"
| close: "chan_step ch Silent (Channel_Close ch)"

inductive chan_run :: "'a Channel \<Rightarrow> 'a chan_event list \<Rightarrow> 'a Channel \<Rightarrow> bool" where
  refl: "chan_run ch [] ch"
| step: "chan_run ch es ch' \<Longrightarrow> chan_step ch' e ch'' \<Longrightarrow> chan_run ch (es @ [e]) ch''"

fun puts_of :: "'a chan_event list \<Rightarrow> 'a list" where
  "puts_of [] = []" | "puts_of (Puts x # es) = x # puts_of es" | "puts_of (_ # es) = puts_of es"

fun takes_of :: "'a chan_event list \<Rightarrow> 'a list" where
  "takes_of [] = []" | "takes_of (Takes x # es) = x # takes_of es" | "takes_of (_ # es) = takes_of es"

lemma puts_of_append [simp]: "puts_of (a @ b) = puts_of a @ puts_of b"
  by (induction a rule: puts_of.induct) auto

lemma takes_of_append [simp]: "takes_of (a @ b) = takes_of a @ takes_of b"
  by (induction a rule: takes_of.induct) auto

definition chan_inv :: "'a Channel \<Rightarrow> bool" where
  "chan_inv ch \<longleftrightarrow> length (ch_queue ch) \<le> ch_size ch
     \<and> (\<not> ch_closed ch \<longrightarrow> ch_efd ch = length (ch_queue ch))"

lemma chan_step_effect:
  assumes "chan_step ch e ch'" and "chan_inv ch"
  shows "chan_inv ch' \<and> ch_size ch' = ch_size ch
    \<and> takes_of [e] @ ch_queue ch' = ch_queue ch @ puts_of [e]"
  using assms
  by (cases rule: chan_step.cases)
    (auto simp: chan_inv_def Channel_Put_def Put_resume_def push_def Channel_Take_def Channel_Close_def
      split: if_splits list.splits)

lemma chan_run_effect:
  assumes "chan_run ch es ch'" and "chan_inv ch"
  shows "chan_inv ch' \<and> ch_size ch' = ch_size ch \<and> takes_of es @ ch_queue ch' = ch_queue ch @ puts_of es"
  using assms
proof (induction rule: chan_run.induct)
  case (step ch es ch' e ch'')
  then have ih: "chan_inv ch'" "ch_size ch' = ch_size ch" "takes_of es @ ch_queue ch' = ch_queue ch @ puts_of es"
    by blast+
  with chan_step_effect [OF step.hyps(2) ih(1)] show ?case
    by (metis append_assoc puts_of_append takes_of_append)
qed simp

lemma Channel_new_inv: "chan_inv (Channel_new sz)"
  by (simp add: chan_inv_def Channel_new_def)

text \<open>
  C21. A channel is a bounded first-in first-out queue for any interleaving of its threads:
  what has been taken, followed by what is in the queue, is what has been put, in that order;
  the queue never exceeds the channel's size; and while the channel is open its eventfd counts
  exactly the elements in the queue, so that a selector finds it readable just when a \<^verbatim>\<open>Take\<close>
  would not block.
\<close>

theorem channel_fifo:
  assumes "chan_run (Channel_new sz) es ch"
  shows "takes_of es @ ch_queue ch = puts_of es \<and> length (ch_queue ch) \<le> sz
    \<and> (\<not> ch_closed ch \<longrightarrow> ch_efd ch = length (ch_queue ch) \<and> (ch_efd ch > 0 \<longleftrightarrow> Channel_IsReadable ch)
         \<and> (Channel_IsReadable ch \<longleftrightarrow> fst (Channel_Take ch) \<noteq> Waits))"
  using chan_run_effect [OF assms Channel_new_inv]
  by (auto simp: Channel_new_def chan_inv_def Channel_IsReadable_def Channel_Take_def split: list.splits)

text \<open>
  A closed channel can still be read to its end: after \<^verbatim>\<open>Close\<close>, \<^verbatim>\<open>Take\<close> returns the
  elements that are left, in order, and then reports the end; it never waits, and \<^verbatim>\<open>Put\<close> is
  refused.
\<close>

fun take_all :: "nat \<Rightarrow> 'a Channel \<Rightarrow> 'a option outcome list" where
  "take_all 0 ch = []"
| "take_all (Suc n) ch = (case Channel_Take ch of (r, ch') \<Rightarrow> r # take_all n ch')"

theorem closed_channel_drains:
  "take_all (Suc (length (ch_queue ch))) (Channel_Close ch) =
     map (\<lambda>x. Returned_val (Some x)) (ch_queue ch) @ [Returned_val None]
   \<and> Channel_Put x (Channel_Close ch) = Some (Returned_val False, Channel_Close ch)"
proof -
  have "take_all (Suc (length (ch_queue c))) c =
      map (\<lambda>x. Returned_val (Some x)) (ch_queue c) @ [Returned_val None]" if "ch_closed c" for c :: "'a Channel"
    using that
  proof (induction "ch_queue c" arbitrary: c)
    case Nil
    then show ?case by (simp add: Channel_Take_def)
  next
    case (Cons x q)
    have "take_all (Suc (length (ch_queue (c\<lparr>ch_queue := q\<rparr>)))) (c\<lparr>ch_queue := q\<rparr>) =
        map (\<lambda>x. Returned_val (Some x)) (ch_queue (c\<lparr>ch_queue := q\<rparr>)) @ [Returned_val None]"
      by (rule Cons.hyps(1)) (use Cons.prems in simp_all)
    with Cons.hyps(2) [symmetric] Cons.prems show ?case
      by (simp add: Channel_Take_def)
  qed
  from this [of "Channel_Close ch"] show ?thesis
    by (simp add: Channel_Close_def Channel_Put_def)
qed

text \<open>
  A \<^verbatim>\<open>Put\<close> that waits for room does not notice that the channel is closed: when the channel
  is closed while it waits and a reader then makes room, the \<^verbatim>\<open>Put\<close> resumes, writes to the closed
  eventfd, and the program aborts.
\<close>

theorem blocked_put_aborts:
  assumes "\<not> ch_closed ch" and "length (ch_queue ch) = ch_size ch" and "ch_size ch > 0"
    and "ch_putters ch = []" and "chan_inv ch"
  shows "\<exists>ch1 y ch2. Channel_Put x ch = Some (Waits, ch1)
    \<and> Channel_Take (Channel_Close ch1) = (Returned_val (Some y), ch2) \<and> Put_resume 0 ch2 = None"
  using assms
  by (cases "ch_queue ch") (auto simp: Channel_Put_def Channel_Take_def Channel_Close_def Put_resume_def push_def)

subsection \<open>The interface the loops rely on\<close>

text \<open>What the server's loops use of a channel: putting appends, taking removes the first
  element. The channel meets it while it is open and has room; the server's model keeps the
  channel as the list of its elements, which meets it too.\<close>

locale fifo =
  fixes elems :: "'c \<Rightarrow> 'a list" and put :: "'a \<Rightarrow> 'c \<Rightarrow> 'c option" and get :: "'c \<Rightarrow> ('a \<times> 'c) option"
    and good :: "'c \<Rightarrow> bool"
  assumes put_elems: "good c \<Longrightarrow> put x c = Some c' \<Longrightarrow> good c' \<and> elems c' = elems c @ [x]"
    and get_elems: "good c \<Longrightarrow> get c = (case elems c of [] \<Rightarrow> None | x # _ \<Rightarrow> Some (x, snd (the (get c))))"
    and get_good: "good c \<Longrightarrow> get c = Some (x, c') \<Longrightarrow> good c' \<and> elems c = x # elems c'"
begin

lemma put_all_elems:
  "good c \<Longrightarrow> fold_opt put xs c = Some c' \<Longrightarrow> good c' \<and> elems c' = elems c @ xs"
proof (induction xs arbitrary: c)
  case (Cons x xs)
  then obtain c1 where c1: "put x c = Some c1" "fold_opt put xs c1 = Some c'" by (auto split: bind_splits)
  from put_elems [OF Cons.prems(1) c1(1)] have "good c1" "elems c1 = elems c @ [x]" by simp_all
  with Cons.IH [OF this(1) c1(2)] show ?case by simp
qed simp

text \<open>An element put into an empty channel, with others after it, is the one that comes out.\<close>

lemma first_put_first_got:
  assumes "good c" and "elems c = []" and "fold_opt put (x # xs) c = Some c'"
  shows "\<exists>c''. get c' = Some (x, c'') \<and> good c'' \<and> elems c'' = xs"
proof -
  from put_all_elems [OF assms(1,3)] have "good c'" and e: "elems c' = x # xs" using assms(2) by simp_all
  then have "get c' = Some (x, snd (the (get c')))" using get_elems [of c'] by simp
  with get_good [OF \<open>good c'\<close> this] e show ?thesis by auto
qed

end

definition chan_put :: "'a \<Rightarrow> 'a Channel \<Rightarrow> 'a Channel option" where
  "chan_put x ch = (case Channel_Put x ch of Some (Returned_val True, ch') \<Rightarrow> Some ch' | _ \<Rightarrow> None)"

definition chan_get :: "'a Channel \<Rightarrow> ('a \<times> 'a Channel) option" where
  "chan_get ch = (case Channel_Take ch of (Returned_val (Some x), ch') \<Rightarrow> Some (x, ch') | _ \<Rightarrow> None)"

definition list_get :: "'a list \<Rightarrow> ('a \<times> 'a list) option" where
  "list_get q = (case q of [] \<Rightarrow> None | x # r \<Rightarrow> Some (x, r))"

interpretation ch: fifo ch_queue chan_put chan_get chan_inv
  by unfold_locales
    (auto simp: chan_put_def chan_get_def Channel_Put_def Channel_Take_def push_def chan_inv_def
      split: if_splits list.splits option.splits outcome.splits bool.splits bind_splits)

interpretation ls: fifo "\<lambda>q. q" "\<lambda>x q. Some (q @ [x])" list_get "\<lambda>_. True"
  by unfold_locales (auto simp: list_get_def split: list.splits)

text \<open>The witnesses.\<close>

theorem channel_fifo_witness:
  "\<exists>ch. chan_run (Channel_new 3) [Puts (3 :: nat), Puts 5, Puts 7, Takes 3] ch \<and> ch_queue ch = [5, 7] \<and> \<not> ch_closed ch \<and> ch_efd ch = 2"
proof -
  define c1 where "c1 = (Channel_new 3)\<lparr>ch_queue := [3 :: nat], ch_efd := 1\<rparr>"
  define c2 where "c2 = (Channel_new 3)\<lparr>ch_queue := [3 :: nat, 5], ch_efd := 2\<rparr>"
  define c3 where "c3 = (Channel_new 3)\<lparr>ch_queue := [3 :: nat, 5, 7], ch_efd := 3\<rparr>"
  define c4 where "c4 = (Channel_new 3)\<lparr>ch_queue := [5 :: nat, 7], ch_efd := 2\<rparr>"
  have "chan_step (Channel_new 3) (Puts 3) c1" "chan_step c1 (Puts 5) c2" "chan_step c2 (Puts 7) c3" "chan_step c3 (Takes 3) c4"
    by (auto intro!: chan_step.put chan_step.tak
        simp: c1_def c2_def c3_def c4_def Channel_new_def Channel_Put_def push_def Channel_Take_def)
  from chan_run.step [OF chan_run.step [OF chan_run.step [OF chan_run.step [OF chan_run.refl this(1)] this(2)] this(3)] this(4)]
  have run: "chan_run (Channel_new 3) [Puts (3 :: nat), Puts 5, Puts 7, Takes 3] c4" by simp
  moreover have "\<not> ch_closed c4" by (simp add: c4_def Channel_new_def)
  ultimately show ?thesis using channel_fifo [OF run] by auto
qed

theorem blocked_put_aborts_witness:
  "\<exists>ch1 y ch2. Channel_Put (7 :: nat) ((Channel_new 1)\<lparr>ch_queue := [3], ch_efd := 1\<rparr>) = Some (Waits, ch1)
    \<and> Channel_Take (Channel_Close ch1) = (Returned_val (Some y), ch2) \<and> Put_resume 0 ch2 = None"
  by (rule blocked_put_aborts) (simp_all add: Channel_new_def chan_inv_def)

end
