(* ===== verification/Selector.thy ===== *)
theory Selector
  imports Containers
begin

text \<open>
  \<^verbatim>\<open>base/selectable.h\<close>, \<^verbatim>\<open>base/selector.h\<close> and \<^verbatim>\<open>base/selector.cc\<close>: waiting for one of several
  channels and timers. What \<^verbatim>\<open>poll\<close> answers, call after call, and how \<^verbatim>\<open>std::random_shuffle\<close> orders
  the ready ones, are arguments. \<open>None\<close> is a failing \<^verbatim>\<open>CHECK\<close>, or a call that does not return
  because \<^verbatim>\<open>poll\<close> keeps being interrupted.
\<close>

record Selectable =
  sl_obj :: nat
  sl_Fd :: int

record Selector =
  se_pollfdList :: "int list"
  se_selectableMap :: "(int, Selectable) omap"

definition Selector_new :: Selector where
  "Selector_new = \<lparr>se_pollfdList = [], se_selectableMap = []\<rparr>"

definition Selector_Register :: "Selectable option \<Rightarrow> Selector \<Rightarrow> Selector" where
  "Selector_Register s sel = (case s of
       None \<Rightarrow> sel
     | Some s \<Rightarrow> sel\<lparr>se_pollfdList := se_pollfdList sel @ [sl_Fd s],
                    se_selectableMap := om_put (sl_Fd s) s (se_selectableMap sel)\<rparr>)"

definition Selector_Reset :: "Selector \<Rightarrow> Selector" where
  "Selector_Reset sel = sel\<lparr>se_pollfdList := [], se_selectableMap := []\<rparr>"

text \<open>One answer of \<^verbatim>\<open>poll\<close>: interrupted, another error, or the number of ready descriptors with
  every descriptor's \<^verbatim>\<open>revents\<close>.\<close>

datatype poll_answer = Poll_EINTR | Poll_error | Poll_ready nat "int list"

fun poll_loop :: "poll_answer list \<Rightarrow> (nat \<times> int list) option" where
  "poll_loop [] = None"
| "poll_loop (Poll_EINTR # as) = poll_loop as"
| "poll_loop (Poll_error # as) = None"
| "poll_loop (Poll_ready n revents # as) = Some (n, revents)"

text \<open>\<^verbatim>\<open>selectableMap_[pfd->fd]\<close> is a null pointer when the descriptor is not registered.\<close>

definition ready_list :: "Selector \<Rightarrow> int list \<Rightarrow> Selectable option list" where
  "ready_list sel revents =
     map (\<lambda>(fd, r). om_find (se_selectableMap sel) fd) (filter (\<lambda>(fd, r). r > 0) (zip (se_pollfdList sel) revents))"

definition Selector_Select ::
  "(Selectable option list \<Rightarrow> Selectable option list) \<Rightarrow> poll_answer list \<Rightarrow> Selector
     \<Rightarrow> (nat \<times> Selectable option list) option" where
  "Selector_Select shuffle as sel = do {
     (n, revents) \<leftarrow> poll_loop as;
     if n = 0 then Some (0, []) else Some (n, shuffle (ready_list sel revents)) }"

definition Selector_Poll :: "Selectable option \<Rightarrow> poll_answer list \<Rightarrow> nat option" where
  "Selector_Poll s as = (case s of
       None \<Rightarrow> Some 0
     | Some s \<Rightarrow> do {
         (n, revents) \<leftarrow> poll_loop as;
         if n = 0 then Some 0 else if n = 1 then Some n else None })"

text \<open>\<^verbatim>\<open>Wait\<close>: the first of the ready ones; \<open>Some None\<close> is the null pointer.\<close>

definition Selector_Wait ::
  "(Selectable option list \<Rightarrow> Selectable option list) \<Rightarrow> poll_answer list \<Rightarrow> Selector
     \<Rightarrow> Selectable option option" where
  "Selector_Wait shuffle as sel = do {
     (n, l) \<leftarrow> Selector_Select shuffle as sel;
     if n = 0 then Some None else (case l of [] \<Rightarrow> None | s # _ \<Rightarrow> Some s) }"

subsection \<open>What is chosen is ready\<close>

text \<open>The objects that were registered, and the one that a descriptor stands for: the last of them.\<close>

definition registered :: "Selectable option list \<Rightarrow> Selectable list" where
  "registered ss = List.map_filter (\<lambda>s. s) ss"

definition object_of :: "Selectable option list \<Rightarrow> int \<Rightarrow> Selectable option" where
  "object_of ss fd = find (\<lambda>s. sl_Fd s = fd) (rev (registered ss))"

lemma registered_simps [simp]:
  "registered [] = []" "registered (ss @ [None]) = registered ss" "registered (ss @ [Some s]) = registered ss @ [s]"
  by (simp_all add: registered_def map_filter_def)

lemma object_of_simps [simp]:
  "object_of [] fd = None" "object_of (ss @ [None]) fd = object_of ss fd"
  "object_of (ss @ [Some s]) fd = (if sl_Fd s = fd then Some s else object_of ss fd)"
  by (simp_all add: object_of_def)

lemma registered_mem: "s \<in> set (registered ss) \<longleftrightarrow> Some s \<in> set ss"
  by (force simp: registered_def map_filter_def)

lemma object_of_registered: "object_of ss fd = Some s \<Longrightarrow> Some s \<in> set ss \<and> sl_Fd s = fd"
  unfolding object_of_def find_Some_iff by (metis nth_mem registered_mem set_rev)

lemma register_all:
  "se_pollfdList (fold Selector_Register ss Selector_new) = map sl_Fd (registered ss)"
  "om_find (se_selectableMap (fold Selector_Register ss Selector_new)) = object_of ss"
proof (induction ss rule: rev_induct)
  case (snoc x xs)
  { case 1 show ?case using snoc(1) by (cases x) (simp_all add: Selector_Register_def) }
  { case 2 show ?case using snoc(2) by (cases x) (auto simp: Selector_Register_def fun_eq_iff) }
qed (simp_all add: Selector_new_def fun_eq_iff)

lemma object_of_fd: "s \<in> set (registered ss) \<Longrightarrow> \<exists>s'. object_of ss (sl_Fd s) = Some s'"
  by (cases "object_of ss (sl_Fd s)") (auto simp: object_of_def find_None_iff)

text \<open>What \<^verbatim>\<open>poll\<close> promises when it returns with ready descriptors.\<close>

definition poll_ok :: "Selector \<Rightarrow> nat \<Rightarrow> int list \<Rightarrow> bool" where
  "poll_ok sel n revents \<longleftrightarrow> length revents = length (se_pollfdList sel) \<and> (\<forall>r \<in> set revents. r \<ge> 0)
     \<and> n = length (filter (\<lambda>r. r \<noteq> 0) revents)"

lemma poll_loop_intr: "poll_loop (replicate k Poll_EINTR @ Poll_ready n revents # as) = Some (n, revents)"
  by (induction k) auto

text \<open>A registered object whose descriptor was reported as ready.\<close>

definition is_ready :: "Selectable option list \<Rightarrow> int list \<Rightarrow> Selectable \<Rightarrow> bool" where
  "is_ready ss revents s \<longleftrightarrow> object_of ss (sl_Fd s) = Some s
     \<and> (\<exists>i < length revents. i < length (registered ss) \<and> sl_Fd (registered ss ! i) = sl_Fd s \<and> revents ! i > 0)"

lemma ready_list_iff:
  assumes "sel = fold Selector_Register ss Selector_new"
  shows "x \<in> set (ready_list sel revents) \<longleftrightarrow> (\<exists>s. x = Some s \<and> is_ready ss revents s)"
proof -
  note r = register_all [of ss, folded assms]
  have "set (ready_list sel revents) = (\<lambda>(fd, r). object_of ss fd) ` {y \<in> set (zip (map sl_Fd (registered ss)) revents). snd y > 0}"
    by (simp add: ready_list_def r case_prod_beta)
  then have "x \<in> set (ready_list sel revents) \<longleftrightarrow>
      (\<exists>i < length revents. i < length (registered ss) \<and> revents ! i > 0 \<and> x = object_of ss (sl_Fd (registered ss ! i)))"
    by (simp add: set_zip image_iff Bex_def) (metis (no_types, lifting) fst_conv nth_map snd_conv)
  also have "\<dots> \<longleftrightarrow> (\<exists>s. x = Some s \<and> is_ready ss revents s)"
  proof
    assume "\<exists>i < length revents. i < length (registered ss) \<and> revents ! i > 0 \<and> x = object_of ss (sl_Fd (registered ss ! i))"
    then obtain i where i: "i < length revents" "i < length (registered ss)" "revents ! i > 0" "x = object_of ss (sl_Fd (registered ss ! i))" by blast
    obtain s where s: "x = Some s" using object_of_fd [OF nth_mem [OF i(2)]] i(4) by auto
    then have "sl_Fd s = sl_Fd (registered ss ! i)" using object_of_registered [of ss _ s] i(4) by auto
    then show "\<exists>s. x = Some s \<and> is_ready ss revents s" using i s unfolding is_ready_def by metis
  next
    assume "\<exists>s. x = Some s \<and> is_ready ss revents s"
    then show "\<exists>i < length revents. i < length (registered ss) \<and> revents ! i > 0 \<and> x = object_of ss (sl_Fd (registered ss ! i))"
      unfolding is_ready_def by metis
  qed
  finally show ?thesis .
qed

lemma ready_list_length:
  assumes "poll_ok sel n revents"
  shows "length (ready_list sel revents) = n"
proof -
  have "length (filter (\<lambda>(fd, r). r > 0) (zip fds rs)) = length (filter (\<lambda>r. r \<noteq> 0) rs)"
    if "length rs = length fds" "\<forall>r \<in> set rs. r \<ge> 0" for fds :: "int list" and rs :: "int list"
    using that by (induction fds rs rule: list_induct2') auto
  then show ?thesis using assms by (simp add: poll_ok_def ready_list_def)
qed

text \<open>
  C32. What \<^verbatim>\<open>Wait\<close> chooses is ready: with any channels and timers registered, however often
  \<^verbatim>\<open>poll\<close> is interrupted before it reports ready descriptors, and however they are shuffled, \<^verbatim>\<open>Wait\<close>
  returns one of the objects that were registered, the last one under its descriptor, and \<^verbatim>\<open>poll\<close> reported that descriptor as ready; it never returns a null
  pointer. Each ready object is returned by some shuffle.
\<close>

theorem Wait_chooses_ready:
  assumes "sel = fold Selector_Register ss Selector_new" and "poll_ok sel n revents" and "n > 0"
    and "\<And>l. mset (shuffle l) = mset l"
  shows "(\<exists>s. Selector_Wait shuffle (replicate k Poll_EINTR @ Poll_ready n revents # as) sel = Some (Some s)
      \<and> Some s \<in> set ss \<and> is_ready ss revents s)
    \<and> (\<forall>s. is_ready ss revents s \<longrightarrow> (\<exists>sh. (\<forall>l. mset (sh l) = mset l)
        \<and> Selector_Wait sh (replicate k Poll_EINTR @ Poll_ready n revents # as) sel = Some (Some s)))"
proof -
  have wait: "Selector_Wait sh (replicate k Poll_EINTR @ Poll_ready n revents # as) sel =
      (case sh (ready_list sel revents) of [] \<Rightarrow> None | s # _ \<Rightarrow> Some s)" for sh
    using assms(3) by (simp add: Selector_Wait_def Selector_Select_def poll_loop_intr)
  have ne: "ready_list sel revents \<noteq> []" using ready_list_length [OF assms(2)] assms(3) by auto
  have "shuffle (ready_list sel revents) \<noteq> []" using assms(4) [of "ready_list sel revents"] ne by auto
  then obtain x l where x: "shuffle (ready_list sel revents) = x # l" by (cases "shuffle (ready_list sel revents)") auto
  then have "x \<in> set (ready_list sel revents)"
    using assms(4) [of "ready_list sel revents"] by (metis list.set_intros(1) set_mset_mset)
  then obtain s where s: "x = Some s" "is_ready ss revents s" using ready_list_iff [OF assms(1)] by blast
  then have "Some s \<in> set ss" using object_of_registered unfolding is_ready_def by blast
  with s have 1: "\<exists>s. Selector_Wait shuffle (replicate k Poll_EINTR @ Poll_ready n revents # as) sel = Some (Some s)
      \<and> Some s \<in> set ss \<and> is_ready ss revents s" unfolding wait x by auto
  have 2: "\<exists>sh. (\<forall>l. mset (sh l) = mset l) \<and>
      Selector_Wait sh (replicate k Poll_EINTR @ Poll_ready n revents # as) sel = Some (Some s)" if "is_ready ss revents s" for s
  proof -
    have y: "Some s \<in> set (ready_list sel revents)" using ready_list_iff [OF assms(1)] that by blast
    let ?sh = "\<lambda>l. if Some s \<in> set l then Some s # remove1 (Some s) l else l"
    have "\<forall>l. mset (?sh l) = mset l" by simp
    moreover have "Selector_Wait ?sh (replicate k Poll_EINTR @ Poll_ready n revents # as) sel = Some (Some s)"
      unfolding wait using y by simp
    ultimately show ?thesis by (intro exI [of _ ?sh] conjI)
  qed
  from 1 2 show ?thesis by blast
qed

theorem Wait_chooses_ready_witness:
  "Selector_Wait rev (replicate 3 Poll_EINTR @ [Poll_ready 1 [0, 1]])
     (fold Selector_Register [Some \<lparr>sl_obj = 1, sl_Fd = 5\<rparr>, None, Some \<lparr>sl_obj = 2, sl_Fd = 7\<rparr>] Selector_new)
     = Some (Some \<lparr>sl_obj = 2, sl_Fd = 7\<rparr>)"
proof -
  let ?ss = "[Some \<lparr>sl_obj = 1, sl_Fd = 5\<rparr>, None, Some \<lparr>sl_obj = 2, sl_Fd = 7\<rparr>]"
  let ?sel = "fold Selector_Register ?ss Selector_new"
  have g: "registered ?ss = [\<lparr>sl_obj = 1, sl_Fd = 5\<rparr>, \<lparr>sl_obj = 2, sl_Fd = 7\<rparr>]" by (simp add: registered_def map_filter_def)
  have p: "poll_ok ?sel 1 [0, 1]" unfolding poll_ok_def register_all(1) g by simp
  have m: "mset (rev l) = mset l" for l :: "Selectable option list" by simp
  obtain s where w: "Selector_Wait rev (replicate 3 Poll_EINTR @ Poll_ready 1 [0, 1] # []) ?sel = Some (Some s)"
    "Some s \<in> set ?ss" "is_ready ?ss [0, 1] s"
    using Wait_chooses_ready [OF refl p _ m, of 3 "[]"] by auto
  have "sl_Fd s = 7" using w(3) unfolding is_ready_def g by (auto simp: less_Suc_eq nth_Cons')
  then have "s = \<lparr>sl_obj = 2, sl_Fd = 7\<rparr>" using w(2) by auto
  then show ?thesis using w(1) by simp
qed

end
