(* ===== verification/Timer.thy ===== *)
theory Timer
  imports Session_Timers Selector
begin

text \<open>
  \<^verbatim>\<open>base/timer.h\<close>: a timerfd that is set to a point in time, and the leader's session timer.
  \<^verbatim>\<open>timerfd_settime\<close> with a zero value disarms the timer; with a negative one it fails. The
  difference of two times, \<^verbatim>\<open>muduo::timeDifference\<close>, is an argument.
\<close>

record Timer =
  tm_fd :: int
  tm_sec :: int
  tm_nsec :: int
  tm_ticks :: nat

text \<open>The descriptor comes from \<^verbatim>\<open>timerfd_create\<close>. The kernel counts the expirations that were not read.\<close>

definition Timer_new :: "int \<Rightarrow> Timer option" where
  "Timer_new fd = (if fd > 0 then Some \<lparr>tm_fd = fd, tm_sec = 0, tm_nsec = 0, tm_ticks = 0\<rparr> else None)"

definition Timer_After :: "int \<Rightarrow> Timer \<Rightarrow> Timer option" where
  "Timer_After ms t =
     (if ms < 0 then None
      else Some (t\<lparr>tm_nsec := (ms mod 1000) * 1000000, tm_sec := ms div 1000, tm_ticks := 0\<rparr>))"

definition Timer_At ::
  "(timestamp \<Rightarrow> timestamp \<Rightarrow> rat) \<Rightarrow> timestamp \<Rightarrow> timestamp \<Rightarrow> Timer \<Rightarrow> Timer option" where
  "Timer_At timeDifference now when t =
     (if when < now then Some t
      else Timer_After (trunc (fl (timeDifference when now * 1000))) t)"

definition armed :: "Timer \<Rightarrow> bool" where
  "armed t \<longleftrightarrow> tm_sec t \<noteq> 0 \<or> tm_nsec t \<noteq> 0"

text \<open>What the kernel does when the time has come: the timer has no interval, so it expires once.\<close>

definition timer_expires :: "Timer \<Rightarrow> Timer" where
  "timer_expires t = (if armed t then t\<lparr>tm_sec := 0, tm_nsec := 0, tm_ticks := 1\<rparr> else t)"

definition Timer_Fd :: "Timer \<Rightarrow> int" where
  "Timer_Fd t = tm_fd t"

text \<open>Reading the descriptor gives the number of expirations and forgets them; with none it fails.\<close>

definition Timer_IsReadable :: "Timer \<Rightarrow> bool \<times> Timer" where
  "Timer_IsReadable t = (if tm_ticks t > 0 then (True, t\<lparr>tm_ticks := 0\<rparr>) else (False, t))"

definition Timer_Wait :: "poll_answer list \<Rightarrow> nat \<Rightarrow> Timer \<Rightarrow> nat option" where
  "Timer_Wait as obj t = Selector_Poll (Some \<lparr>sl_obj = obj, sl_Fd = Timer_Fd t\<rparr>) as"

text \<open>When an armed timer fires, in milliseconds from when it was set.\<close>

definition fires_after :: "Timer \<Rightarrow> int" where
  "fires_after t = tm_sec t * 1000 + tm_nsec t div 1000000"

definition timeDifference_ok :: "(timestamp \<Rightarrow> timestamp \<Rightarrow> rat) \<Rightarrow> bool" where
  "timeDifference_ok td \<longleftrightarrow> (\<forall>high low. td high low = fl (of_int (high - low) / 1000000))"

lemma Timer_After_spec:
  assumes "0 \<le> ms"
  obtains t' where "Timer_After ms t = Some t'" "fires_after t' = ms" "armed t' \<longleftrightarrow> ms > 0"
proof -
  let ?t = "t\<lparr>tm_nsec := (ms mod 1000) * 1000000, tm_sec := ms div 1000, tm_ticks := 0\<rparr>"
  have "ms div 1000 = 0 \<and> ms mod 1000 = 0 \<longleftrightarrow> ms = 0" using div_mult_mod_eq [of ms 1000] by auto
  then have "armed ?t \<longleftrightarrow> ms > 0" using assms by (auto simp: armed_def)
  moreover have "fires_after ?t = ms" using div_mult_mod_eq [of ms 1000] by (simp add: fires_after_def)
  ultimately show thesis using that assms by (simp add: Timer_After_def)
qed

text \<open>The two roundings move a difference of less than a year by less than a microsecond.\<close>

lemma difference_ms:
  assumes "timeDifference_ok td" and "now \<le> when" and "when - now < 2 ^ 50"
  shows "\<bar>fl (td when now * 1000) - of_int (when - now) / 1000\<bar> < 1 / 1000"
proof -
  define d :: rat where "d = of_int (when - now)"
  have "(of_int (when - now) :: rat) < of_int (2 ^ 50)" using assms(3) unfolding of_int_less_iff .
  then have d: "0 \<le> d" "d < 2 ^ 50" using assms(2) by (simp_all add: d_def)
  define a where "a = fl (d / 1000000)"
  have a: "\<bar>a - d / 1000000\<bar> \<le> d / 1000000 / 2 ^ 53" using fl_close [of "d / 1000000"] d by (simp add: a_def)
  have b: "\<bar>fl (a * 1000) - a * 1000\<bar> \<le> \<bar>a * 1000\<bar> / 2 ^ 53" by (rule fl_close)
  have "\<bar>a * 1000 - d / 1000\<bar> \<le> d / 1000 / 2 ^ 53" using a by (simp add: abs_le_iff field_simps)
  moreover have "\<bar>a * 1000\<bar> \<le> d / 500"
  proof -
    have "a \<le> d / 1000000 + d / 1000000 / 2 ^ 53" using a by linarith
    moreover have "0 \<le> a" unfolding a_def using d by (intro fl_nonneg) simp
    ultimately show ?thesis using d by (simp add: field_simps)
  qed
  then have "\<bar>a * 1000\<bar> / 2 ^ 53 \<le> d / 500 / 2 ^ 53" by (rule divide_right_mono) simp
  with b have "\<bar>fl (a * 1000) - a * 1000\<bar> \<le> d / 500 / 2 ^ 53" by (rule order_trans)
  ultimately have "\<bar>fl (a * 1000) - d / 1000\<bar> \<le> d / 500 / 2 ^ 53 + d / 1000 / 2 ^ 53"
    using abs_triangle_ineq [of "fl (a * 1000) - a * 1000" "a * 1000 - d / 1000"] by linarith
  also have "\<dots> < 1 / 1000" using d by (simp add: field_simps)
  finally show ?thesis using assms(1) by (simp add: timeDifference_ok_def a_def d_def)
qed

lemma Timer_At_spec:
  assumes td: "timeDifference_ok td" and w: "now \<le> when" "when - now < 2 ^ 50"
  obtains t' where "Timer_At td now when t = Some t'"
    "1000 * fires_after t' \<le> when - now" "when - now < 1000 * fires_after t' + 1001"
    "armed t' \<longleftrightarrow> fires_after t' > 0"
proof -
  define x where "x = fl (td when now * 1000)"
  have c: "\<bar>x - of_int (when - now) / 1000\<bar> < 1 / 1000" unfolding x_def by (rule difference_ms [OF td w])
  have "0 \<le> td when now" using td w(1) by (auto simp: timeDifference_ok_def intro: fl_nonneg)
  then have x0: "0 \<le> x" unfolding x_def by (intro fl_nonneg) simp
  define ms where "ms = trunc x"
  have b: "of_int ms \<le> x" "x < of_int ms + 1" using trunc_bounds [OF x0] by (simp_all add: ms_def)
  have "0 \<le> ms" using b x0 by linarith
  from Timer_After_spec [OF this, of t] obtain t' where t': "Timer_After ms t = Some t'" "fires_after t' = ms" "armed t' \<longleftrightarrow> ms > 0"
    by blast
  have run: "Timer_At td now when t = Some t'" using w(1) t'(1) by (simp add: Timer_At_def x_def ms_def)
  have "(of_int (1000 * ms) :: rat) < of_int (when - now) + 1" using c b by (simp add: abs_less_iff field_simps)
  then have "(of_int (1000 * ms) :: rat) < of_int (when - now + 1)" by simp
  then have 1: "1000 * ms \<le> when - now" unfolding of_int_less_iff by simp
  have "(of_int (when - now) :: rat) < of_int (1000 * ms + 1001)" using c b by (simp add: abs_less_iff field_simps)
  then have 2: "when - now < 1000 * ms + 1001" unfolding of_int_less_iff .
  show thesis using that [OF run] t' 1 2 by simp
qed

text \<open>
  Setting a timer to a time that is not past makes it fire within a millisecond before
  that time, in spite of the two roundings of the \<^verbatim>\<open>double\<close> arithmetic, and when it has fired it can be
  read once; but a time less than a millisecond away disarms the timer, which then never fires.
\<close>

theorem Timer_At_fires:
  assumes "timeDifference_ok td" and "now \<le> when" and "when - now < 2 ^ 50"
  shows "\<exists>t'. Timer_At td now when t = Some t'
    \<and> 1000 * fires_after t' \<le> when - now \<and> when - now \<le> 1000 * fires_after t' + 1000
    \<and> (when - now < 1000 \<longrightarrow> \<not> armed t') \<and> (1001 \<le> when - now \<longrightarrow> armed t')
    \<and> fst (Timer_IsReadable (timer_expires t')) = armed t'
    \<and> \<not> fst (Timer_IsReadable (snd (Timer_IsReadable (timer_expires t'))))"
proof -
  obtain t' where t': "Timer_At td now when t = Some t'" "1000 * fires_after t' \<le> when - now"
    "when - now < 1000 * fires_after t' + 1001" "armed t' \<longleftrightarrow> fires_after t' > 0"
    by (rule Timer_At_spec [OF assms])
  moreover from this(1) assms(2) have "tm_ticks t' = 0" by (auto simp: Timer_At_def Timer_After_def split: if_splits)
  ultimately show ?thesis by (intro exI [of _ t']) (auto simp: Timer_IsReadable_def timer_expires_def)
qed


definition ref_timeDifference :: "timestamp \<Rightarrow> timestamp \<Rightarrow> rat" where
  "ref_timeDifference high low = fl (of_int (high - low) / 1000000)"

definition ref_timer :: Timer where
  "ref_timer = the (Timer_new 5)"

theorem Timer_At_fires_witness:
  "\<exists>t'. Timer_At ref_timeDifference 1000000 1002500 ref_timer = Some t' \<and> armed t'
     \<and> 1500 \<le> 1000 * fires_after t' \<and> 1000 * fires_after t' \<le> 2500"
  using Timer_At_fires [of ref_timeDifference 1000000 1002500 ref_timer]
  by (auto simp: timeDifference_ok_def ref_timeDifference_def)


end
