(* ===== verification/Packet.thy ===== *)
theory Packet
  imports Prelude
begin

text \<open>
  \<^verbatim>\<open>base/protobuf/packet.cc\<close>: a message of any type in one string, with the name of its type.
  Google's protobuf is the argument: descriptors, the pool of generated types, the factory of
  prototypes, and the generated class \<^verbatim>\<open>Packet\<close> with its two fields. \<^verbatim>\<open>ParseFromString\<close> returns whether it succeeded and leaves the message it was called on
  changed in either case.
\<close>

record ('m, 'd, 'p) protobuf =
  GetDescriptor :: "'m \<Rightarrow> 'd"
  full_name :: "'d \<Rightarrow> string"
  SerializeAsString :: "'m \<Rightarrow> string"
  FindMessageTypeByName :: "string \<Rightarrow> 'd option"
  GetPrototype :: "'d \<Rightarrow> 'p option"
  New :: "'p \<Rightarrow> 'm option"
  IsInitialized :: "'m \<Rightarrow> bool"
  ParseFromString :: "'m \<Rightarrow> string \<Rightarrow> bool \<times> 'm"
  packet_Serialize :: "string \<times> string \<Rightarrow> string"
  packet_Parse :: "string \<Rightarrow> (string \<times> string) option"

definition Encode :: "('m, 'd, 'p) protobuf \<Rightarrow> 'm \<Rightarrow> string" where
  "Encode PB m =
     (let desc = GetDescriptor PB m
      in packet_Serialize PB (full_name PB desc, SerializeAsString PB m))"

text \<open>\<^verbatim>\<open>Decode\<close> returns \<^verbatim>\<open>NULL\<close>, here None, when any of its steps fails.\<close>

definition Decode :: "('m, 'd, 'p) protobuf \<Rightarrow> string \<Rightarrow> 'm option" where
  "Decode PB b = (case packet_Parse PB b of
       None \<Rightarrow> None
     | Some (name, data) \<Rightarrow>
         (case FindMessageTypeByName PB name of
            None \<Rightarrow> None
          | Some desc \<Rightarrow>
              (case GetPrototype PB desc of
                 None \<Rightarrow> None
               | Some proto \<Rightarrow>
                   (case New PB proto of
                      None \<Rightarrow> None
                    | Some payload \<Rightarrow>
                        (case ParseFromString PB payload data of (parsed, payload) \<Rightarrow>
                           if \<not> parsed then None else Some payload)))))"

subsection \<open>What protobuf promises\<close>

definition packet_ok :: "('m, 'd, 'p) protobuf \<Rightarrow> bool" where
  "packet_ok PB \<longleftrightarrow> (\<forall>p. packet_Parse PB (packet_Serialize PB p) = Some p)"

text \<open>A message type that is linked in: its descriptor is found by its name and has a prototype of that type.\<close>

definition linked :: "('m, 'd, 'p) protobuf \<Rightarrow> 'd \<Rightarrow> bool" where
  "linked PB d \<longleftrightarrow> FindMessageTypeByName PB (full_name PB d) = Some d
     \<and> (\<exists>p m0. GetPrototype PB d = Some p \<and> New PB p = Some m0 \<and> GetDescriptor PB m0 = d)"

text \<open>Parsing what a message of the same type was serialized to gives that message back when its required fields are
  set, and fails when one of them is missing.\<close>

definition parse_ok :: "('m, 'd, 'p) protobuf \<Rightarrow> bool" where
  "parse_ok PB \<longleftrightarrow> (\<forall>m m0. GetDescriptor PB m0 = GetDescriptor PB m \<longrightarrow>
     (if IsInitialized PB m then ParseFromString PB m0 (SerializeAsString PB m) = (True, m)
      else \<not> fst (ParseFromString PB m0 (SerializeAsString PB m))))"

text \<open>
  C34. What \<^verbatim>\<open>Decode\<close> makes of any message that went through \<^verbatim>\<open>Encode\<close>: a message of a linked type comes back as it was when all its required fields are
  set, and is refused when one is missing; a message whose type the receiver does not know is refused. So two messages that are accepted and have the same encoding
  are the same, of whatever types. And nothing but a whole packet is accepted: whatever \<^verbatim>\<open>Decode\<close> returns for any string is a message that was parsed, without a failure, from the data of a packet with the name
  of a known type.
\<close>

theorem Decode_Encode:
  assumes "packet_ok PB" and "parse_ok PB"
  shows "(linked PB (GetDescriptor PB m) \<longrightarrow> Decode PB (Encode PB m) = (if IsInitialized PB m then Some m else None))
    \<and> (FindMessageTypeByName PB (full_name PB (GetDescriptor PB m)) = None \<longrightarrow> Decode PB (Encode PB m) = None)
    \<and> (linked PB (GetDescriptor PB m) \<and> linked PB (GetDescriptor PB m') \<and> IsInitialized PB m \<and> Encode PB m = Encode PB m' \<longrightarrow> m = m')
    \<and> (\<forall>b x. Decode PB b = Some x \<longrightarrow> (\<exists>name data desc p m0. packet_Parse PB b = Some (name, data)
         \<and> FindMessageTypeByName PB name = Some desc \<and> GetPrototype PB desc = Some p \<and> New PB p = Some m0 \<and> ParseFromString PB m0 data = (True, x)))"
proof -
  have dec: "linked PB (GetDescriptor PB x) \<Longrightarrow> Decode PB (Encode PB x) = (if IsInitialized PB x then Some x else None)" for x
  proof -
    assume "linked PB (GetDescriptor PB x)"
    then obtain p m0 where l: "FindMessageTypeByName PB (full_name PB (GetDescriptor PB x)) = Some (GetDescriptor PB x)"
      "GetPrototype PB (GetDescriptor PB x) = Some p" "New PB p = Some m0" "GetDescriptor PB m0 = GetDescriptor PB x" by (auto simp: linked_def)
    have q: "if IsInitialized PB x then ParseFromString PB m0 (SerializeAsString PB x) = (True, x)
        else \<not> fst (ParseFromString PB m0 (SerializeAsString PB x))" using assms(2) l(4) unfolding parse_ok_def by blast
    show ?thesis using q l(1-3) assms(1) by (auto simp: Decode_def Encode_def Let_def packet_ok_def split: if_splits prod.splits)
  qed
  have "m = m'" if "linked PB (GetDescriptor PB m)" "linked PB (GetDescriptor PB m')" "IsInitialized PB m" "Encode PB m = Encode PB m'"
  proof -
    have "Some m = (if IsInitialized PB m' then Some m' else None)" using dec [OF that(1)] dec [OF that(2)] that(3,4) by metis
    then show ?thesis by (simp split: if_splits)
  qed
  moreover have "FindMessageTypeByName PB (full_name PB (GetDescriptor PB m)) = None \<longrightarrow> Decode PB (Encode PB m) = None"
    using assms(1) by (simp add: Decode_def Encode_def Let_def packet_ok_def)
  moreover have "\<exists>name data desc p m0. packet_Parse PB b = Some (name, data)
         \<and> FindMessageTypeByName PB name = Some desc \<and> GetPrototype PB desc = Some p \<and> New PB p = Some m0 \<and> ParseFromString PB m0 data = (True, x)" if "Decode PB b = Some x" for b x
    using that by (simp add: Decode_def split: option.splits prod.splits if_splits)
  ultimately show ?thesis using dec [of m] by blast
qed

subsection \<open>An instance\<close>

text \<open>Two message types, a text and a flag that is a required field; a packet is the length of its name in unary, a zero byte, the name, and the data.\<close>

datatype two_types = Text string | Flag "bool option"

definition ref_protobuf :: "(two_types, bool, bool) protobuf" where
  "ref_protobuf =
     \<lparr>GetDescriptor = (\<lambda>m. case m of Text _ \<Rightarrow> True | Flag _ \<Rightarrow> False),
      full_name = (\<lambda>d. if d then ''text'' else ''flag''),
      SerializeAsString = (\<lambda>m. case m of Text s \<Rightarrow> s | Flag None \<Rightarrow> [] | Flag (Some b) \<Rightarrow> if b then ''1'' else ''0''),
      FindMessageTypeByName = (\<lambda>n. if n = ''text'' then Some True else if n = ''flag'' then Some False else None),
      GetPrototype = Some,
      New = (\<lambda>p. Some (if p then Text [] else Flag None)),
      IsInitialized = (\<lambda>m. m \<noteq> Flag None),
      ParseFromString = (\<lambda>m s. case m of Text _ \<Rightarrow> (True, Text s)
        | Flag _ \<Rightarrow> if s = ''1'' then (True, Flag (Some True)) else if s = ''0'' then (True, Flag (Some False)) else (False, Flag None)),
      packet_Serialize = (\<lambda>(n, d). replicate (length n) (CHR ''n'') @ CHR 0x00 # n @ d),
      packet_Parse = (\<lambda>s. let k = length (takeWhile (\<lambda>c. c = CHR ''n'') s); r = drop (k + 1) s
        in Some (take k r, drop k r))\<rparr>"

lemma ref_packet_ok: "packet_ok ref_protobuf" "parse_ok ref_protobuf"
  by (auto simp: packet_ok_def parse_ok_def ref_protobuf_def Let_def takeWhile_append split: two_types.splits option.splits)

lemma ref_linked: "linked ref_protobuf d"
  by (auto simp: linked_def ref_protobuf_def split: two_types.splits)

theorem Decode_Encode_witness:
  "Decode ref_protobuf (Encode ref_protobuf (Text ''ab'')) = Some (Text ''ab'')
   \<and> Decode ref_protobuf (Encode ref_protobuf (Flag None)) = None
   \<and> Encode ref_protobuf (Text ''1'') \<noteq> Encode ref_protobuf (Flag (Some True))"
proof -
  have i: "IsInitialized ref_protobuf (Text s)" "\<not> IsInitialized ref_protobuf (Flag None)" for s by (simp_all add: ref_protobuf_def)
  note d = Decode_Encode [OF ref_packet_ok]
  show ?thesis using d [of "Text ''ab''" "Flag None"] d [of "Flag None" "Flag None"] d [of "Text ''1''" "Flag (Some True)"] ref_linked i by auto
qed

end
