(* ===== verification/Client_Examples.thy ===== *)
theory Client_Examples
  imports Client_Runs Reference_Libs
begin

text \<open>
  Reading through the cache, what the client library does not tell its program, and the
  properties of the client at concrete inputs.
\<close>

subsection \<open>Reading\<close>

text \<open>
  C30. A read and the cache: a node that the server returns is given to the program and written
  to the cache, which holds it from then on if leveldb took the write, and what it held before if
  not; when the client is disconnected the node last written for the path is returned, with a status that
  says so; any other error comes back as it is and leaves the node alone. The watcher of a read
  that fails is taken back.
\<close>

theorem Read_cache:
  fixes ci :: "('db, 'f) ClientImpl"
  assumes "thirdparty_ok X" and "co_EnableCache (ci_options ci)" and "ca_db (ci_cache ci) = Some db"
  shows "(ok st \<and> rp_data rep = Some (snd (node_SerializeToString (pb X) n)) \<longrightarrow>
      (\<exists>cache. Read_end X path st rep node ci = Some (OK, map_option (\<lambda>c. CopyNodeFromProto c n) node, ci\<lparr>ci_cache := cache\<rparr>)
         \<and> cached X cache = (if ldb_ok (fst (ldb_Put (ldb X) db path (snd (node_SerializeToString (pb X) n))))
              then (cached X (ci_cache ci))(path \<mapsto> n) else cached X (ci_cache ci))))
    \<and> (\<not> ok st \<longrightarrow> Read_end X path st rep node ci =
         (let ci' = ci\<lparr>ci_wm := CWM_Remove path (ci_wm ci)\<rparr> in
          Some (if IsDisconnect st then
                  (case cached X (ci_cache ci) path of
                     Some n \<Rightarrow> (Cached path, map_option (\<lambda>c. CopyNodeFromProto c n) node, ci')
                   | None \<Rightarrow> (st, node, ci'))
                else (st, node, ci'))))"
proof (intro conjI impI)
  assume *: "ok st \<and> rp_data rep = Some (snd (node_SerializeToString (pb X) n))"
  have X: "leveldb_ok (ldb X)" "proto_ok (pb X)" using assms(1) by (simp_all add: thirdparty_ok_def)
  have p: "node_ParseFromString (pb X) (snd (node_SerializeToString (pb X) n)) = (True, n)"
    using X(2) by (simp add: proto_ok_def)
  obtain st1 cache where w: "Cache_Write X path n (ci_cache ci) = Some (st1, cache)"
    "ok st1 = ldb_ok (fst (ldb_Put (ldb X) db path (snd (node_SerializeToString (pb X) n))))"
    "cached X cache = (if ok st1 then (cached X (ci_cache ci))(path \<mapsto> n) else cached X (ci_cache ci))"
    by (rule Cache_Write_cached [OF X assms(3)])
  have "Read_end X path st rep node ci = Some (OK, map_option (\<lambda>c. CopyNodeFromProto c n) node, ci\<lparr>ci_cache := cache\<rparr>)"
    using * p w(1) assms(2) by (simp add: Read_end_def Let_def)
  then show "\<exists>cache. Read_end X path st rep node ci = Some (OK, map_option (\<lambda>c. CopyNodeFromProto c n) node, ci\<lparr>ci_cache := cache\<rparr>)
         \<and> cached X cache = (if ldb_ok (fst (ldb_Put (ldb X) db path (snd (node_SerializeToString (pb X) n))))
              then (cached X (ci_cache ci))(path \<mapsto> n) else cached X (ci_cache ci))"
    using w(2,3) by (intro exI [of _ cache]) simp
next
  assume st: "\<not> ok st"
  obtain st1 m where r: "Cache_Read X path True Node_default (ci_cache ci) = Some (st1, m)"
    using assms(3) by (cases "Cache_Read X path True Node_default (ci_cache ci)") (auto simp: Cache_Read_def)
  then have "cached X (ci_cache ci) path = (if ok st1 then Some m else None)" by (simp add: cached_def)
  then show "Read_end X path st rep node ci =
         (let ci' = ci\<lparr>ci_wm := CWM_Remove path (ci_wm ci)\<rparr> in
          Some (if IsDisconnect st then
                  (case cached X (ci_cache ci) path of
                     Some n \<Rightarrow> (Cached path, map_option (\<lambda>c. CopyNodeFromProto c n) node, ci')
                   | None \<Rightarrow> (st, node, ci'))
                else (st, node, ci')))"
    using st r assms(2) by (simp add: Read_end_def Let_def)
qed

subsection \<open>What the program is not told\<close>

text \<open>A watch on a node that does not exist: the server keeps it and answers that there is no such
  node; the client has taken its watcher back, so the creation of the node goes to the default
  callback.\<close>

theorem Read_missing_drops_watcher:
  fixes ci :: "('db, 'f) ClientImpl"
  assumes "ro_WatchEvent options \<noteq> kNone"
  shows "\<exists>req ci1 ci2. Read_begin options path ci = (req, ci1) \<and> rq_watch req \<noteq> None
    \<and> Read_end X path (NotFound path) rep node ci1 = Some (NotFound path, node, ci2)
    \<and> cm_pool (CWM_Triger path e (ci_wm ci2)) = cm_pool (ci_wm ci) @ [(cm_default (ci_wm ci), e)]"
  using assms by (auto simp: Read_begin_def Read_end_def Let_def CWM_Add_def CWM_Remove_def CWM_Triger_def IsDisconnect_def)

text \<open>The callback of a read is documented to default to the global one; an unset callback is
  called all the same when the event comes.\<close>

theorem unset_callback_aborts:
  fixes ci :: "('db, 'f) ClientImpl"
  assumes "om_find (cm_watchers (ci_wm ci)) path = None" and "cm_pool (ci_wm ci) = []" and "m \<noteq> kNone"
  shows "\<exists>req ci1. Read_begin (ReadOptions_default\<lparr>ro_WatchEvent := m\<rparr>) path ci = (req, ci1)
    \<and> CWM_run (CWM_Triger path e (ci_wm ci1)) = None"
  using assms
  by (simp add: Read_begin_def ReadOptions_default_def CWM_Add_def CWM_Triger_def om_find_insert CWM_run_def CWM_trigerInternal_def)

text \<open>
  The rpc client never reports a lost connection to its user, whatever comes in, so the branch
  of \<^verbatim>\<open>ClientImpl::onConnection\<close> that tells the program is never taken.
\<close>

theorem connection_loss_unreported:
  assumes "rpc_run is cl = Some (es, cl')"
  shows "Connection False \<notin> set es"
  using assms
proof (induction "is" arbitrary: cl es)
  case (Cons i "is")
  then obtain fs cl1 gs where "rpc_step i cl = Some (fs, cl1)" "rpc_run is cl1 = Some (gs, cl')" "es = fs @ gs"
    by (auto elim!: bind_eq_SomeE)
  with Cons.IH rpc_step_connection show ?case by (fastforce simp: no_connection_def)
qed simp

subsection \<open>A run\<close>

definition example_options :: ClientOptions where
  "example_options = ClientOptions_default\<lparr>co_EnableCache := False\<rparr>"

definition example_run :: "(nat \<times> client_input) list" where
  "example_run = map (Pair 1)
     [C_rpc (In_connection True), C_rpc In_task, C_rpc (In_message (Response_default\<lparr>rp_xid := Some 0, rp_sid := Some 5\<rparr>)),
      C_begin 7 (Delete_request ''/a''), C_task, C_rpc In_task, C_rpc (In_connection False), C_destroy]"

lemma example_input: "\<forall>x \<in> set example_run. served_input (snd x)" "late_ok example_run" "\<forall>x \<in> set example_run. \<not> late (snd x)"
  "length example_run < 2 ^ 64" "C_close \<notin> snd ` set example_run"
  by (simp_all add: example_run_def served_input_def late_def from_server_def Response_default_def)

lemma example_addrs: "SplitString (toft ref_libs) ''a:1,b:2'' '','' \<noteq> []"
  by (simp add: ref_libs_def ref_toft_def)

theorem client_single_driver_witness:
  "\<exists>ci0 es ci. Start ref_libs (\<lambda>_. (ldb_OK, [])) 0 (ClientImpl_new ref_libs example_options ''a:1,b:2'' (Some ''cb'')) = Some (OK, ci0)
     \<and> client_run example_run ci0 = Some (es, ci) \<and> ci_state ci \<noteq> cs_Closed \<and> outstanding ci = 1"
  using client_single_driver [OF example_addrs _ example_input(4), of example_options "\<lambda>_. (ldb_OK, [])" 0 "Some ''cb''"]
    example_input(1,2,3,5)
  by (fastforce simp: example_options_def)

theorem client_calls_once_witness:
  "\<exists>ci0 es ci. Start ref_libs (\<lambda>_. (ldb_OK, [])) 0 (ClientImpl_new ref_libs example_options ''a:1,b:2'' (Some ''cb'')) = Some (OK, ci0)
     \<and> client_run example_run ci0 = Some (es, ci) \<and> {#7#} = mset (dones es) + calls_of ci"
proof -
  have "begun example_run = [7]" by (simp add: example_run_def)
  then show ?thesis
    using client_calls_once [OF example_addrs _ example_input(4), of example_options "\<lambda>_. (ldb_OK, [])" 0 "Some ''cb''"]
      example_input(1,2) served_input_good
    by (fastforce simp: example_options_def)
qed

text \<open>
  The timer of a connection attempt and the connection itself can be ready in one turn of the
  loop: the attempt is given up, and then the connection of the client just replaced comes up. It
  cancels the new timer and registers on the new client; when that client's own connection comes
  up it registers too, and from then on there are two things that drive the library on.
\<close>

definition late_run :: "(nat \<times> client_input) list" where
  "late_run = map (Pair 1) [C_timer 0, C_old 0 (In_connection True), C_rpc (In_connection True)]"

theorem late_connection_doubles:
  "\<exists>ci0 es ci. Start ref_libs (\<lambda>_. (ldb_OK, [])) 0 (ClientImpl_new ref_libs example_options ''a:1,b:2'' (Some ''cb'')) = Some (OK, ci0)
     \<and> client_run late_run ci0 = Some (es, ci) \<and> outstanding ci = 2"
  by (simp add: Start_def example_options_def ClientOptions_default_def ClientImpl_new_def resetRandom_def randomAddr_def
      resetConnection_def ref_libs_def ref_toft_def late_run_def client_step_def onConnectionTimeout_def rpc_possible_def rpc_step_def
      rpc_onConnection_def client_handle_def client_onConnection_def client_register_def client_Call_def outstanding_def Let_def
      SetCallTimeout_def RpcClient_new_def rpc_Call_def open_calls_def)

text \<open>After \<^verbatim>\<open>close\<close> there is no client to register on.\<close>

theorem late_connection_after_close:
  "\<exists>ci0. Start ref_libs (\<lambda>_. (ldb_OK, [])) 0 (ClientImpl_new ref_libs example_options ''a:1,b:2'' (Some ''cb'')) = Some (OK, ci0)
     \<and> client_run [(1, C_close), (1, C_old 0 (In_connection True))] ci0 = None"
  by (simp add: Start_def example_options_def ClientOptions_default_def ClientImpl_new_def resetRandom_def randomAddr_def
      resetConnection_def ref_libs_def ref_toft_def client_step_def ClientImpl_close_def rpc_possible_def rpc_step_def
      rpc_onConnection_def client_handle_def client_onConnection_def client_register_def client_Call_def Let_def
      SetCallTimeout_def RpcClient_new_def)

subsection \<open>A read and the cache\<close>

definition example_client :: "(memdb, string) ClientImpl" where
  "example_client = (ClientImpl_new ref_libs ClientOptions_default ''a:1'' (Some ''cb''))\<lparr>ci_cache := \<lparr>ca_dir = ''c'', ca_db = Some []\<rparr>\<rparr>"

definition example_node :: Node where
  "example_node = Node_default\<lparr>nd_data := ''v''\<rparr>"

definition no_node :: ClientNode where
  "no_node = \<lparr>cn_Data = [], cn_Children = [], cn_Flags = 0, cn_Version = 0, cn_Sid = 0\<rparr>"

theorem Read_cache_witness:
  "\<exists>ci1 ci2. Read_end ref_libs ''/a'' OK (Response_default\<lparr>rp_data := Some (snd (node_SerializeToString (pb ref_libs) example_node))\<rparr>)
        (Some no_node) example_client = Some (OK, Some (CopyNodeFromProto no_node example_node), ci1)
     \<and> Read_end ref_libs ''/a'' (Disconnect ''not connected'') Response_default (Some no_node) ci1
        = Some (Cached ''/a'', Some (CopyNodeFromProto no_node example_node), ci2)"
proof -
  let ?rep = "Response_default\<lparr>rp_data := Some (snd (node_SerializeToString (pb ref_libs) example_node))\<rparr>"
  have h: "co_EnableCache (ci_options example_client)" "ca_db (ci_cache example_client) = Some []"
    by (simp_all add: example_client_def ClientImpl_new_def ClientOptions_default_def)
  obtain cache where 1: "Read_end ref_libs ''/a'' OK ?rep (Some no_node) example_client =
      Some (OK, Some (CopyNodeFromProto no_node example_node), example_client\<lparr>ci_cache := cache\<rparr>)"
    "cached ref_libs cache ''/a'' = Some example_node"
    using Read_cache [OF ref_libs_ok h, of OK ?rep example_node "''/a''" "Some no_node"] by (auto simp: ref_libs_def ldb_ok_def)
  let ?ci = "example_client\<lparr>ci_cache := cache\<rparr>"
  have "ca_db cache \<noteq> None" using 1(2) by (auto simp: cached_def Cache_Read_def split: option.splits)
  then obtain db where "ca_db (ci_cache ?ci) = Some db" by auto
  from Read_cache [OF ref_libs_ok _ this, of "Disconnect ''not connected''" Response_default Node_default "''/a''" "Some no_node"] h(1) 1(2)
  have "Read_end ref_libs ''/a'' (Disconnect ''not connected'') Response_default (Some no_node) ?ci =
      Some (Cached ''/a'', Some (CopyNodeFromProto no_node example_node), ?ci\<lparr>ci_wm := CWM_Remove ''/a'' (ci_wm ?ci)\<rparr>)"
    by (simp add: IsDisconnect_def Let_def)
  then show ?thesis using 1(1) by blast
qed

theorem connection_loss_unreported_witness:
  "\<exists>es cl. rpc_run [In_connection True, In_connection False] (RpcClient_new ''h:1'' :: string RpcClient) = Some (es, cl)
     \<and> Connection True \<in> set es \<and> Connection False \<notin> set es"
proof -
  obtain es and cl :: "string RpcClient" where
    r: "rpc_run [In_connection True, In_connection False] (RpcClient_new ''h:1'') = Some (es, cl)" "Connection True \<in> set es"
    by (auto simp: rpc_step_def rpc_onConnection_def RpcClient_new_def clearCalls_def)
  with connection_loss_unreported [OF r(1)] show ?thesis by blast
qed

end
