(* ===== verification/Spec2Isabelle.thy ===== *)
theory Spec2Isabelle
  imports Leader_Examples Acknowledged Server_Replies Snapshots Programs Bench Channel Selector Timer Packet Rpc_Server Client_Examples
begin

text \<open>
  A verification development of pyxis, a replicated coordination service in C++ with a tree of nodes,
  sessions, ephemeral nodes and one-shot watches.

  \<^bold>\<open>The program.\<close> A cluster runs one \<^verbatim>\<open>pyxisd\<close> per machine. Its rpc server (\<^verbatim>\<open>rpc/server.cc\<close>,
  \<^verbatim>\<open>rpc/session.cc\<close>) turns every message into an event and puts it into a channel of the replica
  (\<^verbatim>\<open>server/server.cc\<close>). The main thread of the replica is in one of three loops. As leader it answers reads,
  pings and watches itself, hands whatever changes the tree or the sessions to the raft library, and keeps the request in a
  queue until the committed command comes back on a second channel, is run and gives the answer. As follower it runs
  committed commands and redirects clients. In between it waits for a ping of its own to be committed. A third channel carries the changes of its role.
  Commands work on the store (\<^verbatim>\<open>server/store.cc\<close>: the tree, the session records and the commit index in one leveldb, with a
  virtual directory \<^verbatim>\<open>server/proc_db.cc\<close>), on the session manager (\<^verbatim>\<open>server/session_manager.cc\<close>: session ids and
  a wheel of timers) and on the watch manager (\<^verbatim>\<open>server/watch_manager.cc\<close>), and write lines to an event log. The client library
  (\<^verbatim>\<open>client/\<close> over \<^verbatim>\<open>rpc/client.cc\<close>) finds the leader, keeps a session alive with pings that bring home watch
  events, and caches what was read.

  \<^bold>\<open>The theories.\<close> \<open>None\<close> is a failing \<^verbatim>\<open>CHECK\<close> (or undefined behaviour) throughout; errors are values of
  \<open>Status\<close>; what leaves a component is a list of effects. Every definition of the model is at the top level of its theory.
  \<^item> \<open>Prelude\<close>, \<open>Containers\<close>, \<open>Doubles\<close>, \<open>Text_Utils\<close>: shared lemmas; \<^verbatim>\<open>std::map\<close> and \<^verbatim>\<open>std::set\<close> as sorted lists (locale
    \<open>std_map\<close>); correctly rounded \<^verbatim>\<open>double\<close> arithmetic; \<^verbatim>\<open>common/strreader.h\<close> and \<^verbatim>\<open>common/address.cc\<close>.
  \<^item> \<open>Thirdparty\<close>, \<open>Reference_Libs\<close>: leveldb, protobuf, toft and the constants of raft as a record of functions, an argument
    of the definitions that use them, with their documented contracts; and one concrete instance for the witnesses.
  \<^item> \<open>Status\<close>, \<open>Watch_Event\<close>, \<open>Messages\<close>: \<^verbatim>\<open>common/status.cc\<close>, \<^verbatim>\<open>common/watch_event.cc\<close>, the fields of
    the protocol messages, nodes and rpc events.
  \<^item> \<open>Proc_DB\<close>, \<open>Store\<close>, \<open>Store_Tree\<close>, \<open>Store_Ops\<close>, \<open>Store_Refine\<close>, \<open>Store_Runs\<close>, \<open>Store_Persist\<close>, \<open>Store_Examples\<close>: the store, its
    tree invariant, the specification on abstract trees that creating, deleting and writing refine (locale \<open>node_store\<close>), sequences of operations, the commit
    index, the walks over sessions and nodes, and snapshots.
  \<^item> \<open>Watch_Manager\<close>, \<open>Session\<close>, \<open>Session_Manager\<close>, \<open>Session_Timers\<close>, \<open>Event_Log\<close>: watchers, sessions, ids and timers, and the log.
  \<^item> \<open>Server\<close>, \<open>Server_Commands\<close>, \<open>Server_Loops\<close>: one replica, in the order of \<^verbatim>\<open>server/server.cc\<close>. An \<open>action\<close> is an iteration of the main thread, a request, or a
    callback of raft; \<open>server_run\<close> runs any sequence of them. \<open>Snapshots\<close> is the snapshot thread, \<open>Fake_Raft\<close> is \<^verbatim>\<open>server/fake_raft.h\<close>.
  \<^item> \<open>Replica\<close>, \<open>Replica_Server\<close>, \<open>Replica_Log\<close>, \<open>Ephemerals\<close>, \<open>Recovery\<close>: the replicated state machine as a specification of the tree, the session
    records and the ephemeral nodes; every handler of a command refines it (locale \<open>state_machine\<close>); the lifetime of ephemeral
    nodes; and recovery from the database.
  \<^item> \<open>Server_Frame\<close> with its instances \<open>Server_Ledger\<close>, \<open>Server_Control\<close>, \<open>Acknowledged\<close> and \<open>Server_Replies\<close> (the errors in the responses of a replica): what a command cannot change (locale \<open>server_frame\<close>). \<open>Server_Quiet\<close> and
    \<open>Server_Trace\<close>: whole runs of a replica and of two replicas. \<open>Leader\<close>: a leader after its election. \<open>Server_Examples\<close> and \<open>Leader_Examples\<close>: concrete
    runs, witnesses and runs that go wrong.
  \<^item> \<open>Rpc_Client\<close>, \<open>Rpc_Server\<close>, \<open>Packet\<close>: \<^verbatim>\<open>rpc/\<close> and \<^verbatim>\<open>base/protobuf/\<close>. \<open>Service\<close>: the rpc server with a receiver behind it
    (\<^verbatim>\<open>rpc/rpc_receiver.h\<close> as the locale \<open>rpc_receiver\<close>, of which the replica is an instance). \<open>Network\<close> and \<open>Delivery\<close>: any number of rpc
    clients, the rpc server and a receiver behind it, joined by connections with messages under way. \<open>Acknowledged\<close>: what an answer without
    an error means, with an elected leader as the receiver. \<open>Client\<close>, \<open>Client_Watch\<close>, \<open>Client_Cache\<close>,
    \<open>Client_Runs\<close>, \<open>Client_Examples\<close>: \<^verbatim>\<open>client/\<close>. \<open>Channel\<close> (locale \<open>fifo\<close>), \<open>Selector\<close>, \<open>Timer\<close>: \<^verbatim>\<open>base/\<close>. \<open>Programs\<close>: \<^verbatim>\<open>cmd/\<close>.
    \<open>Bench\<close>: \<^verbatim>\<open>client/client_bench.cc\<close> on the interface \<^verbatim>\<open>client/client.h\<close>, served by the specification of the replicated state machine.

  \<^bold>\<open>What is shown.\<close> The replicated state of a server is at all times what the specification gives for the commands it
  has taken, whatever else happened to it, so that the servers of a cluster are in states along one log (\<open>server_is_its_log\<close>,
  \<open>cluster_agrees\<close>, \<open>run_log_refines\<close>). A leader answers each request with the result of its own command, as long as raft commits in order and does not take the
  role away (\<open>leader_answers_own\<close>), and no request is ever lost (\<open>requests_accounted\<close>); with the rpc server in front of it, a request is answered once, on the connection it came from
  (\<open>service_answers_once\<close>). From end to end, with many clients and connections that come and go, a call completes with what the replica answered to its own request and no other
  (\<open>clients_get_own_answers\<close>), a change that a client is told of has been made by the leader (\<open>acknowledged_ran\<close>), and as long as its connection is up no call is lost (\<open>no_call_lost\<close>). Ephemeral nodes live as long as their session, and a restart finds
  them again (\<open>ephemerals_have_sessions\<close>, \<open>restart_recovers\<close>). The store never fails a \<^verbatim>\<open>CHECK\<close>, and each operation does what its specification says. Watches fire
  exactly once; sessions expire within half an interval of their timeout. Until it is closed the client library always has something that drives it on, and one thing only unless the connection of a client it has replaced comes up late; every call ends exactly once, in the
  library and on each connection. Channels are queues, the selector returns something that is ready, and the leader's timer is always set again. The error theorems are behaviours that the code has
  and should not: orders of the raft callbacks that abort a leader or answer the wrong client, a commit index that is stored too early, commands that abort or separate the replicas,
  timers that are lost, a loop that does not end, a log that is not flushed, a console that its first watch event brings down.

  \<^bold>\<open>Bounds and fuel.\<close> Words have the width of the source, and products that it computes in an \<^verbatim>\<open>int\<close> wrap (\<open>int32\<close>). Times are microseconds in \<^verbatim>\<open>double\<close> arithmetic; the bounds on the timers ask for a clock below \<open>2 ^ 51\<close>, the year 2041. The loop of \<^verbatim>\<open>WatchManager::Triger\<close> is a partial function, as it need not end; the
  restarts of \<^verbatim>\<open>poll\<close> consume a list of its answers. No other recursion needs fuel. A session id is fresh unless the counter of 64 bits is at its end (\<open>sids_last\<close> asks this of a run).

  \<^bold>\<open>Not modelled.\<close> The raft library itself: the theorems say what is assumed of it, that it delivers pieces of one log in order. The callbacks of raft run in a thread of their own and here are steps between
  the iterations of the main thread, so data races inside a handler are out of reach. TCP and the codec of muduo (\<^verbatim>\<open>rpc/codec.cc\<close> is two instances of it) are
  two queues of messages per connection, which lose what they hold when an end goes away. Opening leveldb, starting threads, gflags.
  \<^verbatim>\<open>taskch_\<close>, \<^verbatim>\<open>server/message.h\<close> and \<^verbatim>\<open>client/command.h\<close>, which nothing uses; \<^verbatim>\<open>common/defer.h\<close>, a scope guard; the methods of
  \<^verbatim>\<open>ProcDB\<close> that return nothing. What is left of the source beyond this is declarations, includes and log messages.
\<close>

subsection \<open>The service as a whole\<close>

text \<open>
  C5. A request that reaches the service is answered once, to the client that sent it: the rpc server and a replica run
  together, with connections that come and go, requests on them, iterations of the replica's loops and callbacks of raft in any order.
  In every such run each request is handed over once and a response is sent at most once, on the request's connection and with its
  number; a request is either still owed by the replica (in its channel, waiting for a commit, or a held
  ping), and then has no response yet, or it has its response, unless its connection is gone.
\<close>

theorem service_answers_once:
  assumes "Server_new env X mx opts db = Some srv0" and "length is < 2 ^ 64"
    and "service_run replica_accept replica_step td is (RpcServer_new, srv0) = Some (es, rs, srv)"
  shows "distinct (Rpc_Server.received es) \<and> distinct (responded es) \<and> paired es
    \<and> (\<forall>conn e. R_receive conn e \<in> set es \<longrightarrow>
         (if ev_done e \<in># replica_owed srv then ev_done e \<notin> set (responded es) else rs_lock rs conn \<longrightarrow> ev_done e \<in> set (responded es)))"
proof -
  have l: "books_ok srv0" "ledger srv0 = {#}" using Server_new_ledger [OF assms(1)] by simp_all
  then have "replica_owed srv0 = {#}" by (simp add: replica_owed_def ledger_split clients_def)
  then show ?thesis by (rule replica.answers_once [OF l(1) _ assms(2,3)])
qed

definition two_requests :: "(Env \<times> action) service_input list" where
  "two_requests = [S_connect, S_message 5 0 ''ip'' (Request_default\<lparr>rq_xid := 9\<rparr>), S_message 6 0 ''ip'' (Request_default\<lparr>rq_xid := 10\<rparr>),
     S_step 7 (ref_env 7 1, Act_loop Choose_event), S_step 8 (ref_env 8 1, Act_loop Choose_event)]"

lemma two_requests_run:
  "\<exists>es rs srv. service_run replica_accept replica_step (\<lambda>_ _. 0) two_requests (RpcServer_new, ref_server 0) = Some (es, rs, srv)
     \<and> (\<exists>e e'. R_receive 0 e \<in> set es \<and> ev_done e = 0 \<and> R_receive 0 e' \<in> set es \<and> ev_done e' = 1) \<and> rs_lock rs 0 \<and> replica_owed srv = {#1#}"
  by (simp add: two_requests_def service_step_def rs_step_def rs_onConnection_def RpcServer_new_def rs_onRpcMessage_def Let_def
      rs_lock_def om_insert_def replica_accept_def replica_step_def run_simps loop_simps redirect_event_def rs_onRpcDone_def om_erase_def
      replica_owed_def Server_Ledger.outstanding_def clients_def
      conj_disj_distribR ex_disj_distrib)

theorem service_answers_once_witness:
  "\<exists>es rs srv. service_run replica_accept replica_step (\<lambda>_ _. 0) two_requests (RpcServer_new, ref_server 0) = Some (es, rs, srv)
     \<and> 0 \<in> set (responded es) \<and> 1 \<notin> set (responded es) \<and> paired es"
proof -
  obtain es rs srv e e' where r: "service_run replica_accept replica_step (\<lambda>_ _. 0) two_requests (RpcServer_new, ref_server 0) = Some (es, rs, srv)"
    "R_receive 0 e \<in> set es" "ev_done e = 0" "R_receive 0 e' \<in> set es" "ev_done e' = 1" "rs_lock rs 0" "replica_owed srv = {#1#}"
    using two_requests_run by blast
  have n: "length two_requests < 2 ^ 64" by (simp add: two_requests_def)
  have s: "paired es" "\<And>conn e. R_receive conn e \<in> set es \<Longrightarrow>
      if ev_done e \<in># replica_owed srv then ev_done e \<notin> set (responded es) else rs_lock rs conn \<longrightarrow> ev_done e \<in> set (responded es)"
    using service_answers_once [OF ref_server_facts(1) n r(1)] by blast+
  show ?thesis using r s(1) s(2) [OF r(2)] s(2) [OF r(4)] by auto
qed

subsection \<open>Clients and service\<close>

text \<open>
  C6. Clients get the answers to their own requests. Any number of rpc clients run with the rpc server and the replica behind it, over connections
  that come up, are accepted, lose what they carry and go away, each end at a time of its own, with the calls, timeouts and closes of the clients and the steps of
  the replica in any order. In every such run of less than \<open>2 ^ 64 - 1\<close> steps, a call that completes with a response completes with the one
  that the replica gave to the very request this call sent, with that request's number and never with another's, although all clients number
  their requests alike; requests are handed to the replica at most once and answered at most once; the calls of
  each client are those that completed and those under way; and in whatever state it is, a client can make its next step: no check fails and nothing is sent without a
  connection.
\<close>

theorem clients_get_own_answers:
  assumes "Server_new env X mx opts db = Some srv0" and "length is < 2 ^ 64 - 1"
    and "sys_run replica_accept replica_step td is (System_new addr srv0) = Some (tr, y)"
  shows "own_answers tr \<and> (\<forall>k. mset (made k is) = mset (ended (client_trace k tr)) + open_calls (sy_clients y k))
    \<and> distinct (Rpc_Server.received (served tr)) \<and> distinct (responded (served tr))
    \<and> (\<forall>k i. local_input i \<longrightarrow> client_act k i y \<noteq> None)"
proof -
  have l: "books_ok srv0" "ledger srv0 = {#}" using Server_new_ledger [OF assms(1)] by simp_all
  then have "replica_owed srv0 = {#}" by (simp add: replica_owed_def ledger_split clients_def)
  then show ?thesis by (rule replica.clients_served [OF l(1) _ assms(2,3)])
qed

text \<open>Two clients whose requests have the same number; the second is accepted and served first.\<close>

definition two_clients :: "(string, Env \<times> action) sys_input list" where
  "two_clients = [Y_up 0, Y_up 1, Y_client 0 (In_call ''a'' Request_default), Y_client 0 In_task, Y_client 1 (In_call ''b'' Request_default),
     Y_client 1 In_task, Y_accept 1, Y_accept 0, Y_request 1 5 ''ip'', Y_request 0 6 ''ip'', Y_serve 7 (ref_env 7 1, Act_loop Choose_event),
     Y_serve 8 (ref_env 8 1, Act_loop Choose_event), Y_reply 1, Y_reply 0]"

lemmas two_clients_simps = two_clients_def System_new_def sys_step_def Let_def client_act_def rpc_step_def rpc_onConnection_def rpc_Call_def rpc_callInLoop_def
  RpcClient_new_def om_insert_def server_input_def answers_def service_step_def rs_step_def rs_onConnection_def RpcServer_new_def
  rs_onRpcMessage_def rs_lock_def replica_accept_def replica_step_def run_simps loop_simps redirect_event_def rs_onRpcDone_def om_erase_def
  rpc_onRpcMessage_def rep_xid_def cancel_timer_def

lemma two_clients_run:
  "\<exists>tr y. sys_run replica_accept replica_step (\<lambda>_ _. 0) two_clients (System_new (\<lambda>_. ''h:1'') (ref_server 0)) = Some (tr, y)
     \<and> ended (client_trace 0 tr) = [] \<and> (\<exists>rep. At 1 (Done ''b'' OK (Some rep)) \<in> set tr)"
  by (simp add: two_clients_simps)

theorem clients_get_own_answers_witness:
  "\<exists>tr y rep. sys_run replica_accept replica_step (\<lambda>_ _. 0) two_clients (System_new (\<lambda>_. ''h:1'') (ref_server 0)) = Some (tr, y)
     \<and> At 1 (Done ''b'' OK (Some rep)) \<in> set tr \<and> own_answers tr \<and> open_calls (sy_clients y 0) = {#''a''#}"
proof -
  obtain tr y rep where r: "sys_run replica_accept replica_step (\<lambda>_ _. 0) two_clients (System_new (\<lambda>_. ''h:1'') (ref_server 0)) = Some (tr, y)"
    "ended (client_trace 0 tr) = []" "At 1 (Done ''b'' OK (Some rep)) \<in> set tr" using two_clients_run by blast
  have n: "length two_clients < 2 ^ 64 - 1" by (simp add: two_clients_def)
  have "own_answers tr" "mset (made 0 two_clients) = mset (ended (client_trace 0 tr)) + open_calls (sy_clients y 0)"
    using clients_get_own_answers [OF ref_server_facts(1) n r(1)] by blast+
  then show ?thesis using r by (auto simp: two_clients_def)
qed

text \<open>
  C7. A change that a client was told of has happened. A server that was elected, with nothing owed to any client and only commands of earlier leaders
  before it, serves any number of clients, as in \<open>Network\<close>, while what it broadcasts is committed in that order. When a call of a client completes
  with a response, the response answers a request that this call sent; and if that request changes the tree or closes a session
  and the response carries no error, then the leader has run that very request as a command, without an error, and the response is the one it made, with the number of the
  request.
\<close>

theorem acknowledged_ran:
  fixes tr :: "'c sys_effect list"
  assumes "proto_ok (pb (sv_lib srv))" and "sv_state srv = kWaiter" and "sv_loop srv = At_main" and "sv_statech srv = []"
    and "books_ok srv" and "ledger srv = {#}" and "list_all (earlier (times_of is)) (pending srv q)" and "length is < 2 ^ 64 - 1"
    and "sys_run leader_accept leader_step td is (System_new addr (srv, q)) = Some (tr, y)"
    and "At k (Done c st (Some rep)) \<in> set tr"
  shows "\<exists>req. At k (Send c req) \<in> set tr \<and> answer_to tr req rep
    \<and> (changes req \<and> rp_err rep = None \<longrightarrow>
        (\<exists>r. (req, r) \<in> set (sys_ran td is (System_new addr (srv, q))) \<and> rep = r\<lparr>rp_xid := Some (rq_xid req)\<rparr>))"
proof -
  note no = nothing_owed [OF assms(6)]
  have own: "own_answers tr" and dist: "distinct (Rpc_Server.received (served tr))"
    using leader.clients_served [OF _ _ assms(8,9)] assms(5) no(5) by simp_all
  have "sys_ack (times_of is) ([] :: 'c sys_effect list) {} (srv, q)"
    using assms(1-4,7) no by (simp add: sys_ack_def lead_inv_def ack_ok_def answers_backed_def)
  then have ack: "answers_backed tr (set (sys_ran td is (System_new addr (srv, q))))"
    using sys_run_ack [OF _ assms(9), of "times_of is" "[]" "{}"] by (simp add: System_new_def sys_ack_def)
  obtain req where req: "At k (Send c req) \<in> set tr" "answer_to tr req rep" using own_answersD [OF own assms(10)] by blast
  obtain conn e r where e: "Srv (R_receive conn e) \<in> set tr" "ev_Req e = req" "Answer (ev_done e) r \<in> set tr" "rep = r\<lparr>rp_xid := Some (rq_xid req)\<rparr>"
    using req(2) unfolding answer_to_def by blast
  obtain req' where r: "(Suc (ev_done e), req') \<in> taken tr" "changes req' \<and> rp_err r = None \<longrightarrow> (req', r) \<in> set (sys_ran td is (System_new addr (srv, q)))"
    using ack e(3) unfolding answers_backed_def by blast
  obtain conn' e' where e': "Srv (R_receive conn' e') \<in> set tr" "ev_done e' = ev_done e" "ev_Req e' = req'" using r(1) by (auto simp: taken_def)
  have "e' = e" using receive_unique_event [OF dist, of conn' e' conn e] e(1) e'(1,2) by simp
  then have "req' = req" using e(2) e'(3) by simp
  moreover have "rp_err rep = rp_err r" by (simp add: e(4))
  ultimately show ?thesis using req r(2) e(4) by auto
qed

text \<open>A client closes its session: the election, the call, the broadcast, the commit and the response.\<close>

definition ack_start :: "memdb Server" where
  "ack_start = lead_start\<lparr>sv_sm := (SessionManager_new 0 1000)\<lparr>sm_sessions := [(9, Session_new 1 0 9 5000)]\<rparr>\<rparr>"

definition closes :: Request where
  "closes = Request_default\<lparr>rq_sid := Some 9, rq_unregister := True\<rparr>"

definition one_close :: "(string, Env \<times> lead_action) sys_input list" where
  "one_close = [Y_serve 1 (ref_env 4 1, Lead_loop Choose_state), Y_serve 2 (ref_env 5 1, Lead_commit 1),
     Y_serve 3 (ref_env 6 1, Lead_loop Choose_cmd), Y_serve 4 (ref_env 7 1, Lead_loop Choose_cmd),
     Y_up 0, Y_accept 0, Y_client 0 (In_call ''a'' closes), Y_client 0 In_task, Y_request 0 5 ''ip'',
     Y_serve 8 (ref_env 8 1, Lead_loop Choose_event), Y_serve 9 (ref_env 9 1, Lead_commit 2),
     Y_serve 10 (ref_env 10 1, Lead_loop Choose_cmd), Y_reply 0]"

lemma one_close_run:
  "\<exists>tr y rep. sys_run leader_accept leader_step (\<lambda>_ _. 0) one_close (System_new (\<lambda>_. ''h:1'') (ack_start, [])) = Some (tr, y)
     \<and> At 0 (Done ''a'' OK (Some rep)) \<in> set tr \<and> rp_err rep = None \<and> (\<forall>req. At 0 (Send ''a'' req) \<in> set tr \<longrightarrow> changes req)"
  by (simp add: changes_def one_close_def ack_start_def lead_start_def closes_def Request_default_def leader_accept_def leader_step_def lead_act_def
      ref_synced [unfolded ser_def] handleEvent_def push_request_def needBoradcast_def SM_Get_def Session_new_def ResetWatch_def
      onCommand_def run_command_def onUnRegister_def sv_adjust_def SM_adjust_def om_adjust_def Close_def SM_Remove_def removeFromTimers_def
      removeFromSessions_def Store_RemoveSession_def Session_destroy_def ldb_ok_def Response_default_def two_clients_simps)

lemma ack_start_facts:
  "proto_ok (pb (sv_lib ack_start))" "sv_state ack_start = kWaiter" "sv_loop ack_start = At_main" "sv_statech ack_start = []"
  "books_ok ack_start" "ledger ack_start = {#}" "pending ack_start [] = []"
  by (simp_all add: ack_start_def lead_start_def ref_server_facts ref_server_channels ref_pb ref_proto_ok books_ok_def ledger_def held_def
      pending_def Session_new_def map_filter_def om_invar_def)

theorem acknowledged_ran_witness:
  "\<exists>tr y rep req r. sys_run leader_accept leader_step (\<lambda>_ _. 0) one_close (System_new (\<lambda>_. ''h:1'') (ack_start, [])) = Some (tr, y)
     \<and> At 0 (Done ''a'' OK (Some rep)) \<in> set tr \<and> At 0 (Send ''a'' req) \<in> set tr \<and> changes req
     \<and> (req, r) \<in> set (sys_ran (\<lambda>_ _. 0) one_close (System_new (\<lambda>_. ''h:1'') (ack_start, []))) \<and> rep = r\<lparr>rp_xid := Some (rq_xid req)\<rparr>"
proof -
  obtain tr y rep where r: "sys_run leader_accept leader_step (\<lambda>_ _. 0) one_close (System_new (\<lambda>_. ''h:1'') (ack_start, [])) = Some (tr, y)"
    "At 0 (Done ''a'' OK (Some rep)) \<in> set tr" "rp_err rep = None" "\<And>req. At 0 (Send ''a'' req) \<in> set tr \<Longrightarrow> changes req"
    using one_close_run by blast
  have s: "list_all (earlier (times_of one_close)) (pending ack_start [])" "length one_close < 2 ^ 64 - 1"
    by (simp_all add: ack_start_facts one_close_def)
  from acknowledged_ran [OF ack_start_facts(1-6) s r(1,2)] show ?thesis using r by blast
qed

text \<open>
  C8. No call is lost on the way. In every such run, a call that a client has sent and that has not completed is accounted for: the client has a connection, and on it the request has not been read
  by the server yet, or the replica owes its answer (in its channel, waiting for a commit, or a held ping), or the response is on its way back; the only other
  case is that the server has seen that very connection go down.
\<close>

theorem no_call_lost:
  assumes "Server_new env X mx opts db = Some srv0" and "length is < 2 ^ 64"
    and "sys_run replica_accept replica_step td is (System_new addr srv0) = Some (tr, y)"
    and "om_find (cl_pendingCalls (sy_clients y k)) x = Some call"
  shows "\<exists>n. sy_cur y k = Some n \<and> (let c = sy_net y ! n in
      rc_Req call \<in> set (cn_reqs c) \<or> (\<exists>rep \<in> set (cn_reps c). rep_xid rep = x)
      \<or> (\<exists>conn. cn_server c = Some conn \<and> (\<not> rs_lock (sy_server y) conn
           \<or> (\<exists>d info. d \<in># replica_owed (sy_recv y) \<and> om_find (rs_calls (sy_server y)) d = Some (conn, info) \<and> rq_xid (ca_Req info) = x))))"
proof -
  have l: "books_ok srv0" "ledger srv0 = {#}" using Server_new_ledger [OF assms(1)] by simp_all
  then have "replica_owed srv0 = {#}" by (simp add: replica_owed_def ledger_split clients_def)
  then show ?thesis by (rule replica.calls_not_lost [OF l(1) _ assms(2-4)])
qed

lemma two_clients_end:
  "\<exists>tr y call. sys_run replica_accept replica_step (\<lambda>_ _. 0) two_clients (System_new (\<lambda>_. ''h:1'') (ref_server 0)) = Some (tr, y)
     \<and> om_find (cl_pendingCalls (sy_clients y 0)) 0 = Some call \<and> sy_net y = [\<lparr>cn_client = 0, cn_server = Some 1, cn_reqs = [], cn_reps = []\<rparr>,
         \<lparr>cn_client = 1, cn_server = Some 0, cn_reqs = [], cn_reps = []\<rparr>] \<and> sy_cur y 0 = Some 0 \<and> rs_lock (sy_server y) 1"
  by (simp add: two_clients_simps)

theorem no_call_lost_witness:
  "\<exists>tr y d. sys_run replica_accept replica_step (\<lambda>_ _. 0) two_clients (System_new (\<lambda>_. ''h:1'') (ref_server 0)) = Some (tr, y)
     \<and> d \<in># replica_owed (sy_recv y)"
proof -
  obtain tr y call where r: "sys_run replica_accept replica_step (\<lambda>_ _. 0) two_clients (System_new (\<lambda>_. ''h:1'') (ref_server 0)) = Some (tr, y)"
    "om_find (cl_pendingCalls (sy_clients y 0)) 0 = Some call" "sy_net y = [\<lparr>cn_client = 0, cn_server = Some 1, cn_reqs = [], cn_reps = []\<rparr>,
         \<lparr>cn_client = 1, cn_server = Some 0, cn_reqs = [], cn_reps = []\<rparr>]" "sy_cur y 0 = Some 0" "rs_lock (sy_server y) 1"
    using two_clients_end by blast
  have "length two_clients < 2 ^ 64" by (simp add: two_clients_def)
  from no_call_lost [OF ref_server_facts(1) this r(1,2)] show ?thesis using r by auto
qed

end
